(* ===== verification/Prelude.thy ===== *)
theory Prelude
  imports Main "HOL-Library.Word"
begin

section \<open>Shared notions: faults, results, memory and string helpers\<close>

text \<open>
  What every component of the model shares.

  \<^item> \<open>fault\<close> and \<open>res\<close>: the ways a call of the C++ code can fail to return (a failed
    \<open>assert\<close>, \<open>LOG_FATAL\<close> followed by \<open>std::abort\<close>, an access outside an object, a use
    of a freed object or a null pointer, an uncaught exception, a signed overflow), as
    values. \<open>Inr\<close> is a normal return. \<open>and_then\<close> sequences two calls.
  \<^item> \<open>mem_read\<close>, \<open>mem_write\<close>, \<open>std_copy\<close>, \<open>vec_resize\<close>: the library routines
    \<open>std::string(ptr, n)\<close>, \<open>memcpy\<close>, \<open>std::copy\<close> and \<open>vector::resize\<close>, with their
    preconditions as faults.
  \<^item> \<open>std_find\<close>, \<open>std_search\<close>: \<open>std::find\<close> and \<open>std::search\<close>; a position is the offset
    from the start of the range, and the length of the range is its end.
  \<^item> \<open>nat_to_string\<close>: \<open>std::to_string\<close> on non-negative integers.

  The collections \<open>res_simps\<close> (running results) and \<open>invs\<close> (preservation of invariants)
  are filled by the components.
\<close>

named_theorems res_simps "evaluation of results"
named_theorems invs "preservation of component invariants"

subsection \<open>Faults and results\<close>

text \<open>
  How a call can end without returning. \<open>Aborted\<close>: a failed system call behind a name with \<open>OrDie\<close>, or
  another \<open>LOG_FATAL\<close>; \<open>WrongThread\<close>: the \<open>LOG_FATAL\<close> of the checks that a call is made in the thread of
  its loop. Both abort the process.
\<close>

datatype fault =
    AssertionFailed
  | Aborted
  | WrongThread
  | OutOfBounds
  | NullDeref
  | UseAfterFree
  | UncaughtException
  | SignedOverflow
  | StackOverflow

type_synonym 'a res = "fault + 'a"

type_synonym addr = int
type_synonym tid = nat

definition and_then :: "'a res \<Rightarrow> ('a \<Rightarrow> 'b res) \<Rightarrow> 'b res" where
  "and_then m f = (case m of Inl e \<Rightarrow> Inl e | Inr x \<Rightarrow> f x)"

definition assert_that :: "bool \<Rightarrow> unit res" where
  "assert_that b = (if b then Inr () else Inl AssertionFailed)"

definition returns :: "'a res \<Rightarrow> bool" where
  "returns m = (case m of Inl e \<Rightarrow> False | Inr x \<Rightarrow> True)"

text \<open>A call through a \<open>std::function\<close> member that the code tests before it calls it.\<close>

definition call_if_set :: "('s \<Rightarrow> 's res) option \<Rightarrow> 's \<Rightarrow> 's res" where
  "call_if_set cb s = (case cb of None \<Rightarrow> Inr s | Some f \<Rightarrow> f s)"

definition is_set :: "'a option \<Rightarrow> bool" where
  "is_set cb = (case cb of None \<Rightarrow> False | Some f \<Rightarrow> True)"

definition map_res :: "('a \<Rightarrow> 'b) \<Rightarrow> 'a res \<Rightarrow> 'b res" where
  "map_res g m = and_then m (\<lambda>x. Inr (g x))"

text \<open>The same member function called on each argument in turn.\<close>

fun for_each :: "('s \<Rightarrow> 'a \<Rightarrow> 's res) \<Rightarrow> 's \<Rightarrow> 'a list \<Rightarrow> 's res" where
  "for_each f s [] = Inr s"
| "for_each f s (x # xs) = and_then (f s x) (\<lambda>s'. for_each f s' xs)"

lemma and_then_Inr [simp, res_simps]: "and_then (Inr x) f = f x"
  by (simp add: and_then_def)

lemma and_then_Inl [simp, res_simps]: "and_then (Inl e) f = Inl e"
  by (simp add: and_then_def)

lemma and_then_eq_Inr:
  "and_then m f = Inr y \<longleftrightarrow> (\<exists>x. m = Inr x \<and> f x = Inr y)"
  by (cases m) auto

lemma and_then_InrE:
  assumes "and_then m f = Inr y"
  obtains x where "m = Inr x" and "f x = Inr y"
  using assms by (auto simp: and_then_eq_Inr)

lemma and_then_assoc:
  "and_then (and_then m f) g = and_then m (\<lambda>x. and_then (f x) g)"
  by (cases m) auto

lemma map_res_Inr [simp, res_simps]: "map_res g (Inr x) = Inr (g x)"
  by (simp add: map_res_def)

lemma map_res_Inl [simp, res_simps]: "map_res g (Inl e) = Inl e"
  by (simp add: map_res_def)

lemma map_res_eq_Inr: "map_res g m = Inr y \<longleftrightarrow> (\<exists>x. m = Inr x \<and> y = g x)"
  by (cases m) auto

text \<open>Taking apart a run that returned.\<close>

lemmas returned = and_then_eq_Inr map_res_eq_Inr

lemma map_res_and_then: "map_res g (and_then m f) = and_then m (\<lambda>x. map_res g (f x))"
  by (simp add: map_res_def and_then_assoc)

lemma for_each_append:
  "for_each f s (xs @ ys) = and_then (for_each f s xs) (\<lambda>s'. for_each f s' ys)"
  by (induction xs arbitrary: s) (simp_all add: and_then_assoc)

text \<open>An operation that keeps an invariant and returns keeps both over a sequence.\<close>

lemma for_each_inv:
  assumes "\<And>s x. P s \<Longrightarrow> x \<in> set xs \<Longrightarrow> \<exists>s'. f s x = Inr s' \<and> P s'" and "P s"
  shows "\<exists>s'. for_each f s xs = Inr s' \<and> P s'"
  using assms
proof (induction xs arbitrary: s)
  case (Cons x xs)
  from Cons.prems(1) [OF Cons.prems(2), of x] obtain s1
    where s1: "f s x = Inr s1" "P s1" by auto
  have "\<exists>s'. for_each f s1 xs = Inr s' \<and> P s'"
    by (rule Cons.IH [OF Cons.prems(1) s1(2)]) auto
  with s1 show ?case by simp
qed simp

lemma assert_that_True [simp, res_simps]: "assert_that True = Inr ()"
  by (simp add: assert_that_def)

lemma assert_that_False [simp, res_simps]: "assert_that False = Inl AssertionFailed"
  by (simp add: assert_that_def)

lemma assert_that_eq_Inr [simp]: "assert_that b = Inr u \<longleftrightarrow> b"
  by (simp add: assert_that_def)

lemma returns_iff: "returns m \<longleftrightarrow> (\<exists>x. m = Inr x)"
  by (cases m) (auto simp: returns_def)

lemma is_set_simps [simp]: "\<not> is_set None" "is_set (Some f)"
  by (simp_all add: is_set_def)

lemma call_if_set_None [simp, res_simps]: "call_if_set None s = Inr s"
  by (simp add: call_if_set_def)

lemma call_if_set_Some [simp, res_simps]: "call_if_set (Some f) s = f s"
  by (simp add: call_if_set_def)

subsection \<open>Memory ranges of a byte vector\<close>

definition mem_read :: "'a list \<Rightarrow> nat \<Rightarrow> nat \<Rightarrow> 'a list res" where
  "mem_read s i n =
     (if i + n \<le> length s then Inr (take n (drop i s)) else Inl OutOfBounds)"

definition mem_write :: "'a list \<Rightarrow> nat \<Rightarrow> 'a list \<Rightarrow> 'a list res" where
  "mem_write s i xs =
     (if i + length xs \<le> length s
      then Inr (take i s @ xs @ drop (i + length xs) s) else Inl OutOfBounds)"

text \<open>
  \<open>std::copy\<close> of the range from \<open>i\<close> up to \<open>j\<close> to \<open>dest\<close>, inside one vector. The standard
  leaves it undefined when \<open>dest\<close> lies in that range.
\<close>

definition std_copy :: "'a list \<Rightarrow> nat \<Rightarrow> nat \<Rightarrow> nat \<Rightarrow> 'a list res" where
  "std_copy s i j dest =
     (if i \<le> j \<and> j \<le> length s \<and> \<not> (i \<le> dest \<and> dest < j)
      then mem_write s dest (take (j - i) (drop i s))
      else Inl OutOfBounds)"

definition vec_resize :: "'a \<Rightarrow> nat \<Rightarrow> 'a list \<Rightarrow> 'a list" where
  "vec_resize z n s = take n s @ replicate (n - length s) z"

lemma length_vec_resize [simp]: "length (vec_resize z n s) = n"
  by (simp add: vec_resize_def)

lemma mem_read_in_bounds: "i + n \<le> length s \<Longrightarrow> mem_read s i n = Inr (take n (drop i s))"
  by (simp add: mem_read_def)

lemma mem_write_in_bounds:
  "i + length xs \<le> length s \<Longrightarrow>
   mem_write s i xs = Inr (take i s @ xs @ drop (i + length xs) s)"
  by (simp add: mem_write_def)

lemma take_drop_vec_resize:
  "n \<ge> length s \<Longrightarrow> j \<le> length s \<Longrightarrow>
   take (j - i) (drop i (vec_resize z n s)) = take (j - i) (drop i s)"
  by (simp add: vec_resize_def take_drop)

text \<open>Writing behind a range extends the range by what was written.\<close>

lemma slice_extend:
  assumes "a \<le> w" and "w + length xs \<le> length s"
  shows "take (w + length xs - a) (drop a (take w s @ xs @ drop (w + length xs) s))
           = take (w - a) (drop a s) @ xs"
proof -
  have "drop a (take w s @ xs @ drop (w + length xs) s)
          = take (w - a) (drop a s) @ xs @ drop (w + length xs) s"
    using assms by (simp add: drop_take)
  moreover have "w + length xs - a = length (take (w - a) (drop a s) @ xs)"
    using assms by simp
  ultimately show ?thesis by (simp only: append_assoc [symmetric] take_append) simp
qed

subsection \<open>Searching\<close>

definition std_find :: "'a \<Rightarrow> 'a list \<Rightarrow> nat" where
  "std_find c xs = length (takeWhile (\<lambda>x. x \<noteq> c) xs)"

fun is_prefix :: "'a list \<Rightarrow> 'a list \<Rightarrow> bool" where
  "is_prefix [] ys = True"
| "is_prefix (x # xs) [] = False"
| "is_prefix (x # xs) (y # ys) = (x = y \<and> is_prefix xs ys)"

fun std_search :: "'a list \<Rightarrow> 'a list \<Rightarrow> nat" where
  "std_search pat [] = 0"
| "std_search pat (x # xs) =
     (if is_prefix pat (x # xs) then 0 else Suc (std_search pat xs))"

lemma is_prefix_iff: "is_prefix xs ys \<longleftrightarrow> (\<exists>zs. ys = xs @ zs)"
  by (induction xs ys rule: is_prefix.induct) auto

lemma is_prefix_take: "is_prefix xs ys \<longleftrightarrow> take (length xs) ys = xs"
  by (induction xs ys rule: is_prefix.induct) auto

lemma is_prefix_append: "is_prefix xs ys \<Longrightarrow> is_prefix xs (ys @ zs)"
  by (induction xs ys rule: is_prefix.induct) auto

lemma std_find_le: "std_find c xs \<le> length xs"
  by (simp add: std_find_def length_takeWhile_le)

lemma std_find_absent: "std_find c xs = length xs \<longleftrightarrow> c \<notin> set xs"
  by (induction xs) (auto simp: std_find_def)

lemma std_find_append_hit:
  "c \<notin> set xs \<Longrightarrow> std_find c (xs @ c # ys) = length xs"
  unfolding std_find_def by (subst takeWhile_append2) auto

lemma std_find_append_miss:
  "c \<notin> set xs \<Longrightarrow> std_find c (xs @ ys) = length xs + std_find c ys"
  unfolding std_find_def by (subst takeWhile_append2) auto

lemma std_search_le: "std_search pat xs \<le> length xs"
  by (induction pat xs rule: std_search.induct) auto

lemma std_search_hit:
  "std_search pat xs < length xs \<Longrightarrow> is_prefix pat (drop (std_search pat xs) xs)"
  by (induction pat xs rule: std_search.induct) (auto split: if_splits)

lemma std_search_first:
  "i < std_search pat xs \<Longrightarrow> \<not> is_prefix pat (drop i xs)"
proof (induction pat xs arbitrary: i rule: std_search.induct)
  case (2 pat x xs)
  then show ?case by (cases i) (auto split: if_splits)
qed simp

subsection \<open>Decimal strings\<close>

definition digit_char :: "nat \<Rightarrow> char" where
  "digit_char d = char_of (48 + d)"

fun nat_to_string :: "nat \<Rightarrow> string" where
  "nat_to_string n =
     (if n < 10 then [digit_char n]
      else nat_to_string (n div 10) @ [digit_char (n mod 10)])"

declare nat_to_string.simps [simp del]

definition digit_value :: "char \<Rightarrow> nat" where
  "digit_value c = of_char c - 48"

definition is_digit :: "char \<Rightarrow> bool" where
  "is_digit c = (48 \<le> (of_char c :: nat) \<and> (of_char c :: nat) \<le> 57)"

definition string_to_nat :: "string \<Rightarrow> nat" where
  "string_to_nat s = foldl (\<lambda>n c. 10 * n + digit_value c) 0 s"

lemma of_char_digit_char: "d < 10 \<Longrightarrow> (of_char (digit_char d) :: nat) = 48 + d"
  by (simp add: digit_char_def)

lemma digit_value_digit_char: "d < 10 \<Longrightarrow> digit_value (digit_char d) = d"
  by (simp add: digit_value_def of_char_digit_char)

lemma is_digit_digit_char: "d < 10 \<Longrightarrow> is_digit (digit_char d)"
  by (simp add: is_digit_def of_char_digit_char)

lemma digit_chars [simp]:
  "digit_char 0 = CHR ''0''" "digit_char (Suc 0) = CHR ''1''" "digit_char 1 = CHR ''1''"
  "digit_char 2 = CHR ''2''" "digit_char (Suc (Suc 0)) = CHR ''2''" "digit_char 3 = CHR ''3''"
  "digit_char 4 = CHR ''4''" "digit_char 5 = CHR ''5''" "digit_char 6 = CHR ''6''"
  "digit_char 7 = CHR ''7''" "digit_char 8 = CHR ''8''" "digit_char 9 = CHR ''9''"
  by (code_simp+)

lemma string_to_nat_to_string: "string_to_nat (nat_to_string n) = n"
proof (induction n rule: nat_to_string.induct)
  case (1 n)
  show ?case
  proof (cases "n < 10")
    case True
    then show ?thesis
      by (simp add: nat_to_string.simps [of n] string_to_nat_def digit_value_digit_char)
  next
    case False
    with 1 have "string_to_nat (nat_to_string (n div 10)) = n div 10" by simp
    with False show ?thesis
      by (simp add: nat_to_string.simps [of n] string_to_nat_def digit_value_digit_char)
  qed
qed

lemma nat_to_string_inj: "nat_to_string m = nat_to_string n \<Longrightarrow> m = n"
  using string_to_nat_to_string by metis

lemma nat_to_string_inject: "nat_to_string m = nat_to_string n \<longleftrightarrow> m = n"
  by (metis string_to_nat_to_string)

lemma nat_to_string_digits: "list_all is_digit (nat_to_string n)"
proof (induction n rule: nat_to_string.induct)
  case (1 n)
  then show ?case
    by (subst nat_to_string.simps) (auto simp: is_digit_digit_char)
qed

lemma nat_to_string_nonempty: "nat_to_string n \<noteq> []"
  by (subst nat_to_string.simps) simp

subsection \<open>Calls that keep an invariant\<close>

text \<open>
  The contract of an object whose public calls keep its invariant and fail, if at all, only
  with faults of an expected kind: then every sequence of calls does. Components whose user
  callbacks may make any sequence of calls rely on it.
\<close>

locale safe_calls =
  fixes call :: "'s \<Rightarrow> 'c \<Rightarrow> 's res"
    and inv :: "'s \<Rightarrow> bool"
    and expected :: "fault \<Rightarrow> bool"
  assumes safe: "inv s \<Longrightarrow> case call s c of Inr s' \<Rightarrow> inv s' | Inl e \<Rightarrow> expected e"
begin

lemma call_inv: "inv s \<Longrightarrow> call s c = Inr s' \<Longrightarrow> inv s'"
  using safe [of s c] by simp

lemma call_fault: "inv s \<Longrightarrow> call s c = Inl e \<Longrightarrow> expected e"
  using safe [of s c] by simp

lemma calls_safe: "inv s \<Longrightarrow> case for_each call s cs of Inr s' \<Rightarrow> inv s' | Inl e \<Rightarrow> expected e"
proof (induction cs arbitrary: s)
  case (Cons c cs)
  show ?case
  proof (cases "call s c")
    case (Inl e)
    with call_fault [OF Cons.prems] show ?thesis by simp
  next
    case (Inr s')
    with Cons.IH [OF call_inv [OF Cons.prems Inr]] show ?thesis by simp
  qed
qed simp

lemma calls_inv: "inv s \<Longrightarrow> for_each call s cs = Inr s' \<Longrightarrow> inv s'"
  using calls_safe [of s cs] by simp

lemma calls_fault: "inv s \<Longrightarrow> for_each call s cs = Inl e \<Longrightarrow> expected e"
  using calls_safe [of s cs] by simp

end

end
