(* ===== verification/Buffers.thy ===== *)
theory Buffers
  imports Prelude
begin

section \<open>Buffer: the network buffer (src/net/buffer.cpp, include/agora/net/buffer.h)\<close>

text \<open>
  The class \<open>Buffer\<close>: a byte vector \<open>buffer_\<close> (here \<open>storage\<close>) with a read and a write
  index. The readable bytes are the range between the indices; \<open>Buffer_content\<close> is that
  range. Every routine that touches memory is written with its bounds, so an access
  outside the vector is the fault \<open>OutOfBounds\<close>; the lemmas show that no operation of a
  well-formed buffer faults. The locale \<open>byte_queue\<close> is the contract the clients
  (connections, the HTTP parser, the HTTP response) use.
\<close>

record buffer =
  storage :: "char list"
  readerIndex :: nat
  writerIndex :: nat

definition kCheapPrepend :: nat where
  "kCheapPrepend = 8"

definition kInitialSize :: nat where
  "kInitialSize = 1024"

definition Buffer_new :: buffer where
  "Buffer_new = \<lparr>storage = replicate (kCheapPrepend + kInitialSize) (CHR 0x00),
                 readerIndex = kCheapPrepend, writerIndex = kCheapPrepend\<rparr>"

definition Buffer_readableBytes :: "buffer \<Rightarrow> nat" where
  "Buffer_readableBytes b = writerIndex b - readerIndex b"

definition Buffer_writableBytes :: "buffer \<Rightarrow> nat" where
  "Buffer_writableBytes b = length (storage b) - writerIndex b"

definition Buffer_prependableBytes :: "buffer \<Rightarrow> nat" where
  "Buffer_prependableBytes b = readerIndex b"

text \<open>The bytes from \<open>peek()\<close> on, \<open>readableBytes()\<close> of them.\<close>

definition Buffer_content :: "buffer \<Rightarrow> char list" where
  "Buffer_content b = take (Buffer_readableBytes b) (drop (readerIndex b) (storage b))"

definition Buffer_retrieveAll :: "buffer \<Rightarrow> buffer" where
  "Buffer_retrieveAll b = b\<lparr>readerIndex := kCheapPrepend, writerIndex := kCheapPrepend\<rparr>"

definition Buffer_retrieve :: "buffer \<Rightarrow> nat \<Rightarrow> buffer" where
  "Buffer_retrieve b len =
     (if len < Buffer_readableBytes b then b\<lparr>readerIndex := readerIndex b + len\<rparr>
      else Buffer_retrieveAll b)"

definition Buffer_retrieveAsString :: "buffer \<Rightarrow> nat \<Rightarrow> (string \<times> buffer) res" where
  "Buffer_retrieveAsString b len =
     and_then (assert_that (len \<le> Buffer_readableBytes b)) (\<lambda>_.
     and_then (mem_read (storage b) (readerIndex b) len) (\<lambda>result.
     Inr (result, Buffer_retrieve b len)))"

definition Buffer_retrieveAllAsString :: "buffer \<Rightarrow> (string \<times> buffer) res" where
  "Buffer_retrieveAllAsString b = Buffer_retrieveAsString b (Buffer_readableBytes b)"

definition Buffer_makeSpace :: "buffer \<Rightarrow> nat \<Rightarrow> buffer res" where
  "Buffer_makeSpace b len =
     (if Buffer_prependableBytes b + Buffer_writableBytes b < len + kCheapPrepend
      then Inr (b\<lparr>storage := vec_resize (CHR 0x00) (writerIndex b + len) (storage b)\<rparr>)
      else (let readable = Buffer_readableBytes b
            in and_then (std_copy (storage b) (readerIndex b) (writerIndex b) kCheapPrepend)
                 (\<lambda>s. Inr (b\<lparr>storage := s, readerIndex := kCheapPrepend,
                             writerIndex := kCheapPrepend + readable\<rparr>))))"

definition Buffer_ensureWritableBytes :: "buffer \<Rightarrow> nat \<Rightarrow> buffer res" where
  "Buffer_ensureWritableBytes b len =
     (if Buffer_writableBytes b < len then Buffer_makeSpace b len else Inr b)"

definition Buffer_append :: "buffer \<Rightarrow> char list \<Rightarrow> buffer res" where
  "Buffer_append b xs =
     and_then (Buffer_ensureWritableBytes b (length xs)) (\<lambda>b.
     and_then (mem_write (storage b) (writerIndex b) xs) (\<lambda>s.
     Inr (b\<lparr>storage := s, writerIndex := writerIndex b + length xs\<rparr>)))"

text \<open>
  \<open>readFd\<close> reads with one \<open>readv\<close> into the writable tail and a 64 KiB stack buffer. The
  kernel's answer is a parameter: an error number, or the bytes it has for the caller, of
  which \<open>readv\<close> delivers no more than the vectors hold.
\<close>

datatype readv_result = ReadData "char list" | ReadErr nat

definition kExtrabufSize :: nat where
  "kExtrabufSize = 65536"

definition Buffer_readCapacity :: "buffer \<Rightarrow> nat" where
  "Buffer_readCapacity b =
     (let writable = Buffer_writableBytes b
      in if writable < kExtrabufSize then writable + kExtrabufSize else writable)"

text \<open>The result: the return value \<open>n\<close>, the stored \<open>errno\<close> if any, the buffer.\<close>

fun Buffer_readFd :: "buffer \<Rightarrow> readv_result \<Rightarrow> (int \<times> nat option \<times> buffer) res" where
  "Buffer_readFd b (ReadErr e) = Inr (-1, Some e, b)"
| "Buffer_readFd b (ReadData avail) =
     (let writable = Buffer_writableBytes b;
          bytes = take (Buffer_readCapacity b) avail;
          vec0 = take writable bytes;
          extrabuf = drop writable bytes;
          n = length bytes
      in and_then (mem_write (storage b) (writerIndex b) vec0) (\<lambda>s.
         if n \<le> writable then Inr (int n, None, b\<lparr>storage := s, writerIndex := writerIndex b + n\<rparr>)
         else and_then (Buffer_append (b\<lparr>storage := s, writerIndex := length s\<rparr>) extrabuf)
                (\<lambda>b'. Inr (int n, None, b'))))"

text \<open>\<open>writeFd\<close> hands the readable range to \<open>write\<close>; it does not move the indices.\<close>

definition Buffer_writeFd :: "buffer \<Rightarrow> char list res" where
  "Buffer_writeFd b = mem_read (storage b) (readerIndex b) (Buffer_readableBytes b)"

definition kCRLF :: string where
  "kCRLF = [CHR 0x0D, CHR 0x0A]"

text \<open>The offset of the first CR LF from \<open>peek()\<close>, \<open>None\<close> for the null pointer.\<close>

definition Buffer_findCRLF :: "buffer \<Rightarrow> nat option" where
  "Buffer_findCRLF b =
     (let crlf = std_search kCRLF (Buffer_content b)
      in if crlf = Buffer_readableBytes b then None else Some crlf)"

text \<open>\<open>retrieveUntil(end)\<close>, with \<open>end\<close> given as its offset from \<open>peek()\<close>.\<close>

definition Buffer_retrieveUntil :: "buffer \<Rightarrow> nat \<Rightarrow> buffer" where
  "Buffer_retrieveUntil b off = Buffer_retrieve b off"

subsection \<open>Invariant\<close>

definition Buffer_inv :: "buffer \<Rightarrow> bool" where
  "Buffer_inv b \<longleftrightarrow>
     kCheapPrepend \<le> readerIndex b \<and> readerIndex b \<le> writerIndex b \<and>
     writerIndex b \<le> length (storage b)"

lemmas Buffer_size_defs =
  Buffer_readableBytes_def Buffer_writableBytes_def Buffer_prependableBytes_def

lemma Buffer_new_inv [simp, invs]: "Buffer_inv Buffer_new"
  by (simp add: Buffer_inv_def Buffer_new_def)

lemma Buffer_new_content [simp]: "Buffer_content Buffer_new = []"
  by (simp add: Buffer_content_def Buffer_new_def Buffer_size_defs)

lemma length_Buffer_content [simp]:
  "Buffer_inv b \<Longrightarrow> length (Buffer_content b) = Buffer_readableBytes b"
  by (auto simp: Buffer_inv_def Buffer_content_def Buffer_size_defs min_def)

lemma Buffer_retrieveAll_inv [simp, invs]: "Buffer_inv b \<Longrightarrow> Buffer_inv (Buffer_retrieveAll b)"
  by (simp add: Buffer_inv_def Buffer_retrieveAll_def)

lemma Buffer_retrieveAll_content [simp]: "Buffer_content (Buffer_retrieveAll b) = []"
  by (simp add: Buffer_content_def Buffer_retrieveAll_def Buffer_size_defs)

lemma Buffer_retrieve_inv [simp, invs]: "Buffer_inv b \<Longrightarrow> Buffer_inv (Buffer_retrieve b n)"
  by (auto simp: Buffer_retrieve_def)
    (auto simp: Buffer_inv_def Buffer_size_defs)

lemma Buffer_retrieve_content [simp]:
  assumes "Buffer_inv b"
  shows "Buffer_content (Buffer_retrieve b n) = drop n (Buffer_content b)"
proof (cases "n < Buffer_readableBytes b")
  case True
  then show ?thesis
    by (simp add: Buffer_retrieve_def Buffer_content_def Buffer_size_defs drop_take add.commute
        diff_diff_eq)
next
  case False
  with assms show ?thesis by (simp add: Buffer_retrieve_def)
qed

lemma Buffer_retrieveAsString_eq:
  assumes "Buffer_inv b" and "n \<le> Buffer_readableBytes b"
  shows "Buffer_retrieveAsString b n = Inr (take n (Buffer_content b), Buffer_retrieve b n)"
proof -
  have "readerIndex b + n \<le> length (storage b)"
    using assms by (auto simp: Buffer_inv_def Buffer_size_defs)
  with assms show ?thesis
    by (simp add: Buffer_retrieveAsString_def mem_read_in_bounds Buffer_content_def min_def)
qed

lemma Buffer_writeFd_eq: "Buffer_inv b \<Longrightarrow> Buffer_writeFd b = Inr (Buffer_content b)"
  by (simp add: Buffer_writeFd_def Buffer_content_def mem_read_def Buffer_inv_def Buffer_size_defs)

subsection \<open>Making room\<close>

lemma makeSpace_grow:
  assumes inv: "Buffer_inv b"
    and small: "Buffer_prependableBytes b + Buffer_writableBytes b < n + kCheapPrepend"
  obtains b' where "Buffer_makeSpace b n = Inr b'" and "Buffer_inv b'"
    and "Buffer_content b' = Buffer_content b" and "Buffer_writableBytes b' = n"
proof -
  let ?b = "b\<lparr>storage := vec_resize (CHR 0x00) (writerIndex b + n) (storage b)\<rparr>"
  have grow: "length (storage b) \<le> writerIndex b + n"
    using inv small by (auto simp: Buffer_inv_def Buffer_size_defs)
  show ?thesis
  proof (rule that [of ?b])
    show "Buffer_makeSpace b n = Inr ?b" using small by (simp add: Buffer_makeSpace_def)
    show "Buffer_inv ?b" using inv by (simp add: Buffer_inv_def)
    show "Buffer_content ?b = Buffer_content b"
      using inv grow by (simp add: Buffer_content_def Buffer_size_defs Buffer_inv_def
          take_drop_vec_resize)
    show "Buffer_writableBytes ?b = n" by (simp add: Buffer_size_defs)
  qed
qed

lemma makeSpace_compact:
  assumes inv: "Buffer_inv b" and need: "Buffer_writableBytes b < n"
    and room: "\<not> Buffer_prependableBytes b + Buffer_writableBytes b < n + kCheapPrepend"
  obtains b' where "Buffer_makeSpace b n = Inr b'" and "Buffer_inv b'"
    and "Buffer_content b' = Buffer_content b" and "n \<le> Buffer_writableBytes b'"
proof -
  let ?r = "Buffer_readableBytes b" and ?k = kCheapPrepend
  let ?s = "take ?k (storage b) @ Buffer_content b @ drop (?k + ?r) (storage b)"
  let ?b = "b\<lparr>storage := ?s, readerIndex := ?k, writerIndex := ?k + ?r\<rparr>"
  have bounds: "?k < readerIndex b" "readerIndex b \<le> writerIndex b"
    "writerIndex b \<le> length (storage b)" "?k + ?r \<le> length (storage b)"
    using inv need room by (auto simp: Buffer_inv_def Buffer_size_defs)
  have len: "length (Buffer_content b) = ?r" using inv by simp
  have copy: "std_copy (storage b) (readerIndex b) (writerIndex b) ?k = Inr ?s"
    using bounds len by (simp add: std_copy_def mem_write_def Buffer_content_def
        Buffer_size_defs)
  show ?thesis
  proof (rule that [of ?b])
    show "Buffer_makeSpace b n = Inr ?b"
      using room copy by (simp add: Buffer_makeSpace_def)
    show "Buffer_inv ?b" using bounds len by (simp add: Buffer_inv_def)
    show "Buffer_content ?b = Buffer_content b"
      using bounds len by (simp add: Buffer_content_def [of ?b] Buffer_readableBytes_def [of ?b])
    show "n \<le> Buffer_writableBytes ?b"
      using bounds len room by (simp add: Buffer_size_defs)
  qed
qed

lemma Buffer_ensureWritableBytes_ok:
  assumes "Buffer_inv b"
  obtains b' where "Buffer_ensureWritableBytes b n = Inr b'" and "Buffer_inv b'"
    and "Buffer_content b' = Buffer_content b" and "n \<le> Buffer_writableBytes b'"
proof (cases "Buffer_writableBytes b < n")
  case True
  show ?thesis
  proof (cases "Buffer_prependableBytes b + Buffer_writableBytes b < n + kCheapPrepend")
    case small: True
    obtain b' where "Buffer_makeSpace b n = Inr b'" "Buffer_inv b'"
      "Buffer_content b' = Buffer_content b" "Buffer_writableBytes b' = n"
      using makeSpace_grow [OF assms small] .
    with True show ?thesis by (intro that [of b']) (simp_all add: Buffer_ensureWritableBytes_def)
  next
    case room: False
    obtain b' where "Buffer_makeSpace b n = Inr b'" "Buffer_inv b'"
      "Buffer_content b' = Buffer_content b" "n \<le> Buffer_writableBytes b'"
      using makeSpace_compact [OF assms True room] .
    with True show ?thesis by (intro that [of b']) (simp_all add: Buffer_ensureWritableBytes_def)
  qed
next
  case False
  with assms show ?thesis by (intro that [of b]) (simp_all add: Buffer_ensureWritableBytes_def)
qed

subsection \<open>Appending and reading\<close>

lemma Buffer_append_ok:
  assumes "Buffer_inv b"
  obtains b' where "Buffer_append b xs = Inr b'" and "Buffer_inv b'"
    and "Buffer_content b' = Buffer_content b @ xs"
proof -
  obtain c where c: "Buffer_ensureWritableBytes b (length xs) = Inr c" "Buffer_inv c"
    "Buffer_content c = Buffer_content b" "length xs \<le> Buffer_writableBytes c"
    using Buffer_ensureWritableBytes_ok [OF assms] .
  let ?w = "writerIndex c"
  let ?b = "c\<lparr>storage := take ?w (storage c) @ xs @ drop (?w + length xs) (storage c),
              writerIndex := ?w + length xs\<rparr>"
  have room: "?w + length xs \<le> length (storage c)" and le: "readerIndex c \<le> ?w"
    using c(2,4) by (auto simp: Buffer_inv_def Buffer_size_defs)
  show ?thesis
  proof (rule that [of ?b])
    show "Buffer_append b xs = Inr ?b"
      using c room by (simp add: Buffer_append_def mem_write_in_bounds)
    show "Buffer_inv ?b" using c(2) room by (simp add: Buffer_inv_def)
    show "Buffer_content ?b = Buffer_content b @ xs"
      using slice_extend [OF le room]
      by (simp add: c(3) [symmetric] Buffer_content_def [of ?b] Buffer_content_def [of c]
          Buffer_readableBytes_def)
  qed
qed

lemma Buffer_readFd_data:
  assumes "Buffer_inv b"
  obtains b' where
    "Buffer_readFd b (ReadData avail) =
       Inr (int (length (take (Buffer_readCapacity b) avail)), None, b')"
    and "Buffer_inv b'"
    and "Buffer_content b' = Buffer_content b @ take (Buffer_readCapacity b) avail"
proof -
  let ?w = "writerIndex b" and ?room = "Buffer_writableBytes b"
  let ?xs = "take (Buffer_readCapacity b) avail"
  let ?v = "take ?room ?xs"
  let ?s = "take ?w (storage b) @ ?v @ drop (?w + length ?v) (storage b)"
  have bnd: "?w + length ?v \<le> length (storage b)" "readerIndex b \<le> ?w"
    "kCheapPrepend \<le> readerIndex b" "?w \<le> length (storage b)"
    using assms by (auto simp: Buffer_inv_def Buffer_size_defs)
  have ls: "length ?s = length (storage b)" using bnd by auto
  have wr: "mem_write (storage b) ?w ?v = Inr ?s"
    by (rule mem_write_in_bounds) (rule bnd(1))
  let ?c = "b\<lparr>storage := ?s, writerIndex := ?w + length ?v\<rparr>"
  have invc: "Buffer_inv ?c"
    unfolding Buffer_inv_def using bnd ls by (simp del: length_append length_take length_drop)
  have cont: "Buffer_content ?c = Buffer_content b @ ?v"
    using slice_extend [OF bnd(2,1)]
    by (simp add: Buffer_content_def Buffer_readableBytes_def)
  show ?thesis
  proof (cases "length ?xs \<le> ?room")
    case True
    then have v: "?v = ?xs" by (rule take_all)
    have "Buffer_readFd b (ReadData avail) = Inr (int (length ?xs), None, ?c)"
      using True wr by (simp add: Let_def v del: take_take length_take)
    then show ?thesis using invc cont unfolding v by (rule that)
  next
    case False
    then have full: "?w + length ?v = length ?s"
      using bnd by (simp add: Buffer_size_defs)
    obtain b' where b': "Buffer_append ?c (drop ?room ?xs) = Inr b'" "Buffer_inv b'"
      "Buffer_content b' = Buffer_content ?c @ drop ?room ?xs"
      using Buffer_append_ok [OF invc] .
    have c: "b\<lparr>storage := ?s, writerIndex := length ?s\<rparr> = ?c"
      by (simp only: full [symmetric])
    have "Buffer_readFd b (ReadData avail) = Inr (int (length ?xs), None, b')"
      by (simp only: Buffer_readFd.simps Let_def wr and_then_Inr False if_False c b'(1))
    moreover have "Buffer_content b' = Buffer_content b @ ?xs"
      using b'(3) unfolding cont by (simp only: append_assoc append_take_drop_id)
    ultimately show ?thesis using b'(2) by (intro that)
  qed
qed

subsection \<open>The contract of a byte queue\<close>

text \<open>
  What the connections and the HTTP code rely on: \<open>put\<close> (\<open>append\<close>) never faults and adds at
  the back, \<open>drop_front\<close> (\<open>retrieve\<close>) removes from the front, nothing else changes.
\<close>

locale byte_queue =
  fixes empty :: "'b"
    and put :: "'b \<Rightarrow> char list \<Rightarrow> 'b res"
    and drop_front :: "'b \<Rightarrow> nat \<Rightarrow> 'b"
    and view :: "'b \<Rightarrow> char list"
    and inv :: "'b \<Rightarrow> bool"
  assumes inv_empty: "inv empty"
    and view_empty: "view empty = []"
    and put_ok: "inv b \<Longrightarrow> \<exists>b'. put b xs = Inr b' \<and> inv b' \<and> view b' = view b @ xs"
    and inv_drop: "inv b \<Longrightarrow> inv (drop_front b n)"
    and view_drop: "inv b \<Longrightarrow> view (drop_front b n) = drop n (view b)"
begin

lemma putD: "inv b \<Longrightarrow> put b xs = Inr b' \<Longrightarrow> inv b' \<and> view b' = view b @ xs"
  using put_ok [of b xs] by auto

lemma put_all_ok:
  "inv b \<Longrightarrow> \<exists>b'. for_each put b xss = Inr b' \<and> inv b' \<and> view b' = view b @ concat xss"
proof (induction xss arbitrary: b)
  case (Cons xs xss)
  obtain b1 where b1: "put b xs = Inr b1" "inv b1" "view b1 = view b @ xs"
    using put_ok [OF Cons.prems] by blast
  with Cons.IH [OF b1(2)] show ?case by auto
qed simp

lemma put_all_empty: "\<exists>b'. for_each put empty xss = Inr b' \<and> inv b' \<and> view b' = concat xss"
  using put_all_ok [OF inv_empty, of xss] by (simp add: view_empty)

lemma put_then_drop:
  "inv b \<Longrightarrow> \<exists>b'. put b xs = Inr b' \<and> view (drop_front b' (length (view b))) = xs"
  using put_ok [of b xs] by (auto simp: view_drop)

end

interpretation bq: byte_queue Buffer_new Buffer_append Buffer_retrieve Buffer_content Buffer_inv
proof unfold_locales
  fix b xs assume "Buffer_inv b"
  then show "\<exists>b'. Buffer_append b xs = Inr b' \<and> Buffer_inv b' \<and>
               Buffer_content b' = Buffer_content b @ xs"
    using Buffer_append_ok by metis
qed simp_all

subsection \<open>Any sequence of operations refines a plain list\<close>

text \<open>
  The public operations on one buffer, and the same operations on the list of readable
  bytes: the specification a client may keep in mind. Each step returns what the C++ call
  returns (the string read, empty for the others).
\<close>

datatype buf_op =
    OpAppend "char list"
  | OpRetrieve nat
  | OpRetrieveAll
  | OpRetrieveAsString nat
  | OpRetrieveAllAsString
  | OpEnsureWritable nat

fun Buffer_step :: "buffer \<Rightarrow> buf_op \<Rightarrow> (string \<times> buffer) res" where
  "Buffer_step b (OpAppend xs) = map_res (Pair []) (Buffer_append b xs)"
| "Buffer_step b (OpRetrieve n) = Inr ([], Buffer_retrieve b n)"
| "Buffer_step b OpRetrieveAll = Inr ([], Buffer_retrieveAll b)"
| "Buffer_step b (OpRetrieveAsString n) = Buffer_retrieveAsString b n"
| "Buffer_step b OpRetrieveAllAsString = Buffer_retrieveAllAsString b"
| "Buffer_step b (OpEnsureWritable n) = map_res (Pair []) (Buffer_ensureWritableBytes b n)"

fun queue_step :: "char list \<Rightarrow> buf_op \<Rightarrow> (string \<times> char list) res" where
  "queue_step q (OpAppend xs) = Inr ([], q @ xs)"
| "queue_step q (OpRetrieve n) = Inr ([], drop n q)"
| "queue_step q OpRetrieveAll = Inr ([], [])"
| "queue_step q (OpRetrieveAsString n) =
     (if n \<le> length q then Inr (take n q, drop n q) else Inl AssertionFailed)"
| "queue_step q OpRetrieveAllAsString = Inr (q, [])"
| "queue_step q (OpEnsureWritable n) = Inr ([], q)"

fun run_ops :: "('s \<Rightarrow> buf_op \<Rightarrow> (string \<times> 's) res) \<Rightarrow> 's \<Rightarrow> buf_op list \<Rightarrow> (string list \<times> 's) res" where
  "run_ops step s [] = Inr ([], s)"
| "run_ops step s (x # xs) =
     and_then (step s x) (\<lambda>(out, s'). map_res (\<lambda>(outs, s''). (out # outs, s'')) (run_ops step s' xs))"

lemma Buffer_step_refines:
  assumes "Buffer_inv b"
  shows "map_res (\<lambda>(out, b'). (out, Buffer_content b')) (Buffer_step b x) =
           queue_step (Buffer_content b) x"
    and "Buffer_step b x = Inr (out, b') \<Longrightarrow> Buffer_inv b'"
proof -
  have "map_res (\<lambda>(out, b'). (out, Buffer_content b')) (Buffer_step b x) =
           queue_step (Buffer_content b) x \<and>
        (\<forall>out b'. Buffer_step b x = Inr (out, b') \<longrightarrow> Buffer_inv b')"
  proof (cases x)
    case (OpAppend xs)
    with assms show ?thesis using bq.put_ok [OF assms, of xs] by auto
  next
    case (OpRetrieveAsString n)
    with assms show ?thesis
      by (cases "n \<le> Buffer_readableBytes b")
        (auto simp: Buffer_retrieveAsString_eq, auto simp: Buffer_retrieveAsString_def)
  next
    case (OpEnsureWritable n)
    obtain b' where "Buffer_ensureWritableBytes b n = Inr b'" "Buffer_inv b'"
      "Buffer_content b' = Buffer_content b"
      using Buffer_ensureWritableBytes_ok [OF assms] by metis
    with OpEnsureWritable show ?thesis by simp
  qed (use assms in \<open>auto simp: Buffer_retrieveAllAsString_def Buffer_retrieveAsString_eq\<close>)
  then show "map_res (\<lambda>(out, b'). (out, Buffer_content b')) (Buffer_step b x) =
           queue_step (Buffer_content b) x"
    and "Buffer_step b x = Inr (out, b') \<Longrightarrow> Buffer_inv b'" by blast+
qed

lemma Buffer_run_refines:
  "Buffer_inv b \<Longrightarrow>
   map_res (\<lambda>(outs, b'). (outs, Buffer_content b')) (run_ops Buffer_step b ops) =
     run_ops queue_step (Buffer_content b) ops"
proof (induction ops arbitrary: b)
  case (Cons x ops)
  show ?case
  proof (cases "Buffer_step b x")
    case (Inl e)
    with Buffer_step_refines(1) [OF Cons.prems, of x, symmetric] show ?thesis by simp
  next
    case (Inr r)
    obtain out b1 where r: "r = (out, b1)" by (cases r)
    note b1 = Buffer_step_refines(2) [OF Cons.prems Inr [unfolded r]]
    have q: "queue_step (Buffer_content b) x = Inr (out, Buffer_content b1)"
      using Buffer_step_refines(1) [OF Cons.prems, of x] Inr r by simp
    show ?thesis
      using Cons.IH [OF b1, symmetric] Inr r q
      by (cases "run_ops Buffer_step b1 ops") (auto simp: split_beta)
  qed
qed simp

subsection \<open>Finding the end of a line\<close>

lemma Buffer_findCRLF_content:
  "Buffer_inv b \<Longrightarrow>
   Buffer_findCRLF b =
     (let i = std_search kCRLF (Buffer_content b)
      in if i < length (Buffer_content b) then Some i else None)"
  using std_search_le [of kCRLF "Buffer_content b"]
  by (auto simp: Buffer_findCRLF_def Let_def)

lemma no_crlf_iff:
  "std_search kCRLF xs = length xs \<longleftrightarrow> (\<forall>i. \<not> is_prefix kCRLF (drop i xs))"
proof
  assume s: "std_search kCRLF xs = length xs"
  show "\<forall>i. \<not> is_prefix kCRLF (drop i xs)"
  proof
    fix i
    show "\<not> is_prefix kCRLF (drop i xs)"
    proof (cases "i < length xs")
      case True
      with s show ?thesis using std_search_first [of i kCRLF xs] by simp
    next
      case False
      then show ?thesis by (simp add: kCRLF_def)
    qed
  qed
next
  assume "\<forall>i. \<not> is_prefix kCRLF (drop i xs)"
  then show "std_search kCRLF xs = length xs"
    using std_search_hit [of kCRLF xs] std_search_le [of kCRLF xs] by fastforce
qed

lemma Buffer_findCRLF_cases:
  assumes "Buffer_inv b"
  shows "case Buffer_findCRLF b of
           None \<Rightarrow> \<forall>i. \<not> is_prefix kCRLF (drop i (Buffer_content b))
         | Some i \<Rightarrow> is_prefix kCRLF (drop i (Buffer_content b)) \<and>
                     (\<forall>j < i. \<not> is_prefix kCRLF (drop j (Buffer_content b)))"
proof (cases "std_search kCRLF (Buffer_content b) < length (Buffer_content b)")
  case True
  with assms show ?thesis
    by (simp add: Buffer_findCRLF_content std_search_hit std_search_first Let_def)
next
  case False
  then have "std_search kCRLF (Buffer_content b) = length (Buffer_content b)"
    using std_search_le [of kCRLF "Buffer_content b"] by simp
  then have "\<forall>i. \<not> is_prefix kCRLF (drop i (Buffer_content b))"
    by (rule no_crlf_iff [THEN iffD1])
  moreover have "Buffer_findCRLF b = None"
    using False assms by (simp add: Buffer_findCRLF_content Let_def)
  ultimately show ?thesis by simp
qed

text \<open>A line without CR: the search ends at its end.\<close>

abbreviation CR :: char where "CR \<equiv> CHR 0x0D"

lemma search_crlf_line: "CR \<notin> set l \<Longrightarrow> std_search kCRLF (l @ kCRLF @ rest) = length l"
  by (induction l) (auto simp: kCRLF_def)

lemma search_crlf_lt: "std_search kCRLF xs < length xs \<Longrightarrow> std_search kCRLF xs + 2 \<le> length xs"
proof -
  assume "std_search kCRLF xs < length xs"
  from std_search_hit [OF this] obtain zs where
    z: "drop (std_search kCRLF xs) xs = kCRLF @ zs" by (auto simp: is_prefix_iff)
  have "length xs - std_search kCRLF xs = length (kCRLF @ zs)"
    unfolding z [symmetric] by simp
  then show ?thesis by (simp add: kCRLF_def)
qed

lemma is_prefix_append_long:
  "is_prefix pat (xs @ ys) \<Longrightarrow> length pat \<le> length xs \<Longrightarrow> is_prefix pat xs"
  by (induction pat xs rule: is_prefix.induct) auto

text \<open>A match found in a prefix of the input is still the first one in the whole input.\<close>

lemma search_crlf_append:
  "std_search kCRLF a < length a \<Longrightarrow> std_search kCRLF (a @ b) = std_search kCRLF a"
proof (induction a)
  case (Cons x xs)
  show ?case
  proof (cases "is_prefix kCRLF (x # xs)")
    case True
    then show ?thesis using is_prefix_append [OF True, of b] by simp
  next
    case False
    with Cons.prems have hit: "std_search kCRLF xs < length xs" by simp
    with search_crlf_lt [OF hit] have "length kCRLF \<le> length (x # xs)"
      by (simp add: kCRLF_def)
    with False have "\<not> is_prefix kCRLF (x # xs @ b)"
      using is_prefix_append_long [of kCRLF "x # xs" b] by auto
    with False Cons.IH [OF hit] show ?thesis by simp
  qed
qed simp

subsection \<open>Properties\<close>

text \<open>
  C12: Every sequence of appends, retrieves, string reads and reservations on a well-formed
  buffer behaves as on the plain list of its readable bytes: it returns the same strings,
  leaves the same bytes, and fails (with the same failed assertion) exactly when the list
  operation does. In particular no access leaves the vector, whatever the indices are.
\<close>

theorem buffer_refines_queue:
  assumes "Buffer_inv b"
  shows "map_res (\<lambda>(outs, b'). (outs, Buffer_content b')) (run_ops Buffer_step b ops) =
           run_ops queue_step (Buffer_content b) ops"
  by (rule Buffer_run_refines [OF assms])

theorem buffer_refines_queue_witness:
  "map_res (\<lambda>(outs, b'). (outs, Buffer_content b'))
     (run_ops Buffer_step Buffer_new
        [OpAppend ''abc'', OpRetrieveAsString 2, OpAppend ''de'', OpRetrieveAllAsString])
     = Inr ([[], ''ab'', [], ''cde''], [])"
  by (subst buffer_refines_queue [OF Buffer_new_inv]) simp

text \<open>
  \<open>ensureWritableBytes(n)\<close> on a well-formed buffer returns (neither branch of
  \<open>makeSpace\<close> copies outside the vector or onto its own source range), keeps the readable
  bytes and the invariant, and leaves room for \<open>n\<close> bytes; it never shrinks the vector.
\<close>

lemma ensureWritableBytes_makes_room:
  assumes "Buffer_inv b"
  shows "\<exists>b'. Buffer_ensureWritableBytes b n = Inr b' \<and> Buffer_inv b' \<and>
           Buffer_content b' = Buffer_content b \<and> n \<le> Buffer_writableBytes b' \<and>
           length (storage b) \<le> length (storage b')"
proof -
  obtain b' where b': "Buffer_ensureWritableBytes b n = Inr b'" "Buffer_inv b'"
    "Buffer_content b' = Buffer_content b" "n \<le> Buffer_writableBytes b'"
    using Buffer_ensureWritableBytes_ok [OF assms] .
  moreover have "length (storage b) \<le> length (storage b')"
    using b'(1) assms
    by (auto simp: Buffer_ensureWritableBytes_def Buffer_makeSpace_def Let_def std_copy_def
        mem_write_def Buffer_inv_def Buffer_size_defs split: if_splits)
  ultimately show ?thesis by blast
qed

lemma ensureWritableBytes_makes_room_witness:
  "\<exists>b'. Buffer_ensureWritableBytes Buffer_new 2000 = Inr b' \<and> Buffer_content b' = []"
  using ensureWritableBytes_makes_room [OF Buffer_new_inv, of 2000] by auto

text \<open>
  \<open>readFd\<close> adds exactly the bytes that \<open>readv\<close> delivered, in order, behind the readable
  bytes, whether they fit in the vector or spill into the stack buffer, and returns their
  number; on an error it returns -1, stores the error number and leaves the buffer as it was.
\<close>

lemma readFd_appends_what_was_read:
  assumes "Buffer_inv b"
  shows "case r of
           ReadErr e \<Rightarrow> Buffer_readFd b r = Inr (-1, Some e, b)
         | ReadData avail \<Rightarrow>
             (let got = take (Buffer_readCapacity b) avail
              in \<exists>b'. Buffer_readFd b r = Inr (int (length got), None, b') \<and> Buffer_inv b' \<and>
                      Buffer_content b' = Buffer_content b @ got)"
proof (cases r)
  case (ReadData avail)
  obtain b' where "Buffer_readFd b (ReadData avail) =
       Inr (int (length (take (Buffer_readCapacity b) avail)), None, b')" "Buffer_inv b'"
    "Buffer_content b' = Buffer_content b @ take (Buffer_readCapacity b) avail"
    using Buffer_readFd_data [OF assms] .
  with ReadData show ?thesis unfolding Let_def by (simp del: Buffer_readFd.simps)
qed simp

lemma readFd_appends_what_was_read_witness:
  "\<exists>b'. Buffer_readFd Buffer_new (ReadData ''GET'') = Inr (3, None, b') \<and>
        Buffer_content b' = ''GET''"
  using readFd_appends_what_was_read [OF Buffer_new_inv, of "ReadData ''GET''"]
  by (simp add: Let_def Buffer_readCapacity_def kExtrabufSize_def del: Buffer_readFd.simps) blast

text \<open>
  \<open>findCRLF\<close> returns the first position of CR LF in the readable bytes, and the null
  pointer exactly when there is none; bytes beyond the write index are never matched.
\<close>

lemma findCRLF_first_occurrence:
  assumes "Buffer_inv b"
  shows "case Buffer_findCRLF b of
           None \<Rightarrow> \<forall>i. \<not> is_prefix kCRLF (drop i (Buffer_content b))
         | Some i \<Rightarrow> is_prefix kCRLF (drop i (Buffer_content b)) \<and>
                     (\<forall>j < i. \<not> is_prefix kCRLF (drop j (Buffer_content b)))"
  by (rule Buffer_findCRLF_cases [OF assms])

theorem findCRLF_first_occurrence_witness:
  "Buffer_findCRLF Buffer_new = None \<and> (\<forall>i. \<not> is_prefix kCRLF (drop i (Buffer_content Buffer_new)))"
  using findCRLF_first_occurrence [OF Buffer_new_inv]
  by (simp add: Buffer_findCRLF_content)

end
