(* ===== verification/Buffer_Words.thy ===== *)
theory Buffer_Words
  imports Buffers
begin

text \<open>
  The buffer as the machine has it (src/net/buffer.cpp): the indices and every size are \<open>size_t\<close>,
  64-bit words that wrap, and \<open>vector::resize\<close> throws above its largest size. The operations are
  translated a second time at that width, and shown to be the operations of theory Buffers as long
  as the vector stays below \<open>2^63\<close> bytes.
\<close>

section \<open>Buffer on 64-bit sizes\<close>

record buffer64 =
  storage64 :: "char list"
  readerIndex64 :: "64 word"
  writerIndex64 :: "64 word"

definition kMaxVector :: "64 word" where
  "kMaxVector = 0x7FFFFFFFFFFFFFFF"

definition vec_size64 :: "buffer64 \<Rightarrow> 64 word" where
  "vec_size64 b = of_nat (length (storage64 b))"

definition Buffer64_new :: buffer64 where
  "Buffer64_new = \<lparr>storage64 = replicate (kCheapPrepend + kInitialSize) (CHR 0x00),
     readerIndex64 = of_nat kCheapPrepend, writerIndex64 = of_nat kCheapPrepend\<rparr>"

definition Buffer64_readableBytes :: "buffer64 \<Rightarrow> 64 word" where
  "Buffer64_readableBytes b = writerIndex64 b - readerIndex64 b"

definition Buffer64_writableBytes :: "buffer64 \<Rightarrow> 64 word" where
  "Buffer64_writableBytes b = vec_size64 b - writerIndex64 b"

definition Buffer64_prependableBytes :: "buffer64 \<Rightarrow> 64 word" where
  "Buffer64_prependableBytes b = readerIndex64 b"

definition Buffer64_retrieveAll :: "buffer64 \<Rightarrow> buffer64" where
  "Buffer64_retrieveAll b =
     b\<lparr>readerIndex64 := of_nat kCheapPrepend, writerIndex64 := of_nat kCheapPrepend\<rparr>"

definition Buffer64_retrieve :: "buffer64 \<Rightarrow> 64 word \<Rightarrow> buffer64" where
  "Buffer64_retrieve b len =
     (if len < Buffer64_readableBytes b then b\<lparr>readerIndex64 := readerIndex64 b + len\<rparr>
      else Buffer64_retrieveAll b)"

definition Buffer64_retrieveAsString :: "buffer64 \<Rightarrow> 64 word \<Rightarrow> (string \<times> buffer64) res" where
  "Buffer64_retrieveAsString b len =
     and_then (assert_that (len \<le> Buffer64_readableBytes b)) (\<lambda>_.
     and_then (mem_read (storage64 b) (unat (readerIndex64 b)) (unat len)) (\<lambda>result.
     Inr (result, Buffer64_retrieve b len)))"

definition Buffer64_makeSpace :: "buffer64 \<Rightarrow> 64 word \<Rightarrow> buffer64 res" where
  "Buffer64_makeSpace b len =
     (if Buffer64_prependableBytes b + Buffer64_writableBytes b < len + of_nat kCheapPrepend
      then (let new_size = writerIndex64 b + len
            in if kMaxVector < new_size then Inl UncaughtException
               else Inr (b\<lparr>storage64 := vec_resize (CHR 0x00) (unat new_size) (storage64 b)\<rparr>))
      else (let readable = Buffer64_readableBytes b
            in and_then (std_copy (storage64 b) (unat (readerIndex64 b)) (unat (writerIndex64 b)) kCheapPrepend)
                 (\<lambda>s. Inr (b\<lparr>storage64 := s, readerIndex64 := of_nat kCheapPrepend,
                             writerIndex64 := of_nat kCheapPrepend + readable\<rparr>))))"

definition Buffer64_ensureWritableBytes :: "buffer64 \<Rightarrow> 64 word \<Rightarrow> buffer64 res" where
  "Buffer64_ensureWritableBytes b len =
     (if Buffer64_writableBytes b < len then Buffer64_makeSpace b len else Inr b)"

definition Buffer64_append :: "buffer64 \<Rightarrow> char list \<Rightarrow> buffer64 res" where
  "Buffer64_append b xs =
     and_then (Buffer64_ensureWritableBytes b (of_nat (length xs))) (\<lambda>b.
     and_then (mem_write (storage64 b) (unat (writerIndex64 b)) xs) (\<lambda>s.
     Inr (b\<lparr>storage64 := s, writerIndex64 := writerIndex64 b + of_nat (length xs)\<rparr>)))"

text \<open>The operations of theory Buffers, with their lengths as words.\<close>

fun Buffer64_step :: "buffer64 \<Rightarrow> buf_op \<Rightarrow> (string \<times> buffer64) res" where
  "Buffer64_step b (OpAppend xs) = map_res (Pair []) (Buffer64_append b xs)"
| "Buffer64_step b (OpRetrieve n) = Inr ([], Buffer64_retrieve b (of_nat n))"
| "Buffer64_step b OpRetrieveAll = Inr ([], Buffer64_retrieveAll b)"
| "Buffer64_step b (OpRetrieveAsString n) = Buffer64_retrieveAsString b (of_nat n)"
| "Buffer64_step b OpRetrieveAllAsString = Buffer64_retrieveAsString b (Buffer64_readableBytes b)"
| "Buffer64_step b (OpEnsureWritable n) = map_res (Pair []) (Buffer64_ensureWritableBytes b (of_nat n))"

subsection \<open>The sizes as numbers\<close>

definition as_nat :: "buffer64 \<Rightarrow> buffer" where
  "as_nat b = \<lparr>storage = storage64 b, readerIndex = unat (readerIndex64 b),
     writerIndex = unat (writerIndex64 b)\<rparr>"

definition fits :: "buffer64 \<Rightarrow> nat \<Rightarrow> bool" where
  "fits b n \<longleftrightarrow> Buffer_inv (as_nat b) \<and> length (storage64 b) + n < 2 ^ 63"

lemma as_nat_simps [simp]:
  "storage (as_nat b) = storage64 b"
  "readerIndex (as_nat b) = unat (readerIndex64 b)"
  "writerIndex (as_nat b) = unat (writerIndex64 b)"
  by (simp_all add: as_nat_def)

lemma unat_of_nat_small: "n < 2 ^ 64 \<Longrightarrow> unat (of_nat n :: 64 word) = n"
  by (simp add: unat_of_nat take_bit_nat_eq_self)

lemma unat_kCheapPrepend [simp]: "unat (of_nat kCheapPrepend :: 64 word) = kCheapPrepend"
  by (rule unat_of_nat_small) (simp add: kCheapPrepend_def)

lemma unat_add_small: "unat (x :: 64 word) + unat y < 2 ^ 64 \<Longrightarrow> unat (x + y) = unat x + unat y"
  using unat_add_lem [of x y] by simp

lemma unat_minus: "(y :: 64 word) \<le> x \<Longrightarrow> unat (x - y) = unat x - unat y"
  by (rule unat_sub)

lemma fits_bounds:
  assumes "fits b n"
  shows "kCheapPrepend \<le> unat (readerIndex64 b)" and "unat (readerIndex64 b) \<le> unat (writerIndex64 b)"
    and "unat (writerIndex64 b) \<le> length (storage64 b)" and "length (storage64 b) + n < 2 ^ 63"
    and "unat (vec_size64 b) = length (storage64 b)"
  using assms by (auto simp: fits_def Buffer_inv_def vec_size64_def unat_of_nat_small)

lemma sizes_exact:
  assumes "fits b n"
  shows "unat (Buffer64_readableBytes b) = Buffer_readableBytes (as_nat b)"
    and "unat (Buffer64_writableBytes b) = Buffer_writableBytes (as_nat b)"
    and "unat (Buffer64_prependableBytes b) = Buffer_prependableBytes (as_nat b)"
  using fits_bounds [OF assms]
  by (simp_all add: Buffer64_readableBytes_def Buffer64_writableBytes_def Buffer64_prependableBytes_def
      Buffer_size_defs unat_minus word_le_nat_alt)

subsection \<open>Each operation\<close>

lemma makeSpace64_exact:
  assumes "fits b n" and "unat len \<le> n"
  shows "map_res as_nat (Buffer64_makeSpace b len) = Buffer_makeSpace (as_nat b) (unat len)"
proof -
  note bounds = fits_bounds [OF assms(1)] and exact = sizes_exact [OF assms(1)]
  have "unat (Buffer64_prependableBytes b + Buffer64_writableBytes b)
      = Buffer_prependableBytes (as_nat b) + Buffer_writableBytes (as_nat b)"
    using bounds by (subst unat_add_small) (simp_all add: exact Buffer_size_defs)
  moreover have "unat (len + of_nat kCheapPrepend) = unat len + kCheapPrepend"
    using bounds(4) assms(2) by (subst unat_add_small) (simp_all add: kCheapPrepend_def)
  ultimately have guard: "(Buffer64_prependableBytes b + Buffer64_writableBytes b < len + of_nat kCheapPrepend)
      \<longleftrightarrow> (Buffer_prependableBytes (as_nat b) + Buffer_writableBytes (as_nat b) < unat len + kCheapPrepend)"
    by (simp only: word_less_nat_alt)
  have new: "unat (writerIndex64 b + len) = unat (writerIndex64 b) + unat len"
    using bounds assms(2) by (subst unat_add_small) simp_all
  then have small: "\<not> kMaxVector < writerIndex64 b + len"
    using bounds assms(2) by (simp add: kMaxVector_def word_less_nat_alt)
  have moved: "unat (of_nat kCheapPrepend + Buffer64_readableBytes b) = kCheapPrepend + Buffer_readableBytes (as_nat b)"
    using bounds by (subst unat_add_small) (simp_all add: exact Buffer_size_defs kCheapPrepend_def)
  show ?thesis
    unfolding Buffer64_makeSpace_def Buffer_makeSpace_def guard
    using small new moved
    by (simp add: Let_def map_res_and_then) (simp add: as_nat_def)
qed

lemma ensureWritable64_exact:
  assumes "fits b n" and "unat len \<le> n"
  shows "map_res as_nat (Buffer64_ensureWritableBytes b len) = Buffer_ensureWritableBytes (as_nat b) (unat len)"
  using makeSpace64_exact [OF assms] sizes_exact(2) [OF assms(1)]
  by (simp add: Buffer64_ensureWritableBytes_def Buffer_ensureWritableBytes_def word_less_nat_alt)

lemma ensureWritable_grows:
  assumes "Buffer_inv b" and "Buffer_ensureWritableBytes b n = Inr b'"
  shows "length (storage b') \<le> length (storage b) + n"
  using assms
  by (auto simp: Buffer_ensureWritableBytes_def Buffer_makeSpace_def Let_def std_copy_def
      mem_write_def Buffer_inv_def Buffer_size_defs split: if_splits)

lemma ensureWritable_room:
  assumes "Buffer_inv b" and "Buffer_ensureWritableBytes b n = Inr b'"
  shows "Buffer_inv b'" and "n \<le> Buffer_writableBytes b'"
  using assms(2) Buffer_ensureWritableBytes_ok [OF assms(1), of n] by fastforce+

lemma append64_exact:
  assumes fits: "fits b (length xs)"
  shows "map_res as_nat (Buffer64_append b xs) = Buffer_append (as_nat b) xs"
proof -
  have len: "unat (of_nat (length xs) :: 64 word) = length xs"
    using fits_bounds(4) [OF fits] by (intro unat_of_nat_small) simp
  have exact: "map_res as_nat (Buffer64_ensureWritableBytes b (of_nat (length xs)))
      = Buffer_ensureWritableBytes (as_nat b) (length xs)"
    using ensureWritable64_exact [OF fits, of "of_nat (length xs)"] by (simp add: len)
  show ?thesis
  proof (cases "Buffer64_ensureWritableBytes b (of_nat (length xs))")
    case (Inl e)
    then show ?thesis using exact [symmetric] by (simp add: Buffer64_append_def Buffer_append_def)
  next
    case (Inr b1)
    then have room: "Buffer_ensureWritableBytes (as_nat b) (length xs) = Inr (as_nat b1)"
      using exact by simp
    have inv: "Buffer_inv (as_nat b)" using fits by (simp add: fits_def)
    have "unat (writerIndex64 b1) + length xs \<le> length (storage64 b1)"
      using ensureWritable_room [OF inv room] by (auto simp: Buffer_inv_def Buffer_size_defs)
    then have "unat (writerIndex64 b1) + length xs < 2 ^ 64"
      using ensureWritable_grows [OF inv room] fits_bounds(4) [OF fits] by simp
    then have "unat (writerIndex64 b1 + of_nat (length xs)) = unat (writerIndex64 b1) + length xs"
      by (subst unat_add_small) (simp_all add: len)
    with Inr room show ?thesis
      by (simp add: Buffer64_append_def Buffer_append_def map_res_and_then) (simp add: as_nat_def)
  qed
qed

lemma as_nat_retrieveAll [simp]: "as_nat (Buffer64_retrieveAll b) = Buffer_retrieveAll (as_nat b)"
  by (simp add: as_nat_def Buffer64_retrieveAll_def Buffer_retrieveAll_def)

lemma retrieve64_exact:
  assumes fits: "fits b m"
  shows "as_nat (Buffer64_retrieve b len) = Buffer_retrieve (as_nat b) (unat len)"
proof (cases "len < Buffer64_readableBytes b")
  case True
  then have less: "unat len < Buffer_readableBytes (as_nat b)"
    by (simp add: word_less_nat_alt sizes_exact(1) [OF fits])
  then have "unat (readerIndex64 b + len) = unat (readerIndex64 b) + unat len"
    using fits_bounds [OF fits] by (subst unat_add_small) (simp_all add: Buffer_size_defs)
  with True less show ?thesis
    by (simp add: Buffer64_retrieve_def Buffer_retrieve_def as_nat_def)
next
  case False
  then have "\<not> unat len < Buffer_readableBytes (as_nat b)"
    by (simp add: word_less_nat_alt sizes_exact(1) [OF fits])
  with False show ?thesis by (simp add: Buffer64_retrieve_def Buffer_retrieve_def)
qed

lemma retrieveAsString64_exact:
  assumes fits: "fits b m"
  shows "map_res (\<lambda>(out, b'). (out, as_nat b')) (Buffer64_retrieveAsString b len)
      = Buffer_retrieveAsString (as_nat b) (unat len)"
  by (simp add: Buffer64_retrieveAsString_def Buffer_retrieveAsString_def map_res_and_then
      word_le_nat_alt sizes_exact(1) [OF fits] retrieve64_exact [OF fits])

subsection \<open>Any sequence of operations\<close>

text \<open>By how much an operation can make the vector longer, and whether its length is a \<open>size_t\<close>.\<close>

fun demand :: "buf_op \<Rightarrow> nat" where
  "demand (OpAppend xs) = length xs"
| "demand (OpEnsureWritable n) = n"
| "demand x = 0"

fun size_t_arg :: "buf_op \<Rightarrow> bool" where
  "size_t_arg (OpRetrieve n) = (n < 2 ^ 64)"
| "size_t_arg (OpRetrieveAsString n) = (n < 2 ^ 64)"
| "size_t_arg x = True"

lemma step64_exact:
  assumes "fits b (demand x)" and "size_t_arg x"
  shows "map_res (\<lambda>(out, b'). (out, as_nat b')) (Buffer64_step b x) = Buffer_step (as_nat b) x"
proof (cases x)
  case (OpEnsureWritable n)
  then have "unat (of_nat n :: 64 word) = n"
    using fits_bounds(4) [OF assms(1)] by (intro unat_of_nat_small) simp
  with OpEnsureWritable show ?thesis
    using ensureWritable64_exact [OF assms(1), of "of_nat n", symmetric]
    by (cases "Buffer64_ensureWritableBytes b (of_nat n)") simp_all
next
  case (OpAppend xs)
  then show ?thesis using append64_exact [of b xs, symmetric] assms(1)
    by (cases "Buffer64_append b xs") simp_all
qed (use assms in \<open>simp_all add: retrieve64_exact retrieveAsString64_exact unat_of_nat_small
       Buffer_retrieveAllAsString_def sizes_exact(1)\<close>)

lemma step_grows:
  assumes "Buffer_inv b" and "Buffer_step b x = Inr (out, b')"
  shows "length (storage b') \<le> length (storage b) + demand x"
  using assms
  by (cases x)
    (auto simp: Buffer_append_def returned mem_write_def Buffer_retrieve_def Buffer_retrieveAll_def
      Buffer_retrieveAllAsString_def Buffer_retrieveAsString_def split: if_splits
      dest!: ensureWritable_grows)

lemma run64_exact:
  assumes "fits b (sum_list (map demand ops))" and "\<forall>x \<in> set ops. size_t_arg x"
  shows "map_res (\<lambda>(outs, b'). (outs, as_nat b')) (run_ops Buffer64_step b ops)
      = run_ops Buffer_step (as_nat b) ops"
  using assms
proof (induction ops arbitrary: b)
  case (Cons x ops)
  have fits: "fits b (demand x)" using Cons.prems(1) by (simp add: fits_def)
  note exact = step64_exact [OF fits]
  show ?case
  proof (cases "Buffer64_step b x")
    case (Inl e)
    with exact Cons.prems(2) have "Buffer_step (as_nat b) x = Inl e" by simp
    with Inl show ?thesis by simp
  next
    case (Inr r)
    obtain out b1 where r: "r = (out, b1)" by (cases r)
    with Inr exact Cons.prems(2) have step: "Buffer_step (as_nat b) x = Inr (out, as_nat b1)" by simp
    have inv: "Buffer_inv (as_nat b)" using fits by (simp add: fits_def)
    have "fits b1 (sum_list (map demand ops))"
      using Buffer_step_refines(2) [OF inv step] step_grows [OF inv step] Cons.prems(1)
      by (simp add: fits_def)
    then have "map_res (\<lambda>(outs, b'). (outs, as_nat b')) (run_ops Buffer64_step b1 ops)
        = run_ops Buffer_step (as_nat b1) ops"
      using Cons.IH Cons.prems(2) by simp
    with Inr r step show ?thesis
      by (cases "run_ops Buffer64_step b1 ops") (auto simp: split_beta dest: sym)
  qed
qed (simp add: map_res_def)

subsection \<open>Properties\<close>

text \<open>
  C33: the buffer with 64-bit wrapping sizes does what the buffer on natural numbers does, for any
  sequence of appends, retrieves, string reads and reservations, as long as the vector and all the
  bytes asked for stay below \<open>2^63\<close> together: the same strings, the same failures, the same vector
  and the same indices. No size wraps around and \<open>resize\<close> does not throw.
\<close>

theorem buffer_size_t_exact:
  assumes "Buffer_inv (as_nat b)"
    and "length (storage64 b) + sum_list (map demand ops) < 2 ^ 63"
    and "\<forall>x \<in> set ops. size_t_arg x"
  shows "map_res (\<lambda>(outs, b'). (outs, as_nat b')) (run_ops Buffer64_step b ops)
      = run_ops Buffer_step (as_nat b) ops"
  using assms by (intro run64_exact) (simp_all add: fits_def)

lemma as_nat_new: "as_nat Buffer64_new = Buffer_new"
  by (simp add: as_nat_def Buffer64_new_def Buffer_new_def)

theorem buffer_size_t_exact_witness:
  "map_res (\<lambda>(outs, b'). (outs, Buffer_content (as_nat b')))
     (run_ops Buffer64_step Buffer64_new
        [OpAppend ''abc'', OpRetrieveAsString 2, OpEnsureWritable 2000, OpRetrieveAllAsString])
   = Inr ([[], ''ab'', [], ''c''], [])"
proof -
  let ?ops = "[OpAppend ''abc'', OpRetrieveAsString 2, OpEnsureWritable 2000, OpRetrieveAllAsString]"
  have "length (storage64 Buffer64_new) + sum_list (map demand ?ops) < 2 ^ 63"
    by (simp add: Buffer64_new_def kCheapPrepend_def kInitialSize_def)
  then have "map_res (\<lambda>(outs, b'). (outs, as_nat b')) (run_ops Buffer64_step Buffer64_new ?ops)
      = run_ops Buffer_step Buffer_new ?ops"
    by (subst buffer_size_t_exact) (simp_all add: as_nat_new)
  then have "map_res (\<lambda>(outs, b'). (outs, Buffer_content b'))
      (map_res (\<lambda>(outs, b'). (outs, as_nat b')) (run_ops Buffer64_step Buffer64_new ?ops))
    = Inr ([[], ''ab'', [], ''c''], [])"
    by (simp only: Buffer_run_refines [OF Buffer_new_inv]) simp
  then show ?thesis
    by (cases "run_ops Buffer64_step Buffer64_new ?ops") (auto simp: map_res_def and_then_def)
qed

end
