(* ===== verification/Http_Message.thy ===== *)
theory Http_Message
  imports Buffers
begin

section \<open>HttpRequest and HttpResponse (include/agora/net/http, src/net/http/http_response.cpp)\<close>

text \<open>
  The request record the parser fills, the response record the handlers fill, and the
  serialisation of a response into a buffer. An \<open>unordered_map\<close> of headers is a map; the
  order in which the code traverses it is not specified by the language, so it is an argument
  of \<open>HttpResponse_appendToBuffer\<close>, related to the map by \<open>enumerates\<close>.
\<close>

subsection \<open>Requests\<close>

datatype Method = kInvalid | kGet | kPost | kHead | kPut | kDelete

datatype Version = kUnknown | kHttp10 | kHttp11

record http_request =
  req_method :: Method
  req_version :: Version
  req_path :: string
  req_query :: string
  req_headers :: "string \<rightharpoonup> string"

definition HttpRequest_new :: http_request where
  "HttpRequest_new = \<lparr>req_method = kInvalid, req_version = kUnknown, req_path = [],
                      req_query = [], req_headers = Map.empty\<rparr>"

definition HttpRequest_addHeader :: "http_request \<Rightarrow> string \<Rightarrow> string \<Rightarrow> http_request" where
  "HttpRequest_addHeader r key value = r\<lparr>req_headers := (req_headers r)(key \<mapsto> value)\<rparr>"

definition HttpRequest_getHeader :: "http_request \<Rightarrow> string \<Rightarrow> string" where
  "HttpRequest_getHeader r key =
     (case req_headers r key of Some v \<Rightarrow> v | None \<Rightarrow> [])"

definition HttpRequest_swap :: "http_request \<Rightarrow> http_request \<Rightarrow> http_request \<times> http_request" where
  "HttpRequest_swap this that =
     (this\<lparr>req_method := req_method that, req_version := req_version that,
           req_path := req_path that, req_query := req_query that,
           req_headers := req_headers that\<rparr>,
      that\<lparr>req_method := req_method this, req_version := req_version this,
           req_path := req_path this, req_query := req_query this,
           req_headers := req_headers this\<rparr>)"

lemma HttpRequest_swap_eq [simp]: "HttpRequest_swap r q = (q, r)"
  by (simp add: HttpRequest_swap_def)

subsection \<open>Responses\<close>

datatype HttpStatusCode =
    kStatusUnknown
  | k200Ok
  | k301MovedPermanently
  | k400BadRequest
  | k404NotFound
  | k500InternalServerError

fun status_value :: "HttpStatusCode \<Rightarrow> nat" where
  "status_value kStatusUnknown = 0"
| "status_value k200Ok = 200"
| "status_value k301MovedPermanently = 301"
| "status_value k400BadRequest = 400"
| "status_value k404NotFound = 404"
| "status_value k500InternalServerError = 500"

record http_response =
  statusCode :: HttpStatusCode
  statusMessage :: string
  closeConnection :: bool
  resp_headers :: "string \<rightharpoonup> string"
  resp_body :: string

definition HttpResponse_new :: "bool \<Rightarrow> http_response" where
  "HttpResponse_new close = \<lparr>statusCode = kStatusUnknown, statusMessage = [],
     closeConnection = close, resp_headers = Map.empty, resp_body = []\<rparr>"

definition HttpResponse_addHeader :: "http_response \<Rightarrow> string \<Rightarrow> string \<Rightarrow> http_response" where
  "HttpResponse_addHeader r key value = r\<lparr>resp_headers := (resp_headers r)(key \<mapsto> value)\<rparr>"

definition HttpResponse_setContentType :: "http_response \<Rightarrow> string \<Rightarrow> http_response" where
  "HttpResponse_setContentType r t = HttpResponse_addHeader r ''Content-Type'' t"

text \<open>\<open>hs\<close> is a traversal of the header map: every entry once, in some order.\<close>

definition enumerates :: "(string \<times> string) list \<Rightarrow> (string \<rightharpoonup> string) \<Rightarrow> bool" where
  "enumerates hs m \<longleftrightarrow> distinct (map fst hs) \<and> map_of hs = m"

definition HttpResponse_appendHeader :: "buffer \<Rightarrow> string \<times> string \<Rightarrow> buffer res" where
  "HttpResponse_appendHeader out header =
     for_each Buffer_append out [fst header, '': '', snd header, kCRLF]"

definition HttpResponse_appendToBuffer ::
    "http_response \<Rightarrow> (string \<times> string) list \<Rightarrow> buffer \<Rightarrow> buffer res" where
  "HttpResponse_appendToBuffer r hs out =
     and_then (for_each Buffer_append out
       [''HTTP/1.1 '', nat_to_string (status_value (statusCode r)), '' '', statusMessage r, kCRLF])
       (\<lambda>out.
     and_then (if hs \<noteq> [] then for_each HttpResponse_appendHeader out hs else Inr out) (\<lambda>out.
     and_then (for_each Buffer_append out
       [''Content-Length: '', nat_to_string (length (resp_body r)), kCRLF]) (\<lambda>out.
     and_then (if closeConnection r then Buffer_append out (''Connection: close'' @ kCRLF)
               else Buffer_append out (''Connection: Keep-Alive'' @ kCRLF)) (\<lambda>out.
     and_then (Buffer_append out kCRLF) (\<lambda>out.
     Buffer_append out (resp_body r))))))"

subsection \<open>What is written\<close>

text \<open>A message head as a reader sees it: lines, each ended by CR LF, and an empty line.\<close>

definition line_bytes :: "string list \<Rightarrow> char list" where
  "line_bytes ls = concat (map (\<lambda>l. l @ kCRLF) ls)"

definition response_lines :: "http_response \<Rightarrow> (string \<times> string) list \<Rightarrow> string list" where
  "response_lines r hs =
     [''HTTP/1.1 '' @ nat_to_string (status_value (statusCode r)) @ '' '' @ statusMessage r]
     @ map (\<lambda>h. fst h @ '': '' @ snd h) hs
     @ [''Content-Length: '' @ nat_to_string (length (resp_body r)),
        (if closeConnection r then ''Connection: close'' else ''Connection: Keep-Alive'')]"

lemma appendHeader_ok:
  "Buffer_inv b \<Longrightarrow> \<exists>b'. HttpResponse_appendHeader b h = Inr b' \<and> Buffer_inv b' \<and>
     Buffer_content b' = Buffer_content b @ fst h @ '': '' @ snd h @ kCRLF"
  using bq.put_all_ok [of b "[fst h, '': '', snd h, kCRLF]"]
  by (simp add: HttpResponse_appendHeader_def)

lemma appendHeaders_ok:
  "Buffer_inv b \<Longrightarrow> \<exists>b'. for_each HttpResponse_appendHeader b hs = Inr b' \<and> Buffer_inv b' \<and>
     Buffer_content b' = Buffer_content b @ line_bytes (map (\<lambda>h. fst h @ '': '' @ snd h) hs)"
proof (induction hs arbitrary: b)
  case Nil
  then show ?case by (simp add: line_bytes_def)
next
  case (Cons h hs)
  obtain b1 where b1: "HttpResponse_appendHeader b h = Inr b1" "Buffer_inv b1"
    "Buffer_content b1 = Buffer_content b @ fst h @ '': '' @ snd h @ kCRLF"
    using appendHeader_ok [OF Cons.prems] by blast
  from Cons.IH [OF b1(2)] b1 show ?case by (auto simp: line_bytes_def)
qed

lemma appendToBuffer_ok:
  assumes "Buffer_inv out"
  shows "\<exists>out'. HttpResponse_appendToBuffer r hs out = Inr out' \<and> Buffer_inv out' \<and>
     Buffer_content out' = Buffer_content out @ line_bytes (response_lines r hs) @ kCRLF @ resp_body r"
proof -
  let ?status = "[''HTTP/1.1 '', nat_to_string (status_value (statusCode r)), '' '',
    statusMessage r, kCRLF]"
  let ?len = "[''Content-Length: '', nat_to_string (length (resp_body r)), kCRLF]"
  let ?conn = "(if closeConnection r then ''Connection: close'' else ''Connection: Keep-Alive'')
    @ kCRLF"
  obtain b1 where b1: "for_each Buffer_append out ?status = Inr b1" "Buffer_inv b1"
    "Buffer_content b1 = Buffer_content out @ concat ?status"
    using bq.put_all_ok [OF assms, of ?status] by blast
  obtain b2 where b2: "for_each HttpResponse_appendHeader b1 hs = Inr b2" "Buffer_inv b2"
    "Buffer_content b2 = Buffer_content b1 @ line_bytes (map (\<lambda>h. fst h @ '': '' @ snd h) hs)"
    using appendHeaders_ok [OF b1(2)] by blast
  have b2': "(if hs \<noteq> [] then for_each HttpResponse_appendHeader b1 hs else Inr b1) = Inr b2"
    using b2(1) by auto
  obtain b3 where b3: "for_each Buffer_append b2 ?len = Inr b3" "Buffer_inv b3"
    "Buffer_content b3 = Buffer_content b2 @ concat ?len"
    using bq.put_all_ok [OF b2(2), of ?len] by blast
  obtain b4 where b4: "Buffer_append b3 ?conn = Inr b4" "Buffer_inv b4"
    "Buffer_content b4 = Buffer_content b3 @ ?conn"
    using bq.put_ok [OF b3(2), of ?conn] by blast
  have b4': "(if closeConnection r then Buffer_append b3 (''Connection: close'' @ kCRLF)
               else Buffer_append b3 (''Connection: Keep-Alive'' @ kCRLF)) = Inr b4"
    using b4(1) by (simp split: if_splits)
  obtain b5 where b5: "Buffer_append b4 kCRLF = Inr b5" "Buffer_inv b5"
    "Buffer_content b5 = Buffer_content b4 @ kCRLF"
    using bq.put_ok [OF b4(2), of kCRLF] by blast
  obtain b6 where b6: "Buffer_append b5 (resp_body r) = Inr b6" "Buffer_inv b6"
    "Buffer_content b6 = Buffer_content b5 @ resp_body r"
    using bq.put_ok [OF b5(2), of "resp_body r"] by blast
  have "HttpResponse_appendToBuffer r hs out = Inr b6"
    by (simp only: HttpResponse_appendToBuffer_def b1(1) b2' b3(1) b4' b5(1) b6(1) and_then_Inr)
  moreover have "Buffer_content b6
      = Buffer_content out @ line_bytes (response_lines r hs) @ kCRLF @ resp_body r"
    by (simp add: b6(3) b5(3) b4(3) b3(3) b2(3) b1(3) response_lines_def line_bytes_def)
  ultimately show ?thesis using b6(2) by blast
qed

subsection \<open>Reading a message back\<close>

text \<open>
  A reader of an HTTP message: lines up to the first empty one, and what follows. It is a
  specification, not code of the library; \<open>None\<close> when no empty line has arrived.
\<close>

function read_head :: "char list \<Rightarrow> (string list \<times> char list) option" where
  "read_head bs =
     (let i = std_search kCRLF bs in
      if i < length bs then
        (if i = 0 then Some ([], drop 2 bs)
         else (case read_head (drop (i + 2) bs) of
                 None \<Rightarrow> None
               | Some (ls, body) \<Rightarrow> Some (take i bs # ls, body)))
      else None)"
  by pat_completeness auto
termination by (relation "measure length") auto

declare read_head.simps [simp del]

lemma read_head_empty_line: "read_head (kCRLF @ body) = Some ([], body)"
  using search_crlf_line [of "[]" body] by (subst read_head.simps) (simp add: kCRLF_def)

lemma read_head_line:
  assumes "CR \<notin> set l" and "l \<noteq> []"
  shows "read_head (l @ kCRLF @ rest) =
           (case read_head rest of None \<Rightarrow> None | Some (ls, body) \<Rightarrow> Some (l # ls, body))"
proof -
  have "drop (length l + 2) (l @ kCRLF @ rest) = rest" by (simp add: kCRLF_def)
  moreover have "length l < length (l @ kCRLF @ rest)" by (simp add: kCRLF_def)
  ultimately show ?thesis
    using assms(2) by (subst read_head.simps) (simp add: search_crlf_line [OF assms(1)] split: option.split)
qed

lemma read_head_lines:
  "\<forall>l \<in> set ls. l \<noteq> [] \<and> CR \<notin> set l \<Longrightarrow>
   read_head (line_bytes ls @ kCRLF @ body) = Some (ls, body)"
proof (induction ls)
  case Nil
  then show ?case by (simp add: line_bytes_def read_head_empty_line)
next
  case (Cons l ls)
  have "line_bytes (l # ls) @ kCRLF @ body = l @ kCRLF @ (line_bytes ls @ kCRLF @ body)"
    by (simp add: line_bytes_def)
  moreover have l: "CR \<notin> set l" "l \<noteq> []" using Cons.prems by auto
  ultimately show ?case using Cons by (simp only: read_head_line [OF l]) simp
qed

lemma nat_to_string_no_CR: "CR \<notin> set (nat_to_string n)"
  using nat_to_string_digits [of n] by (auto simp: list_all_iff is_digit_def)

text \<open>A header map and message that do not smuggle line ends into the head.\<close>

definition clean_response :: "http_response \<Rightarrow> (string \<times> string) list \<Rightarrow> bool" where
  "clean_response r hs \<longleftrightarrow>
     CR \<notin> set (statusMessage r) \<and> (\<forall>h \<in> set hs. CR \<notin> set (fst h) \<and> CR \<notin> set (snd h))"

lemma response_lines_clean:
  "clean_response r hs \<Longrightarrow> \<forall>l \<in> set (response_lines r hs). l \<noteq> [] \<and> CR \<notin> set l"
  by (auto simp: clean_response_def response_lines_def nat_to_string_no_CR)

text \<open>
  A reader of a stream of messages: the lines of the head, then as many bytes as the first
  \<open>Content-Length\<close> line says, and the bytes left for the next message. \<open>None\<close> when the message is
  not there in full, or has no such line. Also a specification.
\<close>

fun content_length :: "string list \<Rightarrow> nat option" where
  "content_length [] = None"
| "content_length (l # ls) =
     (if take 16 l = ''Content-Length: '' then
        (if drop 16 l \<noteq> [] \<and> list_all is_digit (drop 16 l) then Some (string_to_nat (drop 16 l)) else None)
      else content_length ls)"

definition read_response :: "char list \<Rightarrow> (string list \<times> char list \<times> char list) option" where
  "read_response bs =
     (case read_head bs of None \<Rightarrow> None
      | Some (ls, after) \<Rightarrow>
          (case content_length ls of None \<Rightarrow> None
           | Some n \<Rightarrow> if n \<le> length after then Some (ls, take n after, drop n after) else None))"

text \<open>No header of the map starts like the line that \<open>appendToBuffer\<close> writes itself.\<close>

definition own_length :: "(string \<times> string) list \<Rightarrow> bool" where
  "own_length hs \<longleftrightarrow> (\<forall>h \<in> set hs. take 14 (fst h) \<noteq> ''Content-Length'')"

lemma take14_take16: "take 16 l = ''Content-Length: '' \<Longrightarrow> take 14 l = ''Content-Length''"
  using take_take [of 14 16 l] by simp

lemma header_not_length:
  assumes "take 14 n \<noteq> ''Content-Length''"
  shows "take 16 (n @ '': '' @ v) \<noteq> ''Content-Length: ''"
proof
  assume line: "take 16 (n @ '': '' @ v) = ''Content-Length: ''"
  have take: "take 14 n @ take (14 - length n) ('': '' @ v) = ''Content-Length''"
    using take14_take16 [OF line] by simp
  show False
  proof (cases "length n < 14")
    case True
    then obtain k where k: "14 - length n = Suc k" by (metis Suc_diff_Suc)
    have "CHR '':'' \<in> set ''Content-Length''"
      unfolding take [symmetric] k by simp
    then show False by simp
  next
    case False
    then show False using take assms by simp
  qed
qed

lemma content_length_header:
  "take 14 n \<noteq> ''Content-Length'' \<Longrightarrow> content_length ((n @ '': '' @ v) # ls) = content_length ls"
  by (subst content_length.simps) (rule if_not_P, rule header_not_length)

lemma content_length_headers:
  "own_length hs \<Longrightarrow> content_length (map (\<lambda>h. fst h @ '': '' @ snd h) hs @ ls) = content_length ls"
proof (induction hs)
  case (Cons h hs)
  have "map (\<lambda>h. fst h @ '': '' @ snd h) (h # hs) @ ls
      = (fst h @ '': '' @ snd h) # (map (\<lambda>h. fst h @ '': '' @ snd h) hs @ ls)" by simp
  moreover have "take 14 (fst h) \<noteq> ''Content-Length''" and hs: "own_length hs"
    using Cons.prems by (simp_all add: own_length_def)
  note content_length_header [OF this(1), of "snd h" "map (\<lambda>h. fst h @ '': '' @ snd h) hs @ ls"]
  ultimately show ?case using Cons.IH [OF hs] by argo
qed simp

lemma content_length_response:
  assumes "own_length hs"
  shows "content_length (response_lines r hs) = Some (length (resp_body r))"
  using content_length_headers [OF assms] nat_to_string_digits nat_to_string_nonempty
  by (simp add: response_lines_def string_to_nat_to_string)

subsection \<open>Properties\<close>

text \<open>
  C18: \<open>appendToBuffer\<close> on any well-formed buffer never faults, keeps what the buffer held, and
  writes behind it a message that a reader of the stream cuts out exactly, whatever bytes the body
  has and whatever bytes come next: the lines are the status line, one line per header in traversal
  order, the \<open>Content-Length\<close> and the \<open>Connection\<close> line; the reader takes as many bytes as the
  \<open>Content-Length\<close> line says, and these are the body; what follows stays in the stream. The status
  message and the headers must not contain CR, and no header may be a \<open>Content-Length\<close> of its own.
\<close>

theorem response_framing:
  assumes "Buffer_inv out" and "clean_response r hs" and "own_length hs"
  shows "\<exists>out'. HttpResponse_appendToBuffer r hs out = Inr out' \<and> Buffer_inv out' \<and>
           take (Buffer_readableBytes out) (Buffer_content out') = Buffer_content out \<and>
           (\<forall>rest. read_response (drop (Buffer_readableBytes out) (Buffer_content out') @ rest)
              = Some (response_lines r hs, resp_body r, rest))"
proof -
  obtain out' where out': "HttpResponse_appendToBuffer r hs out = Inr out'" "Buffer_inv out'"
    "Buffer_content out'
       = Buffer_content out @ line_bytes (response_lines r hs) @ kCRLF @ resp_body r"
    using appendToBuffer_ok [OF assms(1)] by blast
  have held: "take (Buffer_readableBytes out) (Buffer_content out') = Buffer_content out"
    and written: "drop (Buffer_readableBytes out) (Buffer_content out')
      = line_bytes (response_lines r hs) @ kCRLF @ resp_body r"
    unfolding out'(3) using assms(1) by simp_all
  have "read_response ((line_bytes (response_lines r hs) @ kCRLF @ resp_body r) @ rest)
      = Some (response_lines r hs, resp_body r, rest)" for rest
    using read_head_lines [OF response_lines_clean [OF assms(2)], of "resp_body r @ rest"]
    by (simp add: read_response_def content_length_response [OF assms(3)])
  then show ?thesis using held out'(1,2) by (intro exI [of _ out']) (simp add: written)
qed

theorem response_framing_witness:
  "\<exists>out'. HttpResponse_appendToBuffer
       (HttpResponse_new True\<lparr>statusCode := k200Ok, statusMessage := ''OK'', resp_body := ''hi''\<rparr>)
       [(''Content-Type'', ''text/html'')] Buffer_new = Inr out' \<and>
     read_response (Buffer_content out' @ ''HTTP/1.1'') =
       Some ([''HTTP/1.1 200 OK'', ''Content-Type: text/html'', ''Content-Length: 2'',
              ''Connection: close''], ''hi'', ''HTTP/1.1'')"
proof -
  let ?r = "HttpResponse_new True\<lparr>statusCode := k200Ok, statusMessage := ''OK'',
    resp_body := ''hi''\<rparr>"
  let ?hs = "[(''Content-Type'', ''text/html'')]"
  have clean: "clean_response ?r ?hs" "own_length ?hs" by (simp_all add: clean_response_def own_length_def)
  have nat: "nat_to_string 200 = ''200''" "nat_to_string (Suc (Suc 0)) = ''2''"
    by (simp_all add: nat_to_string.simps)
  have lines: "response_lines ?r ?hs = [''HTTP/1.1 200 OK'', ''Content-Type: text/html'',
      ''Content-Length: 2'', ''Connection: close'']"
    by (simp add: response_lines_def HttpResponse_new_def nat)
  have "Buffer_readableBytes Buffer_new = 0"
    by (simp add: Buffer_readableBytes_def Buffer_new_def)
  with response_framing [OF Buffer_new_inv clean] show ?thesis
    unfolding lines by auto
qed

end
