(* ===== verification/Http_Context.thy ===== *)
theory Http_Context
  imports Http_Message
begin

section \<open>HttpContext: the incremental request parser (src/net/http/http_context.cpp)\<close>

text \<open>
  \<open>HttpContext\<close> keeps a parser state and the request read so far. \<open>parseRequest\<close> takes
  complete lines off the input buffer until it needs more bytes, the head is complete or a
  request line is refused. The loop is modelled on the \<open>Buffer\<close> operations
  (\<open>HttpContext_parseRequest\<close>); \<open>parse_bytes\<close> is the same loop on a plain list of bytes,
  the specification it refines. The lemmas show that splitting the input into pieces makes
  no difference, and that a request that is written out is read back.
\<close>

datatype ParseState = kExpectRequestLine | kExpectHeaders | kExpectBody | kGotAll

record http_context =
  ctx_state :: ParseState
  ctx_request :: http_request

definition HttpContext_new :: http_context where
  "HttpContext_new = \<lparr>ctx_state = kExpectRequestLine, ctx_request = HttpRequest_new\<rparr>"

definition HttpContext_gotAll :: "http_context \<Rightarrow> bool" where
  "HttpContext_gotAll c \<longleftrightarrow> ctx_state c = kGotAll"

definition HttpContext_reset :: "http_context \<Rightarrow> http_context" where
  "HttpContext_reset c =
     (let dummy = HttpRequest_new
      in c\<lparr>ctx_state := kExpectRequestLine,
           ctx_request := fst (HttpRequest_swap (ctx_request c) dummy)\<rparr>)"

subsection \<open>The request line\<close>

definition method_of_string :: "string \<Rightarrow> Method option" where
  "method_of_string m =
     (if m = ''GET'' then Some kGet
      else if m = ''POST'' then Some kPost
      else if m = ''HEAD'' then Some kHead
      else if m = ''PUT'' then Some kPut
      else if m = ''DELETE'' then Some kDelete
      else None)"

text \<open>
  The line is the range from \<open>begin\<close> to \<open>end\<close>. The result is the return value and the
  request, whose fields are already set when a later part of the line is refused.
\<close>

definition HttpContext_processRequestLine ::
    "http_request \<Rightarrow> string \<Rightarrow> bool \<times> http_request" where
  "HttpContext_processRequestLine req line =
     (let space = std_find (CHR '' '') line in
      if space \<noteq> length line then
        (case method_of_string (take space line) of
           None \<Rightarrow> (False, req)
         | Some m \<Rightarrow>
             (let req = req\<lparr>req_method := m\<rparr>;
                  rest = drop (space + 1) line;
                  space = std_find (CHR '' '') rest in
              if space \<noteq> length rest then
                (let pathAndQuery = take space rest;
                     question = std_find (CHR ''?'') pathAndQuery;
                     req = (if question \<noteq> space
                            then req\<lparr>req_path := take question pathAndQuery,
                                     req_query := drop (question + 1) pathAndQuery\<rparr>
                            else req\<lparr>req_path := pathAndQuery\<rparr>);
                     tail = drop (space + 1) rest in
                 if length tail = 8 \<and> tail = ''HTTP/1.1''
                 then (True, req\<lparr>req_version := kHttp11\<rparr>)
                 else if length tail = 8 \<and> tail = ''HTTP/1.0''
                 then (True, req\<lparr>req_version := kHttp10\<rparr>)
                 else (False, req))
              else (False, req)))
      else (False, req))"

subsection \<open>The loop\<close>

text \<open>One header line: a header, or the end of the head when there is no colon in it.\<close>

definition HttpContext_headerLine :: "http_context \<Rightarrow> string \<Rightarrow> http_context" where
  "HttpContext_headerLine c line =
     (let colon = std_find (CHR '':'') line in
      if colon \<noteq> length line
      then c\<lparr>ctx_request :=
             HttpRequest_addHeader (ctx_request c) (take colon line) (drop (colon + 1) line)\<rparr>
      else c\<lparr>ctx_state := kGotAll\<rparr>)"

lemma findCRLF_retrieve_less:
  assumes "Buffer_findCRLF buf = Some i"
  shows "Buffer_readableBytes (Buffer_retrieveUntil buf (i + 2)) < Buffer_readableBytes buf"
proof -
  have "Buffer_readableBytes buf \<noteq> 0"
  proof
    assume "Buffer_readableBytes buf = 0"
    then have "Buffer_findCRLF buf = None" by (simp add: Buffer_findCRLF_def Buffer_content_def)
    with assms show False by simp
  qed
  then show ?thesis
    by (auto simp: Buffer_retrieveUntil_def Buffer_retrieve_def Buffer_retrieveAll_def
        Buffer_readableBytes_def)
qed

function HttpContext_parseRequest ::
    "http_context \<Rightarrow> buffer \<Rightarrow> bool \<times> http_context \<times> buffer" where
  "HttpContext_parseRequest c buf =
     (case ctx_state c of
        kExpectRequestLine \<Rightarrow>
          (case Buffer_findCRLF buf of
             Some crlf \<Rightarrow>
               (case HttpContext_processRequestLine (ctx_request c) (take crlf (Buffer_content buf))
                of (ok, req) \<Rightarrow>
                  if ok then HttpContext_parseRequest
                               (c\<lparr>ctx_request := req, ctx_state := kExpectHeaders\<rparr>)
                               (Buffer_retrieveUntil buf (crlf + 2))
                  else (False, c\<lparr>ctx_request := req\<rparr>, buf))
           | None \<Rightarrow> (True, c, buf))
      | kExpectHeaders \<Rightarrow>
          (case Buffer_findCRLF buf of
             Some crlf \<Rightarrow> HttpContext_parseRequest
                            (HttpContext_headerLine c (take crlf (Buffer_content buf)))
                            (Buffer_retrieveUntil buf (crlf + 2))
           | None \<Rightarrow> (True, c, buf))
      | kExpectBody \<Rightarrow> (True, c, buf)
      | kGotAll \<Rightarrow> (True, c, buf))"
  by pat_completeness auto
termination
  by (relation "measure (\<lambda>(c, buf). Buffer_readableBytes buf)")
    (use findCRLF_retrieve_less in auto)

function parse_bytes :: "http_context \<Rightarrow> char list \<Rightarrow> bool \<times> http_context \<times> char list" where
  "parse_bytes c bs =
     (let crlf = std_search kCRLF bs in
      case ctx_state c of
        kExpectRequestLine \<Rightarrow>
          (if crlf < length bs then
             (case HttpContext_processRequestLine (ctx_request c) (take crlf bs) of (ok, req) \<Rightarrow>
                if ok then parse_bytes (c\<lparr>ctx_request := req, ctx_state := kExpectHeaders\<rparr>)
                             (drop (crlf + 2) bs)
                else (False, c\<lparr>ctx_request := req\<rparr>, bs))
           else (True, c, bs))
      | kExpectHeaders \<Rightarrow>
          (if crlf < length bs then
             parse_bytes (HttpContext_headerLine c (take crlf bs)) (drop (crlf + 2) bs)
           else (True, c, bs))
      | kExpectBody \<Rightarrow> (True, c, bs)
      | kGotAll \<Rightarrow> (True, c, bs))"
  by pat_completeness auto
termination by (relation "measure (\<lambda>(c, bs). length bs)") auto

declare HttpContext_parseRequest.simps [simp del]
declare parse_bytes.simps [simp del]

subsection \<open>The loop on the buffer refines the loop on bytes\<close>

lemma parseRequest_refines:
  assumes "Buffer_inv buf"
  shows "case HttpContext_parseRequest c buf of
           (ok, c', buf') \<Rightarrow> Buffer_inv buf' \<and>
             parse_bytes c (Buffer_content buf) = (ok, c', Buffer_content buf')"
  using assms
proof (induction c buf rule: HttpContext_parseRequest.induct)
  case (1 c buf)
  let ?i = "std_search kCRLF (Buffer_content buf)"
  note find = Buffer_findCRLF_content [OF "1.prems", unfolded Let_def]
  have next_buf: "Buffer_inv (Buffer_retrieveUntil buf n)"
    "Buffer_content (Buffer_retrieveUntil buf n) = drop n (Buffer_content buf)" for n
    using "1.prems" by (simp_all add: Buffer_retrieveUntil_def)
  show ?case
  proof (cases "?i < length (Buffer_content buf)")
    case False
    then show ?thesis using "1.prems"
      by (subst HttpContext_parseRequest.simps, subst parse_bytes.simps)
        (simp add: find Let_def split: ParseState.split del: length_Buffer_content)
  next
    case True
    then have F: "Buffer_findCRLF buf = Some ?i" by (simp add: find)
    obtain ok req where line:
      "HttpContext_processRequestLine (ctx_request c) (take ?i (Buffer_content buf)) = (ok, req)"
      by fastforce
    show ?thesis
    proof (cases "ctx_state c")
      case kExpectRequestLine
      note IH = "1.IH"(1) [OF kExpectRequestLine F line [symmetric] _ next_buf(1)]
      show ?thesis
      proof (cases ok)
        case ok: True
        show ?thesis using IH [OF ok] True ok line
          by (subst HttpContext_parseRequest.simps, subst parse_bytes.simps)
            (simp add: kExpectRequestLine F next_buf(2) Let_def del: length_Buffer_content)
      next
        case False
        then show ?thesis using True line "1.prems"
          by (subst HttpContext_parseRequest.simps, subst parse_bytes.simps)
            (simp add: kExpectRequestLine F Let_def del: length_Buffer_content)
      qed
    next
      case kExpectHeaders
      note IH = "1.IH"(2) [OF kExpectHeaders F next_buf(1)]
      show ?thesis using IH True
        by (subst HttpContext_parseRequest.simps, subst parse_bytes.simps)
          (simp add: kExpectHeaders F next_buf(2) Let_def del: length_Buffer_content)
    qed (use "1.prems" in \<open>subst HttpContext_parseRequest.simps, subst parse_bytes.simps,
           simp add: Let_def\<close>)+
  qed
qed

subsection \<open>Splitting the input makes no difference\<close>

lemma processRequestLine_idem:
  "HttpContext_processRequestLine req line = (ok, req') \<Longrightarrow>
   HttpContext_processRequestLine req' line = (ok, req')"
  by (auto simp: HttpContext_processRequestLine_def Let_def split: if_splits option.splits)

text \<open>One turn of the loop, by state.\<close>

lemma parse_bytes_wait: "std_search kCRLF bs = length bs \<Longrightarrow> parse_bytes c bs = (True, c, bs)"
  by (subst parse_bytes.simps) (simp add: Let_def split: ParseState.split)

lemma parse_bytes_done:
  "ctx_state c = kGotAll \<or> ctx_state c = kExpectBody \<Longrightarrow> parse_bytes c bs = (True, c, bs)"
  by (subst parse_bytes.simps) (auto simp: Let_def)

lemma parse_bytes_request_line:
  assumes "ctx_state c = kExpectRequestLine" and "std_search kCRLF bs < length bs"
    and "HttpContext_processRequestLine (ctx_request c) (take (std_search kCRLF bs) bs) = (ok, req)"
  shows "parse_bytes c bs =
           (if ok then parse_bytes (c\<lparr>ctx_request := req, ctx_state := kExpectHeaders\<rparr>)
                         (drop (std_search kCRLF bs + 2) bs)
            else (False, c\<lparr>ctx_request := req\<rparr>, bs))"
  using assms by (subst parse_bytes.simps) (simp add: Let_def)

lemma parse_bytes_header:
  assumes "ctx_state c = kExpectHeaders" and "std_search kCRLF bs < length bs"
  shows "parse_bytes c bs =
           parse_bytes (HttpContext_headerLine c (take (std_search kCRLF bs) bs))
             (drop (std_search kCRLF bs + 2) bs)"
  using assms by (subst parse_bytes.simps) (simp add: Let_def)

lemma parse_bytes_append:
  "parse_bytes c (a @ b) = (case parse_bytes c a of (ok, c', r) \<Rightarrow> parse_bytes c' (r @ b))"
proof (induction c a rule: parse_bytes.induct)
  case (1 c a)
  let ?i = "std_search kCRLF a"
  show ?case
  proof (cases "?i < length a")
    case False
    then have "?i = length a" using std_search_le [of kCRLF a] by simp
    then show ?thesis by (simp add: parse_bytes_wait)
  next
    case True
    have i: "std_search kCRLF (a @ b) = ?i" "?i < length (a @ b)" "take ?i (a @ b) = take ?i a"
      "drop (?i + 2) (a @ b) = drop (?i + 2) a @ b"
      using True search_crlf_append [OF True, of b] search_crlf_lt [OF True] by simp_all
    obtain ok req where line:
      "HttpContext_processRequestLine (ctx_request c) (take ?i a) = (ok, req)" by fastforce
    show ?thesis
    proof (cases "ctx_state c")
      case kExpectRequestLine
      note a = parse_bytes_request_line [OF kExpectRequestLine True line]
      have ab: "parse_bytes c (a @ b) =
           (if ok then parse_bytes (c\<lparr>ctx_request := req, ctx_state := kExpectHeaders\<rparr>)
                         (drop (?i + 2) a @ b)
            else (False, c\<lparr>ctx_request := req\<rparr>, a @ b))"
        using parse_bytes_request_line [of c "a @ b", unfolded i, OF kExpectRequestLine _ line] i(2)
        by simp
      show ?thesis
      proof (cases ok)
        case ok: True
        show ?thesis using "1.IH"(1) [OF refl kExpectRequestLine True line [symmetric] ok]
          unfolding a ab using ok by simp
      next
        case False
        let ?c = "c\<lparr>ctx_request := req\<rparr>"
        have "HttpContext_processRequestLine (ctx_request ?c) (take ?i a) = (ok, req)"
          using processRequestLine_idem [OF line] by simp
        then have "parse_bytes ?c (a @ b) = (False, ?c, a @ b)"
          using parse_bytes_request_line [of ?c "a @ b", unfolded i, of ok req] i(2) False
            kExpectRequestLine by simp
        with False show ?thesis unfolding a ab by simp
      qed
    next
      case kExpectHeaders
      note ab = parse_bytes_header [of c "a @ b", unfolded i, OF kExpectHeaders i(2)]
      show ?thesis
        using "1.IH"(2) [OF refl kExpectHeaders True]
        unfolding ab parse_bytes_header [OF kExpectHeaders True] .
    qed (simp_all add: parse_bytes_done)
  qed
qed

text \<open>
  The bytes of a connection arriving in pieces: each piece is appended to the input buffer
  and the parser is called, as \<open>TcpConnection::handleRead\<close> and \<open>HttpServer::onMessage\<close> do.
\<close>

fun feed :: "http_context \<Rightarrow> buffer \<Rightarrow> char list list \<Rightarrow> (bool \<times> http_context \<times> buffer) res" where
  "feed c buf [] = Inr (HttpContext_parseRequest c buf)"
| "feed c buf (x # xs) =
     and_then (Buffer_append (snd (snd (HttpContext_parseRequest c buf))) x) (\<lambda>buf'.
       feed (fst (snd (HttpContext_parseRequest c buf))) buf' xs)"

lemma feed_eq:
  "Buffer_inv buf \<Longrightarrow> \<exists>ok c' buf'. feed c buf xs = Inr (ok, c', buf') \<and> Buffer_inv buf' \<and>
     parse_bytes c (Buffer_content buf @ concat xs) = (ok, c', Buffer_content buf')"
proof (induction xs arbitrary: c buf)
  case Nil
  then show ?case
    using parseRequest_refines [OF Nil, of c] by (auto split: prod.splits)
next
  case (Cons x xs)
  obtain ok c1 buf1 where p: "HttpContext_parseRequest c buf = (ok, c1, buf1)"
    by (metis prod_cases3)
  have b1: "Buffer_inv buf1" "parse_bytes c (Buffer_content buf) = (ok, c1, Buffer_content buf1)"
    using parseRequest_refines [OF Cons.prems, of c] p by auto
  obtain buf2 where b2: "Buffer_append buf1 x = Inr buf2" "Buffer_inv buf2"
    "Buffer_content buf2 = Buffer_content buf1 @ x" using bq.put_ok [OF b1(1), of x] by blast
  have "parse_bytes c (Buffer_content buf @ concat (x # xs))
          = parse_bytes c1 (Buffer_content buf2 @ concat xs)"
    unfolding parse_bytes_append [of c "Buffer_content buf"] b1(2) by (simp add: b2(3))
  with Cons.IH [OF b2(2), of c1] p b2(1) show ?case by simp
qed

subsection \<open>Reading back a request\<close>

fun method_string :: "Method \<Rightarrow> string" where
  "method_string kInvalid = []"
| "method_string kGet = ''GET''"
| "method_string kPost = ''POST''"
| "method_string kHead = ''HEAD''"
| "method_string kPut = ''PUT''"
| "method_string kDelete = ''DELETE''"

fun version_string :: "Version \<Rightarrow> string" where
  "version_string kUnknown = []"
| "version_string kHttp10 = ''HTTP/1.0''"
| "version_string kHttp11 = ''HTTP/1.1''"

text \<open>A request as a client writes it (a specification, not code of the library).\<close>

record request_spec =
  rs_method :: Method
  rs_path :: string
  rs_query :: "string option"
  rs_version :: Version
  rs_headers :: "(string \<times> string) list"

definition render_line :: "request_spec \<Rightarrow> string" where
  "render_line r = method_string (rs_method r) @ '' '' @ rs_path r @
     (case rs_query r of None \<Rightarrow> [] | Some q \<Rightarrow> ''?'' @ q) @ '' '' @
     version_string (rs_version r)"

definition render_request :: "request_spec \<Rightarrow> char list" where
  "render_request r =
     line_bytes (render_line r # map (\<lambda>h. fst h @ '':'' @ snd h) (rs_headers r)) @ kCRLF"

definition clean_request :: "request_spec \<Rightarrow> bool" where
  "clean_request r \<longleftrightarrow>
     rs_method r \<noteq> kInvalid \<and> rs_version r \<noteq> kUnknown \<and>
     {CHR '' '', CHR ''?'', CR} \<inter> set (rs_path r) = {} \<and>
     (case rs_query r of None \<Rightarrow> True | Some q \<Rightarrow> {CHR '' '', CR} \<inter> set q = {}) \<and>
     (\<forall>h \<in> set (rs_headers r). {CHR '':'', CR} \<inter> set (fst h) = {} \<and> CR \<notin> set (snd h))"

text \<open>The request it stands for: later headers of the same name win.\<close>

definition request_of :: "request_spec \<Rightarrow> http_request" where
  "request_of r = \<lparr>req_method = rs_method r, req_version = rs_version r, req_path = rs_path r,
     req_query = (case rs_query r of None \<Rightarrow> [] | Some q \<Rightarrow> q),
     req_headers = map_of (rev (rs_headers r))\<rparr>"

lemma method_of_method_string: "m \<noteq> kInvalid \<Longrightarrow> method_of_string (method_string m) = Some m"
  by (cases m) (simp_all add: method_of_string_def)

lemma method_string_clean: "CHR '' '' \<notin> set (method_string m)" "CR \<notin> set (method_string m)"
  by (cases m; simp)+

lemma version_string_clean: "CR \<notin> set (version_string v)"
  by (cases v) simp_all

lemma processRequestLine_split:
  assumes "CHR '' '' \<notin> set m" and "method_of_string m = Some M" and "CHR '' '' \<notin> set t"
    and "v = ''HTTP/1.1'' \<and> V = kHttp11 \<or> v = ''HTTP/1.0'' \<and> V = kHttp10"
  shows "HttpContext_processRequestLine req (m @ CHR '' '' # t @ CHR '' '' # v) =
           (True, let q = std_find (CHR ''?'') t; req = req\<lparr>req_method := M, req_version := V\<rparr>
                  in if q \<noteq> length t then req\<lparr>req_path := take q t, req_query := drop (q + 1) t\<rparr>
                     else req\<lparr>req_path := t\<rparr>)"
proof -
  let ?rest = "t @ CHR '' '' # v"
  have f: "std_find (CHR '' '') (m @ CHR '' '' # ?rest) = length m"
    "std_find (CHR '' '') ?rest = length t"
    using std_find_append_hit [OF assms(1)] std_find_append_hit [OF assms(3)] by blast+
  have d: "drop (length m + 1) (m @ CHR '' '' # ?rest) = ?rest"
    "take (length m) (m @ CHR '' '' # ?rest) = m"
    "drop (length t + 1) ?rest = v" "take (length t) ?rest = t"
    "(length m \<noteq> length (m @ CHR '' '' # ?rest)) = True" "(length t \<noteq> length ?rest) = True"
    by simp_all
  show ?thesis
    unfolding HttpContext_processRequestLine_def Let_def f d if_True assms(2) option.case
    using assms(4) by auto
qed

lemma processRequestLine_render:
  assumes "clean_request r"
  shows "HttpContext_processRequestLine HttpRequest_new (render_line r)
           = (True, (request_of r)\<lparr>req_headers := Map.empty\<rparr>)"
proof -
  let ?t = "rs_path r @ (case rs_query r of None \<Rightarrow> [] | Some q \<Rightarrow> CHR ''?'' # q)"
  have line: "render_line r = method_string (rs_method r) @ CHR '' '' # ?t @
      CHR '' '' # version_string (rs_version r)"
    by (simp add: render_line_def split: option.split)
  have t: "CHR '' '' \<notin> set ?t"
    using assms by (auto simp: clean_request_def split: option.splits)
  have path: "CHR ''?'' \<notin> set (rs_path r)" using assms by (auto simp: clean_request_def)
  have m: "rs_method r \<noteq> kInvalid" using assms by (auto simp: clean_request_def)
  have v: "version_string (rs_version r) = ''HTTP/1.1'' \<and> rs_version r = kHttp11 \<or>
      version_string (rs_version r) = ''HTTP/1.0'' \<and> rs_version r = kHttp10"
    using assms by (cases "rs_version r") (auto simp: clean_request_def)
  note split = processRequestLine_split [OF method_string_clean(1) method_of_method_string [OF m] t v]
  show ?thesis
  proof (cases "rs_query r")
    case None
    with path have "std_find (CHR ''?'') ?t = length ?t" by (simp add: std_find_absent)
    with None show ?thesis unfolding line split
      by (simp add: Let_def request_of_def HttpRequest_new_def)
  next
    case (Some q)
    with std_find_append_hit [OF path, of q]
    have "std_find (CHR ''?'') ?t = length (rs_path r)" by simp
    with Some show ?thesis unfolding line split
      by (simp add: Let_def request_of_def HttpRequest_new_def)
  qed
qed

lemma kCRLF_line:
  assumes "CR \<notin> set l"
  shows "std_search kCRLF (l @ kCRLF @ rest) = length l"
    and "length l < length (l @ kCRLF @ rest)"
    and "take (length l) (l @ kCRLF @ rest) = l"
    and "drop (length l + 2) (l @ kCRLF @ rest) = rest"
  using search_crlf_line [OF assms, of rest] by (simp_all add: kCRLF_def)

lemma parse_header_line:
  assumes "ctx_state c = kExpectHeaders" and "CR \<notin> set l"
  shows "parse_bytes c (l @ kCRLF @ rest) = parse_bytes (HttpContext_headerLine c l) rest"
  using parse_bytes_header [of c "l @ kCRLF @ rest", unfolded kCRLF_line [OF assms(2)],
      OF assms(1) kCRLF_line(2) [OF assms(2)]] .

lemma parse_first_line:
  assumes "ctx_state c = kExpectRequestLine" and "CR \<notin> set l"
    and "HttpContext_processRequestLine (ctx_request c) l = (ok, req)"
  shows "parse_bytes c (l @ kCRLF @ rest) =
           (if ok then parse_bytes (c\<lparr>ctx_request := req, ctx_state := kExpectHeaders\<rparr>) rest
            else (False, c\<lparr>ctx_request := req\<rparr>, l @ kCRLF @ rest))"
  using parse_bytes_request_line [of c "l @ kCRLF @ rest", unfolded kCRLF_line [OF assms(2)],
      OF assms(1) kCRLF_line(2) [OF assms(2)] assms(3)] .

lemma headerLine_header:
  "CHR '':'' \<notin> set k \<Longrightarrow>
   HttpContext_headerLine c (k @ CHR '':'' # v) =
     c\<lparr>ctx_request := HttpRequest_addHeader (ctx_request c) k v\<rparr>"
  by (simp add: HttpContext_headerLine_def std_find_append_hit)

lemma headerLine_end: "CHR '':'' \<notin> set l \<Longrightarrow> HttpContext_headerLine c l = c\<lparr>ctx_state := kGotAll\<rparr>"
  using std_find_absent [of "CHR '':''" l] by (simp add: HttpContext_headerLine_def)

lemma parse_headers_render:
  assumes "ctx_state c = kExpectHeaders"
    and "\<forall>h \<in> set hs. {CHR '':'', CR} \<inter> set (fst h) = {} \<and> CR \<notin> set (snd h)"
  shows "parse_bytes c (line_bytes (map (\<lambda>h. fst h @ '':'' @ snd h) hs) @ kCRLF @ rest) =
           (True, c\<lparr>ctx_request := (ctx_request c)\<lparr>req_headers :=
                      req_headers (ctx_request c) ++ map_of (rev hs)\<rparr>,
                    ctx_state := kGotAll\<rparr>, rest)"
  using assms
proof (induction hs arbitrary: c)
  case Nil
  then show ?case
    using parse_header_line [OF Nil(1), of "[]" rest]
    by (simp add: line_bytes_def headerLine_end parse_bytes_done)
next
  case (Cons h hs)
  let ?l = "fst h @ CHR '':'' # snd h"
  have l: "CR \<notin> set ?l" "CHR '':'' \<notin> set (fst h)" using Cons.prems(2) by auto
  have split: "line_bytes (map (\<lambda>h. fst h @ '':'' @ snd h) (h # hs)) @ kCRLF @ rest =
     ?l @ kCRLF @ (line_bytes (map (\<lambda>h. fst h @ '':'' @ snd h) hs) @ kCRLF @ rest)"
    by (simp add: line_bytes_def)
  let ?c = "HttpContext_headerLine c ?l"
  have "parse_bytes ?c (line_bytes (map (\<lambda>h. fst h @ '':'' @ snd h) hs) @ kCRLF @ rest) =
           (True, ?c\<lparr>ctx_request := (ctx_request ?c)\<lparr>req_headers :=
                      req_headers (ctx_request ?c) ++ map_of (rev hs)\<rparr>,
                    ctx_state := kGotAll\<rparr>, rest)"
    using Cons.prems by (intro Cons.IH) (simp_all add: headerLine_header l)
  then show ?case
    unfolding split parse_header_line [OF Cons.prems(1) l(1)]
    by (simp add: headerLine_header [OF l(2)] HttpRequest_addHeader_def map_add_assoc [symmetric])
qed

lemma render_line_no_CR: "clean_request r \<Longrightarrow> CR \<notin> set (render_line r)"
  by (auto simp: render_line_def clean_request_def method_string_clean version_string_clean
      split: option.splits)

lemma HttpContext_new_fields:
  "ctx_state HttpContext_new = kExpectRequestLine" "ctx_request HttpContext_new = HttpRequest_new"
  by (simp_all add: HttpContext_new_def)

lemma parse_render_request:
  assumes "clean_request r"
  shows "parse_bytes HttpContext_new (render_request r @ rest) =
           (True, \<lparr>ctx_state = kGotAll, ctx_request = request_of r\<rparr>, rest)"
proof -
  let ?hs = "line_bytes (map (\<lambda>h. fst h @ '':'' @ snd h) (rs_headers r)) @ kCRLF @ rest"
  have "render_request r @ rest = render_line r @ kCRLF @ ?hs"
    by (simp add: render_request_def line_bytes_def)
  moreover have "parse_bytes HttpContext_new (render_line r @ kCRLF @ ?hs) =
      parse_bytes \<lparr>ctx_state = kExpectHeaders,
        ctx_request = (request_of r)\<lparr>req_headers := Map.empty\<rparr>\<rparr> ?hs"
    using parse_first_line [OF HttpContext_new_fields(1) render_line_no_CR [OF assms],
        unfolded HttpContext_new_fields, OF processRequestLine_render [OF assms]]
    by (simp add: HttpContext_new_def)
  moreover have "\<forall>h \<in> set (rs_headers r).
      {CHR '':'', CR} \<inter> set (fst h) = {} \<and> CR \<notin> set (snd h)"
    using assms by (simp add: clean_request_def)
  note parse_headers_render [OF _ this, of "\<lparr>ctx_state = kExpectHeaders,
    ctx_request = (request_of r)\<lparr>req_headers := Map.empty\<rparr>\<rparr>" rest]
  ultimately show ?thesis by (simp add: request_of_def)
qed

subsection \<open>What the request line must be\<close>

lemma std_find_hit_decomp:
  assumes "std_find c xs \<noteq> length xs"
  shows "\<exists>ys zs. xs = ys @ c # zs \<and> c \<notin> set ys \<and> std_find c xs = length ys"
proof -
  from assms have "c \<in> set xs" by (simp add: std_find_absent)
  then obtain ys zs where "xs = ys @ c # zs" "c \<notin> set ys" by (meson split_list_first)
  then show ?thesis using std_find_append_hit [of c ys zs] by blast
qed

definition request_line_ok :: "string \<Rightarrow> bool" where
  "request_line_ok line \<longleftrightarrow>
     (\<exists>m t v. line = m @ '' '' @ t @ '' '' @ v \<and>
        m \<in> {''GET'', ''POST'', ''HEAD'', ''PUT'', ''DELETE''} \<and> CHR '' '' \<notin> set t \<and>
        v \<in> {''HTTP/1.1'', ''HTTP/1.0''})"

lemma method_of_string_Some:
  "method_of_string m = Some M \<longleftrightarrow> M \<noteq> kInvalid \<and> m = method_string M"
  by (cases M) (auto simp: method_of_string_def)

lemma processRequestLine_accepts:
  "fst (HttpContext_processRequestLine req line) \<longleftrightarrow> request_line_ok line"
proof
  assume "request_line_ok line"
  then obtain m t v where line: "line = m @ '' '' @ t @ '' '' @ v"
    and m: "m \<in> {''GET'', ''POST'', ''HEAD'', ''PUT'', ''DELETE''}" and t: "CHR '' '' \<notin> set t"
    and v: "v \<in> {''HTTP/1.1'', ''HTTP/1.0''}" by (auto simp: request_line_ok_def)
  from m obtain M where M: "method_of_string m = Some M" by (auto simp: method_of_string_def)
  have "CHR '' '' \<notin> set m" using m by auto
  moreover have "v = ''HTTP/1.1'' \<and> (if v = ''HTTP/1.1'' then kHttp11 else kHttp10) = kHttp11 \<or>
      v = ''HTTP/1.0'' \<and> (if v = ''HTTP/1.1'' then kHttp11 else kHttp10) = kHttp10"
    using v by auto
  ultimately show "fst (HttpContext_processRequestLine req line)"
    using processRequestLine_split [OF _ M t, of v _ req] unfolding line by simp
next
  assume ok: "fst (HttpContext_processRequestLine req line)"
  have s1: "std_find (CHR '' '') line \<noteq> length line"
    using ok by (auto simp: HttpContext_processRequestLine_def Let_def split: if_splits)
  from std_find_hit_decomp [OF s1] obtain m rest where
    m: "line = m @ CHR '' '' # rest" "CHR '' '' \<notin> set m" "std_find (CHR '' '') line = length m"
    by blast
  note f1 = m(3) [unfolded m(1)]
  have s2: "std_find (CHR '' '') rest \<noteq> length rest"
    using ok f1 unfolding m(1)
    by (auto simp: HttpContext_processRequestLine_def Let_def split: if_splits option.splits)
  from std_find_hit_decomp [OF s2] obtain t v where
    t: "rest = t @ CHR '' '' # v" "CHR '' '' \<notin> set t" "std_find (CHR '' '') rest = length t"
    by blast
  note f2 = t(3) [unfolded t(1)]
  have "\<exists>M. method_of_string m = Some M"
    using ok f1 unfolding m(1)
    by (auto simp: HttpContext_processRequestLine_def Let_def split: if_splits option.splits)
  then have "m \<in> {''GET'', ''POST'', ''HEAD'', ''PUT'', ''DELETE''}"
    by (auto simp: method_of_string_def split: if_splits)
  moreover have "v \<in> {''HTTP/1.1'', ''HTTP/1.0''}"
    using ok f1 f2 unfolding m(1) t(1)
    by (auto simp: HttpContext_processRequestLine_def Let_def split: if_splits option.splits)
  ultimately show "request_line_ok line"
    unfolding request_line_ok_def using m(1) t(1,2) by auto
qed

subsection \<open>What a parsed request looks like\<close>

text \<open>
  A request whose line has been accepted: method and version are real ones, no blank is left in path
  and query and no question mark in the path. Header names never have a colon.
\<close>

definition line_typed :: "http_request \<Rightarrow> bool" where
  "line_typed r \<longleftrightarrow>
     req_method r \<noteq> kInvalid \<and> req_version r \<noteq> kUnknown \<and>
     CHR '' '' \<notin> set (req_path r) \<union> set (req_query r) \<and> CHR ''?'' \<notin> set (req_path r)"

definition well_typed :: "http_context \<Rightarrow> bool" where
  "well_typed c \<longleftrightarrow>
     ctx_state c \<noteq> kExpectBody \<and>
     (\<forall>k \<in> dom (req_headers (ctx_request c)). CHR '':'' \<notin> set k) \<and>
     (ctx_state c = kExpectRequestLine \<longrightarrow> CHR '' '' \<notin> set (req_query (ctx_request c))) \<and>
     (ctx_state c \<noteq> kExpectRequestLine \<longrightarrow> line_typed (ctx_request c))"

lemma processRequestLine_headers:
  "req_headers (snd (HttpContext_processRequestLine req line)) = req_headers req"
  by (simp add: HttpContext_processRequestLine_def Let_def split: option.split)

lemma take_std_find_free: "c \<notin> set (take (std_find c xs) xs)"
  by (auto simp: std_find_def takeWhile_eq_take [symmetric] dest: set_takeWhileD)

lemma processRequestLine_query:
  assumes "CHR '' '' \<notin> set (req_query req)"
  shows "CHR '' '' \<notin> set (req_query (snd (HttpContext_processRequestLine req line)))"
proof -
  have "CHR '' '' \<notin> set (drop n (take (std_find (CHR '' '') xs) xs))" for xs n
    using take_std_find_free [of "CHR '' ''" xs] by (meson in_set_dropD)
  with assms show ?thesis
    by (simp add: HttpContext_processRequestLine_def Let_def split: option.split)
qed

lemma processRequestLine_typed:
  assumes "HttpContext_processRequestLine req line = (True, req')" and "CHR '' '' \<notin> set (req_query req)"
  shows "line_typed req'"
proof -
  from assms(1) have "request_line_ok line" using processRequestLine_accepts [of req line] by simp
  then obtain m t v where line: "line = m @ '' '' @ t @ '' '' @ v"
    and m: "m \<in> {''GET'', ''POST'', ''HEAD'', ''PUT'', ''DELETE''}" and t: "CHR '' '' \<notin> set t"
    and v: "v \<in> {''HTTP/1.1'', ''HTTP/1.0''}" by (auto simp: request_line_ok_def)
  obtain M where M: "method_of_string m = Some M" using m by (auto simp: method_of_string_def)
  define V where "V = (if v = ''HTTP/1.1'' then kHttp11 else kHttp10)"
  let ?q = "std_find (CHR ''?'') t"
  have "CHR '' '' \<notin> set m" using m by auto
  moreover have "v = ''HTTP/1.1'' \<and> V = kHttp11 \<or> v = ''HTTP/1.0'' \<and> V = kHttp10" using v by (auto simp: V_def)
  ultimately have req': "req' = (let req = req\<lparr>req_method := M, req_version := V\<rparr>
      in if ?q \<noteq> length t then req\<lparr>req_path := take ?q t, req_query := drop (?q + 1) t\<rparr>
         else req\<lparr>req_path := t\<rparr>)"
    using processRequestLine_split [OF _ M t, of v V req] assms(1) line by (simp add: Let_def)
  have "M \<noteq> kInvalid" "V \<noteq> kUnknown" using M by (simp_all add: method_of_string_Some V_def)
  moreover have "CHR '' '' \<notin> set (take n t)" "CHR '' '' \<notin> set (drop n t)" for n
    using t by (meson in_set_takeD in_set_dropD)+
  moreover have "?q = length t \<Longrightarrow> CHR ''?'' \<notin> set t" by (simp add: std_find_absent)
  ultimately show ?thesis
    using t assms(2) take_std_find_free [of "CHR ''?''" t] unfolding req'
    by (auto simp: line_typed_def Let_def)
qed

lemma headerLine_typed:
  assumes "well_typed c" and "ctx_state c = kExpectHeaders"
  shows "well_typed (HttpContext_headerLine c line)"
  using assms take_std_find_free [of "CHR '':''" line]
  by (auto simp: well_typed_def HttpContext_headerLine_def HttpRequest_addHeader_def line_typed_def Let_def
      split: if_splits)

lemma parse_bytes_typed:
  "well_typed c \<Longrightarrow> well_typed (fst (snd (parse_bytes c bs)))"
proof (induction c bs rule: parse_bytes.induct)
  case (1 c bs)
  let ?i = "std_search kCRLF bs"
  show ?case
  proof (cases "?i < length bs")
    case False
    then have "?i = length bs" using std_search_le [of kCRLF bs] by simp
    then show ?thesis using "1.prems" by (simp add: parse_bytes_wait)
  next
    case True
    show ?thesis
    proof (cases "ctx_state c")
      case kExpectRequestLine
      let ?line = "HttpContext_processRequestLine (ctx_request c) (take ?i bs)"
      obtain ok req where line: "?line = (ok, req)" by fastforce
      have query: "CHR '' '' \<notin> set (req_query (ctx_request c))"
        using "1.prems" kExpectRequestLine by (simp add: well_typed_def)
      have req: "req_headers req = req_headers (ctx_request c)" "CHR '' '' \<notin> set (req_query req)"
        using processRequestLine_headers [of "ctx_request c"] processRequestLine_query [OF query] line
        by (metis snd_conv)+
      note turn = parse_bytes_request_line [OF kExpectRequestLine True line]
      show ?thesis
      proof (cases ok)
        case ok: True
        have "line_typed req" using processRequestLine_typed [OF _ query] line ok by simp
        then have "well_typed (c\<lparr>ctx_request := req, ctx_state := kExpectHeaders\<rparr>)"
          using "1.prems" req by (simp add: well_typed_def)
        from "1.IH"(1) [OF refl kExpectRequestLine True line [symmetric] ok this] show ?thesis
          unfolding turn using ok by simp
      next
        case False
        then show ?thesis unfolding turn using "1.prems" req kExpectRequestLine by (simp add: well_typed_def)
      qed
    next
      case kExpectHeaders
      from "1.IH"(2) [OF refl kExpectHeaders True headerLine_typed [OF "1.prems" kExpectHeaders]] show ?thesis
        unfolding parse_bytes_header [OF kExpectHeaders True] .
    qed (use "1.prems" in \<open>simp_all add: parse_bytes_done\<close>)
  qed
qed

subsection \<open>Properties\<close>

text \<open>
  C13: How TCP splits a request into pieces does not matter: for any parser state and any
  well-formed input buffer, feeding the same bytes in two different splittings gives the same
  verdict, the same parser state and request, and the same unread bytes, without a fault. This
  holds for splits inside CR LF and for refused requests too.
\<close>

theorem parse_split_invariance:
  assumes "Buffer_inv buf" and "concat xs = concat ys"
  shows "\<exists>ok c' b1 b2. feed c buf xs = Inr (ok, c', b1) \<and> feed c buf ys = Inr (ok, c', b2) \<and>
           Buffer_content b1 = Buffer_content b2"
  using feed_eq [OF assms(1), of c xs] feed_eq [OF assms(1), of c ys] assms(2) by auto

theorem parse_split_invariance_witness:
  "\<exists>ok c' b1 b2.
     feed HttpContext_new Buffer_new [''GET / HTTP/1.1'' @ [CR], CHR 0x0A # kCRLF] = Inr (ok, c', b1) \<and>
     feed HttpContext_new Buffer_new [''GE'', ''T / HTTP/1.1'' @ kCRLF @ kCRLF] = Inr (ok, c', b2) \<and>
     Buffer_content b1 = Buffer_content b2"
  using parse_split_invariance [OF Buffer_new_inv,
    of "[''GET / HTTP/1.1'' @ [CR], CHR 0x0A # kCRLF]" "[''GE'', ''T / HTTP/1.1'' @ kCRLF @ kCRLF]"]
  by (simp add: kCRLF_def)

text \<open>
  C16: A request that a client writes out is read back, however its bytes arrive: the parser
  reports success and completion, the request has the written method, path, query, version
  and headers (of equal names the last), and the bytes behind the head stay in the buffer.
  The path and query must be free of the separators, the header names of colons.
\<close>

theorem request_roundtrip:
  assumes "clean_request r" and "concat xs = render_request r @ rest"
  shows "\<exists>c' buf'. feed HttpContext_new Buffer_new xs = Inr (True, c', buf') \<and>
           HttpContext_gotAll c' \<and> ctx_request c' = request_of r \<and> Buffer_content buf' = rest"
proof -
  obtain ok c' buf' where f: "feed HttpContext_new Buffer_new xs = Inr (ok, c', buf')"
    "parse_bytes HttpContext_new (concat xs) = (ok, c', Buffer_content buf')"
    using feed_eq [OF Buffer_new_inv, of HttpContext_new xs] by auto
  with parse_render_request [OF assms(1), of rest] show ?thesis
    unfolding assms(2) by (simp add: HttpContext_gotAll_def)
qed

theorem request_roundtrip_witness:
  "\<exists>c' buf'. feed HttpContext_new Buffer_new
       [''GET /a?x=1 HT'', ''TP/1.1'' @ kCRLF @ ''K:v'' @ kCRLF @ kCRLF @ ''zz''] = Inr (True, c', buf') \<and>
     req_path (ctx_request c') = ''/a'' \<and> req_query (ctx_request c') = ''x=1'' \<and>
     HttpRequest_getHeader (ctx_request c') ''K'' = ''v'' \<and> Buffer_content buf' = ''zz''"
proof -
  let ?r = "\<lparr>rs_method = kGet, rs_path = ''/a'', rs_query = Some ''x=1'', rs_version = kHttp11,
    rs_headers = [(''K'', ''v'')]\<rparr>"
  have clean: "clean_request ?r" by (simp add: clean_request_def)
  have "concat [''GET /a?x=1 HT'', ''TP/1.1'' @ kCRLF @ ''K:v'' @ kCRLF @ kCRLF @ ''zz'']
      = render_request ?r @ ''zz''"
    by (simp add: render_request_def render_line_def line_bytes_def)
  from request_roundtrip [OF clean this] show ?thesis
    by (auto simp: request_of_def HttpRequest_getHeader_def)
qed

text \<open>
  A request line is accepted exactly when it is one of the five methods, a target without
  spaces and \<open>HTTP/1.1\<close> or \<open>HTTP/1.0\<close>, separated by single spaces; everything else is
  refused, whatever the request object held before.
\<close>

lemma request_line_accepted_iff:
  "fst (HttpContext_processRequestLine req line) \<longleftrightarrow>
     (\<exists>m t v. line = m @ '' '' @ t @ '' '' @ v \<and>
        m \<in> {''GET'', ''POST'', ''HEAD'', ''PUT'', ''DELETE''} \<and> CHR '' '' \<notin> set t \<and>
        v \<in> {''HTTP/1.1'', ''HTTP/1.0''})"
  unfolding processRequestLine_accepts request_line_ok_def by (rule refl)

text \<open>
  The header section ends at the first line without a colon, empty or not: such a line
  completes the request, is discarded, and the lines after it stay unread in the buffer and
  never become headers. (HTTP ends the head at an empty line only.)
\<close>

lemma colonless_line_ends_head:
  assumes "Buffer_inv buf" and "ctx_state c = kExpectHeaders"
    and "Buffer_content buf = l @ kCRLF @ rest" and "CR \<notin> set l" and "CHR '':'' \<notin> set l"
  shows "\<exists>buf'. HttpContext_parseRequest c buf = (True, c\<lparr>ctx_state := kGotAll\<rparr>, buf') \<and>
           Buffer_content buf' = rest"
proof -
  have "parse_bytes c (Buffer_content buf) = (True, c\<lparr>ctx_state := kGotAll\<rparr>, rest)"
    unfolding assms(3) parse_header_line [OF assms(2,4)] headerLine_end [OF assms(5)]
    by (simp add: parse_bytes_done)
  with parseRequest_refines [OF assms(1), of c] show ?thesis by (auto split: prod.splits)
qed

lemma colonless_line_ends_head_witness:
  "\<exists>buf buf'. Buffer_content buf = ''broken'' @ kCRLF @ ''Host: h'' @ kCRLF @ kCRLF \<and>
     HttpContext_parseRequest (HttpContext_new\<lparr>ctx_state := kExpectHeaders\<rparr>) buf
       = (True, HttpContext_new\<lparr>ctx_state := kGotAll\<rparr>, buf') \<and>
     Buffer_content buf' = ''Host: h'' @ kCRLF @ kCRLF"
proof -
  let ?bytes = "''broken'' @ kCRLF @ ''Host: h'' @ kCRLF @ kCRLF"
  obtain buf where buf: "Buffer_inv buf" "Buffer_content buf = ?bytes"
    using bq.put_ok [OF Buffer_new_inv, of ?bytes] by auto
  from colonless_line_ends_head [OF buf(1) _ buf(2), of "HttpContext_new\<lparr>ctx_state := kExpectHeaders\<rparr>"]
  show ?thesis using buf(2) by auto
qed

text \<open>
  A header value is everything behind the colon: the space that conventionally follows
  it is part of what \<open>getHeader\<close> returns.
\<close>

theorem header_value_keeps_space:
  assumes "CHR '':'' \<notin> set k"
  shows "HttpRequest_getHeader
           (ctx_request (HttpContext_headerLine c (k @ '': '' @ v))) k = '' '' @ v"
  using headerLine_header [OF assms, of c "'' '' @ v"]
  by (simp add: HttpRequest_getHeader_def HttpRequest_addHeader_def)

theorem header_value_keeps_space_witness:
  "HttpRequest_getHeader (ctx_request (HttpContext_headerLine HttpContext_new ''Host: a'')) ''Host''
     = '' a''"
  using header_value_keeps_space [of "''Host''" HttpContext_new "''a''"] by simp


text \<open>
  C17: typing of requests. Whatever bytes arrive, in whatever pieces, a context keeps its type: once a
  request line has been accepted the method and the version are real ones, path and query are free
  of blanks and the path of question marks, no header name has a colon, and \<open>kExpectBody\<close> is never
  entered; \<open>reset\<close> gives a context of that type again. A new context has it.
\<close>

theorem parser_keeps_type:
  assumes "Buffer_inv buf" and "well_typed c"
  shows "well_typed HttpContext_new \<and>
    (\<exists>ok c' buf'. feed c buf xs = Inr (ok, c', buf') \<and> Buffer_inv buf' \<and> well_typed c' \<and>
       well_typed (HttpContext_reset c') \<and> (HttpContext_gotAll c' \<longrightarrow> line_typed (ctx_request c')))"
proof
  show new: "well_typed HttpContext_new"
    by (simp add: well_typed_def HttpContext_new_def HttpRequest_new_def)
  obtain ok c' buf' where f: "feed c buf xs = Inr (ok, c', buf')" "Buffer_inv buf'"
    "parse_bytes c (Buffer_content buf @ concat xs) = (ok, c', Buffer_content buf')"
    using feed_eq [OF assms(1), of c xs] by blast
  have "well_typed c'" using parse_bytes_typed [OF assms(2), of "Buffer_content buf @ concat xs"] f(3) by simp
  moreover have "HttpContext_reset c' = HttpContext_new"
    by (simp add: HttpContext_reset_def HttpContext_new_def HttpRequest_swap_def)
  moreover have "HttpContext_gotAll c' \<longrightarrow> line_typed (ctx_request c')"
    using \<open>well_typed c'\<close> by (simp add: HttpContext_gotAll_def well_typed_def)
  ultimately show "\<exists>ok c' buf'. feed c buf xs = Inr (ok, c', buf') \<and> Buffer_inv buf' \<and> well_typed c' \<and>
       well_typed (HttpContext_reset c') \<and> (HttpContext_gotAll c' \<longrightarrow> line_typed (ctx_request c'))"
    using f(1,2) new by metis
qed

theorem parser_keeps_type_witness:
  "\<exists>ok c' buf'. feed HttpContext_new Buffer_new [''PUT /a?b HTTP/1.0'' @ kCRLF, ''k:v'' @ kCRLF] = Inr (ok, c', buf') \<and>
     well_typed c'"
  using parser_keeps_type [OF Buffer_new_inv, of HttpContext_new
      "[''PUT /a?b HTTP/1.0'' @ kCRLF, ''k:v'' @ kCRLF]"]
  by (force simp: well_typed_def HttpContext_new_def HttpRequest_new_def)

end
