(* ===== verification/Http_Static.thy ===== *)
theory Http_Static
  imports Http_Context
begin

section \<open>StaticFileServer, MimeType and the demo handler (src/net/http, src/main.cpp)\<close>

text \<open>
  The request handlers: \<open>StaticFileServer::onRequest\<close> with \<open>urlDecode\<close>, \<open>serveFile\<close> and
  \<open>MimeType::getType\<close>, and the handler of \<open>main.cpp\<close>. The file system is a parameter
  \<open>fs\<close>: what opening a path for reading gives. \<open>std::stoi\<close> in base 16 is modelled as the
  standard describes it (white space, sign, optional \<open>0x\<close>, digits), its exceptions are the
  fault \<open>UncaughtException\<close>, because no caller up to \<open>main\<close> catches them.
\<close>

subsection \<open>MIME types\<close>

definition std_rfind :: "char \<Rightarrow> string \<Rightarrow> nat option" where
  "std_rfind c s =
     (let n = std_find c (rev s) in if n = length s then None else Some (length s - 1 - n))"

definition mime_table :: "(string \<times> string) list" where
  "mime_table =
    [(''html'', ''text/html''), (''htm'', ''text/html''), (''css'', ''text/css''),
     (''js'', ''application/javascript''), (''json'', ''application/json''),
     (''png'', ''image/png''), (''jpg'', ''image/jpeg''), (''jpeg'', ''image/jpeg''),
     (''gif'', ''image/gif''), (''ico'', ''image/x-icon''), (''svg'', ''image/svg+xml''),
     (''txt'', ''text/plain''), (''pdf'', ''application/pdf''), (''zip'', ''application/zip''),
     (''mp4'', ''video/mp4'')]"

definition MimeType_getType :: "string \<Rightarrow> string" where
  "MimeType_getType path =
     (case std_rfind (CHR ''.'') path of
        None \<Rightarrow> ''application/octet-stream''
      | Some pos \<Rightarrow>
          (case map_of mime_table (drop (pos + 1) path) of
             Some t \<Rightarrow> t
           | None \<Rightarrow> ''application/octet-stream''))"

lemma std_rfind_last:
  assumes "c \<notin> set ext"
  shows "std_rfind c (p @ c # ext) = Some (length p)"
proof -
  have "std_find c (rev (p @ c # ext)) = length ext"
    using assms std_find_append_hit [of c "rev ext" "rev p"] by simp
  then show ?thesis by (simp add: std_rfind_def Let_def)
qed

lemma MimeType_extension:
  "CHR ''.'' \<notin> set ext \<Longrightarrow>
   MimeType_getType (p @ ''.'' @ ext) =
     (case map_of mime_table ext of Some t \<Rightarrow> t | None \<Rightarrow> ''application/octet-stream'')"
  by (simp add: MimeType_getType_def std_rfind_last)

lemma MimeType_clean: "CR \<notin> set (MimeType_getType path)"
proof -
  have "\<forall>e \<in> set mime_table. CR \<notin> set (snd e)" by (simp add: mime_table_def)
  then show ?thesis
    by (auto simp: MimeType_getType_def dest!: map_of_SomeD split: option.splits)
qed

subsection \<open>Percent decoding\<close>

definition hex_value :: "char \<Rightarrow> nat option" where
  "hex_value c =
     (let n = of_char c :: nat in
      if 48 \<le> n \<and> n \<le> 57 then Some (n - 48)
      else if 65 \<le> n \<and> n \<le> 70 then Some (n - 55)
      else if 97 \<le> n \<and> n \<le> 102 then Some (n - 87)
      else None)"

definition is_hex :: "char \<Rightarrow> bool" where
  "is_hex c = (hex_value c \<noteq> None)"

definition is_space :: "char \<Rightarrow> bool" where
  "is_space c = ((of_char c :: nat) = 32 \<or> 9 \<le> (of_char c :: nat) \<and> (of_char c :: nat) \<le> 13)"

definition hex_number :: "string \<Rightarrow> int" where
  "hex_number ds =
     foldl (\<lambda>n c. 16 * n + int (case hex_value c of Some v \<Rightarrow> v | None \<Rightarrow> 0)) 0 ds"

definition std_stoi16 :: "string \<Rightarrow> int res" where
  "std_stoi16 str =
     (let s = dropWhile is_space str;
          neg = (s \<noteq> [] \<and> hd s = CHR ''-'');
          s = (if s \<noteq> [] \<and> (hd s = CHR ''-'' \<or> hd s = CHR ''+'') then tl s else s);
          s = (if 3 \<le> length s \<and> s ! 0 = CHR ''0'' \<and> (s ! 1 = CHR ''x'' \<or> s ! 1 = CHR ''X'') \<and>
                  is_hex (s ! 2) then drop 2 s else s);
          ds = takeWhile is_hex s;
          v = (if neg then - hex_number ds else hex_number ds)
      in if ds = [] then Inl UncaughtException
         else if v < - (2 ^ 31) \<or> 2 ^ 31 \<le> v then Inl UncaughtException
         else Inr v)"

definition char_cast :: "int \<Rightarrow> char" where
  "char_cast n = char_of (nat (n mod 256))"

function StaticFileServer_urlDecode :: "string \<Rightarrow> string res" where
  "StaticFileServer_urlDecode [] = Inr []"
| "StaticFileServer_urlDecode (c # cs) =
     (if c = CHR ''%'' \<and> 2 \<le> length cs then
        and_then (std_stoi16 (take 2 cs)) (\<lambda>hex.
        map_res (Cons (char_cast hex)) (StaticFileServer_urlDecode (drop 2 cs)))
      else if c = CHR ''+'' then map_res (Cons (CHR '' '')) (StaticFileServer_urlDecode cs)
      else map_res (Cons c) (StaticFileServer_urlDecode cs))"
  by pat_completeness auto
termination by (relation "measure length") auto

subsection \<open>Serving a file\<close>

text \<open>
  What opening a path gives: nothing, a file with its bytes, or a stream whose size cannot be
  determined (\<open>tellg\<close> fails), for which the constructor of the content string throws.
  \<open>ifstream\<close> takes the path up to its first NUL character.
\<close>

datatype opened = NotOpened | OpenedFile string | OpenedUnsized

definition c_str :: "string \<Rightarrow> string" where
  "c_str s = takeWhile (\<lambda>c. c \<noteq> CHR 0x00) s"

definition StaticFileServer_serveFile ::
    "(string \<Rightarrow> opened) \<Rightarrow> string \<Rightarrow> http_response \<Rightarrow> (bool \<times> http_response) res" where
  "StaticFileServer_serveFile fs path resp =
     (case fs (c_str path) of
        NotOpened \<Rightarrow> Inr (False, resp)
      | OpenedUnsized \<Rightarrow> Inl UncaughtException
      | OpenedFile content \<Rightarrow>
          (let resp = resp\<lparr>statusCode := k200Ok, statusMessage := ''OK''\<rparr>;
               resp = HttpResponse_setContentType resp (MimeType_getType path)
           in Inr (True, resp\<lparr>resp_body := content\<rparr>)))"

definition std_contains :: "string \<Rightarrow> string \<Rightarrow> bool" where
  "std_contains pat s \<longleftrightarrow> std_search pat s < length s"

definition StaticFileServer_onRequest ::
    "(string \<Rightarrow> opened) \<Rightarrow> string \<Rightarrow> http_request \<Rightarrow> http_response \<Rightarrow> http_response res" where
  "StaticFileServer_onRequest fs rootDir req resp =
     and_then (StaticFileServer_urlDecode (req_path req)) (\<lambda>path.
     if std_contains ''..'' path then
       Inr (resp\<lparr>statusCode := k400BadRequest, statusMessage := ''Bad Request'',
                 resp_body := ''400 Bad Request''\<rparr>)
     else
       (let path = (if path = ''/'' then ''/index.html'' else path);
            filePath = rootDir @ path
        in and_then (StaticFileServer_serveFile fs filePath resp) (\<lambda>(served, resp).
           if served then Inr resp
           else
             (let resp = resp\<lparr>statusCode := k404NotFound, statusMessage := ''Not Found''\<rparr>;
                  resp = HttpResponse_setContentType resp ''text/html''
              in Inr (resp\<lparr>resp_body := ''<h1>404 Not Found</h1>''\<rparr>)))))"

subsection \<open>The handler of main.cpp\<close>

definition main_handler :: "http_request \<Rightarrow> http_response \<Rightarrow> http_response" where
  "main_handler req resp =
     (if req_path req = ''/'' then
        (HttpResponse_setContentType
           (resp\<lparr>statusCode := k200Ok, statusMessage := ''OK''\<rparr>) ''text/html'')
           \<lparr>resp_body := ''<h1>Hello, AgoraIM!</h1>''\<rparr>
      else if req_path req = ''/hello'' then
        (HttpResponse_setContentType
           (resp\<lparr>statusCode := k200Ok, statusMessage := ''OK''\<rparr>) ''text/plain'')
           \<lparr>resp_body := ''Hello, World!''\<rparr>
      else
        resp\<lparr>statusCode := k404NotFound, statusMessage := ''Not Found'',
             resp_body := ''404 Not Found''\<rparr>)"

subsection \<open>Decoding inverts every encoding\<close>

text \<open>
  \<open>percent_encodes s e\<close>: \<open>e\<close> is one of the ways to encode \<open>s\<close> in a URL: a byte other than
  percent and plus as itself, a space as plus, any byte as percent and two hex digits.
\<close>

inductive percent_encodes :: "string \<Rightarrow> string \<Rightarrow> bool" where
  enc_nil: "percent_encodes [] []"
| enc_plain: "percent_encodes s e \<Longrightarrow> c \<noteq> CHR ''%'' \<Longrightarrow> c \<noteq> CHR ''+'' \<Longrightarrow>
     percent_encodes (c # s) (c # e)"
| enc_plus: "percent_encodes s e \<Longrightarrow> percent_encodes (CHR '' '' # s) (CHR ''+'' # e)"
| enc_hex: "percent_encodes s e \<Longrightarrow> hex_value h = Some a \<Longrightarrow> hex_value l = Some b \<Longrightarrow>
     percent_encodes (char_of (16 * a + b) # s) (CHR ''%'' # h # l # e)"

lemma hex_value_bound: "hex_value c = Some v \<Longrightarrow> v < 16"
  by (auto simp: hex_value_def Let_def split: if_splits)

lemma hex_not_special:
  assumes "hex_value c = Some v"
  shows "\<not> is_space c" "c \<noteq> CHR ''-''" "c \<noteq> CHR ''+''"
  using assms by (auto simp: hex_value_def is_space_def Let_def split: if_splits)

lemma std_stoi16_two:
  assumes "hex_value h = Some a" and "hex_value l = Some b"
  shows "std_stoi16 [h, l] = Inr (int (16 * a + b))"
proof -
  have "a < 16" "b < 16" using assms hex_value_bound by blast+
  with assms hex_not_special [OF assms(1)] show ?thesis
    by (simp add: std_stoi16_def is_hex_def hex_number_def Let_def)
qed

lemma char_cast_int: "n < 256 \<Longrightarrow> char_cast (int n) = char_of n"
  by (simp add: char_cast_def nat_mod_distrib)

lemma urlDecode_percent_encodes: "percent_encodes s e \<Longrightarrow> StaticFileServer_urlDecode e = Inr s"
proof (induction rule: percent_encodes.induct)
  case (enc_hex s e h a l b)
  have "16 * a + b < 256"
    using hex_value_bound [OF enc_hex.hyps(2)] hex_value_bound [OF enc_hex.hyps(3)] by simp
  with char_cast_int [OF this] enc_hex show ?case by (simp add: std_stoi16_two)
qed simp_all

text \<open>
  A percent sign with fewer than two characters behind it is no escape: it stands for itself, at the
  end of the target.
\<close>

definition stray_percent :: "string \<Rightarrow> bool" where
  "stray_percent t \<longleftrightarrow> t = [] \<or> t = ''%'' \<or> (\<exists>c. c \<noteq> CHR ''+'' \<and> t = [CHR ''%'', c])"

lemma urlDecode_stray: "stray_percent t \<Longrightarrow> StaticFileServer_urlDecode t = Inr t"
  by (auto simp: stray_percent_def)

lemma urlDecode_append:
  "percent_encodes s e \<Longrightarrow> StaticFileServer_urlDecode t = Inr t' \<Longrightarrow>
   StaticFileServer_urlDecode (e @ t) = Inr (s @ t')"
proof (induction rule: percent_encodes.induct)
  case (enc_hex s e h a l b)
  have "16 * a + b < 256"
    using hex_value_bound [OF enc_hex.hyps(2)] hex_value_bound [OF enc_hex.hyps(3)] by simp
  with char_cast_int [OF this] enc_hex show ?case by (simp add: std_stoi16_two)
qed simp_all

text \<open>A malformed escape behind a well-formed prefix throws.\<close>

lemma urlDecode_bad_escape:
  "percent_encodes s e \<Longrightarrow> std_stoi16 [a, b] = Inl x \<Longrightarrow>
   StaticFileServer_urlDecode (e @ CHR ''%'' # a # b # r) = Inl x"
proof (induction rule: percent_encodes.induct)
  case (enc_hex s e h v l w)
  then show ?case by (simp add: std_stoi16_two)
qed simp_all

lemma std_stoi16_fault: "std_stoi16 s = Inl x \<Longrightarrow> x = UncaughtException"
  by (auto simp: std_stoi16_def Let_def split: if_splits)

subsection \<open>Which paths are opened\<close>

lemma std_contains_iff:
  assumes "pat \<noteq> []"
  shows "std_contains pat s \<longleftrightarrow> (\<exists>a b. s = a @ pat @ b)"
proof
  assume "std_contains pat s"
  then have "is_prefix pat (drop (std_search pat s) s)"
    unfolding std_contains_def by (rule std_search_hit)
  then show "\<exists>a b. s = a @ pat @ b"
    unfolding is_prefix_iff by (metis append_take_drop_id)
next
  assume "\<exists>a b. s = a @ pat @ b"
  then obtain a b where s: "s = a @ pat @ b" by blast
  have "is_prefix pat (drop (length a) s)" unfolding s is_prefix_iff by simp
  then have "\<not> length a < std_search pat s" using std_search_first by blast
  moreover have "length a < length s" using assms unfolding s by simp
  ultimately show "std_contains pat s" by (simp add: std_contains_def)
qed

lemma contains_dotdot_append:
  "std_contains ''..'' s \<Longrightarrow> std_contains ''..'' (s @ t)"
  by (auto simp: std_contains_iff) (metis append_assoc append_Cons)

lemma contains_dotdot_c_str: "std_contains ''..'' (c_str s) \<Longrightarrow> std_contains ''..'' s"
  using contains_dotdot_append [of "c_str s" "dropWhile (\<lambda>c. c \<noteq> CHR 0x00) s"]
  by (simp add: c_str_def)

lemma c_str_append: "CHR 0x00 \<notin> set a \<Longrightarrow> c_str (a @ b) = a @ c_str b"
  unfolding c_str_def by (subst takeWhile_append2) auto

lemma c_str_id: "CHR 0x00 \<notin> set a \<Longrightarrow> c_str a = a"
  using c_str_append [of a "[]"] by (simp add: c_str_def)

lemma onRequest_file_system:
  assumes root: "CHR 0x00 \<notin> set rootDir"
    and agree: "\<And>q. \<not> std_contains ''..'' q \<Longrightarrow> fs1 (rootDir @ q) = fs2 (rootDir @ q)"
  shows "StaticFileServer_onRequest fs1 rootDir req resp =
         StaticFileServer_onRequest fs2 rootDir req resp"
proof (cases "StaticFileServer_urlDecode (req_path req)")
  case (Inl e)
  then show ?thesis by (simp add: StaticFileServer_onRequest_def)
next
  case (Inr path)
  let ?path = "if path = ''/'' then ''/index.html'' else path"
  show ?thesis
  proof (cases "std_contains ''..'' path")
    case True
    with Inr show ?thesis by (simp add: StaticFileServer_onRequest_def)
  next
    case False
    then have "\<not> std_contains ''..'' ?path" by (simp add: std_contains_def)
    then have "\<not> std_contains ''..'' (c_str ?path)" using contains_dotdot_c_str by blast
    from agree [OF this] have "fs1 (c_str (rootDir @ ?path)) = fs2 (c_str (rootDir @ ?path))"
      unfolding c_str_append [OF root] .
    then have "StaticFileServer_serveFile fs1 (rootDir @ ?path) resp =
               StaticFileServer_serveFile fs2 (rootDir @ ?path) resp"
      by (simp only: StaticFileServer_serveFile_def)
    with Inr False show ?thesis by (simp only: StaticFileServer_onRequest_def and_then_Inr Let_def)
  qed
qed

text \<open>The file that a decoded path names, and the answer when it can be read.\<close>

definition site_file :: "string \<Rightarrow> string \<Rightarrow> string" where
  "site_file rootDir p = rootDir @ (if p = ''/'' then ''/index.html'' else p)"

lemma onRequest_file:
  assumes enc: "percent_encodes p (req_path req)" and dots: "\<not> std_contains ''..'' p"
    and nul: "CHR 0x00 \<notin> set (site_file rootDir p)"
    and content: "fs (site_file rootDir p) = OpenedFile content"
  shows "StaticFileServer_onRequest fs rootDir req resp =
    Inr ((HttpResponse_setContentType (resp\<lparr>statusCode := k200Ok, statusMessage := ''OK''\<rparr>)
           (MimeType_getType (site_file rootDir p)))\<lparr>resp_body := content\<rparr>)"
  using dots content c_str_id [OF nul]
  unfolding StaticFileServer_onRequest_def urlDecode_percent_encodes [OF enc] and_then_Inr
    StaticFileServer_serveFile_def Let_def site_file_def
  by simp

subsection \<open>Properties\<close>

text \<open>
  C31: However a client encodes the path of a request (bytes as themselves, plus for a space, percent
  escapes in either case, at the end perhaps a percent sign that is no escape), the server acts on
  the decoded path \<open>p\<close>. When it contains two dots in a row, even if they were escaped, the answer is
  400. Otherwise the server opens the document root followed by the path (\<open>/index.html\<close> for \<open>/\<close>), up
  to the first NUL character of this name, and there are three outcomes: 404 when it does not open;
  200 with its bytes as the body and the content type of the whole name; and, when it opens but its
  size cannot be determined, the exception of the string constructor. A malformed escape is the subject
  of a property of its own.
\<close>

theorem static_request_outcome:
  assumes enc: "percent_encodes s e" and stray: "stray_percent t" and path: "req_path req = e @ t"
    and p: "p = s @ t" and q: "q = rootDir @ (if p = ''/'' then ''/index.html'' else p)"
  shows "case StaticFileServer_onRequest fs rootDir req resp of
           Inl fault \<Rightarrow> \<not> std_contains ''..'' p \<and> fs (c_str q) = OpenedUnsized \<and> fault = UncaughtException
         | Inr r \<Rightarrow>
             (if std_contains ''..'' p then
                statusCode r = k400BadRequest \<and> resp_body r = ''400 Bad Request'' \<and>
                resp_headers r = resp_headers resp
              else case fs (c_str q) of
                     OpenedFile content \<Rightarrow> statusCode r = k200Ok \<and> resp_body r = content \<and>
                       resp_headers r = (resp_headers resp)(''Content-Type'' \<mapsto> MimeType_getType q)
                   | NotOpened \<Rightarrow> statusCode r = k404NotFound \<and>
                       resp_body r = ''<h1>404 Not Found</h1>'' \<and>
                       resp_headers r = (resp_headers resp)(''Content-Type'' \<mapsto> ''text/html'')
                   | OpenedUnsized \<Rightarrow> False)"
proof -
  have decoded: "StaticFileServer_urlDecode (req_path req) = Inr p"
    unfolding path p by (rule urlDecode_append [OF enc urlDecode_stray [OF stray]])
  have served: "StaticFileServer_serveFile fs q resp =
      (case fs (c_str q) of NotOpened \<Rightarrow> Inr (False, resp) | OpenedUnsized \<Rightarrow> Inl UncaughtException
       | OpenedFile content \<Rightarrow> Inr (True, (HttpResponse_setContentType
           (resp\<lparr>statusCode := k200Ok, statusMessage := ''OK''\<rparr>) (MimeType_getType q))\<lparr>resp_body := content\<rparr>))"
    unfolding StaticFileServer_serveFile_def Let_def ..
  show ?thesis
    unfolding StaticFileServer_onRequest_def decoded and_then_Inr Let_def q [symmetric] served
    by (cases "fs (c_str q)") (simp_all add: HttpResponse_setContentType_def HttpResponse_addHeader_def)
qed

theorem static_request_outcome_witness:
  "\<exists>r. StaticFileServer_onRequest (\<lambda>f. if f = ''/www/a b.css%'' then OpenedFile ''x'' else NotOpened)
          ''/www'' (HttpRequest_new\<lparr>req_path := ''/%61+b.css%''\<rparr>) (HttpResponse_new True) = Inr r \<and>
       statusCode r = k200Ok \<and> resp_body r = ''x''"
proof -
  have "percent_encodes (CHR ''/'' # char_of (16 * 6 + 1 :: nat) # '' b.css'') ''/%61+b.css''"
    by (rule enc_plain, rule enc_hex, rule enc_plus)
      (auto intro!: enc_plain enc_nil simp: hex_value_def Let_def)
  moreover have "(char_of (16 * 6 + 1 :: nat) :: char) = CHR ''a''" by code_simp
  ultimately have enc: "percent_encodes ''/a b.css'' ''/%61+b.css''" by simp
  have stray: "stray_percent ''%''" by (simp add: stray_percent_def)
  have path: "req_path (HttpRequest_new\<lparr>req_path := ''/%61+b.css%''\<rparr>) = ''/%61+b.css'' @ ''%''" by simp
  have nodots: "\<not> std_contains ''..'' ''/a b.css%''" by (simp add: std_contains_def)
  show ?thesis
    using static_request_outcome [where rootDir = "''/www''" and resp = "HttpResponse_new True" and
        fs = "\<lambda>f. if f = ''/www/a b.css%'' then OpenedFile ''x'' else NotOpened",
        OF enc stray path refl refl]
      nodots by (auto simp: c_str_def split: sum.splits)
qed

text \<open>
  C32: The directory-traversal check is effective for dotted paths: the response depends on the
  file system only through files named \<open>rootDir @ q\<close> where \<open>q\<close> has no two dots in a row.
  Two file systems that agree there give the same response to every request.
\<close>

theorem static_reads_no_dotdot:
  assumes "CHR 0x00 \<notin> set rootDir"
    and "\<And>q. \<not> std_contains ''..'' q \<Longrightarrow> fs1 (rootDir @ q) = fs2 (rootDir @ q)"
  shows "StaticFileServer_onRequest fs1 rootDir req resp =
         StaticFileServer_onRequest fs2 rootDir req resp"
  using assms by (rule onRequest_file_system [of rootDir fs1 fs2])

theorem static_reads_no_dotdot_witness:
  "\<forall>req resp. StaticFileServer_onRequest
     (\<lambda>f. if f = ''/www/../etc/passwd'' then OpenedFile ''secret'' else NotOpened) ''/www'' req resp =
   StaticFileServer_onRequest (\<lambda>f. NotOpened) ''/www'' req resp"
proof (intro allI, rule static_reads_no_dotdot)
  show "CHR 0x00 \<notin> set ''/www''" by simp
  fix q :: string assume q: "\<not> std_contains ''..'' q"
  have "std_contains ''..'' ''/../etc/passwd''" by (simp add: std_contains_def)
  with q have "q \<noteq> ''/../etc/passwd''" by blast
  then show "(if ''/www'' @ q = ''/www/../etc/passwd'' then OpenedFile ''secret'' else NotOpened)
               = NotOpened" by simp
qed

text \<open>
  C34: The check does not confine requests to the document root: a target that does not start
  with a slash is appended to the root's own name, so a file beside the root whose name
  continues it is served. The request line with such a target is accepted by the parser.
\<close>

theorem static_serves_sibling_of_root:
  assumes enc: "percent_encodes p (req_path req)"
    and nul: "CHR 0x00 \<notin> set rootDir" "CHR 0x00 \<notin> set p"
    and target: "p \<noteq> []" "hd p \<noteq> CHR ''/''" "\<not> std_contains ''..'' p"
    and opn: "fs (rootDir @ p) = OpenedFile content"
  shows "\<not> is_prefix (rootDir @ ''/'') (rootDir @ p) \<and>
         (\<exists>r. StaticFileServer_onRequest fs rootDir req resp = Inr r \<and>
              statusCode r = k200Ok \<and> resp_body r = content)"
proof
  show "\<not> is_prefix (rootDir @ ''/'') (rootDir @ p)"
    using target(1,2) by (auto simp: is_prefix_iff)
  have "CHR 0x00 \<notin> set (rootDir @ p)" using nul by auto
  from c_str_id [OF this] opn have s: "fs (c_str (rootDir @ p)) = OpenedFile content" by simp
  have "p \<noteq> ''/''" using target(2) by auto
  then show "\<exists>r. StaticFileServer_onRequest fs rootDir req resp = Inr r \<and>
              statusCode r = k200Ok \<and> resp_body r = content"
    using target(3) s
    by (simp add: StaticFileServer_onRequest_def urlDecode_percent_encodes [OF enc] Let_def
        StaticFileServer_serveFile_def HttpResponse_setContentType_def HttpResponse_addHeader_def)
qed

theorem static_serves_sibling_of_root_witness:
  "fst (HttpContext_processRequestLine HttpRequest_new ''GET -old/key HTTP/1.1'') \<and>
   (\<exists>r. StaticFileServer_onRequest
          (\<lambda>f. if f = ''/srv/www-old/key'' then OpenedFile ''secret'' else NotOpened) ''/srv/www''
          (HttpRequest_new\<lparr>req_path := ''-old/key''\<rparr>) (HttpResponse_new True) = Inr r \<and>
        resp_body r = ''secret'')"
proof
  show "fst (HttpContext_processRequestLine HttpRequest_new ''GET -old/key HTTP/1.1'')"
    by (simp add: HttpContext_processRequestLine_def Let_def std_find_def method_of_string_def)
  have enc: "percent_encodes ''-old/key'' (req_path (HttpRequest_new\<lparr>req_path := ''-old/key''\<rparr>))"
    by (auto intro!: enc_plain enc_nil)
  have "\<not> std_contains ''..'' ''-old/key''" by (simp add: std_contains_def)
  from static_serves_sibling_of_root [OF enc _ _ _ _ this, where rootDir = "''/srv/www''"
      and fs = "\<lambda>f. if f = ''/srv/www-old/key'' then OpenedFile ''secret'' else NotOpened"
      and content = "''secret''" and resp = "HttpResponse_new True"]
  show "\<exists>r. StaticFileServer_onRequest
          (\<lambda>f. if f = ''/srv/www-old/key'' then OpenedFile ''secret'' else NotOpened) ''/srv/www''
          (HttpRequest_new\<lparr>req_path := ''-old/key''\<rparr>) (HttpResponse_new True) = Inr r \<and>
        resp_body r = ''secret''" by auto
qed

text \<open>
  C35: One request with a malformed escape ends the process: when the two characters behind a
  percent sign are no number for \<open>std::stoi\<close>, the request handler throws, and no caller
  catches the exception.
\<close>

theorem static_bad_escape_throws:
  assumes "percent_encodes s e" and "hex_value a = None" and "\<not> is_space a"
    and "a \<noteq> CHR ''-''" and "a \<noteq> CHR ''+''"
  shows "StaticFileServer_onRequest fs rootDir
           (req\<lparr>req_path := e @ CHR ''%'' # a # b # rest\<rparr>) resp = Inl UncaughtException"
proof -
  have "std_stoi16 [a, b] = Inl UncaughtException"
    using assms(2-5) by (simp add: std_stoi16_def is_hex_def Let_def)
  from urlDecode_bad_escape [OF assms(1) this, of rest] show ?thesis
    by (simp add: StaticFileServer_onRequest_def)
qed

theorem static_bad_escape_throws_witness:
  "StaticFileServer_onRequest (\<lambda>f. NotOpened) ''/www''
     (HttpRequest_new\<lparr>req_path := ''/%zz''\<rparr>) (HttpResponse_new True) = Inl UncaughtException"
proof -
  have "percent_encodes ''/'' ''/''" by (auto intro: enc_plain enc_nil)
  then show ?thesis
    using static_bad_escape_throws [where s = "''/''" and e = "''/''" and a = "CHR ''z''" and
        b = "CHR ''z''" and rest = "[]" and req = HttpRequest_new]
    by (simp add: hex_value_def is_space_def Let_def)
qed

text \<open>
  The MIME type is decided by the text behind the last dot of the path alone; a path
  without a dot, or with an unknown extension, is \<open>application/octet-stream\<close>.
\<close>

theorem mime_type_by_extension:
  assumes "CHR ''.'' \<notin> set ext"
  shows "MimeType_getType (p @ ''.'' @ ext) = MimeType_getType (''.'' @ ext) \<and>
         MimeType_getType ext = ''application/octet-stream'' \<and>
         (ext \<notin> fst ` set mime_table \<longrightarrow>
            MimeType_getType (p @ ''.'' @ ext) = ''application/octet-stream'')"
proof -
  have "MimeType_getType ext = ''application/octet-stream''"
    using assms std_find_absent [of "CHR ''.''" "rev ext"]
    by (simp add: MimeType_getType_def std_rfind_def Let_def)
  moreover have "map_of mime_table ext = None" if "ext \<notin> fst ` set mime_table"
    using that by (simp add: map_of_eq_None_iff)
  ultimately show ?thesis
    using MimeType_extension [OF assms, of p] MimeType_extension [OF assms, of "[]"] by auto
qed

theorem mime_type_by_extension_witness:
  "MimeType_getType ''/a.b/c.html'' = ''text/html'' \<and> MimeType_getType ''/a.tar.gz'' = ''application/octet-stream''"
  using mime_type_by_extension [of "''html''" "''/a.b/c''"]
    mime_type_by_extension [of "''gz''" "''/a.tar''"] MimeType_extension [of "''html''" "[]"]
    MimeType_extension [of "''gz''" "[]"]
  by (simp add: mime_table_def)

end
