(* ===== verification/Timestamps.thy ===== *)
theory Timestamps
  imports Prelude "HOL-Library.Product_Lexorder"
begin

section \<open>Timestamp (src/base/timestamp.cpp) and the double arithmetic it uses\<close>

text \<open>
  A \<open>Timestamp\<close> is a signed 64-bit number of microseconds, ordered by that number; the type
  is made an instance of the library's linear orders, so that pairs of a time and an address
  are ordered as \<open>std::pair\<close> orders them. \<open>addTime\<close> takes seconds as a \<open>double\<close>. A double
  is modelled by its integer mantissa and binary exponent; products and quotients are rounded
  to 53 bits, ties to even, as IEEE 754 prescribes. Exponent overflow and subnormal numbers
  are not modelled (the code's values are far from both). Conversions and additions that
  leave the range of \<open>int64_t\<close> are the fault \<open>SignedOverflow\<close>.
\<close>

datatype timestamp = Timestamp (microSecondsSinceEpoch: int)

text \<open>\<open>operator<\<close> and \<open>operator==\<close>.\<close>

definition Timestamp_before :: "timestamp \<Rightarrow> timestamp \<Rightarrow> bool" where
  "Timestamp_before a b \<longleftrightarrow> microSecondsSinceEpoch a < microSecondsSinceEpoch b"

definition Timestamp_same :: "timestamp \<Rightarrow> timestamp \<Rightarrow> bool" where
  "Timestamp_same a b \<longleftrightarrow> microSecondsSinceEpoch a = microSecondsSinceEpoch b"

lemma Timestamp_same_iff [simp]: "Timestamp_same a b \<longleftrightarrow> a = b"
  by (cases a; cases b) (simp add: Timestamp_same_def)

instantiation timestamp :: linorder
begin

definition less_timestamp :: "timestamp \<Rightarrow> timestamp \<Rightarrow> bool" where
  "less_timestamp a b \<longleftrightarrow> Timestamp_before a b"

definition less_eq_timestamp :: "timestamp \<Rightarrow> timestamp \<Rightarrow> bool" where
  "less_eq_timestamp a b \<longleftrightarrow> Timestamp_before a b \<or> Timestamp_same a b"

instance
  by standard
    (auto simp: less_timestamp_def less_eq_timestamp_def Timestamp_before_def
      intro: timestamp.expand)

end

lemma Timestamp_less [simp]: "Timestamp a < Timestamp b \<longleftrightarrow> a < b"
  by (simp add: less_timestamp_def Timestamp_before_def)

lemma Timestamp_less_eq [simp]: "Timestamp a \<le> Timestamp b \<longleftrightarrow> a \<le> b"
  by (auto simp: less_eq_timestamp_def Timestamp_before_def)

definition Timestamp_invalid :: timestamp where
  "Timestamp_invalid = Timestamp 0"

definition Timestamp_isValid :: "timestamp \<Rightarrow> bool" where
  "Timestamp_isValid t \<longleftrightarrow> microSecondsSinceEpoch t > 0"

definition Timestamp_toString :: "timestamp \<Rightarrow> string" where
  "Timestamp_toString t =
     (let n = microSecondsSinceEpoch t
      in if n < 0 then CHR ''-'' # nat_to_string (nat (- n)) else nat_to_string (nat n))"

subsection \<open>Integers of 64 bits\<close>

definition in_int64 :: "int \<Rightarrow> bool" where
  "in_int64 n \<longleftrightarrow> - (2 ^ 63) \<le> n \<and> n < 2 ^ 63"

definition int64 :: "int \<Rightarrow> int res" where
  "int64 n = (if in_int64 n then Inr n else Inl SignedOverflow)"

subsection \<open>Doubles\<close>

text \<open>\<open>mant * 2 ^ expo\<close>, with a mantissa of at most 53 bits after every operation.\<close>

record double =
  mant :: int
  expo :: int

definition double_of_int :: "int \<Rightarrow> double" where
  "double_of_int n = \<lparr>mant = n, expo = 0\<rparr>"

text \<open>Rounding \<open>num / den\<close> to an integer, ties to even.\<close>

definition round_half_even :: "int \<Rightarrow> int \<Rightarrow> int" where
  "round_half_even num den =
     (let q = num div den; r = num mod den
      in if 2 * r < den then q else if den < 2 * r then q + 1 else if even q then q else q + 1)"

function bit_length :: "int \<Rightarrow> int" where
  "bit_length n = (if n \<le> 0 then 0 else 1 + bit_length (n div 2))"
  by pat_completeness auto
termination by (relation "measure nat") auto

declare bit_length.simps [simp del]

text \<open>
  The double nearest to \<open>num / den * 2 ^ e\<close> (both positive): scale so that the quotient has 53
  bits, then round. The first estimate of the exponent from the bit lengths is exact or one
  too small.
\<close>

definition scaled :: "int \<Rightarrow> int \<Rightarrow> int \<Rightarrow> int" where
  "scaled num den s =
     (if s \<le> 0 then round_half_even (num * 2 ^ nat (- s)) den
      else round_half_even num (den * 2 ^ nat s))"

definition double_round :: "int \<Rightarrow> int \<Rightarrow> int \<Rightarrow> double" where
  "double_round num den e =
     (if num = 0 then \<lparr>mant = 0, expo = 0\<rparr>
      else
       (let s0 = bit_length num - bit_length den - 53;
            s = (if num * 2 ^ nat (- s0) < den * 2 ^ nat s0 * 2 ^ 53 then s0 else s0 + 1)
        in \<lparr>mant = scaled num den s, expo = e + s\<rparr>))"

definition double_negate :: "double \<Rightarrow> double" where
  "double_negate d = d\<lparr>mant := - mant d\<rparr>"

definition double_mul_int :: "double \<Rightarrow> int \<Rightarrow> double" where
  "double_mul_int d k =
     (if mant d < 0 then double_negate (double_round (- mant d * k) 1 (expo d))
      else double_round (mant d * k) 1 (expo d))"

definition int_div_double :: "int \<Rightarrow> int \<Rightarrow> double" where
  "int_div_double n k =
     (if n < 0 then double_negate (double_round (- n) k 0) else double_round n k 0)"

definition double_positive :: "double \<Rightarrow> bool" where
  "double_positive d \<longleftrightarrow> mant d > 0"

text \<open>\<open>static_cast<int64_t>\<close>: towards zero, undefined outside the range.\<close>

definition double_trunc :: "double \<Rightarrow> int" where
  "double_trunc d =
     (let a = (if 0 \<le> expo d then \<bar>mant d\<bar> * 2 ^ nat (expo d) else \<bar>mant d\<bar> div 2 ^ nat (- expo d))
      in if mant d < 0 then - a else a)"

definition Timestamp_addTime :: "timestamp \<Rightarrow> double \<Rightarrow> timestamp res" where
  "Timestamp_addTime t seconds =
     and_then (int64 (double_trunc (double_mul_int (double_mul_int seconds 1000) 1000))) (\<lambda>delta.
     map_res Timestamp (int64 (microSecondsSinceEpoch t + delta)))"

lemma int64_eq_Inr [simp]: "int64 n = Inr m \<longleftrightarrow> in_int64 n \<and> m = n"
  by (auto simp: int64_def)

lemma int64_fault: "int64 n = Inl e \<Longrightarrow> e = SignedOverflow"
  by (auto simp: int64_def split: if_splits)

lemma addTime_fault: "Timestamp_addTime t s = Inl e \<Longrightarrow> e = SignedOverflow"
  by (auto simp: Timestamp_addTime_def int64_def split: if_splits)

end
