(* ===== verification/Timers.thy ===== *)
theory Timers
  imports Timestamps
begin

section \<open>Timer, TimerId and TimerQueue (src/net/timer.cpp, timer_id.cpp, timer_queue.cpp)\<close>

text \<open>
  \<open>TimerQueue\<close> keeps its timers in a \<open>std::set\<close> of pairs (expiration, address), here a
  strictly sorted list; the \<open>Timer\<close> objects live in a heap from addresses to records, so that
  \<open>new\<close>, \<open>delete\<close> and the use of a deleted timer are visible (fault \<open>UseAfterFree\<close>). The
  address of a new timer is chosen by the allocator: it is an argument, and an address that is
  null, reserved or in use stands for a failed allocation (\<open>std::bad_alloc\<close>). The callback of
  a timer is a value of a type \<open>'c\<close>; what user code does when it runs is a parameter that maps it
  to the sequence of public \<open>TimerQueue\<close> calls it makes.

  The kernel side is the field \<open>tq_armed\<close> (the absolute time, in microseconds, at which the
  timerfd last armed by \<open>timerfd_settime\<close> fires) and the clock read by \<open>Timestamp::now()\<close>.
\<close>

record 'c timer =
  callback :: 'c
  expiration :: timestamp
  interval :: double
  repeat :: bool
  sequence :: int

record timer_id =
  tid_timer :: addr
  tid_sequence :: int

type_synonym entry = "timestamp \<times> addr"

record 'c timer_queue =
  tq_owner :: tid
  tq_timers :: "entry list"
  tq_heap :: "addr \<Rightarrow> 'c timer option"
  tq_numCreated :: int
  tq_armed :: "int option"
  tq_clock :: timestamp

definition TimerId_null :: timer_id where
  "TimerId_null = \<lparr>tid_timer = 0, tid_sequence = 0\<rparr>"

definition UINTPTR_MAX :: addr where
  "UINTPTR_MAX = 2 ^ 64 - 1"

subsection \<open>Timer\<close>

text \<open>\<open>new Timer(cb, when, interval)\<close> at the address the allocator gives.\<close>

definition Timer_new ::
    "addr \<Rightarrow> 'c \<Rightarrow> timestamp \<Rightarrow> double \<Rightarrow> 'c timer_queue \<Rightarrow> (addr \<times> 'c timer_queue) res" where
  "Timer_new p cb when interv q =
     (if p \<le> 0 \<or> UINTPTR_MAX \<le> p \<or> tq_heap q p \<noteq> None then Inl UncaughtException
      else Inr (p, q\<lparr>tq_heap := (tq_heap q)(p \<mapsto>
                       \<lparr>callback = cb, expiration = when, interval = interv,
                        repeat = double_positive interv, sequence = tq_numCreated q + 1\<rparr>),
                     tq_numCreated := tq_numCreated q + 1\<rparr>))"

definition Timer_restart :: "'c timer \<Rightarrow> timestamp \<Rightarrow> 'c timer res" where
  "Timer_restart t now =
     (if repeat t
      then map_res (\<lambda>when. t\<lparr>expiration := when\<rparr>) (Timestamp_addTime now (interval t))
      else Inr (t\<lparr>expiration := Timestamp_invalid\<rparr>))"

text \<open>Following a pointer to a timer.\<close>

definition timer_at :: "'c timer_queue \<Rightarrow> addr \<Rightarrow> 'c timer res" where
  "timer_at q p = (case tq_heap q p of Some t \<Rightarrow> Inr t | None \<Rightarrow> Inl UseAfterFree)"

subsection \<open>The timerfd\<close>

definition howMuchTimeFromNow :: "timestamp \<Rightarrow> timestamp \<Rightarrow> (int \<times> int) res" where
  "howMuchTimeFromNow when now =
     map_res (\<lambda>d. let microseconds = (if d < 100 then 100 else d)
                  in (microseconds div (1000 * 1000), microseconds mod (1000 * 1000) * 1000))
       (int64 (microSecondsSinceEpoch when - microSecondsSinceEpoch now))"

text \<open>
  \<open>timerfd_settime\<close> with a relative time: the timer fires that many seconds and nanoseconds
  from now. The code reads the time from the system clock and the timerfd runs on \<open>CLOCK_MONOTONIC\<close>; the
  model has one clock, \<open>tq_clock\<close>, for both, so it says nothing of a system clock that is set while timers
  are pending.
\<close>

definition TimerQueue_resetTimerfd :: "'c timer_queue \<Rightarrow> timestamp \<Rightarrow> 'c timer_queue res" where
  "TimerQueue_resetTimerfd q expir =
     map_res (\<lambda>(sec, nsec). q\<lparr>tq_armed :=
         Some (microSecondsSinceEpoch (tq_clock q) + sec * 1000000 + nsec div 1000)\<rparr>)
       (howMuchTimeFromNow expir (tq_clock q))"

text \<open>Reading the timerfd consumes its expiration, if it has expired; otherwise there is nothing to read.\<close>

definition readTimerfd :: "'c timer_queue \<Rightarrow> timestamp \<Rightarrow> 'c timer_queue" where
  "readTimerfd q now =
     (case tq_armed q of
        Some a \<Rightarrow> if a \<le> microSecondsSinceEpoch now then q\<lparr>tq_armed := None\<rparr> else q
      | None \<Rightarrow> q)"

lemma readTimerfd_simps [simp]:
  "tq_owner (readTimerfd q now) = tq_owner q" "tq_timers (readTimerfd q now) = tq_timers q"
  "tq_heap (readTimerfd q now) = tq_heap q" "tq_clock (readTimerfd q now) = tq_clock q"
  by (simp_all add: readTimerfd_def split: option.split)

subsection \<open>Operations\<close>

definition TimerQueue_assertInLoopThread :: "tid \<Rightarrow> 'c timer_queue \<Rightarrow> unit res" where
  "TimerQueue_assertInLoopThread me q = (if tq_owner q = me then Inr () else Inl WrongThread)"

text \<open>The insertion of \<open>std::set\<close>: an equal entry is not inserted again.\<close>

definition set_insert :: "entry \<Rightarrow> entry list \<Rightarrow> entry list" where
  "set_insert e es = insort_insert e es"

definition TimerQueue_insert :: "tid \<Rightarrow> 'c timer_queue \<Rightarrow> addr \<Rightarrow> (bool \<times> 'c timer_queue) res" where
  "TimerQueue_insert me q p =
     and_then (TimerQueue_assertInLoopThread me q) (\<lambda>_.
     and_then (timer_at q p) (\<lambda>timer.
     (let when = expiration timer;
          earliestChanged = (case tq_timers q of [] \<Rightarrow> True | e # _ \<Rightarrow> when < fst e)
      in Inr (earliestChanged, q\<lparr>tq_timers := set_insert (when, p) (tq_timers q)\<rparr>))))"

definition TimerQueue_addTimerInLoop :: "tid \<Rightarrow> 'c timer_queue \<Rightarrow> addr \<Rightarrow> 'c timer_queue res" where
  "TimerQueue_addTimerInLoop me q p =
     and_then (TimerQueue_assertInLoopThread me q) (\<lambda>_.
     and_then (TimerQueue_insert me q p) (\<lambda>(earliestChanged, q).
     if earliestChanged
     then and_then (timer_at q p) (\<lambda>timer. TimerQueue_resetTimerfd q (expiration timer))
     else Inr q))"

text \<open>
  \<open>addTimer\<close> called in the loop thread, where \<open>runInLoop\<close> runs its argument at once. The
  returned \<open>TimerId\<close> is built from the timer afterwards.
\<close>

definition TimerQueue_addTimer ::
    "tid \<Rightarrow> 'c timer_queue \<Rightarrow> addr \<Rightarrow> 'c \<Rightarrow> timestamp \<Rightarrow> double \<Rightarrow>
     (timer_id \<times> 'c timer_queue) res" where
  "TimerQueue_addTimer me q p cb when interv =
     and_then (Timer_new p cb when interv q) (\<lambda>(timer, q).
     and_then (TimerQueue_addTimerInLoop me q timer) (\<lambda>q.
     and_then (timer_at q timer) (\<lambda>t.
     Inr (\<lparr>tid_timer = timer, tid_sequence = sequence t\<rparr>, q))))"

text \<open>The search loop of \<open>cancelInLoop\<close>: the first entry of this timer, if any.\<close>

fun erase_timer :: "addr \<Rightarrow> entry list \<Rightarrow> entry list option" where
  "erase_timer p [] = None"
| "erase_timer p (e # es) = (if snd e = p then Some es else map_option (Cons e) (erase_timer p es))"

definition TimerQueue_cancelInLoop :: "tid \<Rightarrow> 'c timer_queue \<Rightarrow> timer_id \<Rightarrow> 'c timer_queue res" where
  "TimerQueue_cancelInLoop me q timerId =
     and_then (TimerQueue_assertInLoopThread me q) (\<lambda>_.
     if tid_timer timerId = 0 then Inr q
     else
       (let timer = tid_timer timerId in
        case erase_timer timer (tq_timers q) of
          None \<Rightarrow> Inr q
        | Some es \<Rightarrow>
            (let q = q\<lparr>tq_timers := es, tq_heap := (tq_heap q)(timer := None)\<rparr>
             in case es of [] \<Rightarrow> Inr q | e # _ \<Rightarrow> TimerQueue_resetTimerfd q (fst e))))"

definition TimerQueue_getExpired :: "'c timer_queue \<Rightarrow> timestamp \<Rightarrow> entry list \<times> 'c timer_queue" where
  "TimerQueue_getExpired q now =
     (let sentry = (now, UINTPTR_MAX)
      in (takeWhile (\<lambda>e. e < sentry) (tq_timers q),
          q\<lparr>tq_timers := dropWhile (\<lambda>e. e < sentry) (tq_timers q)\<rparr>))"

definition TimerQueue_resetOne :: "tid \<Rightarrow> timestamp \<Rightarrow> 'c timer_queue \<Rightarrow> entry \<Rightarrow> 'c timer_queue res" where
  "TimerQueue_resetOne me now q e =
     and_then (timer_at q (snd e)) (\<lambda>timer.
     if repeat timer then
       and_then (Timer_restart timer now) (\<lambda>timer'.
       map_res snd (TimerQueue_insert me (q\<lparr>tq_heap := (tq_heap q)(snd e \<mapsto> timer')\<rparr>) (snd e)))
     else Inr (q\<lparr>tq_heap := (tq_heap q)(snd e := None)\<rparr>))"

definition TimerQueue_reset :: "tid \<Rightarrow> 'c timer_queue \<Rightarrow> entry list \<Rightarrow> timestamp \<Rightarrow> 'c timer_queue res" where
  "TimerQueue_reset me q expired now =
     and_then (for_each (TimerQueue_resetOne me now) q expired) (\<lambda>q.
     case tq_timers q of [] \<Rightarrow> Inr q | e # _ \<Rightarrow> TimerQueue_resetTimerfd q (fst e))"

text \<open>The public calls, and the passing of time, as a callback may interleave them.\<close>

datatype 'c tq_call =
    CallAddTimer addr 'c timestamp double
  | CallCancel timer_id
  | TimePasses nat

fun TimerQueue_call :: "tid \<Rightarrow> 'c timer_queue \<Rightarrow> 'c tq_call \<Rightarrow> 'c timer_queue res" where
  "TimerQueue_call me q (CallAddTimer p cb when interv) =
     map_res snd (TimerQueue_addTimer me q p cb when interv)"
| "TimerQueue_call me q (CallCancel timerId) = TimerQueue_cancelInLoop me q timerId"
| "TimerQueue_call me q (TimePasses us) =
     Inr (q\<lparr>tq_clock := Timestamp (microSecondsSinceEpoch (tq_clock q) + int us)\<rparr>)"

definition Timer_run ::
    "tid \<Rightarrow> ('c \<Rightarrow> 'c tq_call list) \<Rightarrow> 'c timer_queue \<Rightarrow> entry \<Rightarrow> 'c timer_queue res" where
  "Timer_run me calls q e =
     and_then (timer_at q (snd e)) (\<lambda>timer.
     for_each (TimerQueue_call me) q (calls (callback timer)))"

definition TimerQueue_handleRead ::
    "tid \<Rightarrow> ('c \<Rightarrow> 'c tq_call list) \<Rightarrow> 'c timer_queue \<Rightarrow> 'c timer_queue res" where
  "TimerQueue_handleRead me calls q =
     and_then (TimerQueue_assertInLoopThread me q) (\<lambda>_.
     (let now = tq_clock q;
          q = readTimerfd q now;
          (expired, q) = TimerQueue_getExpired q now
      in and_then (for_each (Timer_run me calls) q expired) (\<lambda>q.
         TimerQueue_reset me q expired now)))"

definition TimerQueue_destroy :: "'c timer_queue \<Rightarrow> 'c timer_queue" where
  "TimerQueue_destroy q =
     q\<lparr>tq_heap := (\<lambda>p. if p \<in> snd ` set (tq_timers q) then None else tq_heap q p)\<rparr>"

definition TimerQueue_new :: "tid \<Rightarrow> timestamp \<Rightarrow> 'c timer_queue" where
  "TimerQueue_new me now =
     \<lparr>tq_owner = me, tq_timers = [], tq_heap = Map.empty, tq_numCreated = 0, tq_armed = None,
      tq_clock = now\<rparr>"

subsection \<open>Invariants\<close>

text \<open>
  \<open>tq_inv E q\<close>: the set is sorted and holds each timer once, with the expiration stored in
  the timer object; the live timer objects are those of the set and those in \<open>E\<close> (the batch
  being run); nothing dangles and nothing leaks. \<open>tq_due q\<close>: while a timer is pending, the
  timerfd is armed to fire by the earliest expiration, or within the 100 microseconds that are
  the least delay the code asks for.
\<close>

definition tq_inv :: "addr set \<Rightarrow> 'c timer_queue \<Rightarrow> bool" where
  "tq_inv E q \<longleftrightarrow>
     sorted (tq_timers q) \<and> distinct (map snd (tq_timers q)) \<and>
     (\<forall>e \<in> set (tq_timers q). \<exists>t. tq_heap q (snd e) = Some t \<and> expiration t = fst e) \<and>
     dom (tq_heap q) = snd ` set (tq_timers q) \<union> E \<and> snd ` set (tq_timers q) \<inter> E = {} \<and>
     (\<forall>p \<in> dom (tq_heap q). 0 < p \<and> p < UINTPTR_MAX)"

definition tq_due :: "'c timer_queue \<Rightarrow> bool" where
  "tq_due q \<longleftrightarrow>
     (case tq_timers q of [] \<Rightarrow> True
      | e # _ \<Rightarrow> (\<exists>a. tq_armed q = Some a \<and>
                   a \<le> max (microSecondsSinceEpoch (fst e)) (microSecondsSinceEpoch (tq_clock q) + 100)))"

definition timer_fault :: "fault \<Rightarrow> bool" where
  "timer_fault e \<longleftrightarrow> e = UncaughtException \<or> e = SignedOverflow"

lemma distinct_snd_insort:
  "distinct (map snd (insort e es)) \<longleftrightarrow> snd e \<notin> snd ` set es \<and> distinct (map snd es)"
  by (induction es) (auto simp: set_insort_key)

lemma hd_insort: "fst (hd (insort e (x # xs))) = (if fst e < fst x then fst e else fst x)"
  for e x :: entry
  by (cases e; cases x) (auto simp: less_eq_prod_def)

lemma erase_timer_Some:
  "erase_timer p es = Some es' \<Longrightarrow> \<exists>a w b. es = a @ (w, p) # b \<and> es' = a @ b"
proof (induction es arbitrary: es')
  case (Cons e es)
  show ?case
  proof (cases "snd e = p")
    case True
    with Cons.prems have "e # es = [] @ (fst e, p) # es \<and> es' = [] @ es" by auto
    then show ?thesis by blast
  next
    case False
    with Cons.prems obtain es1 where es1: "erase_timer p es = Some es1" "es' = e # es1" by auto
    from Cons.IH [OF es1(1)] obtain a w b where "es = a @ (w, p) # b" "es1 = a @ b" by blast
    with es1 have "e # es = (e # a) @ (w, p) # b \<and> es' = (e # a) @ b" by simp
    then show ?thesis by blast
  qed
qed simp

lemma erase_timer_None: "erase_timer p es = None \<longleftrightarrow> p \<notin> snd ` set es"
  by (induction es) auto

subsection \<open>The timerfd is armed in time\<close>

lemma resetTimerfd_cases:
  "case TimerQueue_resetTimerfd q w of
     Inl e \<Rightarrow> e = SignedOverflow
   | Inr q' \<Rightarrow> q' = q\<lparr>tq_armed := Some (max (microSecondsSinceEpoch w)
                                       (microSecondsSinceEpoch (tq_clock q) + 100))\<rparr>"
proof -
  let ?d = "microSecondsSinceEpoch w - microSecondsSinceEpoch (tq_clock q)"
  let ?m = "if ?d < 100 then 100 else ?d"
  have "?m div 1000000 * 1000000 + ?m mod 1000000 * 1000 div 1000 = ?m" by simp
  then have "microSecondsSinceEpoch (tq_clock q) + ?m div 1000000 * 1000000 +
      ?m mod 1000000 * 1000 div 1000 =
      max (microSecondsSinceEpoch w) (microSecondsSinceEpoch (tq_clock q) + 100)" by simp
  then show ?thesis
    by (auto simp: TimerQueue_resetTimerfd_def howMuchTimeFromNow_def int64_def Let_def)
qed

lemma resetTimerfd_inv [invs]:
  assumes "TimerQueue_resetTimerfd q w = Inr q'"
  shows "tq_inv E q' = tq_inv E q" and "tq_heap q' = tq_heap q" and "tq_owner q' = tq_owner q"
    and "tq_timers q' = tq_timers q" and "tq_clock q' = tq_clock q"
    and "tq_timers q = e # es \<Longrightarrow> w = fst e \<Longrightarrow> tq_due q'"
  using resetTimerfd_cases [where q = q and w = w] assms by (auto simp: tq_inv_def tq_due_def)

lemma resetTimerfd_fault: "TimerQueue_resetTimerfd q w = Inl e \<Longrightarrow> timer_fault e"
  using resetTimerfd_cases [where q = q and w = w] by (simp add: timer_fault_def)

subsection \<open>Every call keeps the invariant\<close>

lemma insert_eq:
  assumes "tq_owner q = me" and "tq_heap q p = Some t"
  shows "TimerQueue_insert me q p =
     Inr ((case tq_timers q of [] \<Rightarrow> True | e # _ \<Rightarrow> expiration t < fst e),
          q\<lparr>tq_timers := set_insert (expiration t, p) (tq_timers q)\<rparr>)"
  using assms by (simp add: TimerQueue_insert_def TimerQueue_assertInLoopThread_def timer_at_def Let_def)

lemma insert_inv:
  assumes "tq_inv E q" and "p \<in> E" and "tq_heap q p = Some t"
  shows "tq_inv (E - {p}) (q\<lparr>tq_timers := set_insert (expiration t, p) (tq_timers q)\<rparr>)"
proof -
  have p: "p \<notin> snd ` set (tq_timers q)" using assms by (auto simp: tq_inv_def)
  then have "(expiration t, p) \<notin> set (tq_timers q)" by force
  then have "set_insert (expiration t, p) (tq_timers q) = insort (expiration t, p) (tq_timers q)"
    by (simp add: set_insert_def insort_insert_triv insort_insert_insort)
  with assms p show ?thesis
    by (auto simp: tq_inv_def sorted_insort distinct_snd_insort set_insort_key)
qed

lemma insert_due:
  assumes "tq_due q" and "\<not> (case tq_timers q of [] \<Rightarrow> True | e # _ \<Rightarrow> w < fst e)"
  shows "tq_due (q\<lparr>tq_timers := set_insert (w, p) (tq_timers q)\<rparr>)"
proof -
  obtain e es where es: "tq_timers q = e # es" "\<not> w < fst e"
    using assms(2) by (auto split: list.splits)
  have "insort_insert (w, p) (e # es) \<noteq> []"
    using set_insort_insert [of "(w, p)" "e # es"] by force
  moreover have "fst (hd (insort_insert (w, p) (e # es))) = fst e"
    using es(2) hd_insort [of "(w, p)" e es] by (auto simp: insort_insert_key_def)
  ultimately show ?thesis using assms(1) es(1)
    by (cases "insort_insert (w, p) (e # es)") (auto simp: tq_due_def set_insert_def)
qed

lemma insert_earliest_hd:
  assumes "case es of [] \<Rightarrow> True | e # _ \<Rightarrow> w < fst e" and "sorted es"
  shows "\<exists>es'. set_insert (w, p) es = (w, p) # es'"
proof (cases es)
  case Nil
  then show ?thesis by (simp add: set_insert_def insort_insert_key_def)
next
  case (Cons e es1)
  with assms(1) have lt: "(w, p) < e" by (cases e) simp
  with Cons assms(2) have "(w, p) \<notin> set es" by auto
  with less_imp_le [OF lt] Cons show ?thesis
    by (simp add: set_insert_def insort_insert_insort insort_is_Cons)
qed

lemma addTimerInLoop_ok:
  assumes inv: "tq_inv E q" and me: "tq_owner q = me" and p: "p \<in> E" "tq_heap q p = Some t"
  shows "case TimerQueue_addTimerInLoop me q p of
           Inl e \<Rightarrow> e = SignedOverflow
         | Inr q' \<Rightarrow> tq_inv (E - {p}) q' \<and> tq_owner q' = me \<and> tq_heap q' = tq_heap q \<and>
                     (tq_due q \<longrightarrow> tq_due q')"
proof -
  let ?earliest = "case tq_timers q of [] \<Rightarrow> True | e # _ \<Rightarrow> expiration t < fst e"
  let ?q = "q\<lparr>tq_timers := set_insert (expiration t, p) (tq_timers q)\<rparr>"
  have add: "TimerQueue_addTimerInLoop me q p =
      (if ?earliest then TimerQueue_resetTimerfd ?q (expiration t) else Inr ?q)"
    using me p(2) by (simp add: TimerQueue_addTimerInLoop_def TimerQueue_assertInLoopThread_def
        insert_eq [OF me p(2)] timer_at_def)
  note inv' = insert_inv [OF inv p]
  show ?thesis
  proof (cases ?earliest)
    case False
    with insert_due [of q "expiration t" p] inv' me show ?thesis unfolding add by simp
  next
    case True
    have "sorted (tq_timers q)" using inv by (simp add: tq_inv_def)
    from insert_earliest_hd [OF True this] obtain es' where
      hd: "tq_timers ?q = (expiration t, p) # es'" by auto
    show ?thesis
    proof (cases "TimerQueue_resetTimerfd ?q (expiration t)")
      case (Inl e)
      with True resetTimerfd_cases [where q = ?q and w = "expiration t"]
      show ?thesis unfolding add by simp
    next
      case (Inr q')
      note r = resetTimerfd_inv [OF Inr]
      have "tq_due q'" using r(6) [OF hd] by simp
      with True Inr r(1-3) inv' me show ?thesis unfolding add by simp
    qed
  qed
qed

lemma cancelInLoop_ok:
  assumes inv: "tq_inv E q" and me: "tq_owner q = me"
  shows "case TimerQueue_cancelInLoop me q tid' of
           Inl e \<Rightarrow> e = SignedOverflow
         | Inr q' \<Rightarrow> tq_inv E q' \<and> tq_owner q' = me \<and> (\<forall>p \<in> E. tq_heap q' p = tq_heap q p) \<and>
                     (tq_due q \<longrightarrow> tq_due q')"
proof (cases "tid_timer tid' = 0 \<or> erase_timer (tid_timer tid') (tq_timers q) = None")
  case True
  with inv me show ?thesis
    by (auto simp: TimerQueue_cancelInLoop_def TimerQueue_assertInLoopThread_def Let_def)
next
  case False
  let ?p = "tid_timer tid'"
  from False obtain es where es: "erase_timer ?p (tq_timers q) = Some es" by auto
  from erase_timer_Some [OF this] obtain a w b where
    split: "tq_timers q = a @ (w, ?p) # b" "es = a @ b" by blast
  let ?q = "q\<lparr>tq_timers := es, tq_heap := (tq_heap q)(?p := None)\<rparr>"
  have cancel: "TimerQueue_cancelInLoop me q tid' =
      (case es of [] \<Rightarrow> Inr ?q | e # _ \<Rightarrow> TimerQueue_resetTimerfd ?q (fst e))"
    using False es me
    by (simp add: TimerQueue_cancelInLoop_def TimerQueue_assertInLoopThread_def Let_def)
  have inv': "tq_inv E ?q" using inv split
    by (auto simp: tq_inv_def sorted_append dom_def image_iff)
  have frame: "\<forall>p \<in> E. tq_heap ?q p = tq_heap q p" using inv split by (auto simp: tq_inv_def)
  show ?thesis
  proof (cases es)
    case Nil
    with inv' frame me show ?thesis unfolding cancel by (simp add: tq_due_def)
  next
    case (Cons e es')
    show ?thesis
    proof (cases "TimerQueue_resetTimerfd ?q (fst e)")
      case (Inl x)
      with Cons resetTimerfd_cases [where q = ?q and w = "fst e"] show ?thesis
        unfolding cancel by simp
    next
      case (Inr q')
      note r = resetTimerfd_inv [OF Inr]
      have "tq_due q'" using r(6) [of e es'] Cons by simp
      with Cons Inr r(1-3) inv' me frame show ?thesis unfolding cancel by simp
    qed
  qed
qed

lemma addTimer_ok:
  assumes inv: "tq_inv E q" and me: "tq_owner q = me"
  shows "case TimerQueue_addTimer me q p cb w i of
           Inl e \<Rightarrow> timer_fault e
         | Inr (tid', q') \<Rightarrow> tq_inv E q' \<and> tq_owner q' = me \<and> (\<forall>p \<in> E. tq_heap q' p = tq_heap q p) \<and>
             (tq_due q \<longrightarrow> tq_due q') \<and> tid_timer tid' = p \<and>
             (\<exists>t. tq_heap q' p = Some t \<and> sequence t = tid_sequence tid' \<and> callback t = cb \<and>
                  (w, p) \<in> set (tq_timers q'))"
proof (cases "p \<le> 0 \<or> UINTPTR_MAX \<le> p \<or> tq_heap q p \<noteq> None")
  case True
  then have "Timer_new p cb w i q = Inl UncaughtException" by (simp add: Timer_new_def)
  then show ?thesis by (simp add: TimerQueue_addTimer_def timer_fault_def)
next
  case False
  define t where "t = \<lparr>callback = cb, expiration = w, interval = i, repeat = double_positive i,
    sequence = tq_numCreated q + 1\<rparr>"
  define q1 where "q1 = q\<lparr>tq_heap := (tq_heap q)(p \<mapsto> t), tq_numCreated := tq_numCreated q + 1\<rparr>"
  have new: "Timer_new p cb w i q = Inr (p, q1)"
    using False by (simp add: Timer_new_def q1_def t_def)
  have "p \<notin> dom (tq_heap q)" using False by auto
  then have pE: "p \<notin> E" "p \<notin> snd ` set (tq_timers q)"
    using inv by (simp_all add: tq_inv_def)
  have inv1: "tq_inv (insert p E) q1"
    using inv False pE by (auto simp: tq_inv_def q1_def)
  have q1: "tq_owner q1 = me" "tq_heap q1 p = Some t" "tq_due q \<longrightarrow> tq_due q1"
    using me by (simp_all add: q1_def tq_due_def split: list.split)
  have E: "insert p E - {p} = E" using pE by auto
  note add = addTimerInLoop_ok [OF inv1 q1(1) _ q1(2), unfolded E, simplified]
  show ?thesis
  proof (cases "TimerQueue_addTimerInLoop me q1 p")
    case (Inl e)
    with add new show ?thesis by (simp add: TimerQueue_addTimer_def timer_fault_def)
  next
    case (Inr q')
    with add have q': "tq_inv E q'" "tq_owner q' = me" "tq_heap q' = tq_heap q1"
      "tq_due q1 \<longrightarrow> tq_due q'" by simp_all
    have "TimerQueue_addTimer me q p cb w i =
        Inr (\<lparr>tid_timer = p, tid_sequence = sequence t\<rparr>, q')"
      using new Inr q'(3) q1(2) by (simp add: TimerQueue_addTimer_def timer_at_def)
    moreover have "p \<in> snd ` set (tq_timers q')"
      using q'(1,3) q1(2) pE by (auto simp: tq_inv_def)
    then have "(w, p) \<in> set (tq_timers q')"
      using q'(1,3) q1(2) by (force simp: tq_inv_def t_def)
    ultimately show ?thesis
      using q' q1 pE by (simp add: q1_def t_def)
  qed
qed

lemma TimePasses_due: "tq_due q \<Longrightarrow> tq_due (q\<lparr>tq_clock := Timestamp (microSecondsSinceEpoch (tq_clock q) + int us)\<rparr>)"
  by (auto simp: tq_due_def split: list.splits)

text \<open>
  The invariant that callbacks keep while the timers of \<open>E\<close> run: those are as \<open>H\<close> says, and
  (when \<open>armed\<close>) the timerfd stays armed in time.
\<close>

definition tq_running ::
    "tid \<Rightarrow> addr set \<Rightarrow> (addr \<Rightarrow> 'c timer option) \<Rightarrow> bool \<Rightarrow> 'c timer_queue \<Rightarrow> bool" where
  "tq_running me E H armed q \<longleftrightarrow>
     tq_inv E q \<and> tq_owner q = me \<and> (\<forall>p \<in> E. tq_heap q p = H p) \<and> (armed \<longrightarrow> tq_due q)"

lemma TimerQueue_call_safe:
  assumes "tq_running me E H armed q"
  shows "case TimerQueue_call me q c of Inr q' \<Rightarrow> tq_running me E H armed q' | Inl e \<Rightarrow> timer_fault e"
proof (cases c)
  case (CallAddTimer p cb w i)
  from assms have inv: "tq_inv E q" "tq_owner q = me" by (auto simp: tq_running_def)
  show ?thesis
    using addTimer_ok [OF inv, of p cb w i] assms CallAddTimer
    by (cases "TimerQueue_addTimer me q p cb w i") (auto simp: tq_running_def)
next
  case (CallCancel t)
  from assms have inv: "tq_inv E q" "tq_owner q = me" by (auto simp: tq_running_def)
  show ?thesis
    using cancelInLoop_ok [OF inv, of t] assms CallCancel
    by (cases "TimerQueue_cancelInLoop me q t") (auto simp: tq_running_def timer_fault_def)
next
  case (TimePasses us)
  with assms show ?thesis by (simp add: tq_running_def TimePasses_due) (simp add: tq_inv_def)
qed

interpretation tqc: safe_calls "TimerQueue_call me" "tq_running me E H armed" timer_fault
  for me E H armed
  by unfold_locales (rule TimerQueue_call_safe)

subsection \<open>Running the expired timers\<close>

lemma sorted_split_less:
  fixes x :: "'a::linorder"
  assumes "sorted es"
  shows "takeWhile (\<lambda>e. e < x) es = filter (\<lambda>e. e < x) es \<and>
         dropWhile (\<lambda>e. e < x) es = filter (\<lambda>e. \<not> e < x) es"
  using assms
  by (induction es)
    (auto simp: not_less intro!: filter_True [symmetric] filter_False [symmetric], meson leD order_trans)

lemma getExpired_eq:
  assumes "tq_inv E q"
  shows "TimerQueue_getExpired q now =
     (filter (\<lambda>e. fst e \<le> now) (tq_timers q),
      q\<lparr>tq_timers := filter (\<lambda>e. now < fst e) (tq_timers q)\<rparr>)"
proof -
  let ?P = "\<lambda>e::entry. e < (now, UINTPTR_MAX)"
  have s: "sorted (tq_timers q)" using assms by (simp add: tq_inv_def)
  have addr: "snd e < UINTPTR_MAX" if "e \<in> set (tq_timers q)" for e
    using assms that by (force simp: tq_inv_def)
  have eq: "?P e \<longleftrightarrow> fst e \<le> now" if "e \<in> set (tq_timers q)" for e
    using addr [OF that] by (cases e) (auto simp: less_le)
  from sorted_split_less [OF s] have "takeWhile ?P (tq_timers q) = filter ?P (tq_timers q)"
    "dropWhile ?P (tq_timers q) = filter (\<lambda>e. \<not> ?P e) (tq_timers q)" by blast+
  moreover have "filter ?P (tq_timers q) = filter (\<lambda>e. fst e \<le> now) (tq_timers q)"
    "filter (\<lambda>e. \<not> ?P e) (tq_timers q) = filter (\<lambda>e. now < fst e) (tq_timers q)"
    using eq by (auto intro!: filter_cong)
  ultimately show ?thesis by (simp add: TimerQueue_getExpired_def)
qed

lemma getExpired_inv:
  assumes "tq_inv {} q" and "TimerQueue_getExpired q now = (expired, q')"
  shows "tq_inv (snd ` set expired) q'" and "tq_owner q' = tq_owner q"
    and "tq_heap q' = tq_heap q" and "distinct (map snd expired)"
    and "tq_clock q' = tq_clock q"
proof -
  have e: "expired = filter (\<lambda>e. fst e \<le> now) (tq_timers q)"
    and q': "q' = q\<lparr>tq_timers := filter (\<lambda>e. now < fst e) (tq_timers q)\<rparr>"
    using getExpired_eq [OF assms(1)] assms(2) by auto
  have d: "distinct (map snd (tq_timers q))" using assms(1) by (simp add: tq_inv_def)
  have "snd ` set (filter (\<lambda>e. now < fst e) (tq_timers q)) \<inter> snd ` set expired = {}"
    using d unfolding e by (fastforce simp: distinct_map inj_on_def)
  moreover have "snd ` set (filter (\<lambda>e. now < fst e) (tq_timers q)) \<union> snd ` set expired =
      snd ` set (tq_timers q)"
    unfolding e by (force simp: not_less)
  ultimately show "tq_inv (snd ` set expired) q'"
    using assms(1) unfolding q'
    by (auto simp: tq_inv_def distinct_map_filter intro: sorted_wrt_filter)
  show "tq_owner q' = tq_owner q" "tq_heap q' = tq_heap q" "distinct (map snd expired)"
    "tq_clock q' = tq_clock q"
    using d by (simp_all add: e q' distinct_map_filter)
qed

text \<open>
  What becomes of an expired entry \<open>e\<close> whose timer was \<open>t\<close>: a repeating timer is pending again
  an interval after \<open>now\<close>, any other is deleted.
\<close>

definition rescheduled :: "timestamp \<Rightarrow> 'c timer \<Rightarrow> addr \<Rightarrow> 'c timer_queue \<Rightarrow> bool" where
  "rescheduled now t p q \<longleftrightarrow>
     (if repeat t then
        (\<exists>w. Timestamp_addTime now (interval t) = Inr w \<and>
             tq_heap q p = Some (t\<lparr>expiration := w\<rparr>) \<and> (w, p) \<in> set (tq_timers q))
      else tq_heap q p = None)"

lemma set_set_insert [simp]: "set (set_insert e es) = insert e (set es)"
  by (simp add: set_insert_def set_insort_insert)

lemma resetOne_ok:
  assumes inv: "tq_inv E q" and me: "tq_owner q = me" and p: "snd e \<in> E" "tq_heap q (snd e) = Some t"
  shows "case TimerQueue_resetOne me now q e of
           Inl x \<Rightarrow> timer_fault x
         | Inr q' \<Rightarrow> tq_inv (E - {snd e}) q' \<and> tq_owner q' = me \<and>
             (\<forall>p. p \<noteq> snd e \<longrightarrow> tq_heap q' p = tq_heap q p) \<and>
             set (tq_timers q) \<subseteq> set (tq_timers q') \<and> rescheduled now t (snd e) q'"
proof (cases "repeat t")
  case False
  have "tq_inv (E - {snd e}) (q\<lparr>tq_heap := (tq_heap q)(snd e := None)\<rparr>)"
    using inv p by (auto simp: tq_inv_def)
  with False p me show ?thesis
    by (simp add: TimerQueue_resetOne_def timer_at_def rescheduled_def)
next
  case True
  show ?thesis
  proof (cases "Timestamp_addTime now (interval t)")
    case (Inl x)
    with True p addTime_fault [OF Inl] show ?thesis
      by (simp add: TimerQueue_resetOne_def timer_at_def Timer_restart_def timer_fault_def)
  next
    case (Inr w)
    define t1 where "t1 = t\<lparr>expiration := w\<rparr>"
    define q1 where "q1 = q\<lparr>tq_heap := (tq_heap q)(snd e \<mapsto> t1)\<rparr>"
    have inv1: "tq_inv E q1" using inv p by (auto simp: tq_inv_def q1_def)
    have q1: "tq_owner q1 = me" "tq_heap q1 (snd e) = Some t1" by (simp_all add: q1_def me)
    have reset: "TimerQueue_resetOne me now q e =
        Inr (q1\<lparr>tq_timers := set_insert (expiration t1, snd e) (tq_timers q1)\<rparr>)"
      using True p Inr insert_eq [OF q1]
      by (simp add: TimerQueue_resetOne_def timer_at_def Timer_restart_def q1_def t1_def)
    have rest: "rescheduled now t (snd e)
        (q1\<lparr>tq_timers := set_insert (expiration t1, snd e) (tq_timers q1)\<rparr>)"
      using True Inr by (simp add: rescheduled_def q1_def t1_def)
    show ?thesis
      unfolding reset using insert_inv [OF inv1 p(1) q1(2)] me rest by (auto simp: q1_def)
  qed
qed

lemma rescheduled_mono:
  "rescheduled now t p q \<Longrightarrow> tq_heap q' p = tq_heap q p \<Longrightarrow>
   set (tq_timers q) \<subseteq> set (tq_timers q') \<Longrightarrow> rescheduled now t p q'"
  by (auto simp: rescheduled_def split: if_splits)

lemma resets_ok:
  assumes "tq_inv (snd ` set es) q" and "tq_owner q = me" and "distinct (map snd es)"
    and "\<forall>e \<in> set es. tq_heap q (snd e) = Some (T (snd e))"
  shows "case for_each (TimerQueue_resetOne me now) q es of
           Inl x \<Rightarrow> timer_fault x
         | Inr q' \<Rightarrow> tq_inv {} q' \<and> tq_owner q' = me \<and>
             (\<forall>p. p \<notin> snd ` set es \<longrightarrow> tq_heap q' p = tq_heap q p) \<and>
             set (tq_timers q) \<subseteq> set (tq_timers q') \<and>
             (\<forall>e \<in> set es. rescheduled now (T (snd e)) (snd e) q')"
  using assms
proof (induction es arbitrary: q)
  case (Cons e es)
  note one = resetOne_ok [OF Cons.prems(1,2), of e "T (snd e)" now]
  show ?case
  proof (cases "TimerQueue_resetOne me now q e")
    case (Inl x)
    with one Cons.prems(4) show ?thesis by simp
  next
    case (Inr q1)
    with one Cons.prems(4) have q1: "tq_inv (snd ` set (e # es) - {snd e}) q1" "tq_owner q1 = me"
      "\<forall>p. p \<noteq> snd e \<longrightarrow> tq_heap q1 p = tq_heap q p" "set (tq_timers q) \<subseteq> set (tq_timers q1)"
      "rescheduled now (T (snd e)) (snd e) q1" by auto
    have e: "snd e \<notin> snd ` set es" "distinct (map snd es)" using Cons.prems(3) by auto
    then have "snd ` set (e # es) - {snd e} = snd ` set es" by auto
    with q1 have "tq_inv (snd ` set es) q1" by simp
    moreover have "\<forall>e \<in> set es. tq_heap q1 (snd e) = Some (T (snd e))"
      using Cons.prems(4) q1(3) e(1) by (metis image_eqI list.set_intros(2))
    ultimately have IH: "case for_each (TimerQueue_resetOne me now) q1 es of
           Inl x \<Rightarrow> timer_fault x
         | Inr q' \<Rightarrow> tq_inv {} q' \<and> tq_owner q' = me \<and>
             (\<forall>p. p \<notin> snd ` set es \<longrightarrow> tq_heap q' p = tq_heap q1 p) \<and>
             set (tq_timers q1) \<subseteq> set (tq_timers q') \<and>
             (\<forall>e \<in> set es. rescheduled now (T (snd e)) (snd e) q')"
      using Cons.IH [of q1] q1(2) e(2) by simp
    show ?thesis
    proof (cases "for_each (TimerQueue_resetOne me now) q1 es")
      case (Inl x)
      with IH Inr show ?thesis by simp
    next
      case (Inr q')
      with IH have q': "tq_inv {} q'" "tq_owner q' = me"
        "\<forall>p. p \<notin> snd ` set es \<longrightarrow> tq_heap q' p = tq_heap q1 p"
        "set (tq_timers q1) \<subseteq> set (tq_timers q')"
        "\<forall>e \<in> set es. rescheduled now (T (snd e)) (snd e) q'" by simp_all
      have "rescheduled now (T (snd e)) (snd e) q'"
        using rescheduled_mono [OF q1(5) _ q'(4)] q'(3) e(1) by simp
      with q' q1 Inr \<open>TimerQueue_resetOne me now q e = Inr q1\<close> show ?thesis by auto
    qed
  qed
qed simp

lemma runs_ok:
  assumes "tq_running me E H b q" and "snd ` set es \<subseteq> E" and "\<forall>p \<in> E. H p \<noteq> None"
  shows "case for_each (Timer_run me calls) q es of
           Inl x \<Rightarrow> timer_fault x | Inr q' \<Rightarrow> tq_running me E H b q'"
  using assms(1,2)
proof (induction es arbitrary: q)
  case (Cons e es)
  then obtain t where "tq_heap q (snd e) = Some t"
    using assms(3) by (auto simp: tq_running_def)
  then have run: "Timer_run me calls q e = for_each (TimerQueue_call me) q (calls (callback t))"
    by (simp add: Timer_run_def timer_at_def)
  note safe = tqc.calls_safe [OF Cons.prems(1), of "calls (callback t)", folded run]
  show ?case
  proof (cases "Timer_run me calls q e")
    case (Inl x)
    with safe show ?thesis by simp
  next
    case (Inr q1)
    with safe Cons.IH [of q1] Cons.prems(2) show ?thesis by simp
  qed
qed simp

lemma reset_ok:
  assumes "tq_inv (snd ` set es) q" and "tq_owner q = me" and "distinct (map snd es)"
    and "\<forall>e \<in> set es. tq_heap q (snd e) = Some (T (snd e))"
  shows "case TimerQueue_reset me q es now of
           Inl x \<Rightarrow> timer_fault x
         | Inr q' \<Rightarrow> tq_inv {} q' \<and> tq_owner q' = me \<and> tq_due q' \<and>
             (\<forall>e \<in> set es. rescheduled now (T (snd e)) (snd e) q')"
proof (cases "for_each (TimerQueue_resetOne me now) q es")
  case (Inl x)
  with resets_ok [OF assms, of now] show ?thesis by (simp add: TimerQueue_reset_def)
next
  case (Inr q1)
  with resets_ok [OF assms, of now] have q1: "tq_inv {} q1" "tq_owner q1 = me"
    "\<forall>e \<in> set es. rescheduled now (T (snd e)) (snd e) q1" by simp_all
  show ?thesis
  proof (cases "tq_timers q1")
    case Nil
    with Inr q1 show ?thesis by (simp add: TimerQueue_reset_def tq_due_def)
  next
    case (Cons e es')
    show ?thesis
    proof (cases "TimerQueue_resetTimerfd q1 (fst e)")
      case (Inl x)
      with Inr Cons resetTimerfd_fault [OF Inl] show ?thesis by (simp add: TimerQueue_reset_def)
    next
      case (Inr q')
      note r = resetTimerfd_inv [OF Inr]
      have "\<forall>e \<in> set es. rescheduled now (T (snd e)) (snd e) q'"
        using q1(3) r(2,4) by (auto simp: rescheduled_def)
      moreover have "tq_due q'" using r(6) [OF Cons] by simp
      ultimately show ?thesis
        using Inr \<open>for_each _ q es = Inr q1\<close> Cons q1 r(1,3) by (simp add: TimerQueue_reset_def)
    qed
  qed
qed

text \<open>\<open>getExpired\<close> takes out exactly the timers whose time has come, in order of expiration,
and leaves exactly the others, in order.\<close>

lemma getExpired_exact:
  assumes "tq_inv {} q" and "TimerQueue_getExpired q now = (expired, q')"
  shows "set expired = {e \<in> set (tq_timers q). fst e \<le> now} \<and> sorted expired \<and>
         expired @ tq_timers q' = tq_timers q \<and> (\<forall>e \<in> set (tq_timers q'). now < fst e) \<and>
         tq_heap q' = tq_heap q"
proof -
  have "expired @ tq_timers q' = tq_timers q"
    using assms(2) by (auto simp: TimerQueue_getExpired_def Let_def)
  with getExpired_eq [OF assms(1), of now] assms show ?thesis
    by (auto simp: tq_inv_def intro: sorted_wrt_filter)
qed

lemma timers_handleRead_ok:
  assumes inv: "tq_inv {} q" and me: "tq_owner q = me"
  shows "case TimerQueue_handleRead me calls q of
           Inl x \<Rightarrow> timer_fault x
         | Inr q' \<Rightarrow> tq_inv {} q' \<and> tq_owner q' = me \<and> tq_due q' \<and>
             (\<forall>e \<in> set (tq_timers q). fst e \<le> tq_clock q \<longrightarrow>
                (\<exists>t. tq_heap q (snd e) = Some t \<and> rescheduled (tq_clock q) t (snd e) q'))"
proof -
  let ?q = "readTimerfd q (tq_clock q)"
  have inv0: "tq_inv {} ?q" using inv by (simp add: tq_inv_def)
  obtain es q1 where get: "TimerQueue_getExpired ?q (tq_clock q) = (es, q1)" by force
  note g = getExpired_inv [OF inv0 get]
  let ?E = "snd ` set es"
  have es: "set es = {e \<in> set (tq_timers q). fst e \<le> tq_clock q}"
    using getExpired_eq [OF inv0, of "tq_clock q"] get by auto
  have live: "\<forall>p \<in> ?E. tq_heap q p \<noteq> None" using inv unfolding es by (force simp: tq_inv_def)
  have run: "tq_running me ?E (tq_heap q) False q1"
    using g me by (simp add: tq_running_def)
  have handle: "TimerQueue_handleRead me calls q =
      and_then (for_each (Timer_run me calls) q1 es) (\<lambda>q'. TimerQueue_reset me q' es (tq_clock q))"
    using me get by (simp add: TimerQueue_handleRead_def TimerQueue_assertInLoopThread_def Let_def)
  note ran = runs_ok [OF run subset_refl live, of calls]
  show ?thesis
  proof (cases "for_each (Timer_run me calls) q1 es")
    case (Inl x)
    with ran show ?thesis by (simp add: handle)
  next
    case (Inr q2)
    with ran have q2: "tq_inv ?E q2" "tq_owner q2 = me" "\<forall>p \<in> ?E. tq_heap q2 p = tq_heap q p"
      by (simp_all add: tq_running_def)
    have "\<forall>e \<in> set es. tq_heap q2 (snd e) = Some (the (tq_heap q (snd e)))"
      using q2(3) live by fastforce
    note reset = reset_ok [OF q2(1,2) g(4) this, of "tq_clock q"]
    have "\<exists>t. tq_heap q (snd e) = Some t \<and> rescheduled (tq_clock q) t (snd e) q'"
      if "e \<in> set es" "rescheduled (tq_clock q) (the (tq_heap q (snd e))) (snd e) q'" for e q'
      using live that by fastforce
    with reset show ?thesis
      using es by (auto simp: handle Inr split: sum.splits)
  qed
qed

text \<open>
  C29: One run of \<open>handleRead\<close> in the loop thread, whatever calls the callbacks make of the
  queue: it never uses a deleted timer and never aborts; when it returns, every live timer is in
  the set and the timerfd is armed in time for the first; every timer that had expired is deleted
  when it was a one-shot, and otherwise is pending again one interval after the time read at the
  start - even when its own callback, or that of another timer of the batch, cancelled it.
\<close>

theorem handleRead_outcome:
  assumes "tq_inv {} q" and "tq_owner q = me"
  shows "case TimerQueue_handleRead me calls q of
           Inl x \<Rightarrow> timer_fault x
         | Inr q' \<Rightarrow> tq_inv {} q' \<and> tq_owner q' = me \<and> tq_due q' \<and>
             (\<forall>e \<in> set (tq_timers q). fst e \<le> tq_clock q \<longrightarrow>
                (\<exists>t. tq_heap q (snd e) = Some t \<and> rescheduled (tq_clock q) t (snd e) q'))"
  using assms by (rule timers_handleRead_ok)

subsection \<open>Examples\<close>

text \<open>
  A repeating timer (every 2 s) whose callback cancels it and adds another timer, and a one-shot
  timer; the clock has passed both.
\<close>

definition example_queue :: "nat timer_queue" where
  "example_queue =
     \<lparr>tq_owner = 1, tq_timers = [(Timestamp 1500, 16), (Timestamp 2000, 8)],
      tq_heap = [8 \<mapsto> \<lparr>callback = 0, expiration = Timestamp 2000, interval = double_of_int 2,
                       repeat = True, sequence = 1\<rparr>,
                 16 \<mapsto> \<lparr>callback = 1, expiration = Timestamp 1500, interval = double_of_int 0,
                       repeat = False, sequence = 2\<rparr>],
      tq_numCreated = 2, tq_armed = Some 1500, tq_clock = Timestamp 2200\<rparr>"

definition example_calls :: "nat \<Rightarrow> nat tq_call list" where
  "example_calls c =
     (if c = 0 then [CallCancel \<lparr>tid_timer = 8, tid_sequence = 1\<rparr>,
                     CallAddTimer 24 2 (Timestamp 2300) (double_of_int 0)]
      else [])"

lemma example_queue_inv: "tq_inv {} example_queue" "tq_owner example_queue = 1"
  by (auto simp: tq_inv_def example_queue_def UINTPTR_MAX_def)

lemma getExpired_exact_witness:
  "tq_inv {} example_queue \<and>
   (\<exists>q'. TimerQueue_getExpired example_queue (Timestamp 1700) = ([(Timestamp 1500, 16)], q') \<and>
         {(Timestamp 1500, 16)} = {e \<in> set (tq_timers example_queue). fst e \<le> Timestamp 1700})"
proof -
  have "TimerQueue_getExpired example_queue (Timestamp 1700) =
      ([(Timestamp 1500, 16)], example_queue\<lparr>tq_timers := [(Timestamp 2000, 8)]\<rparr>)"
    by (simp add: TimerQueue_getExpired_def example_queue_def UINTPTR_MAX_def)
  from getExpired_exact [OF example_queue_inv(1) this] this show ?thesis
    using example_queue_inv by auto
qed

lemma handleRead_outcome_witness:
  "\<exists>q'. TimerQueue_handleRead 1 example_calls example_queue = Inr q' \<and> tq_inv {} q' \<and>
        tq_due q' \<and> rescheduled (Timestamp 2200) (the (tq_heap example_queue 8)) 8 q' \<and>
        tq_heap q' 16 = None \<and>
        tq_timers q' = [(Timestamp 2300, 24), (Timestamp 2002200, 8)]"
proof -
  have "case TimerQueue_handleRead 1 example_calls example_queue of Inl x \<Rightarrow> False
    | Inr q' \<Rightarrow> tq_timers q' = [(Timestamp 2300, 24), (Timestamp 2002200, 8)]"
    by code_simp
  then obtain q' where run: "TimerQueue_handleRead 1 example_calls example_queue = Inr q'"
    and timers: "tq_timers q' = [(Timestamp 2300, 24), (Timestamp 2002200, 8)]"
    by (auto split: sum.splits)
  have "tq_clock example_queue = Timestamp 2200"
    "(Timestamp 1500, 16) \<in> set (tq_timers example_queue)"
    "(Timestamp 2000, 8) \<in> set (tq_timers example_queue)"
    "\<not> repeat (the (tq_heap example_queue 16))"
    by (simp_all add: example_queue_def)
  with handleRead_outcome [OF example_queue_inv, of example_calls, unfolded run] timers run
  show ?thesis by (fastforce simp: rescheduled_def)
qed

subsection \<open>The life of a queue\<close>

text \<open>What happens to a queue in the loop thread: public calls, and the loop calling \<open>handleRead\<close>.\<close>

datatype 'c tq_event =
    PublicCall "'c tq_call"
  | TimerReadable

fun TimerQueue_event ::
    "tid \<Rightarrow> ('c \<Rightarrow> 'c tq_call list) \<Rightarrow> 'c timer_queue \<Rightarrow> 'c tq_event \<Rightarrow> 'c timer_queue res" where
  "TimerQueue_event me calls q (PublicCall c) = TimerQueue_call me q c"
| "TimerQueue_event me calls q TimerReadable = TimerQueue_handleRead me calls q"

interpretation tqe: safe_calls "TimerQueue_event me calls" "tq_running me {} H True" timer_fault
  for me calls H
proof
  fix q c
  assume q: "tq_running me {} H True q"
  show "case TimerQueue_event me calls q c of Inr q' \<Rightarrow> tq_running me {} H True q' | Inl x \<Rightarrow> timer_fault x"
  proof (cases c)
    case (PublicCall d)
    with tqc.safe [OF q, of d] show ?thesis by simp
  next
    case TimerReadable
    from q have "tq_inv {} q" "tq_owner q = me" by (simp_all add: tq_running_def)
    from timers_handleRead_ok [OF this, of calls] TimerReadable show ?thesis
      by (auto simp: tq_running_def split: sum.splits)
  qed
qed

lemma destroy_frees_all: "tq_inv {} q \<Longrightarrow> tq_heap (TimerQueue_destroy q) = Map.empty"
proof (rule ext)
  fix p
  assume "tq_inv {} q"
  then have "dom (tq_heap q) = snd ` set (tq_timers q)" by (simp add: tq_inv_def)
  then show "tq_heap (TimerQueue_destroy q) p = None"
    by (auto simp: TimerQueue_destroy_def domIff)
qed

text \<open>
  C8: In every life of a timer queue - any calls of any callbacks, any firing times, any
  addresses - the set stays sorted, holds every live timer exactly once under its expiration,
  nothing dangles or leaks, the timerfd is armed in time for the first timer, and the destructor
  frees every timer. The only faults are those of the allocator and of times outside
  \<open>int64_t\<close>.
\<close>

theorem timer_queue_sound:
  "case for_each (TimerQueue_event me calls) (TimerQueue_new me now) events of
     Inl x \<Rightarrow> x = UncaughtException \<or> x = SignedOverflow
   | Inr q \<Rightarrow> tq_inv {} q \<and> tq_due q \<and> tq_heap (TimerQueue_destroy q) = Map.empty"
proof -
  have "tq_running me {} Map.empty True (TimerQueue_new me now)"
    by (simp add: tq_running_def TimerQueue_new_def tq_inv_def tq_due_def)
  from tqe.calls_safe [OF this, of calls events] show ?thesis
    by (auto simp: tq_running_def timer_fault_def destroy_frees_all split: sum.splits)
qed

subsection \<open>Cancelling\<close>

lemma erase_timer_filter:
  "distinct (map snd es) \<Longrightarrow> (w, p) \<in> set es \<Longrightarrow>
   erase_timer p es = Some (filter (\<lambda>e. e \<noteq> (w, p)) es)"
proof (induction es)
  case (Cons e es)
  show ?case
  proof (cases "snd e = p")
    case True
    with Cons.prems(1) have "p \<notin> snd ` set es" by auto
    moreover from this Cons.prems(2) have "e = (w, p)" by force
    ultimately show ?thesis by (force intro: filter_True [symmetric])
  next
    case False
    with Cons show ?thesis by auto
  qed
qed simp

text \<open>
  Cancelling a pending timer removes it and only it, and frees it; a \<open>TimerId\<close> is
  identified by the address alone, its sequence number is never compared, so the id of a timer
  that is gone cancels whatever timer now lives at that address.
\<close>

lemma cancel_removes_by_address:
  assumes "tq_inv E q" and "tq_owner q = me" and "(w, tid_timer i) \<in> set (tq_timers q)"
  shows "case TimerQueue_cancelInLoop me q i of
           Inl x \<Rightarrow> x = SignedOverflow
         | Inr q' \<Rightarrow> tq_timers q' = filter (\<lambda>e. e \<noteq> (w, tid_timer i)) (tq_timers q) \<and>
                     tq_heap q' = (tq_heap q)(tid_timer i := None) \<and>
                     TimerQueue_cancelInLoop me q (i\<lparr>tid_sequence := s\<rparr>) = Inr q'"
proof -
  let ?es = "filter (\<lambda>e. e \<noteq> (w, tid_timer i)) (tq_timers q)"
  have erase: "erase_timer (tid_timer i) (tq_timers q) = Some ?es"
    using erase_timer_filter assms by (auto simp: tq_inv_def)
  have "0 < tid_timer i" using assms(1,3) by (force simp: tq_inv_def)
  then have "TimerQueue_cancelInLoop me q i =
      (case ?es of [] \<Rightarrow> Inr (q\<lparr>tq_timers := ?es, tq_heap := (tq_heap q)(tid_timer i := None)\<rparr>)
       | e # _ \<Rightarrow> TimerQueue_resetTimerfd
                   (q\<lparr>tq_timers := ?es, tq_heap := (tq_heap q)(tid_timer i := None)\<rparr>) (fst e))"
    using erase assms(2)
    by (simp add: TimerQueue_cancelInLoop_def TimerQueue_assertInLoopThread_def Let_def)
  moreover have "TimerQueue_cancelInLoop me q (i\<lparr>tid_sequence := s\<rparr>) = TimerQueue_cancelInLoop me q i"
    by (simp add: TimerQueue_cancelInLoop_def)
  ultimately show ?thesis
    using resetTimerfd_cases
      [where q = "q\<lparr>tq_timers := ?es, tq_heap := (tq_heap q)(tid_timer i := None)\<rparr>"
       and w = "fst (hd ?es)"]
    by (auto split: list.splits sum.splits)
qed

lemma cancel_removes_by_address_witness:
  "\<exists>q'. TimerQueue_cancelInLoop 1 example_queue \<lparr>tid_timer = 8, tid_sequence = 77\<rparr> = Inr q' \<and>
        tq_timers q' = [(Timestamp 1500, 16)] \<and> tq_heap q' 8 = None"
proof -
  have "(Timestamp 2000, tid_timer \<lparr>tid_timer = 8, tid_sequence = 77\<rparr>) \<in> set (tq_timers example_queue)"
    by (simp add: example_queue_def)
  note c = cancel_removes_by_address [OF example_queue_inv this, of 1]
  have "\<not> isl (TimerQueue_cancelInLoop 1 example_queue \<lparr>tid_timer = 8, tid_sequence = 77\<rparr>)"
    by code_simp
  with c show ?thesis
    by (cases "TimerQueue_cancelInLoop 1 example_queue \<lparr>tid_timer = 8, tid_sequence = 77\<rparr>")
      (auto simp: example_queue_def)
qed

subsection \<open>Adding a timer from another thread\<close>

text \<open>
  In another thread \<open>runInLoop\<close> only queues \<open>addTimerInLoop\<close>: the loop thread may do any work
  (\<open>between\<close>) before the caller evaluates \<open>timer->sequence()\<close>.
\<close>

definition TimerQueue_addTimer_remote ::
    "('c timer_queue \<Rightarrow> addr \<Rightarrow> 'c timer_queue res) \<Rightarrow> addr \<Rightarrow> 'c \<Rightarrow> timestamp \<Rightarrow> double \<Rightarrow>
     'c timer_queue \<Rightarrow> (timer_id \<times> 'c timer_queue) res" where
  "TimerQueue_addTimer_remote between p cb when interv q =
     and_then (Timer_new p cb when interv q) (\<lambda>(timer, q).
     and_then (between q timer) (\<lambda>q.
     and_then (timer_at q timer) (\<lambda>t.
     Inr (\<lparr>tid_timer = timer, tid_sequence = sequence t\<rparr>, q))))"

text \<open>The loop thread runs the queued functor, the timer fires, and its callback runs.\<close>

definition run_and_fire ::
    "tid \<Rightarrow> ('c \<Rightarrow> 'c tq_call list) \<Rightarrow> 'c timer_queue \<Rightarrow> addr \<Rightarrow> 'c timer_queue res" where
  "run_and_fire me calls q p =
     and_then (TimerQueue_addTimerInLoop me q p) (TimerQueue_handleRead me calls)"

lemma Timer_new_inv:
  assumes "tq_inv E q" and "Timer_new p cb w i q = Inr (p', q')"
  shows "p' = p" and "p \<notin> E" and "tq_inv (insert p E) q'" and "tq_owner q' = tq_owner q"
    and "tq_clock q' = tq_clock q" and "tq_timers q' = tq_timers q"
    and "\<exists>t. tq_heap q' p = Some t \<and> repeat t = double_positive i \<and> expiration t = w"
proof -
  have new: "0 < p" "p < UINTPTR_MAX" "p \<notin> dom (tq_heap q)" "p' = p"
    "q' = q\<lparr>tq_heap := (tq_heap q)(p \<mapsto>
              \<lparr>callback = cb, expiration = w, interval = i, repeat = double_positive i,
               sequence = tq_numCreated q + 1\<rparr>), tq_numCreated := tq_numCreated q + 1\<rparr>"
    using assms(2) by (auto simp: Timer_new_def split: if_splits)
  then show "p' = p" "p \<notin> E" "tq_owner q' = tq_owner q" "tq_clock q' = tq_clock q"
    "tq_timers q' = tq_timers q"
    "\<exists>t. tq_heap q' p = Some t \<and> repeat t = double_positive i \<and> expiration t = w"
    using assms(1) by (auto simp: tq_inv_def)
  have "p \<notin> snd ` set (tq_timers q) \<union> E" using assms(1) new(3) by (simp add: tq_inv_def)
  with assms(1) new show "tq_inv (insert p E) q'" by (auto simp: tq_inv_def)
qed

lemma addTimerInLoop_clock:
  "TimerQueue_addTimerInLoop me q p = Inr q' \<Longrightarrow> tq_clock q' = tq_clock q"
  by (auto simp: TimerQueue_addTimerInLoop_def TimerQueue_insert_def Let_def returned
        TimerQueue_resetTimerfd_def split: if_splits)

text \<open>
  C36: A one-shot timer that is already due, added from another thread: if the loop thread adds
  and fires it before the caller builds its \<open>TimerId\<close>, the caller reads the sequence number of
  a deleted timer.
\<close>

theorem addTimer_race_reads_freed_timer:
  assumes inv: "tq_inv {} q" and new: "Timer_new p cb w i q = Inr (p, q0)"
    and one_shot: "\<not> double_positive i" and due: "w \<le> tq_clock q"
    and run: "run_and_fire (tq_owner q) calls q0 p = Inr q2"
  shows "TimerQueue_addTimer_remote (run_and_fire (tq_owner q) calls) p cb w i q = Inl UseAfterFree"
proof -
  note n = Timer_new_inv [OF inv new]
  from n(7) obtain t where t: "tq_heap q0 p = Some t" "\<not> repeat t" "expiration t = w"
    using one_shot by auto
  from run obtain q1 where add: "TimerQueue_addTimerInLoop (tq_owner q) q0 p = Inr q1"
    and fire: "TimerQueue_handleRead (tq_owner q) calls q1 = Inr q2"
    by (auto simp: run_and_fire_def returned)
  from addTimerInLoop_ok [OF n(3,4) _ t(1)] add
  have q1: "tq_inv {} q1" "tq_owner q1 = tq_owner q" "tq_heap q1 = tq_heap q0" by auto
  have "p \<in> snd ` set (tq_timers q1)" using q1(1,3) t(1) by (auto simp: tq_inv_def)
  then have "(w, p) \<in> set (tq_timers q1)" using q1(1,3) t by (force simp: tq_inv_def)
  moreover have "w \<le> tq_clock q1" using due n(5) addTimerInLoop_clock [OF add] by simp
  ultimately have "rescheduled (tq_clock q1) t p q2"
    using timers_handleRead_ok [OF q1(1,2), of calls] fire q1(3) t(1) by force
  with t(2) have "tq_heap q2 p = None" by (simp add: rescheduled_def)
  with new run show ?thesis by (simp add: TimerQueue_addTimer_remote_def timer_at_def)
qed

lemma addTimer_race_reads_freed_timer_witness:
  "TimerQueue_addTimer_remote (run_and_fire 1 example_calls) 32 3 (Timestamp 1000)
     (double_of_int 0) example_queue = Inl UseAfterFree"
proof -
  obtain q0 where new: "Timer_new 32 3 (Timestamp 1000) (double_of_int 0) example_queue = Inr (32, q0)"
    by (simp add: Timer_new_def UINTPTR_MAX_def example_queue_def)
  have "\<not> isl (and_then (Timer_new 32 3 (Timestamp 1000) (double_of_int 0) example_queue)
      (\<lambda>(p, q0). run_and_fire 1 example_calls q0 p))"
    by code_simp
  then obtain q2 where "run_and_fire 1 example_calls q0 32 = Inr q2"
    using new by (cases "run_and_fire 1 example_calls q0 32") auto
  with addTimer_race_reads_freed_timer [OF example_queue_inv(1) new] example_queue_inv(2)
  show ?thesis by (simp add: double_positive_def double_of_int_def example_queue_def)
qed

end
