(* ===== verification/Channels.thy ===== *)
theory Channels
  imports Prelude "HOL-Library.Word"
begin

unbundle bit_operations_syntax

section \<open>Channel, Poller and EPollPoller (src/net/channel.cpp, poller.cpp, epoll_poller.cpp)\<close>

text \<open>
  A \<open>Channel\<close> couples a file descriptor with the events its owner wants and the events that
  \<open>epoll_wait\<close> reported, as 32-bit masks. The poller keeps a map from descriptors to channels;
  the kernel keeps the interest list that \<open>epoll_ctl\<close> changes. The \<open>Channel\<close> objects live in a
  heap (field \<open>channel_heap\<close>), so that a pointer kept by the kernel after the object is gone is
  visible. \<open>epoll_ctl\<close> is modelled as documented: \<open>EPOLL_CTL_ADD\<close> fails on a descriptor that is
  registered, \<open>MOD\<close> and \<open>DEL\<close> fail on one that is not; the code only logs a failure, the model
  counts it.
\<close>

subsection \<open>Event masks\<close>

type_synonym events = "32 word"

definition EPOLLIN :: events where "EPOLLIN = 1"
definition EPOLLPRI :: events where "EPOLLPRI = 2"
definition EPOLLOUT :: events where "EPOLLOUT = 4"
definition EPOLLERR :: events where "EPOLLERR = 8"
definition EPOLLHUP :: events where "EPOLLHUP = 16"

definition kNoneEvent :: events where "kNoneEvent = 0"
definition kReadEvent :: events where "kReadEvent = EPOLLIN OR EPOLLPRI"
definition kWriteEvent :: events where "kWriteEvent = EPOLLOUT"

lemmas event_masks = EPOLLIN_def EPOLLPRI_def EPOLLOUT_def EPOLLERR_def EPOLLHUP_def
  kNoneEvent_def kReadEvent_def kWriteEvent_def

subsection \<open>Channel\<close>

datatype ChannelState = kNew | kAdded | kDeleted

record channel =
  ch_fd :: int
  ch_events :: events
  ch_revents :: events
  ch_index :: ChannelState

definition Channel_new :: "int \<Rightarrow> channel" where
  "Channel_new fd = \<lparr>ch_fd = fd, ch_events = kNoneEvent, ch_revents = 0, ch_index = kNew\<rparr>"

definition Channel_isNoneEvent :: "channel \<Rightarrow> bool" where
  "Channel_isNoneEvent c \<longleftrightarrow> ch_events c = 0"

definition Channel_isReading :: "channel \<Rightarrow> bool" where
  "Channel_isReading c \<longleftrightarrow> ch_events c AND EPOLLIN \<noteq> 0"

definition Channel_isWriting :: "channel \<Rightarrow> bool" where
  "Channel_isWriting c \<longleftrightarrow> ch_events c AND EPOLLOUT \<noteq> 0"

text \<open>The changes of the wanted events, before \<open>update\<close> passes them to the loop.\<close>

datatype interest_change =
    EnableReading | DisableReading | EnableWriting | DisableWriting | DisableAll

fun changed_events :: "interest_change \<Rightarrow> events \<Rightarrow> events" where
  "changed_events EnableReading ev = ev OR kReadEvent"
| "changed_events DisableReading ev = ev AND NOT kReadEvent"
| "changed_events EnableWriting ev = ev OR kWriteEvent"
| "changed_events DisableWriting ev = ev AND NOT kWriteEvent"
| "changed_events DisableAll ev = kNoneEvent"

text \<open>
  \<open>handleEvent\<close>: the four callbacks act on the whole state \<open>'s\<close> of the program; \<open>revents\<close>
  reads this channel's \<open>revents_\<close> in it, anew before each test, as the code does.
\<close>

record 's event_callbacks =
  readCallback :: "('s \<Rightarrow> 's res) option"
  writeCallback :: "('s \<Rightarrow> 's res) option"
  closeCallback :: "('s \<Rightarrow> 's res) option"
  errorCallback :: "('s \<Rightarrow> 's res) option"

definition call_when :: "bool \<Rightarrow> ('s \<Rightarrow> 's res) option \<Rightarrow> 's \<Rightarrow> 's res" where
  "call_when b cb s = (if b then call_if_set cb s else Inr s)"

definition Channel_handleEvent ::
    "('s \<Rightarrow> events res) \<Rightarrow> 's event_callbacks \<Rightarrow> 's \<Rightarrow> 's res" where
  "Channel_handleEvent revents cbs s =
     and_then (revents s) (\<lambda>r.
     and_then (call_when (r AND EPOLLHUP \<noteq> 0 \<and> r AND EPOLLIN = 0) (closeCallback cbs) s) (\<lambda>s.
     and_then (revents s) (\<lambda>r.
     and_then (call_when (r AND EPOLLERR \<noteq> 0) (errorCallback cbs) s) (\<lambda>s.
     and_then (revents s) (\<lambda>r.
     and_then (call_when (r AND kReadEvent \<noteq> 0) (readCallback cbs) s) (\<lambda>s.
     and_then (revents s) (\<lambda>r.
     call_when (r AND kWriteEvent \<noteq> 0) (writeCallback cbs) s)))))))"

subsection \<open>EPollPoller\<close>

type_synonym interest_list = "int \<Rightarrow> (events \<times> addr) option"

datatype epoll_op = EPOLL_CTL_ADD | EPOLL_CTL_MOD | EPOLL_CTL_DEL

fun epoll_ctl :: "epoll_op \<Rightarrow> int \<Rightarrow> events \<times> addr \<Rightarrow> interest_list \<Rightarrow> interest_list option" where
  "epoll_ctl EPOLL_CTL_ADD fd e l = (if l fd = None then Some (l(fd \<mapsto> e)) else None)"
| "epoll_ctl EPOLL_CTL_MOD fd e l = (if l fd = None then None else Some (l(fd \<mapsto> e)))"
| "epoll_ctl EPOLL_CTL_DEL fd e l = (if l fd = None then None else Some (l(fd := None)))"

record epoll_poller =
  channels :: "int \<Rightarrow> addr option"
  events_size :: nat
  interest :: interest_list
  ctl_failures :: nat
  channel_heap :: "addr \<Rightarrow> channel option"

definition kInitEventListSize :: nat where
  "kInitEventListSize = 16"

definition EPollPoller_new :: epoll_poller where
  "EPollPoller_new =
     \<lparr>channels = Map.empty, events_size = kInitEventListSize, interest = Map.empty,
      ctl_failures = 0, channel_heap = Map.empty\<rparr>"

definition channel_at :: "epoll_poller \<Rightarrow> addr \<Rightarrow> channel res" where
  "channel_at p a = (case channel_heap p a of Some c \<Rightarrow> Inr c | None \<Rightarrow> Inl UseAfterFree)"

definition put_channel :: "addr \<Rightarrow> channel \<Rightarrow> epoll_poller \<Rightarrow> epoll_poller" where
  "put_channel a c p = p\<lparr>channel_heap := (channel_heap p)(a \<mapsto> c)\<rparr>"

definition Channel_setIndex :: "addr \<Rightarrow> ChannelState \<Rightarrow> epoll_poller \<Rightarrow> epoll_poller res" where
  "Channel_setIndex a i p = map_res (\<lambda>c. put_channel a (c\<lparr>ch_index := i\<rparr>) p) (channel_at p a)"

definition Channel_setRevents :: "addr \<Rightarrow> events \<Rightarrow> epoll_poller \<Rightarrow> epoll_poller res" where
  "Channel_setRevents a r p = map_res (\<lambda>c. put_channel a (c\<lparr>ch_revents := r\<rparr>) p) (channel_at p a)"

definition EPollPoller_update :: "epoll_op \<Rightarrow> addr \<Rightarrow> epoll_poller \<Rightarrow> epoll_poller res" where
  "EPollPoller_update op a p =
     and_then (channel_at p a) (\<lambda>c.
     case epoll_ctl op (ch_fd c) (ch_events c, a) (interest p) of
       Some l \<Rightarrow> Inr (p\<lparr>interest := l\<rparr>)
     | None \<Rightarrow> Inr (p\<lparr>ctl_failures := ctl_failures p + 1\<rparr>))"

definition EPollPoller_updateChannel :: "addr \<Rightarrow> epoll_poller \<Rightarrow> epoll_poller res" where
  "EPollPoller_updateChannel a p =
     and_then (channel_at p a) (\<lambda>c.
     if ch_index c = kNew \<or> ch_index c = kDeleted then
       (let p = (if ch_index c = kNew then p\<lparr>channels := (channels p)(ch_fd c \<mapsto> a)\<rparr> else p)
        in and_then (Channel_setIndex a kAdded p) (EPollPoller_update EPOLL_CTL_ADD a))
     else if Channel_isNoneEvent c then
       and_then (EPollPoller_update EPOLL_CTL_DEL a p) (Channel_setIndex a kDeleted)
     else EPollPoller_update EPOLL_CTL_MOD a p)"

definition EPollPoller_removeChannel :: "addr \<Rightarrow> epoll_poller \<Rightarrow> epoll_poller res" where
  "EPollPoller_removeChannel a p =
     and_then (channel_at p a) (\<lambda>c.
     and_then (if ch_index c = kAdded then EPollPoller_update EPOLL_CTL_DEL a p else Inr p) (\<lambda>p.
     Channel_setIndex a kNew (p\<lparr>channels := (channels p)(ch_fd c := None)\<rparr>)))"

definition Poller_hasChannel :: "addr \<Rightarrow> epoll_poller \<Rightarrow> bool res" where
  "Poller_hasChannel a p = map_res (\<lambda>c. channels p (ch_fd c) = Some a) (channel_at p a)"

text \<open>
  \<open>epoll_wait\<close> fills the vector \<open>events_\<close> up to its size; its result (\<open>None\<close> for an error) is
  an argument. The loop over the results sets the reported events of each channel and collects
  the channels in order.
\<close>

definition EPollPoller_fillActiveChannels ::
    "(events \<times> addr) list \<Rightarrow> epoll_poller \<Rightarrow> (addr list \<times> epoll_poller) res" where
  "EPollPoller_fillActiveChannels evs p =
     for_each (\<lambda>(active, p) (r, a).
         map_res (\<lambda>p. (active @ [a], p)) (Channel_setRevents a r p))
       ([], p) evs"

definition EPollPoller_poll ::
    "(events \<times> addr) list option \<Rightarrow> epoll_poller \<Rightarrow> (addr list \<times> epoll_poller) res" where
  "EPollPoller_poll wait p =
     (case wait of
        None \<Rightarrow> Inr ([], p)
      | Some evs \<Rightarrow>
          if length evs = 0 then Inr ([], p)
          else if events_size p < length evs then Inl OutOfBounds
          else
            and_then (EPollPoller_fillActiveChannels evs p) (\<lambda>(active, p).
            Inr (active,
                 if length evs = events_size p then p\<lparr>events_size := events_size p * 2\<rparr> else p)))"

subsection \<open>The interest list mirrors the channels\<close>

text \<open>
  The invariant of poller and kernel: no call of \<open>epoll_ctl\<close> has failed; the kernel's list holds
  exactly the channels with index \<open>kAdded\<close>, with the events they want; the poller's map holds
  exactly the channels not \<open>kNew\<close>, at most one per descriptor.
\<close>

definition poller_inv :: "epoll_poller \<Rightarrow> bool" where
  "poller_inv p \<longleftrightarrow>
     ctl_failures p = 0 \<and>
     (\<forall>fd ev a. interest p fd = Some (ev, a) \<longleftrightarrow>
        (\<exists>c. channel_heap p a = Some c \<and> ch_fd c = fd \<and> ch_index c = kAdded \<and> ch_events c = ev)) \<and>
     (\<forall>fd a. channels p fd = Some a \<longleftrightarrow>
        (\<exists>c. channel_heap p a = Some c \<and> ch_fd c = fd \<and> ch_index c \<noteq> kNew))"

text \<open>No other channel in use has this descriptor.\<close>

definition sole_user :: "addr \<Rightarrow> int \<Rightarrow> epoll_poller \<Rightarrow> bool" where
  "sole_user a fd p \<longleftrightarrow> (\<forall>b. channels p fd = Some b \<longrightarrow> b = a)"

lemma poller_inv_sole_user:
  "poller_inv p \<Longrightarrow> channel_heap p a = Some c \<Longrightarrow> ch_index c \<noteq> kNew \<Longrightarrow> sole_user a (ch_fd c) p"
  unfolding poller_inv_def sole_user_def by (metis option.inject)

lemma poller_inv_interest:
  assumes "poller_inv p" and "channel_heap p a = Some c" and "sole_user a (ch_fd c) p"
  shows "interest p (ch_fd c) = (if ch_index c = kAdded then Some (ch_events c, a) else None)"
proof (cases "interest p (ch_fd c)")
  case None
  with assms(1,2) have "ch_index c \<noteq> kAdded"
    unfolding poller_inv_def by (metis option.distinct(1))
  with None show ?thesis by simp
next
  case (Some e)
  obtain ev b where e: "e = (ev, b)" by force
  with Some assms(1) obtain d where d: "channel_heap p b = Some d" "ch_fd d = ch_fd c"
    "ch_index d = kAdded" "ch_events d = ev" by (auto simp: poller_inv_def)
  then have "channels p (ch_fd c) = Some b" using assms(1) by (auto simp: poller_inv_def)
  with assms(3) have "b = a" by (simp add: sole_user_def)
  with d assms(2) Some e show ?thesis by simp
qed

definition set_events :: "addr \<Rightarrow> events \<Rightarrow> epoll_poller \<Rightarrow> epoll_poller res" where
  "set_events a ev p = map_res (\<lambda>c. put_channel a (c\<lparr>ch_events := ev\<rparr>) p) (channel_at p a)"

definition index_after_update :: "ChannelState \<Rightarrow> events \<Rightarrow> ChannelState" where
  "index_after_update i ev = (if i = kAdded \<and> ev = 0 then kDeleted else kAdded)"

text \<open>The state after a channel has changed its wanted events to \<open>ev\<close> and told the poller.\<close>

definition updated :: "addr \<Rightarrow> channel \<Rightarrow> events \<Rightarrow> epoll_poller \<Rightarrow> epoll_poller" where
  "updated a c ev p =
     p\<lparr>channel_heap := (channel_heap p)
          (a \<mapsto> c\<lparr>ch_events := ev, ch_index := index_after_update (ch_index c) ev\<rparr>),
       channels := (channels p)(ch_fd c \<mapsto> a),
       interest := (interest p)
          (ch_fd c := (if index_after_update (ch_index c) ev = kAdded then Some (ev, a) else None))\<rparr>"

lemma updateChannel_eq:
  assumes inv: "poller_inv p" and c: "channel_heap p a = Some c" and sole: "sole_user a (ch_fd c) p"
  shows "and_then (set_events a ev p) (EPollPoller_updateChannel a) = Inr (updated a c ev p)"
proof -
  note i = poller_inv_interest [OF inv c sole]
  have ch: "channels p (ch_fd c) = Some a" if "ch_index c \<noteq> kNew"
    using inv c that by (auto simp: poller_inv_def)
  then have "(channels p)(ch_fd c \<mapsto> a) = channels p" if "ch_index c \<noteq> kNew"
    using that by (simp add: map_upd_triv)
  with i c show ?thesis
    by (cases c; cases "ch_index c")
      (simp_all add: set_events_def channel_at_def put_channel_def EPollPoller_updateChannel_def
        EPollPoller_update_def Channel_setIndex_def Let_def updated_def Channel_isNoneEvent_def
        index_after_update_def fun_upd_same)
qed

lemma updated_inv:
  assumes inv: "poller_inv p" and c: "channel_heap p a = Some c" and sole: "sole_user a (ch_fd c) p"
  shows "poller_inv (updated a c ev p)"
proof -
  have other: "ch_index d = kNew" if "channel_heap p b = Some d" "ch_fd d = ch_fd c" "b \<noteq> a" for b d
    using inv sole that unfolding poller_inv_def sole_user_def by metis
  show ?thesis
    using inv c other unfolding poller_inv_def updated_def
    by (auto simp: index_after_update_def split: if_splits)
qed

text \<open>The state after a channel was removed.\<close>

definition removed :: "addr \<Rightarrow> channel \<Rightarrow> epoll_poller \<Rightarrow> epoll_poller" where
  "removed a c p =
     p\<lparr>channel_heap := (channel_heap p)(a \<mapsto> c\<lparr>ch_index := kNew\<rparr>),
       channels := (channels p)(ch_fd c := None), interest := (interest p)(ch_fd c := None)\<rparr>"

lemma removeChannel_eq:
  assumes inv: "poller_inv p" and c: "channel_heap p a = Some c" and sole: "sole_user a (ch_fd c) p"
  shows "EPollPoller_removeChannel a p = Inr (removed a c p)"
proof -
  note i = poller_inv_interest [OF inv c sole]
  then have "(interest p)(ch_fd c := None) = interest p" if "ch_index c \<noteq> kAdded"
    using that by auto
  with i c show ?thesis
    by (auto simp: EPollPoller_removeChannel_def channel_at_def EPollPoller_update_def
        Channel_setIndex_def put_channel_def removed_def)
qed

lemma removed_inv:
  assumes inv: "poller_inv p" and c: "channel_heap p a = Some c" and sole: "sole_user a (ch_fd c) p"
  shows "poller_inv (removed a c p)"
proof -
  have other: "ch_index d = kNew" if "channel_heap p b = Some d" "ch_fd d = ch_fd c" "b \<noteq> a" for b d
    using inv sole that unfolding poller_inv_def sole_user_def by metis
  show ?thesis
    using inv c other unfolding poller_inv_def removed_def by (auto split: if_splits)
qed

subsection \<open>Polling\<close>

text \<open>Only the reported events of channels differ.\<close>

definition same_but_revents :: "epoll_poller \<Rightarrow> epoll_poller \<Rightarrow> bool" where
  "same_but_revents p q \<longleftrightarrow>
     channels q = channels p \<and> interest q = interest p \<and> ctl_failures q = ctl_failures p \<and>
     (\<forall>a. map_option (\<lambda>c. c\<lparr>ch_revents := 0\<rparr>) (channel_heap q a) =
          map_option (\<lambda>c. c\<lparr>ch_revents := 0\<rparr>) (channel_heap p a))"

lemma channel_eq_but_revents:
  "c\<lparr>ch_revents := r\<rparr> = d\<lparr>ch_revents := r\<rparr> \<longleftrightarrow>
   ch_fd c = ch_fd d \<and> ch_events c = ch_events d \<and> ch_index c = ch_index d"
  for c d :: channel
  by (cases c; cases d) auto

lemma same_but_revents_channel:
  assumes "same_but_revents p q"
  shows "(\<exists>c. channel_heap q a = Some c \<and> ch_fd c = fd \<and> P (ch_index c) (ch_events c)) \<longleftrightarrow>
         (\<exists>c. channel_heap p a = Some c \<and> ch_fd c = fd \<and> P (ch_index c) (ch_events c))"
proof -
  have "map_option (\<lambda>c. c\<lparr>ch_revents := 0\<rparr>) (channel_heap q a) =
        map_option (\<lambda>c. c\<lparr>ch_revents := 0\<rparr>) (channel_heap p a)"
    using assms by (simp add: same_but_revents_def)
  then show ?thesis
    by (cases "channel_heap p a"; cases "channel_heap q a") (auto simp: channel_eq_but_revents)
qed

lemma same_but_revents_inv: "same_but_revents p q \<Longrightarrow> poller_inv p \<Longrightarrow> poller_inv q"
  using same_but_revents_channel [of p q _ _ "\<lambda>i e. i = kAdded \<and> e = _"]
    same_but_revents_channel [of p q _ _ "\<lambda>i e. i \<noteq> kNew"]
  by (simp add: poller_inv_def same_but_revents_def)

lemma fillActiveChannels_ok:
  assumes "\<forall>(r, a) \<in> set evs. channel_heap p a \<noteq> None"
  shows "\<exists>q. for_each (\<lambda>(active, p) (r, a).
               map_res (\<lambda>p. (active @ [a], p)) (Channel_setRevents a r p)) (as, p) evs =
             Inr (as @ map snd evs, q) \<and> same_but_revents p q \<and> events_size q = events_size p \<and>
             (\<forall>a. channel_heap q a =
                map_option (\<lambda>c. case map_of (rev (map prod.swap evs)) a of
                                  None \<Rightarrow> c | Some r \<Rightarrow> c\<lparr>ch_revents := r\<rparr>) (channel_heap p a))"
  using assms
proof (induction evs rule: rev_induct)
  case Nil
  show ?case by (simp add: same_but_revents_def option.map_ident)
next
  case (snoc e evs)
  obtain r a where e: "e = (r, a)" by force
  from snoc obtain q where
    q: "for_each (\<lambda>(active, p) (r, a).
               map_res (\<lambda>p. (active @ [a], p)) (Channel_setRevents a r p)) (as, p) evs =
             Inr (as @ map snd evs, q)" "same_but_revents p q" "events_size q = events_size p"
       "\<forall>a. channel_heap q a =
                map_option (\<lambda>c. case map_of (rev (map prod.swap evs)) a of
                                  None \<Rightarrow> c | Some r \<Rightarrow> c\<lparr>ch_revents := r\<rparr>) (channel_heap p a)"
    by auto
  from snoc.prems e obtain c where "channel_heap p a = Some c" by auto
  with q(4) obtain d where d: "channel_heap q a = Some d"
    "d = (case map_of (rev (map prod.swap evs)) a of None \<Rightarrow> c | Some r \<Rightarrow> c\<lparr>ch_revents := r\<rparr>)"
    by simp
  let ?q = "put_channel a (d\<lparr>ch_revents := r\<rparr>) q"
  have "same_but_revents p ?q"
    using q(2) d(1) unfolding same_but_revents_def put_channel_def
    by (auto dest: spec [of _ a])
  moreover have "\<forall>b. channel_heap ?q b =
      map_option (\<lambda>c. case map_of (rev (map prod.swap (evs @ [e]))) b of
                        None \<Rightarrow> c | Some r \<Rightarrow> c\<lparr>ch_revents := r\<rparr>) (channel_heap p b)"
    using q(4) d \<open>channel_heap p a = Some c\<close>
    by (auto simp: put_channel_def e split: option.splits)
  ultimately show ?case
    using q(1,3) d(1) e by (simp add: for_each_append Channel_setRevents_def channel_at_def put_channel_def)
qed

lemma poll_ok:
  assumes inv: "poller_inv p" and size: "length evs \<le> events_size p"
    and reg: "\<forall>(r, a) \<in> set evs. \<exists>fd ev. interest p fd = Some (ev, a)"
  shows "\<exists>q. EPollPoller_poll (Some evs) p = Inr (map snd evs, q) \<and> same_but_revents p q \<and>
             (\<forall>a. channel_heap q a =
                map_option (\<lambda>c. case map_of (rev (map prod.swap evs)) a of
                                  None \<Rightarrow> c | Some r \<Rightarrow> c\<lparr>ch_revents := r\<rparr>) (channel_heap p a)) \<and>
             events_size q =
               (if evs \<noteq> [] \<and> length evs = events_size p then 2 * events_size p else events_size p)"
proof -
  have live: "\<forall>(r, a) \<in> set evs. channel_heap p a \<noteq> None"
    using inv reg unfolding poller_inv_def by fastforce
  from fillActiveChannels_ok [OF live, of "[]"] obtain q where
    q: "EPollPoller_fillActiveChannels evs p = Inr (map snd evs, q)" "same_but_revents p q"
       "events_size q = events_size p"
       "\<forall>a. channel_heap q a =
                map_option (\<lambda>c. case map_of (rev (map prod.swap evs)) a of
                                  None \<Rightarrow> c | Some r \<Rightarrow> c\<lparr>ch_revents := r\<rparr>) (channel_heap p a)"
    by (auto simp: EPollPoller_fillActiveChannels_def)
  show ?thesis
  proof (cases "evs = []")
    case True
    then show ?thesis
      by (simp add: EPollPoller_poll_def same_but_revents_def option.map_ident)
  next
    case False
    show ?thesis
    proof (cases "length evs = events_size p")
      case True
      with False have "0 < events_size p" by (cases evs) auto
      with True q False show ?thesis
        by (intro exI [of _ "q\<lparr>events_size := events_size q * 2\<rparr>"])
          (simp add: EPollPoller_poll_def same_but_revents_def)
    next
      case size': False
      with q False size show ?thesis by (auto simp: EPollPoller_poll_def)
    qed
  qed
qed

text \<open>
  C37: \<open>poll\<close> reports exactly the channels of \<open>epoll_wait\<close>'s result, in its order, each with the
  events reported for it (the last ones if it appears twice), touches nothing else, and doubles
  the vector when it came back full. No reported pointer dangles.
\<close>

theorem poll_reports_ready_channels:
  assumes "poller_inv p" and "length evs \<le> events_size p"
    and "\<forall>(r, a) \<in> set evs. \<exists>fd ev. interest p fd = Some (ev, a)"
  shows "\<exists>q. EPollPoller_poll (Some evs) p = Inr (map snd evs, q) \<and> poller_inv q \<and>
             (\<forall>a. channel_heap q a =
                map_option (\<lambda>c. case map_of (rev (map prod.swap evs)) a of
                                  None \<Rightarrow> c | Some r \<Rightarrow> c\<lparr>ch_revents := r\<rparr>) (channel_heap p a)) \<and>
             events_size q =
               (if evs \<noteq> [] \<and> length evs = events_size p then 2 * events_size p else events_size p)"
  using poll_ok [OF assms] same_but_revents_inv assms(1) by blast

subsection \<open>Every use of the poller\<close>

text \<open>
  What happens to channels and poller: a channel is created, changes the events it wants, is
  removed, is destroyed once removed; the loop polls. The code never has two channels in use for
  one descriptor (the kernel hands out a descriptor once), which is \<open>sole_user\<close>.
\<close>

inductive poller_step :: "epoll_poller \<Rightarrow> epoll_poller \<Rightarrow> bool" where
  create: "channel_heap p a = None \<Longrightarrow> poller_step p (put_channel a (Channel_new fd) p)"
| change: "channel_heap p a = Some c \<Longrightarrow> sole_user a (ch_fd c) p \<Longrightarrow>
     and_then (set_events a (changed_events ch (ch_events c)) p) (EPollPoller_updateChannel a) = Inr q \<Longrightarrow>
     poller_step p q"
| remove: "channel_heap p a = Some c \<Longrightarrow> sole_user a (ch_fd c) p \<Longrightarrow>
     EPollPoller_removeChannel a p = Inr q \<Longrightarrow> poller_step p q"
| destroy: "channel_heap p a = Some c \<Longrightarrow> ch_index c = kNew \<Longrightarrow>
     poller_step p (p\<lparr>channel_heap := (channel_heap p)(a := None)\<rparr>)"
| poll: "length evs \<le> events_size p \<Longrightarrow>
     (\<forall>(r, a) \<in> set evs. \<exists>fd ev. interest p fd = Some (ev, a)) \<Longrightarrow>
     EPollPoller_poll (Some evs) p = Inr (active, q) \<Longrightarrow> poller_step p q"

inductive_cases poller_stepE: "poller_step p q"

lemma poller_step_inv: "poller_step p q \<Longrightarrow> poller_inv p \<Longrightarrow> poller_inv q"
proof (induction rule: poller_step.induct)
  case (create p a fd)
  then show ?case by (auto simp: poller_inv_def put_channel_def Channel_new_def)
next
  case (change p a c ch q)
  with updateChannel_eq updated_inv show ?case by auto
next
  case (remove p a c q)
  with removeChannel_eq removed_inv show ?case by auto
next
  case (destroy p a c)
  then show ?case by (auto simp: poller_inv_def)
next
  case (poll evs p active q)
  with poll_ok same_but_revents_inv show ?case by fastforce
qed

lemma EPollPoller_new_inv: "poller_inv EPollPoller_new"
  by (simp add: poller_inv_def EPollPoller_new_def)

text \<open>
  C14: After any sequence of channel operations, no \<open>epoll_ctl\<close> has failed, the kernel watches
  exactly the channels the code believes registered, each for exactly the events it wants, and
  \<open>hasChannel\<close> answers whether a channel is in use.
\<close>

theorem epoll_mirrors_channels:
  assumes "poller_step\<^sup>*\<^sup>* EPollPoller_new p" and "channel_heap p a = Some c"
  shows "ctl_failures p = 0 \<and>
         (interest p (ch_fd c) = Some (ev, a) \<longleftrightarrow> ch_index c = kAdded \<and> ch_events c = ev) \<and>
         Poller_hasChannel a p = Inr (ch_index c \<noteq> kNew) \<and>
         (interest p fd = Some (ev, b) \<longrightarrow> channel_heap p b \<noteq> None)"
proof -
  have inv: "poller_inv p"
    using assms(1) by (induction rule: rtranclp_induct) (auto simp: EPollPoller_new_inv poller_step_inv)
  with assms(2) have "ctl_failures p = 0"
    "interest p (ch_fd c) = Some (ev, a) \<longleftrightarrow> ch_index c = kAdded \<and> ch_events c = ev"
    "channels p (ch_fd c) = Some a \<longleftrightarrow> ch_index c \<noteq> kNew"
    "interest p fd = Some (ev, b) \<longrightarrow> channel_heap p b \<noteq> None"
    unfolding poller_inv_def by auto
  with assms(2) show ?thesis by (simp add: Poller_hasChannel_def channel_at_def)
qed

text \<open>One channel (descriptor 5, at address 8), reading.\<close>

definition example_poller :: epoll_poller where
  "example_poller = updated 8 (Channel_new 5) kReadEvent (put_channel 8 (Channel_new 5) EPollPoller_new)"

lemma example_poller_inv: "poller_inv example_poller"
  by (auto simp: example_poller_def poller_inv_def updated_def put_channel_def Channel_new_def
      EPollPoller_new_def index_after_update_def event_masks)

lemma poll_reports_ready_channels_witness:
  "\<exists>q. EPollPoller_poll (Some [(EPOLLIN, 8)]) example_poller = Inr ([8], q) \<and> poller_inv q"
proof -
  have "length [(EPOLLIN, 8::addr)] \<le> events_size example_poller"
    "\<forall>(r, a) \<in> set [(EPOLLIN, 8)]. \<exists>fd ev. interest example_poller fd = Some (ev, a)"
    by (auto simp: example_poller_def updated_def put_channel_def Channel_new_def EPollPoller_new_def
        index_after_update_def event_masks kInitEventListSize_def)
  from poll_reports_ready_channels [OF example_poller_inv this] show ?thesis by auto
qed

lemma epoll_mirrors_channels_witness:
  "poller_step\<^sup>*\<^sup>* EPollPoller_new example_poller \<and>
   interest example_poller 5 = Some (kReadEvent, 8) \<and> Poller_hasChannel 8 example_poller = Inr True"
proof -
  let ?p = "put_channel 8 (Channel_new 5) EPollPoller_new"
  have inv: "poller_inv ?p"
    using poller_step_inv [OF poller_step.create EPollPoller_new_inv, of 8 5]
    by (simp add: EPollPoller_new_def)
  have c: "channel_heap ?p 8 = Some (Channel_new 5)" "sole_user 8 (ch_fd (Channel_new 5)) ?p"
    by (simp_all add: put_channel_def sole_user_def EPollPoller_new_def)
  have "changed_events EnableReading (ch_events (Channel_new 5)) = kReadEvent"
    by (simp add: Channel_new_def event_masks)
  with updateChannel_eq [OF inv c, of kReadEvent]
  have "poller_step ?p example_poller"
    by (intro poller_step.change [OF c, where ch = EnableReading]) (simp add: example_poller_def)
  moreover have "poller_step EPollPoller_new ?p"
    by (rule poller_step.create) (simp add: EPollPoller_new_def)
  ultimately have reach: "poller_step\<^sup>*\<^sup>* EPollPoller_new example_poller" by simp
  have "channel_heap example_poller 8 = Some \<lparr>ch_fd = 5, ch_events = kReadEvent, ch_revents = 0, ch_index = kAdded\<rparr>"
    by (simp add: example_poller_def updated_def Channel_new_def index_after_update_def)
  from epoll_mirrors_channels [OF reach this, of kReadEvent] reach show ?thesis by simp
qed

end
