(* ===== verification/Event_Loops.thy ===== *)
theory Event_Loops
  imports Timers Channels
begin

section \<open>EventLoop (src/net/event_loop.cpp)\<close>

text \<open>
  The state of a loop: its poller, its timer queue, the queue of pending functors and the counter
  of its eventfd. Functors are values of a type \<open>'f\<close>; what running one does is a parameter
  \<open>exec\<close>. The record is extensible: a component that lives in a loop (a connector, a connection)
  extends it with its own fields, and the operations below apply to the extended state. Every
  operation takes the id of the thread that calls it. \<open>LOG_FATAL\<close> aborts the process.
\<close>

record 'f event_loop =
  threadId :: tid
  looping :: bool
  quit :: bool
  poller :: epoll_poller
  pendingFunctors :: "'f list"
  callingPendingFunctors :: bool
  wakeupChannel :: addr
  wakeups :: int
  timerfdChannel :: addr
  timerQueue :: "'f timer_queue"

definition EventLoop_isInLoopThread :: "tid \<Rightarrow> ('f, 'z) event_loop_scheme \<Rightarrow> bool" where
  "EventLoop_isInLoopThread me s \<longleftrightarrow> threadId s = me"

definition EventLoop_assertInLoopThread :: "tid \<Rightarrow> ('f, 'z) event_loop_scheme \<Rightarrow> unit res" where
  "EventLoop_assertInLoopThread me s = (if EventLoop_isInLoopThread me s then Inr () else Inl WrongThread)"

definition EventLoop_updateChannel ::
    "tid \<Rightarrow> addr \<Rightarrow> ('f, 'z) event_loop_scheme \<Rightarrow> ('f, 'z) event_loop_scheme res" where
  "EventLoop_updateChannel me a s =
     and_then (EventLoop_assertInLoopThread me s) (\<lambda>_.
     map_res (\<lambda>p. s\<lparr>poller := p\<rparr>) (EPollPoller_updateChannel a (poller s)))"

definition EventLoop_removeChannel ::
    "tid \<Rightarrow> addr \<Rightarrow> ('f, 'z) event_loop_scheme \<Rightarrow> ('f, 'z) event_loop_scheme res" where
  "EventLoop_removeChannel me a s =
     and_then (EventLoop_assertInLoopThread me s) (\<lambda>_.
     map_res (\<lambda>p. s\<lparr>poller := p\<rparr>) (EPollPoller_removeChannel a (poller s)))"

text \<open>\<open>enableReading\<close>, \<open>disableReading\<close>, ... of a channel of this loop.\<close>

definition Channel_change ::
    "tid \<Rightarrow> interest_change \<Rightarrow> addr \<Rightarrow> ('f, 'z) event_loop_scheme \<Rightarrow> ('f, 'z) event_loop_scheme res" where
  "Channel_change me ch a s =
     and_then (channel_at (poller s) a) (\<lambda>c.
     EventLoop_updateChannel me a
       (s\<lparr>poller := put_channel a (c\<lparr>ch_events := changed_events ch (ch_events c)\<rparr>) (poller s)\<rparr>))"

text \<open>
  Writing 1 to the eventfd: the kernel adds it to the counter, and refuses (\<open>EAGAIN\<close>, logged)
  when the counter would exceed its maximum.
\<close>

definition eventfd_max :: int where
  "eventfd_max = 2 ^ 64 - 2"

definition EventLoop_wakeup :: "('f, 'z) event_loop_scheme \<Rightarrow> ('f, 'z) event_loop_scheme" where
  "EventLoop_wakeup s = (if wakeups s < eventfd_max then s\<lparr>wakeups := wakeups s + 1\<rparr> else s)"

text \<open>\<open>queueInLoop\<close>: the push is done under the lock, then the loop is woken if need be.\<close>

definition queueInLoop_push :: "'f \<Rightarrow> ('f, 'z) event_loop_scheme \<Rightarrow> ('f, 'z) event_loop_scheme" where
  "queueInLoop_push f s = s\<lparr>pendingFunctors := pendingFunctors s @ [f]\<rparr>"

definition queueInLoop_wake :: "tid \<Rightarrow> ('f, 'z) event_loop_scheme \<Rightarrow> ('f, 'z) event_loop_scheme" where
  "queueInLoop_wake me s =
     (if \<not> EventLoop_isInLoopThread me s \<or> callingPendingFunctors s then EventLoop_wakeup s else s)"

definition EventLoop_queueInLoop ::
    "tid \<Rightarrow> 'f \<Rightarrow> ('f, 'z) event_loop_scheme \<Rightarrow> ('f, 'z) event_loop_scheme" where
  "EventLoop_queueInLoop me f s = queueInLoop_wake me (queueInLoop_push f s)"

definition EventLoop_runInLoop ::
    "tid \<Rightarrow> ('f \<Rightarrow> ('f, 'z) event_loop_scheme \<Rightarrow> ('f, 'z) event_loop_scheme res) \<Rightarrow> 'f \<Rightarrow>
     ('f, 'z) event_loop_scheme \<Rightarrow> ('f, 'z) event_loop_scheme res" where
  "EventLoop_runInLoop me exec f s =
     (if EventLoop_isInLoopThread me s then exec f s else Inr (EventLoop_queueInLoop me f s))"

definition EventLoop_quit :: "tid \<Rightarrow> ('f, 'z) event_loop_scheme \<Rightarrow> ('f, 'z) event_loop_scheme" where
  "EventLoop_quit me s =
     (let s = s\<lparr>quit := True\<rparr>
      in if \<not> EventLoop_isInLoopThread me s then EventLoop_wakeup s else s)"

text \<open>Reading the eventfd resets its counter (reading 0 is \<open>EAGAIN\<close>, logged).\<close>

definition EventLoop_handleRead :: "('f, 'z) event_loop_scheme \<Rightarrow> ('f, 'z) event_loop_scheme" where
  "EventLoop_handleRead s = s\<lparr>wakeups := 0\<rparr>"

definition EventLoop_doPendingFunctors ::
    "('f \<Rightarrow> ('f, 'z) event_loop_scheme \<Rightarrow> ('f, 'z) event_loop_scheme res) \<Rightarrow>
     ('f, 'z) event_loop_scheme \<Rightarrow> ('f, 'z) event_loop_scheme res" where
  "EventLoop_doPendingFunctors exec s =
     (let s = s\<lparr>callingPendingFunctors := True\<rparr>;
          functors = pendingFunctors s;
          s = s\<lparr>pendingFunctors := []\<rparr>
      in map_res (\<lambda>s. s\<lparr>callingPendingFunctors := False\<rparr>)
           (for_each (\<lambda>s f. exec f s) s functors))"

subsection \<open>Timers of the loop, called in its thread\<close>

definition with_timers ::
    "('f timer_queue \<Rightarrow> ('a \<times> 'f timer_queue) res) \<Rightarrow> ('f, 'z) event_loop_scheme \<Rightarrow>
     ('a \<times> ('f, 'z) event_loop_scheme) res" where
  "with_timers op s = map_res (\<lambda>(x, q). (x, s\<lparr>timerQueue := q\<rparr>)) (op (timerQueue s))"

definition EventLoop_runAt ::
    "tid \<Rightarrow> addr \<Rightarrow> timestamp \<Rightarrow> 'f \<Rightarrow> ('f, 'z) event_loop_scheme \<Rightarrow>
     (timer_id \<times> ('f, 'z) event_loop_scheme) res" where
  "EventLoop_runAt me p time cb =
     with_timers (\<lambda>q. TimerQueue_addTimer me q p cb time (double_of_int 0))"

definition EventLoop_runAfter ::
    "tid \<Rightarrow> addr \<Rightarrow> double \<Rightarrow> 'f \<Rightarrow> ('f, 'z) event_loop_scheme \<Rightarrow>
     (timer_id \<times> ('f, 'z) event_loop_scheme) res" where
  "EventLoop_runAfter me p delay cb s =
     and_then (Timestamp_addTime (tq_clock (timerQueue s)) delay) (\<lambda>time.
     with_timers (\<lambda>q. TimerQueue_addTimer me q p cb time (double_of_int 0)) s)"

definition EventLoop_runEvery ::
    "tid \<Rightarrow> addr \<Rightarrow> double \<Rightarrow> 'f \<Rightarrow> ('f, 'z) event_loop_scheme \<Rightarrow>
     (timer_id \<times> ('f, 'z) event_loop_scheme) res" where
  "EventLoop_runEvery me p interv cb s =
     and_then (Timestamp_addTime (tq_clock (timerQueue s)) interv) (\<lambda>time.
     with_timers (\<lambda>q. TimerQueue_addTimer me q p cb time interv) s)"

definition EventLoop_cancel ::
    "tid \<Rightarrow> timer_id \<Rightarrow> ('f, 'z) event_loop_scheme \<Rightarrow> ('f, 'z) event_loop_scheme res" where
  "EventLoop_cancel me timerId s =
     map_res snd (with_timers (\<lambda>q. map_res (Pair ()) (TimerQueue_cancelInLoop me q timerId)) s)"

text \<open>
  \<open>TimerQueue::handleRead\<close> as it runs in the loop, where a timer's callback may do anything to
  the loop and not only call the timer queue.
\<close>

definition EventLoop_timers ::
    "tid \<Rightarrow> ('f \<Rightarrow> ('f, 'z) event_loop_scheme \<Rightarrow> ('f, 'z) event_loop_scheme res) \<Rightarrow>
     ('f, 'z) event_loop_scheme \<Rightarrow> ('f, 'z) event_loop_scheme res" where
  "EventLoop_timers me exec s =
     and_then (EventLoop_assertInLoopThread me s) (\<lambda>_.
     (let now = tq_clock (timerQueue s);
          (expired, q) = TimerQueue_getExpired (readTimerfd (timerQueue s) now) now
      in and_then
           (for_each (\<lambda>s e. and_then (timer_at (timerQueue s) (snd e)) (\<lambda>timer. exec (callback timer) s))
              (s\<lparr>timerQueue := q\<rparr>) expired) (\<lambda>s.
         map_res (\<lambda>q. s\<lparr>timerQueue := q\<rparr>) (TimerQueue_reset me (timerQueue s) expired now))))"

subsection \<open>The loop\<close>

definition revents_of :: "addr \<Rightarrow> ('f, 'z) event_loop_scheme \<Rightarrow> events res" where
  "revents_of a s = map_res ch_revents (channel_at (poller s) a)"

text \<open>
  The channels a loop creates for itself have only a read callback; \<open>user\<close> gives the callbacks of
  the others.
\<close>

definition EventLoop_callbacks ::
    "tid \<Rightarrow> ('f \<Rightarrow> ('f, 'z) event_loop_scheme \<Rightarrow> ('f, 'z) event_loop_scheme res) \<Rightarrow>
     (addr \<Rightarrow> ('f, 'z) event_loop_scheme event_callbacks) \<Rightarrow> ('f, 'z) event_loop_scheme \<Rightarrow> addr \<Rightarrow>
     ('f, 'z) event_loop_scheme event_callbacks" where
  "EventLoop_callbacks me exec user s a =
     (if a = wakeupChannel s then
        \<lparr>readCallback = Some (\<lambda>s. Inr (EventLoop_handleRead s)), writeCallback = None,
         closeCallback = None, errorCallback = None\<rparr>
      else if a = timerfdChannel s then
        \<lparr>readCallback = Some (EventLoop_timers me exec), writeCallback = None,
         closeCallback = None, errorCallback = None\<rparr>
      else user a)"

definition EventLoop_handleEvent ::
    "tid \<Rightarrow> ('f \<Rightarrow> ('f, 'z) event_loop_scheme \<Rightarrow> ('f, 'z) event_loop_scheme res) \<Rightarrow>
     (addr \<Rightarrow> ('f, 'z) event_loop_scheme event_callbacks) \<Rightarrow> ('f, 'z) event_loop_scheme \<Rightarrow> addr \<Rightarrow>
     ('f, 'z) event_loop_scheme res" where
  "EventLoop_handleEvent me exec user s a =
     Channel_handleEvent (revents_of a) (EventLoop_callbacks me exec user s a) s"

text \<open>One turn of the \<open>while\<close> loop; \<open>wait\<close> is the result of \<open>epoll_wait\<close>.\<close>

definition EventLoop_turn ::
    "tid \<Rightarrow> ('f \<Rightarrow> ('f, 'z) event_loop_scheme \<Rightarrow> ('f, 'z) event_loop_scheme res) \<Rightarrow>
     (addr \<Rightarrow> ('f, 'z) event_loop_scheme event_callbacks) \<Rightarrow> (events \<times> addr) list option \<Rightarrow>
     ('f, 'z) event_loop_scheme \<Rightarrow> ('f, 'z) event_loop_scheme res" where
  "EventLoop_turn me exec user wait s =
     and_then (EPollPoller_poll wait (poller s)) (\<lambda>(active, p).
     and_then (for_each (EventLoop_handleEvent me exec user) (s\<lparr>poller := p\<rparr>) active)
       (EventLoop_doPendingFunctors exec))"

text \<open>The loop, as long as the results of \<open>epoll_wait\<close> last; \<open>True\<close> when it was left by \<open>quit\<close>.\<close>

fun EventLoop_while ::
    "tid \<Rightarrow> ('f \<Rightarrow> ('f, 'z) event_loop_scheme \<Rightarrow> ('f, 'z) event_loop_scheme res) \<Rightarrow>
     (addr \<Rightarrow> ('f, 'z) event_loop_scheme event_callbacks) \<Rightarrow> (events \<times> addr) list option list \<Rightarrow>
     ('f, 'z) event_loop_scheme \<Rightarrow> (bool \<times> ('f, 'z) event_loop_scheme) res" where
  "EventLoop_while me exec user waits s =
     (if quit s then Inr (True, s)
      else case waits of
             [] \<Rightarrow> Inr (False, s)
           | w # ws \<Rightarrow> and_then (EventLoop_turn me exec user w s) (EventLoop_while me exec user ws))"

declare EventLoop_while.simps [simp del]

definition EventLoop_loop ::
    "tid \<Rightarrow> ('f \<Rightarrow> ('f, 'z) event_loop_scheme \<Rightarrow> ('f, 'z) event_loop_scheme res) \<Rightarrow>
     (addr \<Rightarrow> ('f, 'z) event_loop_scheme event_callbacks) \<Rightarrow> (events \<times> addr) list option list \<Rightarrow>
     ('f, 'z) event_loop_scheme \<Rightarrow> (bool \<times> ('f, 'z) event_loop_scheme) res" where
  "EventLoop_loop me exec user waits s =
     and_then (assert_that (\<not> looping s)) (\<lambda>_.
     and_then (EventLoop_assertInLoopThread me s) (\<lambda>_.
     map_res (\<lambda>(left, s). (left, if left then s\<lparr>looping := False\<rparr> else s))
       (EventLoop_while me exec user waits (s\<lparr>looping := True, quit := False\<rparr>))))"

subsection \<open>Construction and destruction\<close>

definition EventLoop_new ::
    "tid \<Rightarrow> timestamp \<Rightarrow> int \<Rightarrow> addr \<Rightarrow> int \<Rightarrow> addr \<Rightarrow> 'f event_loop res" where
  "EventLoop_new me now wakeupFd wakeupCh timerfd timerCh =
     (let s = \<lparr>threadId = me, looping = False, quit = False, poller = EPollPoller_new,
               pendingFunctors = [], callingPendingFunctors = False, wakeupChannel = wakeupCh,
               wakeups = 0, timerfdChannel = timerCh, timerQueue = TimerQueue_new me now\<rparr>;
          s = s\<lparr>poller := put_channel wakeupCh (Channel_new wakeupFd) (poller s)\<rparr>;
          s = s\<lparr>poller := put_channel timerCh (Channel_new timerfd) (poller s)\<rparr>
      in and_then (Channel_change me EnableReading timerCh s)
           (Channel_change me EnableReading wakeupCh))"

definition EventLoop_delete ::
    "tid \<Rightarrow> ('f, 'z) event_loop_scheme \<Rightarrow> ('f, 'z) event_loop_scheme res" where
  "EventLoop_delete me s =
     and_then (assert_that (\<not> looping s)) (\<lambda>_.
     and_then (Channel_change me DisableAll (wakeupChannel s) s) (\<lambda>s.
     and_then (EventLoop_removeChannel me (wakeupChannel s) s) (\<lambda>s.
     and_then (Channel_change me DisableAll (timerfdChannel s) s) (\<lambda>s.
     map_res (\<lambda>s. s\<lparr>timerQueue := TimerQueue_destroy (timerQueue s)\<rparr>)
       (EventLoop_removeChannel me (timerfdChannel s) s)))))"

subsection \<open>Pending functors\<close>

text \<open>
  What the loop relies on of a functor that runs in its thread: it only appends to the queue of
  pending functors, and the loop is woken for what it appended while functors are being called.
\<close>

definition only_queues :: "('f, 'z) event_loop_scheme \<Rightarrow> 'f list \<Rightarrow> ('f, 'z) event_loop_scheme \<Rightarrow> bool" where
  "only_queues s new s' \<longleftrightarrow>
     threadId s' = threadId s \<and> callingPendingFunctors s' = callingPendingFunctors s \<and>
     pendingFunctors s' = pendingFunctors s @ new \<and> wakeups s \<le> wakeups s' \<and>
     (callingPendingFunctors s \<and> new \<noteq> [] \<and> 0 \<le> wakeups s \<longrightarrow> 0 < wakeups s')"

lemma only_queues_trans:
  "only_queues s new s' \<Longrightarrow> only_queues s' new' s'' \<Longrightarrow> only_queues s (new @ new') s''"
  by (auto simp: only_queues_def)

lemma only_queues_refl [simp]: "only_queues s [] s"
  by (simp add: only_queues_def)

locale loop_functors =
  fixes me :: tid
    and exec :: "'f \<Rightarrow> ('f, 'z) event_loop_scheme \<Rightarrow> ('f, 'z) event_loop_scheme res"
    and queues :: "'f \<Rightarrow> 'f list"
    and log :: "('f, 'z) event_loop_scheme \<Rightarrow> 'f list"
  assumes runs: "threadId s = me \<Longrightarrow> exec f s = Inr s' \<Longrightarrow>
      only_queues s (queues f) s' \<and> log s' = log s @ [f]"
begin

lemma run_all:
  "threadId s = me \<Longrightarrow> for_each (\<lambda>s f. exec f s) s fs = Inr s' \<Longrightarrow>
   only_queues s (concat (map queues fs)) s' \<and> log s' = log s @ fs"
proof (induction fs arbitrary: s)
  case (Cons f fs)
  then obtain s1 where s1: "exec f s = Inr s1" "for_each (\<lambda>s f. exec f s) s1 fs = Inr s'"
    by (auto simp: returned)
  note r = runs [OF Cons.prems(1) s1(1)]
  then have "threadId s1 = me" using Cons.prems(1) by (simp add: only_queues_def)
  from Cons.IH [OF this s1(2)] r only_queues_trans show ?case by auto
qed simp

end

subsection \<open>Functors that call the loop\<close>

text \<open>The public calls that a functor or a timer callback makes of its loop, in its thread.\<close>

datatype 'f loop_call =
    QueueInLoop 'f
  | Quit
  | RunAt addr timestamp 'f
  | RunAfter addr double 'f
  | RunEvery addr double 'f
  | CancelTimer timer_id

fun EventLoop_call ::
    "tid \<Rightarrow> ('f, 'z) event_loop_scheme \<Rightarrow> 'f loop_call \<Rightarrow> ('f, 'z) event_loop_scheme res" where
  "EventLoop_call me s (QueueInLoop f) = Inr (EventLoop_queueInLoop me f s)"
| "EventLoop_call me s Quit = Inr (EventLoop_quit me s)"
| "EventLoop_call me s (RunAt p t f) = map_res snd (EventLoop_runAt me p t f s)"
| "EventLoop_call me s (RunAfter p d f) = map_res snd (EventLoop_runAfter me p d f s)"
| "EventLoop_call me s (RunEvery p d f) = map_res snd (EventLoop_runEvery me p d f s)"
| "EventLoop_call me s (CancelTimer i) = EventLoop_cancel me i s"

fun queued_by :: "'f loop_call list \<Rightarrow> 'f list" where
  "queued_by [] = []"
| "queued_by (QueueInLoop f # cs) = f # queued_by cs"
| "queued_by (_ # cs) = queued_by cs"

text \<open>A loop that records the functors it has run, each of which makes the calls of its body.\<close>

record 'f logged_loop = "'f event_loop" +
  executed :: "'f list"

definition run_functor ::
    "tid \<Rightarrow> ('f \<Rightarrow> 'f loop_call list) \<Rightarrow> 'f \<Rightarrow> ('f, 'z) logged_loop_scheme \<Rightarrow>
     ('f, 'z) logged_loop_scheme res" where
  "run_functor me body f s =
     for_each (EventLoop_call me) (s\<lparr>executed := executed s @ [f]\<rparr>) (body f)"

lemma with_timers_Inr:
  "with_timers op s = Inr (x, s') \<longleftrightarrow> (\<exists>q. op (timerQueue s) = Inr (x, q) \<and> s' = s\<lparr>timerQueue := q\<rparr>)"
  by (auto simp: with_timers_def returned)

lemma EventLoop_call_queues:
  assumes "EventLoop_call me s c = Inr s'" and "threadId s = me"
  shows "only_queues s (queued_by [c]) s'"
  using assms
  by (cases c)
    (auto simp: only_queues_def EventLoop_queueInLoop_def queueInLoop_push_def queueInLoop_wake_def
      EventLoop_wakeup_def eventfd_max_def EventLoop_quit_def EventLoop_isInLoopThread_def Let_def
      EventLoop_runAt_def EventLoop_runAfter_def EventLoop_runEvery_def EventLoop_cancel_def
      returned with_timers_Inr split: if_splits)

lemma queued_by_Cons: "queued_by (c # cs) = queued_by [c] @ queued_by cs"
  by (cases c) simp_all

lemma EventLoop_calls_queue:
  "for_each (EventLoop_call me) s cs = Inr s' \<Longrightarrow> threadId s = me \<Longrightarrow> only_queues s (queued_by cs) s'"
proof (induction cs arbitrary: s)
  case (Cons c cs)
  then obtain s1 where s1: "EventLoop_call me s c = Inr s1" "for_each (EventLoop_call me) s1 cs = Inr s'"
    by (auto simp: returned)
  note q = EventLoop_call_queues [OF s1(1) Cons.prems(2)]
  then have "threadId s1 = me" using Cons.prems(2) by (simp add: only_queues_def)
  from only_queues_trans [OF q Cons.IH [OF s1(2) this]] show ?case by (metis queued_by_Cons)
qed simp

lemma EventLoop_call_executed: "EventLoop_call me s c = Inr s' \<Longrightarrow> executed s' = executed s"
  by (cases c)
    (auto simp: EventLoop_queueInLoop_def queueInLoop_push_def queueInLoop_wake_def
      EventLoop_wakeup_def EventLoop_quit_def Let_def EventLoop_runAt_def EventLoop_runAfter_def
      EventLoop_runEvery_def EventLoop_cancel_def returned with_timers_Inr)

lemma EventLoop_calls_executed: "for_each (EventLoop_call me) s cs = Inr s' \<Longrightarrow> executed s' = executed s"
  by (induction cs arbitrary: s) (auto simp: returned dest: EventLoop_call_executed)

interpretation functors: loop_functors me "run_functor me body" "\<lambda>f. queued_by (body f)" executed
  for me body
proof
  fix s f s'
  assume me: "threadId s = me" and run: "run_functor me body f s = Inr s'"
  let ?s = "s\<lparr>executed := executed s @ [f]\<rparr>"
  from run have calls: "for_each (EventLoop_call me) ?s (body f) = Inr s'"
    by (simp add: run_functor_def)
  from me have me': "threadId ?s = me" by simp
  from EventLoop_calls_queue [OF calls me'] EventLoop_calls_executed [OF calls]
  show "only_queues s (queued_by (body f)) s' \<and> executed s' = executed s @ [f]"
    by (simp add: only_queues_def)
qed

subsection \<open>Calls of the loop keep its timers in order\<close>

definition loop_running ::
    "tid \<Rightarrow> addr set \<Rightarrow> (addr \<Rightarrow> 'f timer option) \<Rightarrow> bool \<Rightarrow> ('f, 'z) event_loop_scheme \<Rightarrow> bool" where
  "loop_running me E H armed s \<longleftrightarrow> threadId s = me \<and> tq_running me E H armed (timerQueue s)"

lemma with_timers_addTimer:
  assumes "loop_running me E H b s"
  shows "case map_res snd (with_timers (\<lambda>q. TimerQueue_addTimer me q p cb t i) s) of
           Inr s' \<Rightarrow> loop_running me E H b s' | Inl x \<Rightarrow> timer_fault x"
proof -
  from assms have "tq_running me E H b (timerQueue s)" by (simp add: loop_running_def)
  note safe = tqc.safe [OF this, of "CallAddTimer p cb t i"]
  with assms show ?thesis
    by (cases "TimerQueue_addTimer me (timerQueue s) p cb t i")
      (auto simp: with_timers_def loop_running_def split: prod.splits)
qed

interpretation elc: safe_calls "EventLoop_call me" "loop_running me E H b" timer_fault for me E H b
proof
  fix s c
  assume s: "loop_running me E H b s"
  show "case EventLoop_call me s c of Inr s' \<Rightarrow> loop_running me E H b s' | Inl x \<Rightarrow> timer_fault x"
  proof (cases c)
    case (RunAt p t f)
    with with_timers_addTimer [OF s] show ?thesis by (simp add: EventLoop_runAt_def)
  next
    case (RunAfter p d f)
    show ?thesis
    proof (cases "Timestamp_addTime (tq_clock (timerQueue s)) d")
      case (Inl x)
      with RunAfter addTime_fault [OF Inl] show ?thesis
        by (simp add: EventLoop_runAfter_def timer_fault_def)
    next
      case (Inr t)
      with RunAfter with_timers_addTimer [OF s] show ?thesis by (simp add: EventLoop_runAfter_def)
    qed
  next
    case (RunEvery p d f)
    show ?thesis
    proof (cases "Timestamp_addTime (tq_clock (timerQueue s)) d")
      case (Inl x)
      with RunEvery addTime_fault [OF Inl] show ?thesis
        by (simp add: EventLoop_runEvery_def timer_fault_def)
    next
      case (Inr t)
      with RunEvery with_timers_addTimer [OF s] show ?thesis by (simp add: EventLoop_runEvery_def)
    qed
  next
    case (CancelTimer i)
    from s have "tq_running me E H b (timerQueue s)" by (simp add: loop_running_def)
    note safe = tqc.safe [OF this, of "CallCancel i"]
    with s CancelTimer show ?thesis
      by (cases "TimerQueue_cancelInLoop me (timerQueue s) i")
        (auto simp: EventLoop_cancel_def with_timers_def loop_running_def)
  qed (use s in \<open>auto simp: loop_running_def EventLoop_queueInLoop_def queueInLoop_push_def
        queueInLoop_wake_def EventLoop_wakeup_def EventLoop_quit_def Let_def\<close>)
qed

lemma run_functor_safe:
  assumes "loop_running me E H b s"
  shows "case run_functor me body f s of Inr s' \<Rightarrow> loop_running me E H b s' | Inl x \<Rightarrow> timer_fault x"
proof -
  from assms have "loop_running me E H b (s\<lparr>executed := executed s @ [f]\<rparr>)"
    by (simp add: loop_running_def)
  from elc.calls_safe [OF this] show ?thesis by (simp add: run_functor_def)
qed

interpretation functor_calls: safe_calls "\<lambda>s f. run_functor me body f s" "loop_running me E H b" timer_fault
  for me body E H b
  by unfold_locales (rule run_functor_safe)

text \<open>
  \<open>doPendingFunctors\<close> runs the functors that were queued when it started, each once and in
  order; those queued meanwhile wait, in order, for the next turn, for which the loop has been
  woken. Only allocation and time arithmetic of the timer calls can fail.
\<close>

lemma pending_functors_fifo:
  assumes "threadId s = me" and "tq_inv {} (timerQueue s)" and "tq_owner (timerQueue s) = me"
    and "0 \<le> wakeups s"
  shows "case EventLoop_doPendingFunctors (run_functor me body) s of
           Inl x \<Rightarrow> timer_fault x
         | Inr s' \<Rightarrow> executed s' = executed s @ pendingFunctors s \<and>
             pendingFunctors s' = concat (map (\<lambda>f. queued_by (body f)) (pendingFunctors s)) \<and>
             \<not> callingPendingFunctors s' \<and> (pendingFunctors s' \<noteq> [] \<longrightarrow> 0 < wakeups s')"
proof -
  let ?s = "s\<lparr>callingPendingFunctors := True, pendingFunctors := []\<rparr>"
  have run: "loop_running me {} Map.empty False ?s"
    using assms by (simp add: loop_running_def tq_running_def)
  have do: "EventLoop_doPendingFunctors (run_functor me body) s =
      map_res (\<lambda>s. s\<lparr>callingPendingFunctors := False\<rparr>)
        (for_each (\<lambda>s f. run_functor me body f s) ?s (pendingFunctors s))"
    by (simp add: EventLoop_doPendingFunctors_def Let_def)
  show ?thesis
  proof (cases "for_each (\<lambda>s f. run_functor me body f s) ?s (pendingFunctors s)")
    case (Inl x)
    with functor_calls.calls_fault [OF run Inl] show ?thesis by (simp add: do)
  next
    case (Inr s')
    have "threadId ?s = me" using assms(1) by simp
    from functors.run_all [OF this Inr] Inr assms(4) show ?thesis by (auto simp: do only_queues_def)
  qed
qed

definition example_loop :: "nat logged_loop" where
  "example_loop =
     \<lparr>threadId = 1, looping = True, quit = False, poller = EPollPoller_new,
      pendingFunctors = [0, 5], callingPendingFunctors = False, wakeupChannel = 64, wakeups = 0,
      timerfdChannel = 72, timerQueue = example_queue, executed = []\<rparr>"

definition example_body :: "nat \<Rightarrow> nat loop_call list" where
  "example_body f = (if f = 0 then [QueueInLoop 7, RunAfter 40 (double_of_int 1) 3, QueueInLoop 8] else [])"

lemma pending_functors_fifo_witness:
  "\<exists>s'. EventLoop_doPendingFunctors (run_functor 1 example_body) example_loop = Inr s' \<and>
        executed s' = [0, 5] \<and> pendingFunctors s' = [7, 8] \<and> 0 < wakeups s'"
proof -
  have "threadId example_loop = 1" "tq_inv {} (timerQueue example_loop)"
    "tq_owner (timerQueue example_loop) = 1" "0 \<le> wakeups example_loop"
    using example_queue_inv by (simp_all add: example_loop_def)
  note t = pending_functors_fifo [OF this, of example_body]
  have "\<not> isl (EventLoop_doPendingFunctors (run_functor 1 example_body) example_loop)" by code_simp
  with t show ?thesis
    by (cases "EventLoop_doPendingFunctors (run_functor 1 example_body) example_loop")
      (auto simp: example_loop_def example_body_def)
qed

subsection \<open>Timers run in the loop\<close>

text \<open>
  The two renderings of \<open>handleRead\<close> agree: when callbacks only call the timer queue, the loop's
  one does to its queue what the queue's own one does.
\<close>

lemma for_each_timers:
  assumes "\<And>f s. exec f s = map_res (\<lambda>q. s\<lparr>timerQueue := q\<rparr>) (for_each (TimerQueue_call me) (timerQueue s) (calls f))"
  shows "for_each (\<lambda>s e. and_then (timer_at (timerQueue s) (snd e)) (\<lambda>timer. exec (callback timer) s)) s es =
         map_res (\<lambda>q. s\<lparr>timerQueue := q\<rparr>) (for_each (Timer_run me calls) (timerQueue s) es)"
proof (induction es arbitrary: s)
  case (Cons e es)
  show ?case
  proof (cases "timer_at (timerQueue s) (snd e)")
    case (Inr t)
    then show ?thesis
      by (cases "for_each (TimerQueue_call me) (timerQueue s) (calls (callback t))")
        (simp_all add: Timer_run_def assms [of "callback t" s] Cons.IH)
  qed (simp add: Timer_run_def)
qed simp

text \<open>
  The \<open>handleRead\<close> that the loop calls acts on the timer queue exactly as
  \<open>TimerQueue::handleRead\<close> does.
\<close>

theorem loop_timers_refine_queue:
  assumes "\<And>f s. exec f s = map_res (\<lambda>q. s\<lparr>timerQueue := q\<rparr>) (for_each (TimerQueue_call me) (timerQueue s) (calls f))"
    and "tq_owner (timerQueue s) = me" and "threadId s = me"
  shows "EventLoop_timers me exec s =
         map_res (\<lambda>q. s\<lparr>timerQueue := q\<rparr>) (TimerQueue_handleRead me calls (timerQueue s))"
proof -
  obtain es q where get: "TimerQueue_getExpired (readTimerfd (timerQueue s) (tq_clock (timerQueue s)))
      (tq_clock (timerQueue s)) = (es, q)" by force
  show ?thesis
    using for_each_timers [of exec me calls, OF assms(1), of "s\<lparr>timerQueue := q\<rparr>" es] assms(2,3) get
    by (cases "for_each (Timer_run me calls) q es")
      (simp_all add: EventLoop_timers_def TimerQueue_handleRead_def EventLoop_assertInLoopThread_def
        EventLoop_isInLoopThread_def TimerQueue_assertInLoopThread_def Let_def map_res_def and_then_assoc)
qed

lemma loop_timers_refine_queue_witness:
  "EventLoop_timers 1
     (\<lambda>f s. map_res (\<lambda>q. s\<lparr>timerQueue := q\<rparr>) (for_each (TimerQueue_call 1) (timerQueue s) (example_calls f)))
     example_loop =
   map_res (\<lambda>q. example_loop\<lparr>timerQueue := q\<rparr>) (TimerQueue_handleRead 1 example_calls example_queue)"
  using loop_timers_refine_queue [of _ 1 example_calls example_loop, OF refl] example_queue_inv
  by (simp add: example_loop_def)

lemma timers_run_ok:
  assumes "loop_running me E H b s" and "snd ` set es \<subseteq> E" and "\<forall>p \<in> E. H p \<noteq> None"
  shows "case for_each (\<lambda>s e. and_then (timer_at (timerQueue s) (snd e))
                (\<lambda>timer. run_functor me body (callback timer) s)) s es of
           Inl x \<Rightarrow> timer_fault x
         | Inr s' \<Rightarrow> loop_running me E H b s' \<and>
             executed s' = executed s @ map (\<lambda>e. callback (the (H (snd e)))) es"
  using assms(1,2)
proof (induction es arbitrary: s)
  case (Cons e es)
  then obtain t where t: "tq_heap (timerQueue s) (snd e) = Some t" "H (snd e) = Some t"
    using assms(3) by (auto simp: loop_running_def tq_running_def)
  show ?case
  proof (cases "run_functor me body (callback t) s")
    case (Inl x)
    with functor_calls.call_fault [OF Cons.prems(1) Inl] t show ?thesis by (simp add: timer_at_def)
  next
    case (Inr s1)
    have "threadId s = me" using Cons.prems(1) by (simp add: loop_running_def)
    from functors.runs [OF this Inr] have "executed s1 = executed s @ [callback t]" by simp
    with Cons.IH [OF functor_calls.call_inv [OF Cons.prems(1) Inr]] Cons.prems(2) Inr t
    show ?thesis by (auto simp: timer_at_def split: sum.splits)
  qed
qed simp

text \<open>
  C38: When the loop finds the timerfd readable, it runs the callback of every timer whose time
  has come, once each and in the order of their expirations, whatever calls the callbacks make of
  the loop; afterwards every live timer is in the set, the timerfd is armed in time, one-shots are
  gone and repeating timers are pending again.
\<close>

theorem loop_runs_expired_timers:
  assumes me: "threadId s = me" and inv: "tq_inv {} (timerQueue s)" and own: "tq_owner (timerQueue s) = me"
  shows "case EventLoop_timers me (run_functor me body) s of
           Inl x \<Rightarrow> timer_fault x
         | Inr s' \<Rightarrow>
             executed s' = executed s @ map (\<lambda>e. callback (the (tq_heap (timerQueue s) (snd e))))
               (filter (\<lambda>e. fst e \<le> tq_clock (timerQueue s)) (tq_timers (timerQueue s))) \<and>
             tq_inv {} (timerQueue s') \<and> tq_due (timerQueue s') \<and>
             (\<forall>e \<in> set (tq_timers (timerQueue s)). fst e \<le> tq_clock (timerQueue s) \<longrightarrow>
                rescheduled (tq_clock (timerQueue s)) (the (tq_heap (timerQueue s) (snd e))) (snd e)
                  (timerQueue s'))"
proof -
  let ?q = "timerQueue s"
  let ?r = "readTimerfd ?q (tq_clock ?q)"
  have inv0: "tq_inv {} ?r" using inv by (simp add: tq_inv_def)
  obtain es q1 where get: "TimerQueue_getExpired ?r (tq_clock ?q) = (es, q1)" by force
  note g = getExpired_inv [OF inv0 get]
  have es: "es = filter (\<lambda>e. fst e \<le> tq_clock ?q) (tq_timers ?q)"
    using getExpired_eq [OF inv0, of "tq_clock ?q"] get by simp
  let ?E = "snd ` set es"
  have live: "\<forall>p \<in> ?E. tq_heap ?q p \<noteq> None" using inv unfolding es by (force simp: tq_inv_def)
  have run: "loop_running me ?E (tq_heap ?q) False (s\<lparr>timerQueue := q1\<rparr>)"
    using g me own by (simp add: loop_running_def tq_running_def)
  note ran = timers_run_ok [OF run subset_refl live, of body]
  let ?step = "\<lambda>s e. and_then (timer_at (timerQueue s) (snd e)) (\<lambda>timer. run_functor me body (callback timer) s)"
  have timers: "EventLoop_timers me (run_functor me body) s =
      and_then (for_each ?step (s\<lparr>timerQueue := q1\<rparr>) es) (\<lambda>s'.
        map_res (\<lambda>q. s'\<lparr>timerQueue := q\<rparr>) (TimerQueue_reset me (timerQueue s') es (tq_clock ?q)))"
    using me get by (simp add: EventLoop_timers_def EventLoop_assertInLoopThread_def
        EventLoop_isInLoopThread_def Let_def)
  show ?thesis
  proof (cases "for_each ?step (s\<lparr>timerQueue := q1\<rparr>) es")
    case (Inl x)
    with ran show ?thesis by (simp add: timers)
  next
    case (Inr s2)
    with ran have s2: "tq_inv ?E (timerQueue s2)" "tq_owner (timerQueue s2) = me"
      "\<forall>p \<in> ?E. tq_heap (timerQueue s2) p = tq_heap ?q p"
      "executed s2 = executed s @ map (\<lambda>e. callback (the (tq_heap ?q (snd e)))) es"
      by (simp_all add: loop_running_def tq_running_def)
    have "\<forall>e \<in> set es. tq_heap (timerQueue s2) (snd e) = Some (the (tq_heap ?q (snd e)))"
      using s2(3) live by fastforce
    note reset = reset_ok [OF s2(1,2) g(4) this, of "tq_clock ?q"]
    have "EventLoop_timers me (run_functor me body) s =
        map_res (\<lambda>q. s2\<lparr>timerQueue := q\<rparr>) (TimerQueue_reset me (timerQueue s2) es (tq_clock ?q))"
      by (simp add: timers Inr)
    moreover have "e \<in> set es" if "e \<in> set (tq_timers ?q)" "fst e \<le> tq_clock ?q" for e
      using that by (simp add: es)
    ultimately show ?thesis
      using reset s2(4) unfolding es [symmetric]
      by (cases "TimerQueue_reset me (timerQueue s2) es (tq_clock ?q)") simp_all
  qed
qed

lemma loop_runs_expired_timers_witness:
  "\<exists>s'. EventLoop_timers 1 (run_functor 1 example_body) example_loop = Inr s' \<and> executed s' = [1, 0] \<and>
        tq_due (timerQueue s') \<and> pendingFunctors s' = [0, 5, 7, 8]"
proof -
  have "threadId example_loop = 1" "tq_inv {} (timerQueue example_loop)"
    "tq_owner (timerQueue example_loop) = 1"
    using example_queue_inv by (simp_all add: example_loop_def)
  note t = loop_runs_expired_timers [OF this, of example_body]
  have "case EventLoop_timers 1 (run_functor 1 example_body) example_loop of
      Inl x \<Rightarrow> False | Inr s' \<Rightarrow> pendingFunctors s' = [0, 5, 7, 8]" by code_simp
  with t show ?thesis
    by (cases "EventLoop_timers 1 (run_functor 1 example_body) example_loop")
      (auto simp: example_loop_def example_queue_def)
qed

subsection \<open>Other threads\<close>

text \<open>
  The loop thread and other threads, interleaved at the atomic actions of the code: the push of
  \<open>queueInLoop\<close> (under the lock) and its wakeup are separate steps, as are the two halves of
  \<open>quit\<close>; the loop thread polls, dispatches (where it may read the eventfd, and callbacks may queue
  functors), swaps the queue out under the lock, and calls the functors one by one (which may queue
  functors too). \<open>waking\<close> holds the threads between their two halves; \<open>history\<close> records every
  functor ever queued.
\<close>

datatype 'f phase = Polling | Dispatching | Calling "'f list" | Stopped

record 'f shared =
  the_loop :: "'f logged_loop"
  phase :: "'f phase"
  waking :: "tid set"
  history :: "'f list"

inductive shared_step :: "'f shared \<Rightarrow> 'f shared \<Rightarrow> bool" where
  other_push: "t \<noteq> threadId (the_loop w) \<Longrightarrow> t \<notin> waking w \<Longrightarrow>
     shared_step w (w\<lparr>the_loop := queueInLoop_push f (the_loop w), waking := insert t (waking w),
                      history := history w @ [f]\<rparr>)"
| other_quit: "t \<noteq> threadId (the_loop w) \<Longrightarrow> t \<notin> waking w \<Longrightarrow>
     shared_step w (w\<lparr>the_loop := (the_loop w)\<lparr>quit := True\<rparr>, waking := insert t (waking w)\<rparr>)"
| other_wake: "t \<in> waking w \<Longrightarrow>
     shared_step w (w\<lparr>the_loop := queueInLoop_wake t (the_loop w), waking := waking w - {t}\<rparr>)"
| poll_returns: "phase w = Polling \<Longrightarrow> shared_step w (w\<lparr>phase := Dispatching\<rparr>)"
| read_eventfd: "phase w = Dispatching \<Longrightarrow>
     shared_step w (w\<lparr>the_loop := EventLoop_handleRead (the_loop w)\<rparr>)"
| queue_in_loop: "phase w = Dispatching \<or> phase w = Calling fs \<Longrightarrow>
     shared_step w (w\<lparr>the_loop := EventLoop_queueInLoop (threadId (the_loop w)) f (the_loop w),
                      history := history w @ [f]\<rparr>)"
| quit_in_loop: "phase w = Dispatching \<or> phase w = Calling fs \<Longrightarrow>
     shared_step w (w\<lparr>the_loop := EventLoop_quit (threadId (the_loop w)) (the_loop w)\<rparr>)"
| swap: "phase w = Dispatching \<Longrightarrow>
     shared_step w (w\<lparr>the_loop := (the_loop w)\<lparr>callingPendingFunctors := True, pendingFunctors := []\<rparr>,
                      phase := Calling (pendingFunctors (the_loop w))\<rparr>)"
| call: "phase w = Calling (f # fs) \<Longrightarrow>
     shared_step w (w\<lparr>the_loop := (the_loop w)\<lparr>executed := executed (the_loop w) @ [f]\<rparr>,
                      phase := Calling fs\<rparr>)"
| again: "phase w = Calling [] \<Longrightarrow> \<not> quit (the_loop w) \<Longrightarrow>
     shared_step w (w\<lparr>the_loop := (the_loop w)\<lparr>callingPendingFunctors := False\<rparr>, phase := Polling\<rparr>)"
| leave: "phase w = Calling [] \<Longrightarrow> quit (the_loop w) \<Longrightarrow>
     shared_step w (w\<lparr>the_loop := (the_loop w)\<lparr>callingPendingFunctors := False\<rparr>, phase := Stopped\<rparr>)"

inductive_cases shared_stepE: "shared_step w w'"

definition shared_start :: "'f logged_loop \<Rightarrow> 'f shared" where
  "shared_start l = \<lparr>the_loop = l\<lparr>looping := True, quit := False\<rparr>, phase = Polling, waking = {}, history = []\<rparr>"

definition being_called :: "'f phase \<Rightarrow> 'f list" where
  "being_called ph = (case ph of Calling fs \<Rightarrow> fs | _ \<Rightarrow> [])"

lemma being_called_simps [simp]:
  "being_called Polling = []" "being_called Dispatching = []" "being_called Stopped = []"
  "being_called (Calling fs) = fs"
  by (simp_all add: being_called_def)

definition shared_inv :: "'f shared \<Rightarrow> bool" where
  "shared_inv w \<longleftrightarrow>
     threadId (the_loop w) \<notin> waking w \<and> 0 \<le> wakeups (the_loop w) \<and>
     (callingPendingFunctors (the_loop w) \<longleftrightarrow> (\<exists>fs. phase w = Calling fs)) \<and>
     executed (the_loop w) @ being_called (phase w) @ pendingFunctors (the_loop w) = history w \<and>
     (phase w \<noteq> Dispatching \<and> pendingFunctors (the_loop w) \<noteq> [] \<longrightarrow>
        0 < wakeups (the_loop w) \<or> waking w \<noteq> {}) \<and>
     (phase w = Polling \<and> quit (the_loop w) \<longrightarrow> 0 < wakeups (the_loop w) \<or> waking w \<noteq> {})"

lemmas loop_thread_ops = EventLoop_queueInLoop_def queueInLoop_push_def queueInLoop_wake_def
  EventLoop_wakeup_def EventLoop_handleRead_def EventLoop_quit_def EventLoop_isInLoopThread_def
  eventfd_max_def Let_def

lemma shared_step_inv: "shared_step w w' \<Longrightarrow> shared_inv w \<Longrightarrow> shared_inv w'"
proof (induction rule: shared_step.induct)
  case (other_wake t w)
  then show ?case by (auto simp: shared_inv_def loop_thread_ops)
next
  case (queue_in_loop w fs f)
  then show ?case by (auto simp: shared_inv_def loop_thread_ops)
qed (auto simp: shared_inv_def loop_thread_ops)

text \<open>
  C9: However the threads interleave: functors run in the order in which they were queued, each
  exactly once; and the loop never sleeps on work - when it is in \<open>poll\<close> while a functor is
  pending or \<open>quit\<close> was called, its eventfd is readable or the thread that asked is about to write
  to it.
\<close>

theorem no_lost_wakeup:
  assumes "shared_step\<^sup>*\<^sup>* (shared_start l) w" and "pendingFunctors l = []" and "executed l = []"
    and "\<not> callingPendingFunctors l" and "wakeups l = 0"
  shows "executed (the_loop w) @ being_called (phase w) @ pendingFunctors (the_loop w) = history w \<and>
         (phase w = Polling \<and> (pendingFunctors (the_loop w) \<noteq> [] \<or> quit (the_loop w)) \<longrightarrow>
            0 < wakeups (the_loop w) \<or> waking w \<noteq> {})"
proof -
  have "shared_inv w" using assms(1)
  proof (induction rule: rtranclp_induct)
    case base
    then show ?case using assms(2-5) by (simp add: shared_inv_def shared_start_def)
  next
    case (step w w')
    then show ?case using shared_step_inv by blast
  qed
  then show ?thesis by (auto simp: shared_inv_def)
qed

lemma no_lost_wakeup_witness:
  "\<exists>w. shared_step\<^sup>*\<^sup>* (shared_start (example_loop\<lparr>pendingFunctors := []\<rparr>)) w \<and> phase w = Polling \<and>
       pendingFunctors (the_loop w) = [7] \<and> 0 < wakeups (the_loop w) \<and> waking w = {} \<and>
       executed (the_loop w) @ pendingFunctors (the_loop w) = history w"
proof -
  let ?l = "example_loop\<lparr>pendingFunctors := []\<rparr>"
  let ?w0 = "shared_start ?l"
  let ?w1 = "?w0\<lparr>the_loop := queueInLoop_push 7 (the_loop ?w0), waking := insert 2 (waking ?w0),
                 history := history ?w0 @ [7]\<rparr>"
  let ?w2 = "?w1\<lparr>the_loop := queueInLoop_wake 2 (the_loop ?w1), waking := waking ?w1 - {2}\<rparr>"
  have "shared_step ?w0 ?w1"
    by (rule shared_step.other_push) (simp_all add: shared_start_def example_loop_def)
  moreover have "shared_step ?w1 ?w2" by (rule shared_step.other_wake) simp
  ultimately have reach: "shared_step\<^sup>*\<^sup>* ?w0 ?w2"
    by (rule rtranclp.rtrancl_into_rtrancl [OF r_into_rtranclp])
  have "pendingFunctors ?l = []" "executed ?l = []" "\<not> callingPendingFunctors ?l" "wakeups ?l = 0"
    by (simp_all add: example_loop_def)
  note t = no_lost_wakeup [OF reach this]
  have w2: "phase ?w2 = Polling" "pendingFunctors (the_loop ?w2) = [7]" "waking ?w2 = {}"
    by (simp_all add: shared_start_def loop_thread_ops)
  from t w2 have "0 < wakeups (the_loop ?w2)"
    "executed (the_loop ?w2) @ pendingFunctors (the_loop ?w2) = history ?w2" by simp_all
  with w2 reach show ?thesis by blast
qed

text \<open>
  The pieces \<open>swap\<close>, \<open>call\<close>, \<open>queue_in_loop\<close>, \<open>quit_in_loop\<close>, \<open>again\<close> and \<open>leave\<close> are those of
  \<open>doPendingFunctors\<close> and of the functors it calls: the function, run on functors that queue functors
  and quit, is one of the interleavings.
\<close>

lemma shared_run: "shared_step w w1 \<Longrightarrow> shared_step\<^sup>*\<^sup>* w1 w2 \<Longrightarrow> shared_step\<^sup>*\<^sup>* w w2"
  by (rule converse_rtranclp_into_rtranclp)

definition queues_or_quits :: "'f loop_call \<Rightarrow> bool" where
  "queues_or_quits c \<longleftrightarrow> c = Quit \<or> (\<exists>f. c = QueueInLoop f)"

lemma call_is_step:
  assumes "phase w = Calling fs" and "threadId (the_loop w) = me" and "queues_or_quits c"
  shows "\<exists>s'. EventLoop_call me (the_loop w) c = Inr s' \<and> threadId s' = me \<and>
    shared_step w (w\<lparr>the_loop := s', history := history w @ queued_by [c]\<rparr>)"
  using assms(3)
proof (cases c)
  case (QueueInLoop f)
  have "shared_step w (w\<lparr>the_loop := EventLoop_queueInLoop me f (the_loop w), history := history w @ [f]\<rparr>)"
    using shared_step.queue_in_loop [of w fs f] assms(1,2) by simp
  with QueueInLoop assms(2) show ?thesis by (simp add: loop_thread_ops)
next
  case Quit
  have "shared_step w (w\<lparr>the_loop := EventLoop_quit me (the_loop w)\<rparr>)"
    using shared_step.quit_in_loop [of w fs] assms(1,2) by simp
  with Quit assms(2) show ?thesis by (simp add: loop_thread_ops)
qed (simp_all add: queues_or_quits_def)

lemma calls_are_steps:
  assumes "phase w = Calling fs" and "threadId (the_loop w) = me" and "list_all queues_or_quits cs"
  shows "\<exists>s'. for_each (EventLoop_call me) (the_loop w) cs = Inr s' \<and> threadId s' = me \<and>
    shared_step\<^sup>*\<^sup>* w (w\<lparr>the_loop := s', history := history w @ queued_by cs\<rparr>)"
  using assms
proof (induction cs arbitrary: w)
  case Nil
  have "w\<lparr>the_loop := the_loop w, history := history w @ queued_by []\<rparr> = w" by simp
  then show ?case using Nil.prems(2) by simp
next
  case (Cons c cs)
  have c: "queues_or_quits c" and cs: "list_all queues_or_quits cs" using Cons.prems(3) by simp_all
  obtain s1 where s1: "EventLoop_call me (the_loop w) c = Inr s1" "threadId s1 = me"
    and step: "shared_step w (w\<lparr>the_loop := s1, history := history w @ queued_by [c]\<rparr>)"
    using call_is_step [OF Cons.prems(1,2) c] by blast
  obtain s' where "for_each (EventLoop_call me) s1 cs = Inr s'" "threadId s' = me"
    and "shared_step\<^sup>*\<^sup>* (w\<lparr>the_loop := s1, history := history w @ queued_by [c]\<rparr>)
      (w\<lparr>the_loop := s', history := (history w @ queued_by [c]) @ queued_by cs\<rparr>)"
    using Cons.IH [of "w\<lparr>the_loop := s1, history := history w @ queued_by [c]\<rparr>"] Cons.prems(1) s1(2) cs
    by auto
  moreover have "history w @ queued_by (c # cs) = (history w @ queued_by [c]) @ queued_by cs"
    unfolding queued_by_Cons [of c cs] by simp
  ultimately show ?case using s1(1) shared_run [OF step] by auto
qed

lemma functors_are_steps:
  assumes "phase w = Calling fs" and "threadId (the_loop w) = me"
    and "\<forall>f. list_all queues_or_quits (body f)"
  shows "\<exists>s'. for_each (\<lambda>s f. run_functor me body f s) (the_loop w) fs = Inr s' \<and>
    shared_step\<^sup>*\<^sup>* w (w\<lparr>the_loop := s', phase := Calling [],
      history := history w @ concat (map (\<lambda>f. queued_by (body f)) fs)\<rparr>)"
  using assms
proof (induction fs arbitrary: w)
  case Nil
  then have "w\<lparr>the_loop := the_loop w, phase := Calling [], history := history w @ []\<rparr> = w"
    by (cases w) simp
  then show ?case by simp
next
  case (Cons f fs)
  let ?called = "w\<lparr>the_loop := (the_loop w)\<lparr>executed := executed (the_loop w) @ [f]\<rparr>, phase := Calling fs\<rparr>"
  obtain s1 where s1: "for_each (EventLoop_call me) (the_loop ?called) (body f) = Inr s1" "threadId s1 = me"
    and body: "shared_step\<^sup>*\<^sup>* ?called (?called\<lparr>the_loop := s1, history := history w @ queued_by (body f)\<rparr>)"
    using calls_are_steps [of ?called fs me "body f"] Cons.prems(2,3) by auto
  let ?w1 = "?called\<lparr>the_loop := s1, history := history w @ queued_by (body f)\<rparr>"
  obtain s' where s': "for_each (\<lambda>s f. run_functor me body f s) s1 fs = Inr s'"
    and rest: "shared_step\<^sup>*\<^sup>* ?w1 (?w1\<lparr>the_loop := s', phase := Calling [],
      history := (history w @ queued_by (body f)) @ concat (map (\<lambda>f. queued_by (body f)) fs)\<rparr>)"
    using Cons.IH [of ?w1] s1(2) Cons.prems(3) by auto
  have "shared_step\<^sup>*\<^sup>* w (w\<lparr>the_loop := s', phase := Calling [],
      history := history w @ concat (map (\<lambda>f. queued_by (body f)) (f # fs))\<rparr>)"
    using shared_run [OF shared_step.call [OF Cons.prems(1)] rtranclp_trans [OF body rest]] by simp
  moreover have "for_each (\<lambda>s f. run_functor me body f s) (the_loop w) (f # fs) = Inr s'"
    using s1(1) s' by (simp add: run_functor_def)
  ultimately show ?case by blast
qed

text \<open>
  \<open>doPendingFunctors\<close> as a function and the interleaved loop agree: run on functors that queue
  functors and quit, whichever and however many, the function returns, and the interleaved loop with
  no other thread running reaches exactly the state it returns (queue, flags, wakeups on the eventfd,
  and log of what has run), is in \<open>poll\<close> again or, if \<open>quit\<close> was called, has left the loop, and has
  recorded what the functors queued, in their order.
\<close>

lemma doPendingFunctors_interleaved:
  assumes "phase w = Dispatching" and "threadId (the_loop w) = me"
    and "\<forall>f. list_all queues_or_quits (body f)"
  shows "\<exists>s'. EventLoop_doPendingFunctors (run_functor me body) (the_loop w) = Inr s' \<and>
    shared_step\<^sup>*\<^sup>* w (w\<lparr>the_loop := s', phase := (if quit s' then Stopped else Polling),
      history := history w @ concat (map (\<lambda>f. queued_by (body f)) (pendingFunctors (the_loop w)))\<rparr>)"
proof -
  let ?fs = "pendingFunctors (the_loop w)"
  let ?swapped = "w\<lparr>the_loop := (the_loop w)\<lparr>callingPendingFunctors := True, pendingFunctors := []\<rparr>,
    phase := Calling ?fs\<rparr>"
  let ?log = "history w @ concat (map (\<lambda>f. queued_by (body f)) ?fs)"
  obtain s1 where s1: "for_each (\<lambda>s f. run_functor me body f s) (the_loop ?swapped) ?fs = Inr s1"
    and calls: "shared_step\<^sup>*\<^sup>* ?swapped (?swapped\<lparr>the_loop := s1, phase := Calling [], history := ?log\<rparr>)"
    using functors_are_steps [of ?swapped ?fs me body] assms(2,3) by auto
  let ?called = "?swapped\<lparr>the_loop := s1, phase := Calling [], history := ?log\<rparr>"
  let ?s' = "s1\<lparr>callingPendingFunctors := False\<rparr>"
  have "shared_step ?called (?called\<lparr>the_loop := ?s', phase := (if quit s1 then Stopped else Polling)\<rparr>)"
    using shared_step.again [of ?called] shared_step.leave [of ?called] by (cases "quit s1") simp_all
  from shared_run [OF shared_step.swap [OF assms(1)] rtranclp.rtrancl_into_rtrancl [OF calls this]]
  have "shared_step\<^sup>*\<^sup>* w (w\<lparr>the_loop := ?s', phase := (if quit s1 then Stopped else Polling), history := ?log\<rparr>)"
    by (cases w; cases "quit s1") simp_all
  moreover have "EventLoop_doPendingFunctors (run_functor me body) (the_loop w) = Inr ?s'"
    using s1 by (simp add: EventLoop_doPendingFunctors_def Let_def)
  ultimately show ?thesis by (intro exI [of _ ?s']) simp
qed

lemma doPendingFunctors_interleaved_witness:
  "\<exists>s'. EventLoop_doPendingFunctors (run_functor 1 (\<lambda>f. if f = 5 then [QueueInLoop 7, Quit] else []))
          example_loop = Inr s' \<and> executed s' = [0, 5] \<and> pendingFunctors s' = [7] \<and>
        shared_step\<^sup>*\<^sup>* ((shared_start example_loop)\<lparr>the_loop := example_loop, phase := Dispatching\<rparr>)
          \<lparr>the_loop = s', phase = Stopped, waking = {}, history = [7]\<rparr>"
proof -
  let ?w = "(shared_start example_loop)\<lparr>the_loop := example_loop, phase := Dispatching\<rparr>"
  let ?body = "\<lambda>f :: nat. if f = 5 then [QueueInLoop 7, Quit] else []"
  have w: "phase ?w = Dispatching" "threadId (the_loop ?w) = 1"
    "\<forall>f. list_all queues_or_quits (?body f)"
    by (simp_all add: example_loop_def queues_or_quits_def)
  have run: "EventLoop_doPendingFunctors (run_functor 1 ?body) example_loop =
      Inr (example_loop\<lparr>pendingFunctors := [7], executed := [0, 5], quit := True, wakeups := 1\<rparr>)"
    by (simp add: EventLoop_doPendingFunctors_def run_functor_def example_loop_def loop_thread_ops)
  from doPendingFunctors_interleaved [OF w] run show ?thesis
    by (simp add: shared_start_def example_loop_def)
qed

subsection \<open>Before \<open>loop\<close>\<close>

lemma EventLoop_wakeup_swap:
  "(EventLoop_wakeup s)\<lparr>looping := a, quit := b\<rparr> = EventLoop_wakeup (s\<lparr>looping := a, quit := b\<rparr>)"
  by (simp add: EventLoop_wakeup_def)

text \<open>
  A \<open>quit\<close> that comes before \<open>loop\<close> has started is lost, from whichever thread it comes:
  \<open>loop\<close> clears the flag and runs as if only a wakeup had been sent.
\<close>

lemma quit_before_loop_is_lost:
  "EventLoop_loop me exec user waits (EventLoop_quit t s) =
   EventLoop_loop me exec user waits (if EventLoop_isInLoopThread t s then s else EventLoop_wakeup s)"
proof -
  have "looping (EventLoop_wakeup s) = looping s" "threadId (EventLoop_wakeup s) = threadId s"
    by (simp_all add: EventLoop_wakeup_def)
  then show ?thesis
    by (simp add: EventLoop_loop_def EventLoop_quit_def Let_def EventLoop_assertInLoopThread_def
        EventLoop_isInLoopThread_def EventLoop_wakeup_swap) (simp add: EventLoop_wakeup_def)
qed

text \<open>
  A functor that the loop's own thread queues before \<open>loop\<close> does not wake the loop: the
  first \<open>poll\<close> sleeps although work is pending.
\<close>

lemma queued_before_loop_not_woken:
  assumes "threadId s = me" and "\<not> callingPendingFunctors s"
  shows "wakeups (EventLoop_queueInLoop me f s) = wakeups s \<and>
         f \<in> set (pendingFunctors (EventLoop_queueInLoop me f s))"
  using assms by (simp add: loop_thread_ops)

subsection \<open>Channel operations in the loop thread\<close>

lemma Channel_change_ok:
  assumes "threadId s = me" and "poller_inv (poller s)" and "channel_heap (poller s) a = Some c"
    and "sole_user a (ch_fd c) (poller s)"
  shows "Channel_change me ch a s =
         Inr (s\<lparr>poller := updated a c (changed_events ch (ch_events c)) (poller s)\<rparr>)"
proof -
  note u = updateChannel_eq [OF assms(2-4), of "changed_events ch (ch_events c)"]
  with assms(1,3) show ?thesis
    by (simp add: Channel_change_def channel_at_def EventLoop_updateChannel_def set_events_def
        EventLoop_assertInLoopThread_def EventLoop_isInLoopThread_def)
qed

lemma EventLoop_removeChannel_ok:
  assumes "threadId s = me" and "poller_inv (poller s)" and "channel_heap (poller s) a = Some c"
    and "sole_user a (ch_fd c) (poller s)"
  shows "EventLoop_removeChannel me a s = Inr (s\<lparr>poller := removed a c (poller s)\<rparr>)"
  using removeChannel_eq [OF assms(2-4)] assms(1)
  by (simp add: EventLoop_removeChannel_def EventLoop_assertInLoopThread_def EventLoop_isInLoopThread_def)

lemma wrong_thread_aborts:
  assumes "threadId s \<noteq> me"
  shows "EventLoop_removeChannel me a s = Inl WrongThread"
    and "channel_heap (poller s) a = Some c \<Longrightarrow> Channel_change me ch a s = Inl WrongThread"
  using assms
  by (simp_all add: EventLoop_removeChannel_def EventLoop_assertInLoopThread_def
      EventLoop_isInLoopThread_def Channel_change_def channel_at_def EventLoop_updateChannel_def)

lemma put_new_channel_inv:
  "poller_inv p \<Longrightarrow> channel_heap p a = None \<Longrightarrow> poller_inv (put_channel a (Channel_new fd) p)"
  using poller_step_inv [OF poller_step.create] by blast

text \<open>The state that the constructor leaves.\<close>

definition new_loop_state ::
    "tid \<Rightarrow> timestamp \<Rightarrow> int \<Rightarrow> addr \<Rightarrow> int \<Rightarrow> addr \<Rightarrow> 'f event_loop" where
  "new_loop_state me now wfd wa tfd ta =
     \<lparr>threadId = me, looping = False, quit = False,
      poller = \<lparr>channels = [tfd \<mapsto> ta, wfd \<mapsto> wa], events_size = kInitEventListSize,
        interest = [tfd \<mapsto> (kReadEvent, ta), wfd \<mapsto> (kReadEvent, wa)], ctl_failures = 0,
        channel_heap =
          [wa \<mapsto> \<lparr>ch_fd = wfd, ch_events = kReadEvent, ch_revents = 0, ch_index = kAdded\<rparr>,
           ta \<mapsto> \<lparr>ch_fd = tfd, ch_events = kReadEvent, ch_revents = 0, ch_index = kAdded\<rparr>]\<rparr>,
      pendingFunctors = [], callingPendingFunctors = False, wakeupChannel = wa, wakeups = 0,
      timerfdChannel = ta, timerQueue = TimerQueue_new me now\<rparr>"

lemmas loop_construction_defs = EventLoop_new_def EventLoop_delete_def Let_def Channel_change_def
  channel_at_def EventLoop_updateChannel_def EventLoop_removeChannel_def EventLoop_assertInLoopThread_def
  EventLoop_isInLoopThread_def EPollPoller_updateChannel_def EPollPoller_removeChannel_def
  EPollPoller_update_def Channel_setIndex_def Channel_isNoneEvent_def put_channel_def
  Channel_new_def EPollPoller_new_def event_masks

lemma EventLoop_new_eq:
  assumes "wa \<noteq> ta" and "wfd \<noteq> tfd"
  shows "EventLoop_new me now wfd wa tfd ta = Inr (new_loop_state me now wfd wa tfd ta)"
  using assms by (simp add: loop_construction_defs new_loop_state_def fun_upd_twist)

lemma new_loop_state_inv:
  "wa \<noteq> ta \<Longrightarrow> wfd \<noteq> tfd \<Longrightarrow> poller_inv (poller (new_loop_state me now wfd wa tfd ta))"
  by (auto simp: poller_inv_def new_loop_state_def)

lemma new_loop_delete:
  assumes "wa \<noteq> ta" and "wfd \<noteq> tfd"
  shows "\<exists>s'. EventLoop_delete me (new_loop_state me now wfd wa tfd ta) = Inr s' \<and>
      interest (poller s') = Map.empty \<and> channels (poller s') = Map.empty \<and>
      tq_heap (timerQueue s') = Map.empty"
  using assms
  by (simp add: loop_construction_defs new_loop_state_def TimerQueue_destroy_def TimerQueue_new_def)

text \<open>
  A new loop watches its eventfd and its timerfd for reading and nothing else; deleting it
  when it is not looping frees every timer and leaves no descriptor of its own registered.
\<close>

lemma loop_construction_and_deletion:
  assumes "wa \<noteq> ta" and "wfd \<noteq> tfd"
  shows "\<exists>s. EventLoop_new me now wfd wa tfd ta = Inr s \<and> poller_inv (poller s) \<and>
             interest (poller s) = [tfd \<mapsto> (kReadEvent, ta), wfd \<mapsto> (kReadEvent, wa)] \<and>
             (\<exists>s'. EventLoop_delete me s = Inr s' \<and> interest (poller s') = Map.empty \<and>
                   channels (poller s') = Map.empty \<and> tq_heap (timerQueue s') = Map.empty)"
  by (rule exI [of _ "new_loop_state me now wfd wa tfd ta"], intro conjI)
    (rule EventLoop_new_eq [OF assms], rule new_loop_state_inv [OF assms],
     simp add: new_loop_state_def, rule new_loop_delete [OF assms])

lemma loop_construction_and_deletion_witness:
  "\<exists>s. EventLoop_new 1 (Timestamp 0) 4 64 5 72 = Inr s \<and>
       interest (poller s) = [5 \<mapsto> (kReadEvent, 72), 4 \<mapsto> (kReadEvent, 64)]"
  using loop_construction_and_deletion [of 64 72 4 5 1 "Timestamp 0"] by auto

section \<open>Operations on one channel\<close>

text \<open>Only one channel has changed in the poller, and it keeps its descriptor.\<close>

definition only_channel :: "addr \<Rightarrow> epoll_poller \<Rightarrow> epoll_poller \<Rightarrow> bool" where
  "only_channel a p p' \<longleftrightarrow>
     (\<forall>b. b \<noteq> a \<longrightarrow> channel_heap p' b = channel_heap p b) \<and>
     map_option ch_fd (channel_heap p' a) = map_option ch_fd (channel_heap p a)"

lemma only_channel_refl [simp]: "only_channel a p p"
  by (simp add: only_channel_def)

lemma only_channel_trans: "only_channel a p q \<Longrightarrow> only_channel a q r \<Longrightarrow> only_channel a p r"
  by (simp add: only_channel_def)

lemma updateChannel_only: "EPollPoller_updateChannel a p = Inr p' \<Longrightarrow> only_channel a p p'"
  by (auto simp: only_channel_def EPollPoller_updateChannel_def EPollPoller_update_def Channel_setIndex_def
      channel_at_def put_channel_def returned Let_def split: option.splits if_splits)

lemma removeChannel_only: "EPollPoller_removeChannel a p = Inr p' \<Longrightarrow> only_channel a p p'"
  by (auto simp: only_channel_def EPollPoller_removeChannel_def EPollPoller_update_def Channel_setIndex_def
      channel_at_def put_channel_def returned Let_def split: option.splits if_splits)

lemma Channel_change_only:
  assumes "Channel_change me ch a s = Inr s'"
  obtains p where "s' = s\<lparr>poller := p\<rparr>" and "only_channel a (poller s) p"
proof -
  from assms obtain c p where c: "channel_heap (poller s) a = Some c"
    and p: "EPollPoller_updateChannel a
              (put_channel a (c\<lparr>ch_events := changed_events ch (ch_events c)\<rparr>) (poller s)) = Inr p"
    and s': "s' = s\<lparr>poller := p\<rparr>"
    by (auto simp: Channel_change_def EventLoop_updateChannel_def channel_at_def returned
        split: option.splits)
  from c have "only_channel a (poller s) (put_channel a (c\<lparr>ch_events := changed_events ch (ch_events c)\<rparr>) (poller s))"
    by (simp add: only_channel_def put_channel_def)
  from that [OF s' only_channel_trans [OF this updateChannel_only [OF p]]] show ?thesis .
qed

end
