(* ===== verification/Connections.thy ===== *)
theory Connections
  imports Buffers Event_Loops
begin

unbundle bit_operations_syntax

section \<open>TcpConnection (src/net/tcp_connection.cpp)\<close>

text \<open>
  A connection lives in its loop: the record extends that of the loop with the connection's own
  fields. The kernel's side of the socket is the list of results that the coming calls of
  \<open>write\<close> and \<open>readv\<close> have (when the list is used up: \<open>EAGAIN\<close>), the bytes that \<open>write\<close> has
  accepted (\<open>wire\<close>), and whether the write direction was shut down. The field \<open>handed_over\<close> is a
  history variable: all bytes given to \<open>send\<close> while connected, in order.
  The callbacks are functions on the whole state; those that may call the connection back are
  passed to the operations that invoke them.
\<close>

datatype ConnState = kDisconnected | kConnecting | kConnected | kDisconnecting

datatype write_result = Wrote nat | WriteErr nat

record ('f, 'x) tcp_connection = "'f event_loop" +
  conn_name :: string
  conn_state :: ConnState
  conn_channel :: addr
  inputBuffer :: buffer
  outputBuffer :: buffer
  conn_context :: "'x option"
  socket_reads :: "readv_result list"
  socket_writes :: "write_result list"
  wire :: "char list"
  fin_sent :: bool
  handed_over :: "char list"

record 's connection_callbacks =
  connectionCallback :: "('s \<Rightarrow> 's res) option"
  messageCallback :: "('s \<Rightarrow> 's res) option"
  writeCompleteCallback :: "('s \<Rightarrow> 's res) option"
  connectionClosed :: "('s \<Rightarrow> 's res) option"

definition EAGAIN :: nat where
  "EAGAIN = 11"

subsection \<open>The socket\<close>

text \<open>
  \<open>write\<close> accepts a prefix of what it is given, or fails; after the write direction was shut
  down it fails with \<open>EPIPE\<close>. A failure is a result of -1, also \<open>EPIPE\<close>: signals are not modelled, so this
  is the behaviour of a process that ignores \<open>SIGPIPE\<close>. The library does not set that up; in a process
  with the default action, \<open>EPIPE\<close> is its end, and what is shown of a connection holds up to that point.
\<close>

definition sockets_write ::
    "char list \<Rightarrow> ('f, 'x, 'z) tcp_connection_scheme \<Rightarrow> int \<times> ('f, 'x, 'z) tcp_connection_scheme" where
  "sockets_write data s =
     (if fin_sent s then (-1, s)
      else case socket_writes s of
        [] \<Rightarrow> (-1, s)
      | WriteErr e # ws \<Rightarrow> (-1, s\<lparr>socket_writes := ws\<rparr>)
      | Wrote k # ws \<Rightarrow>
          (int (min k (length data)), s\<lparr>socket_writes := ws, wire := wire s @ take k data\<rparr>))"

text \<open>\<open>readv\<close>: what does not fit into the caller's memory stays in the socket.\<close>

definition next_read :: "('f, 'x, 'z) tcp_connection_scheme \<Rightarrow> readv_result" where
  "next_read s = (case socket_reads s of [] \<Rightarrow> ReadErr EAGAIN | r # _ \<Rightarrow> r)"

definition reads_after :: "int \<Rightarrow> readv_result list \<Rightarrow> readv_result list" where
  "reads_after n rs =
     (case rs of
        ReadData avail # rs' \<Rightarrow> if nat n < length avail then ReadData (drop (nat n) avail) # rs' else rs'
      | _ # rs' \<Rightarrow> rs'
      | [] \<Rightarrow> [])"

definition Socket_shutdownWrite ::
    "('f, 'x, 'z) tcp_connection_scheme \<Rightarrow> ('f, 'x, 'z) tcp_connection_scheme" where
  "Socket_shutdownWrite s = s\<lparr>fin_sent := True\<rparr>"

subsection \<open>Operations\<close>

definition TcpConnection_channel :: "('f, 'x, 'z) tcp_connection_scheme \<Rightarrow> channel res" where
  "TcpConnection_channel s = channel_at (poller s) (conn_channel s)"

definition TcpConnection_isWriting :: "('f, 'x, 'z) tcp_connection_scheme \<Rightarrow> bool res" where
  "TcpConnection_isWriting s = map_res Channel_isWriting (TcpConnection_channel s)"

definition TcpConnection_new ::
    "string \<Rightarrow> int \<Rightarrow> addr \<Rightarrow> ('f, 'x, 'z) tcp_connection_scheme \<Rightarrow> ('f, 'x, 'z) tcp_connection_scheme" where
  "TcpConnection_new name sockfd ch s =
     s\<lparr>conn_name := name, conn_state := kConnecting, conn_channel := ch,
       poller := put_channel ch (Channel_new sockfd) (poller s),
       inputBuffer := Buffer_new, outputBuffer := Buffer_new, conn_context := None,
       wire := [], fin_sent := False, handed_over := []\<rparr>"

definition append_output ::
    "char list \<Rightarrow> ('f, 'x, 'z) tcp_connection_scheme \<Rightarrow> ('f, 'x, 'z) tcp_connection_scheme res" where
  "append_output data s = map_res (\<lambda>b. s\<lparr>outputBuffer := b\<rparr>) (Buffer_append (outputBuffer s) data)"

definition TcpConnection_sendInLoop ::
    "tid \<Rightarrow> (('f, 'x, 'z) tcp_connection_scheme \<Rightarrow> ('f, 'x, 'z) tcp_connection_scheme res) option \<Rightarrow>
     char list \<Rightarrow> ('f, 'x, 'z) tcp_connection_scheme \<Rightarrow> ('f, 'x, 'z) tcp_connection_scheme res" where
  "TcpConnection_sendInLoop me writeComplete data s =
     and_then (EventLoop_assertInLoopThread me s) (\<lambda>_.
     if conn_state s = kDisconnected then Inr s
     else
       and_then (TcpConnection_isWriting s) (\<lambda>writing.
       if \<not> writing \<and> Buffer_readableBytes (outputBuffer s) = 0 then
         (let (n, s) = sockets_write data s
          in if 0 \<le> n then
               (let remaining = length data - nat n
                in if remaining = 0 \<and> is_set writeComplete then call_if_set writeComplete s
                   else if 0 < remaining then
                     and_then (append_output (drop (nat n) data) s)
                       (Channel_change me EnableWriting (conn_channel s))
                   else Inr s)
             else
               and_then (append_output data s) (Channel_change me EnableWriting (conn_channel s)))
       else append_output data s))"

text \<open>\<open>send(const std::string&)\<close>; the history variable records what was handed over.\<close>

definition TcpConnection_send ::
    "tid \<Rightarrow> (('f, 'x, 'z) tcp_connection_scheme \<Rightarrow> ('f, 'x, 'z) tcp_connection_scheme res) option \<Rightarrow>
     char list \<Rightarrow> ('f, 'x, 'z) tcp_connection_scheme \<Rightarrow> ('f, 'x, 'z) tcp_connection_scheme res" where
  "TcpConnection_send me writeComplete message s =
     (if conn_state s = kConnected
      then TcpConnection_sendInLoop me writeComplete message (s\<lparr>handed_over := handed_over s @ message\<rparr>)
      else Inr s)"

text \<open>\<open>send(Buffer*)\<close> of a buffer that the caller owns: the buffer it is left with.\<close>

definition TcpConnection_sendBuffer ::
    "tid \<Rightarrow> (('f, 'x, 'z) tcp_connection_scheme \<Rightarrow> ('f, 'x, 'z) tcp_connection_scheme res) option \<Rightarrow>
     buffer \<Rightarrow> ('f, 'x, 'z) tcp_connection_scheme \<Rightarrow> (buffer \<times> ('f, 'x, 'z) tcp_connection_scheme) res" where
  "TcpConnection_sendBuffer me writeComplete buf s =
     (if conn_state s = kConnected
      then map_res (\<lambda>s. (Buffer_retrieveAll buf, s)) (TcpConnection_send me writeComplete (Buffer_content buf) s)
      else Inr (buf, s))"

definition TcpConnection_shutdownInLoop ::
    "tid \<Rightarrow> ('f, 'x, 'z) tcp_connection_scheme \<Rightarrow> ('f, 'x, 'z) tcp_connection_scheme res" where
  "TcpConnection_shutdownInLoop me s =
     and_then (EventLoop_assertInLoopThread me s) (\<lambda>_.
     and_then (TcpConnection_isWriting s) (\<lambda>writing.
     Inr (if writing then s else Socket_shutdownWrite s)))"

definition TcpConnection_shutdown ::
    "tid \<Rightarrow> ('f, 'x, 'z) tcp_connection_scheme \<Rightarrow> ('f, 'x, 'z) tcp_connection_scheme res" where
  "TcpConnection_shutdown me s =
     (if conn_state s = kConnected
      then TcpConnection_shutdownInLoop me (s\<lparr>conn_state := kDisconnecting\<rparr>)
      else Inr s)"

definition TcpConnection_connectEstablished ::
    "tid \<Rightarrow> ('f, 'x, 'z) tcp_connection_scheme connection_callbacks \<Rightarrow>
     ('f, 'x, 'z) tcp_connection_scheme \<Rightarrow> ('f, 'x, 'z) tcp_connection_scheme res" where
  "TcpConnection_connectEstablished me cbs s =
     and_then (EventLoop_assertInLoopThread me s) (\<lambda>_.
     and_then (assert_that (conn_state s = kConnecting)) (\<lambda>_.
     and_then (Channel_change me EnableReading (conn_channel s) (s\<lparr>conn_state := kConnected\<rparr>))
       (call_if_set (connectionCallback cbs))))"

definition TcpConnection_connectDestroyed ::
    "tid \<Rightarrow> ('f, 'x, 'z) tcp_connection_scheme connection_callbacks \<Rightarrow>
     ('f, 'x, 'z) tcp_connection_scheme \<Rightarrow> ('f, 'x, 'z) tcp_connection_scheme res" where
  "TcpConnection_connectDestroyed me cbs s =
     and_then (EventLoop_assertInLoopThread me s) (\<lambda>_.
     and_then
       (if conn_state s = kConnected then
          and_then (Channel_change me DisableAll (conn_channel s) (s\<lparr>conn_state := kDisconnected\<rparr>))
            (call_if_set (connectionCallback cbs))
        else Inr s) (\<lambda>s.
     EventLoop_removeChannel me (conn_channel s) s))"

definition TcpConnection_handleClose ::
    "tid \<Rightarrow> ('f, 'x, 'z) tcp_connection_scheme connection_callbacks \<Rightarrow>
     ('f, 'x, 'z) tcp_connection_scheme \<Rightarrow> ('f, 'x, 'z) tcp_connection_scheme res" where
  "TcpConnection_handleClose me cbs s =
     and_then (EventLoop_assertInLoopThread me s) (\<lambda>_.
     and_then (assert_that (conn_state s = kConnected \<or> conn_state s = kDisconnecting)) (\<lambda>_.
     and_then (Channel_change me DisableAll (conn_channel s) (s\<lparr>conn_state := kDisconnected\<rparr>)) (\<lambda>s.
     and_then (call_if_set (connectionCallback cbs) s)
       (call_if_set (connectionClosed cbs)))))"

definition TcpConnection_forceClose ::
    "tid \<Rightarrow> ('f, 'x, 'z) tcp_connection_scheme connection_callbacks \<Rightarrow>
     ('f, 'x, 'z) tcp_connection_scheme \<Rightarrow> ('f, 'x, 'z) tcp_connection_scheme res" where
  "TcpConnection_forceClose me cbs s =
     (if conn_state s = kConnected \<or> conn_state s = kDisconnecting
      then TcpConnection_handleClose me cbs (s\<lparr>conn_state := kDisconnecting\<rparr>)
      else Inr s)"

text \<open>\<open>handleError\<close> reads the socket's error, for the log.\<close>

definition TcpConnection_handleError ::
    "('f, 'x, 'z) tcp_connection_scheme \<Rightarrow> ('f, 'x, 'z) tcp_connection_scheme res" where
  "TcpConnection_handleError s = map_res (\<lambda>c. s) (TcpConnection_channel s)"

definition TcpConnection_handleRead ::
    "tid \<Rightarrow> ('f, 'x, 'z) tcp_connection_scheme connection_callbacks \<Rightarrow>
     ('f, 'x, 'z) tcp_connection_scheme \<Rightarrow> ('f, 'x, 'z) tcp_connection_scheme res" where
  "TcpConnection_handleRead me cbs s =
     and_then (EventLoop_assertInLoopThread me s) (\<lambda>_.
     and_then (Buffer_readFd (inputBuffer s) (next_read s)) (\<lambda>(n, savedErrno, b).
     (let s = s\<lparr>inputBuffer := b, socket_reads := reads_after n (socket_reads s)\<rparr>
      in if 0 < n then call_if_set (messageCallback cbs) s
         else if n = 0 then TcpConnection_handleClose me cbs s
         else if savedErrno \<noteq> Some EAGAIN then TcpConnection_handleError s
         else Inr s)))"

definition TcpConnection_handleWrite ::
    "tid \<Rightarrow> ('f, 'x, 'z) tcp_connection_scheme connection_callbacks \<Rightarrow>
     ('f, 'x, 'z) tcp_connection_scheme \<Rightarrow> ('f, 'x, 'z) tcp_connection_scheme res" where
  "TcpConnection_handleWrite me cbs s =
     and_then (EventLoop_assertInLoopThread me s) (\<lambda>_.
     and_then (TcpConnection_isWriting s) (\<lambda>writing.
     if writing then
       and_then (Buffer_writeFd (outputBuffer s)) (\<lambda>data.
       (let (n, s) = sockets_write data s
        in if 0 < n then
             (let s = s\<lparr>outputBuffer := Buffer_retrieve (outputBuffer s) (nat n)\<rparr>
              in if Buffer_readableBytes (outputBuffer s) = 0 then
                   and_then (Channel_change me DisableWriting (conn_channel s) s) (\<lambda>s.
                   and_then (call_if_set (writeCompleteCallback cbs) s) (\<lambda>s.
                   if conn_state s = kDisconnecting then TcpConnection_shutdownInLoop me s
                   else Inr s))
                 else Inr s)
           else Inr s))
     else Inr s))"

text \<open>The callbacks that the constructor gives to the channel, and the dispatch of its events.\<close>

definition TcpConnection_events ::
    "tid \<Rightarrow> ('f, 'x, 'z) tcp_connection_scheme connection_callbacks \<Rightarrow>
     ('f, 'x, 'z) tcp_connection_scheme event_callbacks" where
  "TcpConnection_events me cbs =
     \<lparr>readCallback = Some (TcpConnection_handleRead me cbs),
      writeCallback = Some (TcpConnection_handleWrite me cbs),
      closeCallback = Some (TcpConnection_handleClose me cbs),
      errorCallback = Some TcpConnection_handleError\<rparr>"

subsection \<open>Invariant\<close>

text \<open>
  \<open>conn_pre me pend s\<close>: the connection of \<open>s\<close>, in thread \<open>me\<close>, is well-formed and \<open>pend\<close> is the
  part of the bytes handed over that is neither on the wire nor in the output buffer. While
  connected or disconnecting the channel is registered for reading, and for writing whenever
  output is buffered; in the other states it is not registered. The write direction is shut down
  only when no output is left.
\<close>

definition conn_ch :: "('f, 'x, 'z) tcp_connection_scheme \<Rightarrow> channel" where
  "conn_ch s = the (channel_heap (poller s) (conn_channel s))"

definition conn_registered :: "('f, 'x, 'z) tcp_connection_scheme \<Rightarrow> bool" where
  "conn_registered s \<longleftrightarrow>
     channel_heap (poller s) (conn_channel s) = Some (conn_ch s) \<and>
     sole_user (conn_channel s) (ch_fd (conn_ch s)) (poller s) \<and>
     (case conn_state s of
        kConnecting \<Rightarrow> ch_index (conn_ch s) = kNew \<and> ch_events (conn_ch s) = kNoneEvent \<and>
          Buffer_content (outputBuffer s) = []
      | kDisconnected \<Rightarrow> ch_index (conn_ch s) \<noteq> kAdded \<and> ch_events (conn_ch s) = kNoneEvent
      | _ \<Rightarrow> ch_index (conn_ch s) = kAdded \<and>
          (ch_events (conn_ch s) = kReadEvent \<and> Buffer_content (outputBuffer s) = [] \<or>
           ch_events (conn_ch s) = kReadEvent OR kWriteEvent))"

definition conn_pre :: "tid \<Rightarrow> char list \<Rightarrow> ('f, 'x, 'z) tcp_connection_scheme \<Rightarrow> bool" where
  "conn_pre me pend s \<longleftrightarrow>
     threadId s = me \<and> poller_inv (poller s) \<and> conn_registered s \<and>
     Buffer_inv (inputBuffer s) \<and> Buffer_inv (outputBuffer s) \<and>
     handed_over s = wire s @ Buffer_content (outputBuffer s) @ pend \<and>
     (fin_sent s \<longrightarrow> conn_state s = kDisconnected \<or>
        conn_state s = kDisconnecting \<and> ch_events (conn_ch s) = kReadEvent)"

abbreviation conn_wf :: "tid \<Rightarrow> ('f, 'x, 'z) tcp_connection_scheme \<Rightarrow> bool" where
  "conn_wf me s \<equiv> conn_pre me [] s"

text \<open>Once disconnecting with nothing left to write, the write direction has been shut down.\<close>

definition fin_due :: "('f, 'x, 'z) tcp_connection_scheme \<Rightarrow> bool" where
  "fin_due s \<longleftrightarrow>
     (conn_state s = kDisconnecting \<and> ch_events (conn_ch s) = kReadEvent \<longrightarrow> fin_sent s)"

fun state_rank :: "ConnState \<Rightarrow> nat" where
  "state_rank kConnecting = 0"
| "state_rank kConnected = 1"
| "state_rank kDisconnecting = 2"
| "state_rank kDisconnected = 3"

text \<open>
  What a callback may do: it keeps the invariant and never takes the connection back to an earlier
  state; if it fails, then with a fault expected of a connection with this context, and what is
  unexpected of the context before stays unexpected of the context after.
\<close>

definition conn_next ::
    "('x option \<Rightarrow> fault \<Rightarrow> bool) \<Rightarrow> ('f, 'x, 'z) tcp_connection_scheme \<Rightarrow>
     ('f, 'x, 'z) tcp_connection_scheme \<Rightarrow> bool" where
  "conn_next ok s s' \<longleftrightarrow>
     state_rank (conn_state s) \<le> state_rank (conn_state s') \<and>
     (\<forall>x. ok (conn_context s') x \<longrightarrow> ok (conn_context s) x)"

lemma conn_next_refl [simp]: "conn_next ok s s"
  by (simp add: conn_next_def)

lemma conn_next_trans: "conn_next ok s t \<Longrightarrow> conn_next ok t u \<Longrightarrow> conn_next ok s u"
  by (auto simp: conn_next_def)

lemma conn_next_fault: "conn_next ok s s' \<Longrightarrow> ok (conn_context s') x \<Longrightarrow> ok (conn_context s) x"
  by (simp add: conn_next_def)

lemma conn_next_same:
  "conn_context s' = conn_context s \<Longrightarrow>
   conn_next ok s s' \<longleftrightarrow> state_rank (conn_state s) \<le> state_rank (conn_state s')"
  by (simp add: conn_next_def)

definition keeps_conn ::
    "tid \<Rightarrow> ('x option \<Rightarrow> fault \<Rightarrow> bool) \<Rightarrow>
     (('f, 'x, 'z) tcp_connection_scheme \<Rightarrow> ('f, 'x, 'z) tcp_connection_scheme res) \<Rightarrow> bool" where
  "keeps_conn me ok f \<longleftrightarrow>
     (\<forall>s. conn_wf me s \<longrightarrow>
        (case f s of
           Inl x \<Rightarrow> ok (conn_context s) x
         | Inr s' \<Rightarrow> conn_wf me s' \<and> (fin_due s \<longrightarrow> fin_due s') \<and>
                     conn_next ok s s'))"

definition keeps_conn_if_set ::
    "tid \<Rightarrow> ('x option \<Rightarrow> fault \<Rightarrow> bool) \<Rightarrow>
     (('f, 'x, 'z) tcp_connection_scheme \<Rightarrow> ('f, 'x, 'z) tcp_connection_scheme res) option \<Rightarrow> bool" where
  "keeps_conn_if_set me ok cb \<longleftrightarrow> keeps_conn me ok (call_if_set cb)"

lemma keeps_connD:
  assumes "keeps_conn me ok f" and "conn_wf me s"
  shows "f s = Inl x \<Longrightarrow> ok (conn_context s) x"
    and "f s = Inr s' \<Longrightarrow> conn_wf me s' \<and> (fin_due s \<longrightarrow> fin_due s') \<and>
           conn_next ok s s'"
  using assms by (auto simp: keeps_conn_def split: sum.splits)

lemma keeps_conn_none [simp]: "keeps_conn_if_set me ok None"
  by (simp add: keeps_conn_if_set_def keeps_conn_def)

lemma keeps_conn_some [simp]: "keeps_conn_if_set me ok (Some f) \<longleftrightarrow> keeps_conn me ok f"
  by (simp add: keeps_conn_if_set_def keeps_conn_def)

lemma keeps_conn_Inr [simp]: "keeps_conn me ok Inr"
  by (simp add: keeps_conn_def)

lemma keeps_conn_comp:
  fixes f g :: "('f, 'x, 'z) tcp_connection_scheme \<Rightarrow> ('f, 'x, 'z) tcp_connection_scheme res"
  assumes f: "keeps_conn me ok f" and g: "keeps_conn me ok g"
  shows "keeps_conn me ok (\<lambda>s. and_then (f s) g)"
  unfolding keeps_conn_def
proof (intro allI impI)
  fix s :: "('f, 'x, 'z) tcp_connection_scheme"
  assume s: "conn_wf me s"
  show "case and_then (f s) g of
           Inl x \<Rightarrow> ok (conn_context s) x
         | Inr s' \<Rightarrow> conn_wf me s' \<and> (fin_due s \<longrightarrow> fin_due s') \<and>
                     conn_next ok s s'"
  proof (cases "f s")
    case (Inl x)
    with keeps_connD(1) [OF f s Inl] show ?thesis by simp
  next
    case (Inr s1)
    note s1 = keeps_connD(2) [OF f s Inr]
    show ?thesis
    proof (cases "g s1")
      case (Inl x)
      with Inr keeps_connD(1) [OF g _ Inl] s1 conn_next_fault [of ok s s1] show ?thesis by simp
    next
      case (Inr s2)
      with \<open>f s = Inr s1\<close> keeps_connD(2) [OF g _ Inr] s1 conn_next_trans [of ok s s1 s2] show ?thesis by auto
    qed
  qed
qed

lemma keeps_conn_for_each:
  assumes "\<And>c. keeps_conn me ok (\<lambda>s. f s c)"
  shows "keeps_conn me ok (\<lambda>s. for_each f s cs)"
proof (induction cs)
  case (Cons c cs)
  from keeps_conn_comp [OF assms [of c] Cons.IH] show ?case by simp
qed simp

subsection \<open>Channel operations of a connection\<close>

lemma conn_channel_at: "conn_pre me pend s \<Longrightarrow> TcpConnection_channel s = Inr (conn_ch s)"
  by (auto simp: conn_pre_def conn_registered_def TcpConnection_channel_def channel_at_def)

lemma event_mask_values [simp]:
  "Channel_isWriting c \<longleftrightarrow> ch_events c AND kWriteEvent \<noteq> 0"
  "kReadEvent AND kWriteEvent = 0" "(kReadEvent OR kWriteEvent) AND kWriteEvent \<noteq> 0"
  "kNoneEvent OR kReadEvent = kReadEvent" "kReadEvent \<noteq> 0" "kWriteEvent \<noteq> 0" "kReadEvent \<noteq> kNoneEvent"
  "kReadEvent OR kWriteEvent \<noteq> 0" "kReadEvent OR kWriteEvent OR kWriteEvent = kReadEvent OR kWriteEvent"
  "(kReadEvent OR kWriteEvent) AND NOT kWriteEvent = kReadEvent" "kNoneEvent = 0"
  "kReadEvent OR kWriteEvent \<noteq> kReadEvent" "kReadEvent \<noteq> kReadEvent OR kWriteEvent"
  by (simp_all add: Channel_isWriting_def event_masks)

lemma conn_change:
  assumes "conn_pre me pend s"
  shows "Channel_change me ch (conn_channel s) s =
         Inr (s\<lparr>poller := updated (conn_channel s) (conn_ch s) (changed_events ch (ch_events (conn_ch s))) (poller s)\<rparr>)"
  using assms by (intro Channel_change_ok) (auto simp: conn_pre_def conn_registered_def)

lemma updated_poller:
  assumes "poller_inv p" and "channel_heap p a = Some c" and "sole_user a (ch_fd c) p"
  shows "poller_inv (updated a c ev p)"
    and "channel_heap (updated a c ev p) a =
         Some (c\<lparr>ch_events := ev, ch_index := index_after_update (ch_index c) ev\<rparr>)"
    and "sole_user a (ch_fd c) (updated a c ev p)"
  using updated_inv [OF assms] by (auto simp: updated_def sole_user_def)

subsection \<open>Sending\<close>

lemma conn_ch_simps [simp]:
  "conn_ch (s\<lparr>outputBuffer := b\<rparr>) = conn_ch s" "conn_ch (s\<lparr>handed_over := h\<rparr>) = conn_ch s"
  "conn_ch (s\<lparr>socket_writes := w\<rparr>) = conn_ch s" "conn_ch (s\<lparr>wire := h\<rparr>) = conn_ch s"
  "conn_ch (s\<lparr>conn_state := st\<rparr>) = conn_ch s" "conn_ch (s\<lparr>fin_sent := f\<rparr>) = conn_ch s"
  "conn_ch (s\<lparr>inputBuffer := b\<rparr>) = conn_ch s" "conn_ch (s\<lparr>socket_reads := r\<rparr>) = conn_ch s"
  "conn_ch (s\<lparr>conn_context := x\<rparr>) = conn_ch s"
  by (simp_all add: conn_ch_def)

lemma conn_ch_updated:
  "conn_ch (s\<lparr>poller := updated (conn_channel s) c ev p\<rparr>) =
   c\<lparr>ch_events := ev, ch_index := index_after_update (ch_index c) ev\<rparr>"
  by (simp add: conn_ch_def updated_def)

text \<open>Buffering the rest of what is sent and asking for write events.\<close>

lemma buffer_and_watch:
  assumes pre: "conn_pre me data s" and st: "conn_state s = kConnected"
  obtains s' where "and_then (append_output data s) (Channel_change me EnableWriting (conn_channel s)) = Inr s'"
    and "conn_wf me s'" and "conn_state s' = kConnected" and "conn_context s' = conn_context s"
    and "Buffer_content (outputBuffer s') = Buffer_content (outputBuffer s) @ data"
proof -
  from pre obtain b where b: "Buffer_append (outputBuffer s) data = Inr b" "Buffer_inv b"
    "Buffer_content b = Buffer_content (outputBuffer s) @ data"
    using Buffer_append_ok by (metis conn_pre_def)
  let ?s = "s\<lparr>outputBuffer := b\<rparr>"
  let ?c = "conn_ch s"
  let ?p = "updated (conn_channel s) ?c (kReadEvent OR kWriteEvent) (poller s)"
  have c: "poller_inv (poller s)" "channel_heap (poller s) (conn_channel s) = Some ?c"
    "sole_user (conn_channel s) (ch_fd ?c) (poller s)" "ch_index ?c = kAdded"
    "threadId s = me" "changed_events EnableWriting (ch_events ?c) = kReadEvent OR kWriteEvent"
    using pre st by (auto simp: conn_pre_def conn_registered_def)
  note u = updated_poller [OF c(1-3), of "kReadEvent OR kWriteEvent"]
  have change: "Channel_change me EnableWriting (conn_channel s) ?s = Inr (?s\<lparr>poller := ?p\<rparr>)"
    using Channel_change_ok [of ?s me "conn_channel s" ?c EnableWriting] c by simp
  have "conn_wf me (?s\<lparr>poller := ?p\<rparr>)"
    using pre st u b c(4)
    by (simp add: conn_pre_def conn_registered_def conn_ch_updated conn_ch_def index_after_update_def)
  with change b(1,3) st show ?thesis by (intro that [of "?s\<lparr>poller := ?p\<rparr>"]) (simp_all add: append_output_def)
qed

text \<open>The three outcomes of \<open>write\<close>.\<close>

lemma sockets_write_cases:
  assumes "sockets_write data s = (n, s')" and "\<not> fin_sent s"
  obtains (failed) ws where "n = -1" and "s' = s\<lparr>socket_writes := ws\<rparr>"
  | (wrote) k ws where "n = int k" and "k \<le> length data"
      and "s' = s\<lparr>socket_writes := ws, wire := wire s @ take k data\<rparr>"
proof (cases "socket_writes s")
  case Nil
  with assms show ?thesis by (intro failed [of "[]"]) (simp_all add: sockets_write_def)
next
  case (Cons r ws)
  show ?thesis
  proof (cases r)
    case (Wrote k)
    with Cons assms show ?thesis
      by (intro wrote [of "min k (length data)" ws]) (auto simp: sockets_write_def min_def)
  next
    case (WriteErr e)
    with Cons assms show ?thesis by (intro failed [of ws]) (simp_all add: sockets_write_def)
  qed
qed

lemma conn_pre_wrote:
  assumes "conn_pre me (take k data @ rest) s" and "Buffer_content (outputBuffer s) = []"
  shows "conn_pre me rest (s\<lparr>socket_writes := ws, wire := wire s @ take k data\<rparr>)"
  using assms by (simp add: conn_pre_def conn_registered_def split: ConnState.splits)

lemma conn_pre_writes [simp]: "conn_pre me pend (s\<lparr>socket_writes := ws\<rparr>) = conn_pre me pend s"
  by (simp add: conn_pre_def conn_registered_def split: ConnState.splits)

lemma readable_zero [simp]: "Buffer_readableBytes b = 0 \<longleftrightarrow> Buffer_content b = []" if "Buffer_inv b"
  using length_Buffer_content [OF that] by (metis length_0_conv)

text \<open>
  What \<open>send\<close> does: nothing, or it leaves the connection as it should be, or it has written everything
  and calls the write-complete callback. Only an empty message can leave it watching an empty buffer.
\<close>

lemma send_cases:
  fixes wc :: "(('f, 'x, 'z) tcp_connection_scheme \<Rightarrow> ('f, 'x, 'z) tcp_connection_scheme res) option"
  assumes wf: "conn_wf me s"
  obtains (ignored) "conn_state s \<noteq> kConnected" and "TcpConnection_send me wc data s = Inr s"
  | (kept) s' where "conn_state s = kConnected" and "TcpConnection_send me wc data s = Inr s'" and "conn_wf me s'"
      and "conn_state s' = kConnected" and "conn_context s' = conn_context s"
      and "data \<noteq> [] \<Longrightarrow> Buffer_content (outputBuffer s') = [] \<Longrightarrow> ch_events (conn_ch s') = kReadEvent"
  | (complete) s2 where "conn_state s = kConnected" and "TcpConnection_send me wc data s = call_if_set wc s2"
      and "conn_wf me s2" and "conn_state s2 = kConnected" and "conn_context s2 = conn_context s"
      and "ch_events (conn_ch s2) = kReadEvent"
proof (cases "conn_state s = kConnected")
  case False
  with ignored show ?thesis by (simp add: TcpConnection_send_def)
next
  case True
  define s1 where "s1 = s\<lparr>handed_over := handed_over s @ data\<rparr>"
  have pre: "conn_pre me data s1" and st: "conn_state s1 = kConnected"
    using wf True by (auto simp: s1_def conn_pre_def conn_registered_def)
  have inv: "Buffer_inv (outputBuffer s1)" "threadId s1 = me" "\<not> fin_sent s1"
    using pre st by (auto simp: conn_pre_def)
  have writing: "TcpConnection_isWriting s1 = Inr (ch_events (conn_ch s1) AND kWriteEvent \<noteq> 0)"
    using conn_channel_at [OF pre] by (simp add: TcpConnection_isWriting_def)
  have send: "TcpConnection_send me wc data s = TcpConnection_sendInLoop me wc data s1"
    using True by (simp add: TcpConnection_send_def s1_def)
  show ?thesis
  proof (cases "ch_events (conn_ch s1) = kReadEvent \<and> Buffer_content (outputBuffer s1) = []")
    case False
    then have w: "ch_events (conn_ch s1) AND kWriteEvent \<noteq> 0" "ch_events (conn_ch s1) = kReadEvent OR kWriteEvent"
      using pre st by (auto simp: conn_pre_def conn_registered_def)
    obtain b where b: "Buffer_append (outputBuffer s1) data = Inr b" "Buffer_inv b"
      "Buffer_content b = Buffer_content (outputBuffer s1) @ data"
      using Buffer_append_ok [OF inv(1)] by metis
    have "TcpConnection_send me wc data s = Inr (s1\<lparr>outputBuffer := b\<rparr>)"
      using w(1) writing st inv b
      by (simp add: send TcpConnection_sendInLoop_def EventLoop_assertInLoopThread_def
          EventLoop_isInLoopThread_def append_output_def)
    moreover have "conn_wf me (s1\<lparr>outputBuffer := b\<rparr>)"
      using pre st w(2) b by (simp add: conn_pre_def conn_registered_def)
    ultimately show ?thesis by (rule kept [OF True]) (use True st b(3) False in \<open>simp_all add: s1_def\<close>)
  next
    case idle: True
    obtain n s2 where w: "sockets_write data s1 = (n, s2)" by force
    have run: "TcpConnection_sendInLoop me wc data s1 =
       (if 0 \<le> n then
          (let remaining = length data - nat n
           in if remaining = 0 \<and> is_set wc then call_if_set wc s2
              else if 0 < remaining then
                and_then (append_output (drop (nat n) data) s2) (Channel_change me EnableWriting (conn_channel s2))
              else Inr s2)
        else and_then (append_output data s2) (Channel_change me EnableWriting (conn_channel s2)))"
      using idle writing st inv w
      by (simp add: TcpConnection_sendInLoop_def EventLoop_assertInLoopThread_def
          EventLoop_isInLoopThread_def)
    from w inv(3) show ?thesis
    proof (cases rule: sockets_write_cases)
      case (failed ws)
      then have s2: "conn_pre me data s2" "conn_state s2 = kConnected" "conn_context s2 = conn_context s"
        using pre st by (simp_all add: s1_def)
      from buffer_and_watch [OF s2(1,2)] obtain s3 where
        s3: "and_then (append_output data s2) (Channel_change me EnableWriting (conn_channel s2)) = Inr s3"
        "conn_wf me s3" "conn_state s3 = kConnected" "conn_context s3 = conn_context s"
        "Buffer_content (outputBuffer s3) = Buffer_content (outputBuffer s2) @ data"
        using s2(3) by metis
      have "TcpConnection_send me wc data s = Inr s3"
        unfolding send run using failed(1) s3(1) by simp
      from kept [OF True this s3(2-4)] s3(5) show ?thesis by simp
    next
      case (wrote k ws)
      have "conn_pre me (take k data @ drop k data) s1" using pre by simp
      from conn_pre_wrote [OF this] idle
      have s2: "conn_pre me (drop k data) s2" "conn_state s2 = kConnected" "conn_context s2 = conn_context s"
        "ch_events (conn_ch s2) = kReadEvent"
        using wrote(3) st by (simp_all add: s1_def)
      show ?thesis
      proof (cases "k = length data")
        case False
        with wrote(2) have "0 < length data - k" by simp
        from buffer_and_watch [OF s2(1,2)] obtain s3 where
          s3: "and_then (append_output (drop k data) s2) (Channel_change me EnableWriting (conn_channel s2)) = Inr s3"
          "conn_wf me s3" "conn_state s3 = kConnected" "conn_context s3 = conn_context s"
          "Buffer_content (outputBuffer s3) = Buffer_content (outputBuffer s2) @ drop k data"
          using s2(3) by metis
        have "TcpConnection_send me wc data s = Inr s3"
          unfolding send run using wrote(1) s3(1) \<open>0 < length data - k\<close> by simp
        from kept [OF True this s3(2-4)] s3(5) \<open>0 < length data - k\<close> show ?thesis by simp
      next
        case full: True
        with s2 have s2': "conn_wf me s2" by simp
        show ?thesis
        proof (cases "is_set wc")
          case False
          with full wrote(1) kept [OF True _ s2' s2(2,3)] s2(4) show ?thesis by (simp add: send run)
        next
          case set: True
          have "TcpConnection_send me wc data s = call_if_set wc s2"
            using full wrote(1) set by (simp add: send run)
          then show ?thesis by (rule complete [OF True _ s2' s2(2,3,4)])
        qed
      qed
    qed
  qed
qed

lemma send_keeps:
  fixes wc :: "(('f, 'x, 'z) tcp_connection_scheme \<Rightarrow> ('f, 'x, 'z) tcp_connection_scheme res) option"
  assumes wc: "keeps_conn_if_set me ok wc"
  shows "keeps_conn me ok (TcpConnection_send me wc data)"
  unfolding keeps_conn_def
proof (intro allI impI)
  fix s :: "('f, 'x, 'z) tcp_connection_scheme"
  assume wf: "conn_wf me s"
  from wf show "case TcpConnection_send me wc data s of
           Inl x \<Rightarrow> ok (conn_context s) x
         | Inr s' \<Rightarrow> conn_wf me s' \<and> (fin_due s \<longrightarrow> fin_due s') \<and> conn_next ok s s'"
  proof (cases rule: send_cases [where wc = wc and data = data])
    case ignored
    with wf show ?thesis by simp
  next
    case (kept s')
    then show ?thesis by (simp add: fin_due_def conn_next_same)
  next
    case (complete s2)
    then have s2: "fin_due s2" "conn_next ok s s2" by (simp_all add: fin_due_def conn_next_same)
    with keeps_connD [OF wc [unfolded keeps_conn_if_set_def] complete(3)] complete(5) conn_next_trans [OF s2(2)]
    show ?thesis unfolding complete(2) by (cases "call_if_set wc s2") auto
  qed
qed

subsection \<open>Shutting down and closing\<close>

lemma shutdownInLoop_eq:
  assumes "conn_pre me pend s"
  shows "TcpConnection_shutdownInLoop me s =
         Inr (if ch_events (conn_ch s) AND kWriteEvent \<noteq> 0 then s else s\<lparr>fin_sent := True\<rparr>)"
  using assms conn_channel_at [OF assms]
  by (simp add: TcpConnection_shutdownInLoop_def EventLoop_assertInLoopThread_def conn_pre_def
      EventLoop_isInLoopThread_def TcpConnection_isWriting_def Socket_shutdownWrite_def)

lemma shutdownInLoop_wf:
  assumes "conn_wf me s" and "conn_state s = kDisconnecting"
  obtains s' where "TcpConnection_shutdownInLoop me s = Inr s'" and "conn_wf me s'" and "fin_due s'"
    and "conn_state s' = kDisconnecting" and "conn_context s' = conn_context s"
proof -
  let ?s = "if ch_events (conn_ch s) AND kWriteEvent \<noteq> 0 then s else s\<lparr>fin_sent := True\<rparr>"
  have "ch_events (conn_ch s) = kReadEvent \<or> ch_events (conn_ch s) = kReadEvent OR kWriteEvent"
    using assms by (auto simp: conn_pre_def conn_registered_def)
  then have "conn_wf me ?s \<and> fin_due ?s \<and> conn_state ?s = kDisconnecting \<and>
      conn_context ?s = conn_context s"
    using assms by (auto simp: conn_pre_def conn_registered_def fin_due_def)
  with shutdownInLoop_eq [OF assms(1)] show ?thesis by (intro that [of ?s]) simp_all
qed

lemma keeps_connI:
  assumes "\<And>s. conn_wf me s \<Longrightarrow>
      case f s of
        Inl x \<Rightarrow> ok (conn_context s) x
      | Inr s' \<Rightarrow> conn_wf me s' \<and> (fin_due s \<longrightarrow> fin_due s') \<and>
                  conn_next ok s s'"
  shows "keeps_conn me ok f"
  using assms by (auto simp: keeps_conn_def)

lemma shutdown_keeps:
  fixes ok :: "'x option \<Rightarrow> fault \<Rightarrow> bool"
  shows "keeps_conn me ok (TcpConnection_shutdown me)"
proof (rule keeps_connI)
  fix s :: "('f, 'x, 'z) tcp_connection_scheme"
  assume wf: "conn_wf me s"
  show "case TcpConnection_shutdown me s of
          Inl x \<Rightarrow> ok (conn_context s) x
        | Inr s' \<Rightarrow> conn_wf me s' \<and> (fin_due s \<longrightarrow> fin_due s') \<and>
                    conn_next ok s s'"
  proof (cases "conn_state s = kConnected")
    case True
    then have "conn_wf me (s\<lparr>conn_state := kDisconnecting\<rparr>)"
      using wf by (auto simp: conn_pre_def conn_registered_def)
    from shutdownInLoop_wf [OF this] obtain s' where
      "TcpConnection_shutdownInLoop me (s\<lparr>conn_state := kDisconnecting\<rparr>) = Inr s'" "conn_wf me s'"
      "fin_due s'" "conn_state s' = kDisconnecting" "conn_context s' = conn_context s" by auto
    with True show ?thesis by (simp add: TcpConnection_shutdown_def conn_next_same)
  qed (simp add: TcpConnection_shutdown_def wf)
qed

text \<open>The state of \<open>handleClose\<close> and \<open>connectDestroyed\<close> after \<open>disableAll\<close>.\<close>

lemma disconnect_wf:
  assumes wf: "conn_wf me s" and st: "conn_state s = kConnected \<or> conn_state s = kDisconnecting"
  obtains s' where
    "Channel_change me DisableAll (conn_channel s) (s\<lparr>conn_state := kDisconnected\<rparr>) = Inr s'"
    and "conn_wf me s'" and "conn_state s' = kDisconnected"
    and "interest (poller s') (ch_fd (conn_ch s')) = None" and "wire s' = wire s"
    and "handed_over s' = handed_over s" and "conn_channel s' = conn_channel s"
    and "conn_context s' = conn_context s"
proof -
  let ?c = "conn_ch s"
  let ?s = "s\<lparr>conn_state := kDisconnected\<rparr>"
  let ?p = "updated (conn_channel s) ?c kNoneEvent (poller s)"
  have c: "poller_inv (poller s)" "channel_heap (poller s) (conn_channel s) = Some ?c"
    "sole_user (conn_channel s) (ch_fd ?c) (poller s)" "ch_index ?c = kAdded" "threadId s = me"
    using wf st by (auto simp: conn_pre_def conn_registered_def)
  note u = updated_poller [OF c(1-3), of kNoneEvent]
  have change: "Channel_change me DisableAll (conn_channel s) ?s = Inr (?s\<lparr>poller := ?p\<rparr>)"
    using Channel_change_ok [of ?s me "conn_channel s" ?c DisableAll] c by simp
  have "conn_wf me (?s\<lparr>poller := ?p\<rparr>)"
    using wf u c(4)
    by (simp add: conn_pre_def conn_registered_def conn_ch_updated conn_ch_def index_after_update_def)
  moreover have "interest ?p (ch_fd ?c) = None"
    using c(4) by (simp add: updated_def index_after_update_def)
  ultimately show ?thesis
    using change u(2) by (intro that [of "?s\<lparr>poller := ?p\<rparr>"]) (simp_all add: conn_ch_def)
qed

lemma rank_disconnected: "state_rank kDisconnected \<le> state_rank st \<longleftrightarrow> st = kDisconnected"
  by (cases st) simp_all

lemma handleClose_ok:
  assumes wf: "conn_wf me s" and st: "conn_state s = kConnected \<or> conn_state s = kDisconnecting"
    and cbs: "keeps_conn_if_set me ok (connectionCallback cbs)" "keeps_conn_if_set me ok (connectionClosed cbs)"
  shows "case TcpConnection_handleClose me cbs s of
           Inl x \<Rightarrow> ok (conn_context s) x | Inr s' \<Rightarrow> conn_wf me s' \<and> fin_due s' \<and> conn_next ok s s'"
proof -
  from disconnect_wf [OF wf st] obtain s1 where
    s1: "Channel_change me DisableAll (conn_channel s) (s\<lparr>conn_state := kDisconnected\<rparr>) = Inr s1"
    "conn_wf me s1" "conn_state s1 = kDisconnected" "conn_context s1 = conn_context s" by blast
  have next1: "conn_next ok s s1" using s1(3,4) by (cases "conn_state s") (simp_all add: conn_next_same)
  have "threadId s = me" using wf by (simp add: conn_pre_def)
  then have run: "TcpConnection_handleClose me cbs s =
      and_then (call_if_set (connectionCallback cbs) s1) (call_if_set (connectionClosed cbs))"
    using st s1(1) by (auto simp: TcpConnection_handleClose_def EventLoop_assertInLoopThread_def
        EventLoop_isInLoopThread_def)
  note keeps = keeps_conn_comp [OF cbs [unfolded keeps_conn_if_set_def]]
  show ?thesis
  proof (cases "TcpConnection_handleClose me cbs s")
    case (Inl x)
    with run have "and_then (call_if_set (connectionCallback cbs) s1)
        (call_if_set (connectionClosed cbs)) = Inl x" by simp
    from keeps_connD(1) [OF keeps s1(2) this] Inl s1(4) show ?thesis by simp
  next
    case (Inr s')
    with run have "and_then (call_if_set (connectionCallback cbs) s1)
        (call_if_set (connectionClosed cbs)) = Inr s'" by simp
    from keeps_connD(2) [OF keeps s1(2) this] have s': "conn_wf me s'" "conn_next ok s1 s'" by blast+
    then have "state_rank kDisconnected \<le> state_rank (conn_state s')"
      by (simp only: conn_next_def s1(3))
    then have "conn_state s' = kDisconnected" by (simp only: rank_disconnected)
    with Inr s' conn_next_trans [OF next1 s'(2)] show ?thesis by (simp add: fin_due_def)
  qed
qed

lemma forceClose_keeps:
  fixes cbs :: "('f, 'x, 'z) tcp_connection_scheme connection_callbacks"
  assumes "keeps_conn_if_set me ok (connectionCallback cbs)" "keeps_conn_if_set me ok (connectionClosed cbs)"
  shows "keeps_conn me ok (TcpConnection_forceClose me cbs)"
proof (rule keeps_connI)
  fix s :: "('f, 'x, 'z) tcp_connection_scheme"
  assume wf: "conn_wf me s"
  let ?s = "s\<lparr>conn_state := kDisconnecting\<rparr>"
  show "case TcpConnection_forceClose me cbs s of
          Inl x \<Rightarrow> ok (conn_context s) x
        | Inr s' \<Rightarrow> conn_wf me s' \<and> (fin_due s \<longrightarrow> fin_due s') \<and>
                    conn_next ok s s'"
  proof (cases "conn_state s = kConnected \<or> conn_state s = kDisconnecting")
    case True
    then have wf': "conn_wf me ?s" using wf by (auto simp: conn_pre_def conn_registered_def)
    have "conn_next ok s ?s" using True by (auto simp: conn_next_same)
    with handleClose_ok [OF wf' _ assms] True conn_next_trans [of ok s ?s] show ?thesis
      by (auto simp: TcpConnection_forceClose_def split: sum.splits)
  qed (auto simp: TcpConnection_forceClose_def wf)
qed

subsection \<open>Event handlers\<close>

definition conn_inv :: "tid \<Rightarrow> ('f, 'x, 'z) tcp_connection_scheme \<Rightarrow> bool" where
  "conn_inv me s \<longleftrightarrow> conn_wf me s \<and> fin_due s"

definition conn_result ::
    "tid \<Rightarrow> ('x option \<Rightarrow> fault \<Rightarrow> bool) \<Rightarrow> ('f, 'x, 'z) tcp_connection_scheme \<Rightarrow>
     ('f, 'x, 'z) tcp_connection_scheme res \<Rightarrow> bool" where
  "conn_result me ok s r \<longleftrightarrow>
     (case r of
        Inl x \<Rightarrow> ok (conn_context s) x
      | Inr s' \<Rightarrow> conn_inv me s' \<and> conn_next ok s s')"

definition keeps_conn_callbacks ::
    "tid \<Rightarrow> ('x option \<Rightarrow> fault \<Rightarrow> bool) \<Rightarrow> ('f, 'x, 'z) tcp_connection_scheme connection_callbacks \<Rightarrow> bool" where
  "keeps_conn_callbacks me ok cbs \<longleftrightarrow>
     keeps_conn_if_set me ok (connectionCallback cbs) \<and> keeps_conn_if_set me ok (messageCallback cbs) \<and>
     keeps_conn_if_set me ok (writeCompleteCallback cbs) \<and> keeps_conn_if_set me ok (connectionClosed cbs)"

lemma keeps_conn_result:
  assumes "keeps_conn me ok f" and "conn_inv me s"
  shows "conn_result me ok s (f s)"
  using keeps_connD [OF assms(1), of s] assms(2)
  by (auto simp: conn_result_def conn_inv_def split: sum.splits)

lemma conn_result_mono:
  "conn_result me ok s' r \<Longrightarrow> conn_next ok s s' \<Longrightarrow> conn_result me ok s r"
  by (auto simp: conn_result_def conn_next_def split: sum.splits)

definition conn_open :: "('f, 'x, 'z) tcp_connection_scheme \<Rightarrow> bool" where
  "conn_open s \<longleftrightarrow> conn_state s = kConnected \<or> conn_state s = kDisconnecting"

text \<open>Closing a connection that is not open fails the assertion of \<open>handleClose\<close>.\<close>

lemma handleClose_not_open:
  assumes "threadId s = me" and "\<not> conn_open s"
  shows "TcpConnection_handleClose me cbs s = Inl AssertionFailed"
  using assms by (simp add: TcpConnection_handleClose_def EventLoop_assertInLoopThread_def
      EventLoop_isInLoopThread_def conn_open_def assert_that_def)

lemma handleClose_result:
  assumes inv: "conn_inv me s" and st: "conn_open s \<or> (\<forall>ctx. ok ctx AssertionFailed)"
    and cbs: "keeps_conn_callbacks me ok cbs"
  shows "conn_result me ok s (TcpConnection_handleClose me cbs s)"
proof (cases "conn_open s")
  case True
  then show ?thesis using handleClose_ok [of me s ok cbs] inv cbs
    by (auto simp: conn_result_def conn_inv_def conn_open_def keeps_conn_callbacks_def split: sum.splits)
next
  case False
  with inv st show ?thesis by (simp add: handleClose_not_open conn_inv_def conn_pre_def conn_result_def)
qed

lemma conn_inv_input [simp]:
  "Buffer_inv b \<Longrightarrow> conn_inv me s \<Longrightarrow> conn_inv me (s\<lparr>inputBuffer := b, socket_reads := rs\<rparr>)"
  by (auto simp: conn_inv_def conn_pre_def conn_registered_def fin_due_def split: ConnState.splits)

lemma readFd_ok:
  assumes "Buffer_inv b"
  obtains n e b' where "Buffer_readFd b r = Inr (n, e, b')" and "Buffer_inv b'"
    and "n < 0 \<longrightarrow> (\<exists>errno. r = ReadErr errno \<and> e = Some errno \<and> b' = b)"
    and "0 \<le> n \<longrightarrow> (\<exists>avail. r = ReadData avail \<and> nat n \<le> length avail \<and>
           Buffer_content b' = Buffer_content b @ take (nat n) avail)"
proof (cases r)
  case (ReadErr e)
  then show ?thesis using assms by (intro that [of "-1" "Some e" b]) simp_all
next
  case (ReadData avail)
  from Buffer_readFd_data [OF assms, of avail] obtain b' where
    "Buffer_readFd b (ReadData avail) =
       Inr (int (min (length avail) (Buffer_readCapacity b)), None, b')" "Buffer_inv b'"
    "Buffer_content b' = Buffer_content b @ take (Buffer_readCapacity b) avail"
    by (metis length_take)
  with ReadData show ?thesis
    by (intro that [of "int (min (length avail) (Buffer_readCapacity b))" None b']) (auto simp: min_def)
qed

lemma handleRead_ok:
  assumes inv: "conn_inv me s" and st: "conn_open s \<or> (\<forall>ctx. ok ctx AssertionFailed)"
    and cbs: "keeps_conn_callbacks me ok cbs"
  shows "conn_result me ok s (TcpConnection_handleRead me cbs s)"
proof -
  have me: "threadId s = me" "Buffer_inv (inputBuffer s)"
    using inv by (simp_all add: conn_inv_def conn_pre_def)
  obtain n e b where read: "Buffer_readFd (inputBuffer s) (next_read s) = Inr (n, e, b)" "Buffer_inv b"
    using readFd_ok [OF me(2)] by metis
  let ?s = "s\<lparr>inputBuffer := b, socket_reads := reads_after n (socket_reads s)\<rparr>"
  have s: "conn_inv me ?s" "conn_state ?s = conn_state s" using inv read(2) by simp_all
  have run: "TcpConnection_handleRead me cbs s =
      (if 0 < n then call_if_set (messageCallback cbs) ?s
       else if n = 0 then TcpConnection_handleClose me cbs ?s
       else if e \<noteq> Some EAGAIN then TcpConnection_handleError ?s
       else Inr ?s)"
    using me read(1) by (simp add: TcpConnection_handleRead_def EventLoop_assertInLoopThread_def
        EventLoop_isInLoopThread_def Let_def)
  have err: "TcpConnection_handleError ?s = Inr ?s"
    using conn_channel_at [of me "[]" ?s] s(1) by (simp add: TcpConnection_handleError_def conn_inv_def)
  have msg: "conn_result me ok ?s (call_if_set (messageCallback cbs) ?s)"
    using cbs keeps_conn_result [OF _ s(1)] by (simp add: keeps_conn_callbacks_def keeps_conn_if_set_def)
  have close: "conn_result me ok ?s (TcpConnection_handleClose me cbs ?s)"
    using handleClose_result [OF s(1) _ cbs] st s(2) by (simp add: conn_open_def)
  have "conn_result me ok ?s (Inr ?s)" using s(1) by (simp add: conn_result_def)
  with msg close have "conn_result me ok ?s (TcpConnection_handleRead me cbs s)"
    unfolding run err by (simp only: split: if_split) simp
  then show ?thesis by (rule conn_result_mono) (simp add: conn_next_same)
qed

lemma conn_inv_writing:
  assumes "conn_inv me s" and "ch_events (conn_ch s) AND kWriteEvent \<noteq> 0"
  shows "ch_events (conn_ch s) = kReadEvent OR kWriteEvent" and "ch_index (conn_ch s) = kAdded"
    and "conn_state s = kConnected \<or> conn_state s = kDisconnecting" and "\<not> fin_sent s"
  using assms by (auto simp: conn_inv_def conn_pre_def conn_registered_def split: ConnState.splits)

lemma all_written:
  assumes wf: "conn_wf me s" and w: "ch_events (conn_ch s) = kReadEvent OR kWriteEvent"
    and st: "conn_state s = kConnected \<or> conn_state s = kDisconnecting"
    and empty: "Buffer_content (outputBuffer s) = []" and fin: "\<not> fin_sent s"
  obtains s' where "Channel_change me DisableWriting (conn_channel s) s = Inr s'" and "conn_wf me s'"
    and "conn_state s' = conn_state s" and "ch_events (conn_ch s') = kReadEvent"
    and "wire s' = wire s" and "outputBuffer s' = outputBuffer s" and "handed_over s' = handed_over s"
    and "\<not> fin_sent s'" and "conn_context s' = conn_context s"
proof -
  let ?c = "conn_ch s"
  let ?p = "updated (conn_channel s) ?c kReadEvent (poller s)"
  have c: "poller_inv (poller s)" "channel_heap (poller s) (conn_channel s) = Some ?c"
    "sole_user (conn_channel s) (ch_fd ?c) (poller s)" "ch_index ?c = kAdded" "threadId s = me"
    using wf st by (auto simp: conn_pre_def conn_registered_def)
  note u = updated_poller [OF c(1-3), of kReadEvent]
  have change: "Channel_change me DisableWriting (conn_channel s) s = Inr (s\<lparr>poller := ?p\<rparr>)"
    using Channel_change_ok [of s me "conn_channel s" ?c DisableWriting] c w by simp
  have "conn_wf me (s\<lparr>poller := ?p\<rparr>)"
    using wf u c(4) st empty fin
    by (auto simp: conn_pre_def conn_registered_def conn_ch_updated conn_ch_def index_after_update_def)
  with change u(2) fin show ?thesis
    by (intro that [of "s\<lparr>poller := ?p\<rparr>"]) (simp_all add: conn_ch_def)
qed

text \<open>
  What \<open>handleWrite\<close> does: it leaves the connection as it should be, or it has written everything
  and calls the write-complete callback.
\<close>

lemma handleWrite_cases:
  assumes inv: "conn_inv me s"
  obtains (kept) s' where "TcpConnection_handleWrite me cbs s = Inr s'" and "conn_inv me s'"
      and "conn_state s' = conn_state s" and "conn_context s' = conn_context s" and "conn_ch s' = conn_ch s"
      and "Buffer_content (outputBuffer s') = [] \<Longrightarrow> Buffer_content (outputBuffer s) = []"
  | (complete) s3 where "conn_wf me s3" and "conn_state s3 = conn_state s" and "conn_context s3 = conn_context s"
      and "ch_events (conn_ch s3) = kReadEvent"
      and "TcpConnection_handleWrite me cbs s = and_then (call_if_set (writeCompleteCallback cbs) s3) (\<lambda>s.
            if conn_state s = kDisconnecting then TcpConnection_shutdownInLoop me s else Inr s)"
proof -
  have wf: "conn_wf me s" and me: "threadId s = me" and out: "Buffer_inv (outputBuffer s)"
    using inv by (simp_all add: conn_inv_def conn_pre_def)
  have writing: "TcpConnection_isWriting s = Inr (ch_events (conn_ch s) AND kWriteEvent \<noteq> 0)"
    using conn_channel_at [OF wf] by (simp add: TcpConnection_isWriting_def)
  note thread = EventLoop_assertInLoopThread_def EventLoop_isInLoopThread_def
  show ?thesis
  proof (cases "ch_events (conn_ch s) AND kWriteEvent \<noteq> 0")
    case False
    then have "TcpConnection_handleWrite me cbs s = Inr s"
      using writing me by (simp add: TcpConnection_handleWrite_def thread)
    then show ?thesis by (rule kept [OF _ inv]) simp_all
  next
    case True
    note w = conn_inv_writing [OF inv True]
    let ?data = "Buffer_content (outputBuffer s)"
    obtain n s1 where wr: "sockets_write ?data s = (n, s1)" by force
    have run: "TcpConnection_handleWrite me cbs s =
       (if 0 < n then
          (let s = s1\<lparr>outputBuffer := Buffer_retrieve (outputBuffer s1) (nat n)\<rparr>
           in if Buffer_readableBytes (outputBuffer s) = 0 then
                and_then (Channel_change me DisableWriting (conn_channel s) s) (\<lambda>s.
                and_then (call_if_set (writeCompleteCallback cbs) s) (\<lambda>s.
                if conn_state s = kDisconnecting then TcpConnection_shutdownInLoop me s
                else Inr s))
              else Inr s)
        else Inr s1)"
      using True writing me wr Buffer_writeFd_eq [OF out]
      by (simp add: TcpConnection_handleWrite_def thread)
    from wr w(4) show ?thesis
    proof (cases rule: sockets_write_cases)
      case (failed ws)
      then have "conn_inv me s1" using inv by (simp add: conn_inv_def fin_due_def)
      then show ?thesis by (rule kept [rotated]) (use failed in \<open>simp_all add: run\<close>)
    next
      case (wrote k ws)
      let ?s = "s1\<lparr>outputBuffer := Buffer_retrieve (outputBuffer s1) k\<rparr>"
      have s2: "conn_wf me ?s" "conn_state ?s = conn_state s" "\<not> fin_sent ?s"
        "ch_events (conn_ch ?s) = kReadEvent OR kWriteEvent" "Buffer_inv (outputBuffer ?s)"
        "conn_context ?s = conn_context s" "conn_ch ?s = conn_ch s"
        using wf w out wrote(2)
        by (auto simp: wrote(3) conn_pre_def conn_registered_def split: ConnState.splits)
      then have inv2: "conn_inv me ?s" by (simp add: conn_inv_def fin_due_def)
      consider (none) "k = 0" | (part) "0 < k" "Buffer_content (outputBuffer ?s) \<noteq> []"
        | (all) "0 < k" "Buffer_content (outputBuffer ?s) = []" by blast
      then show ?thesis
      proof cases
        case none
        then have "conn_inv me s1"
          using inv by (simp add: wrote(3) conn_inv_def fin_due_def conn_pre_def conn_registered_def
              split: ConnState.splits)
        then show ?thesis by (rule kept [rotated]) (use none wrote in \<open>simp_all add: run\<close>)
      next
        case part
        then have "TcpConnection_handleWrite me cbs s = Inr ?s"
          using wrote(1) s2(5) by (simp add: run Let_def)
        then show ?thesis by (rule kept [OF _ inv2 s2(2,6,7)]) (use part in simp)
      next
        case all
        from all_written [OF s2(1) s2(4) _ all(2) s2(3)] w(3) s2(2) obtain s3 where
          s3: "Channel_change me DisableWriting (conn_channel ?s) ?s = Inr s3" "conn_wf me s3"
          "conn_state s3 = conn_state s" "conn_context s3 = conn_context s" "ch_events (conn_ch s3) = kReadEvent"
          using s2(6) by metis
        then show ?thesis
          by (intro complete [OF s3(2-5)]) (use all wrote(1) s2(5) s3(1) in \<open>simp add: run Let_def\<close>)
      qed
    qed
  qed
qed

lemma handleWrite_ok:
  assumes inv: "conn_inv me s" and cbs: "keeps_conn_callbacks me ok cbs"
  shows "conn_result me ok s (TcpConnection_handleWrite me cbs s)"
  using inv
proof (cases rule: handleWrite_cases [where cbs = cbs])
  case (kept s')
  then show ?thesis by (simp add: conn_result_def conn_next_same)
next
  case (complete s3)
  then have next3: "conn_next ok s s3" by (simp add: conn_next_same)
  have wc: "keeps_conn me ok (call_if_set (writeCompleteCallback cbs))"
    using cbs by (simp add: keeps_conn_callbacks_def keeps_conn_if_set_def)
  show ?thesis
  proof (cases "call_if_set (writeCompleteCallback cbs) s3")
    case (Inl x)
    with keeps_connD(1) [OF wc complete(1) Inl] complete(3,5) show ?thesis by (simp add: conn_result_def)
  next
    case (Inr s4)
    note s4 = keeps_connD(2) [OF wc complete(1) Inr]
    then have next4: "conn_next ok s s4" using next3 conn_next_trans by blast
    show ?thesis
    proof (cases "conn_state s4 = kDisconnecting")
      case True
      from shutdownInLoop_wf [OF _ True] s4 obtain s5 where
        "TcpConnection_shutdownInLoop me s4 = Inr s5" "conn_wf me s5" "fin_due s5"
        "conn_state s5 = kDisconnecting" "conn_context s5 = conn_context s4" by blast
      with Inr True next4 complete(5) show ?thesis by (simp add: conn_result_def conn_inv_def conn_next_def)
    next
      case False
      with Inr s4 next4 complete(5) show ?thesis by (simp add: conn_result_def conn_inv_def fin_due_def)
    qed
  qed
qed

subsection \<open>Relations that every operation respects\<close>

text \<open>
  What an operation of a connection can change is the same for all of them: the data fields, the
  channel of the connection, the state from open to disconnecting, and what the callbacks change.
  A preorder that allows these steps (\<open>conn_steps\<close>) and the steps of the callbacks
  (\<open>conn_relation\<close>) holds between the states before and after every operation that returns.
\<close>

locale conn_steps =
  fixes me :: tid
    and R :: "('f, 'x, 'z) tcp_connection_scheme \<Rightarrow> ('f, 'x, 'z) tcp_connection_scheme \<Rightarrow> bool"
  assumes R_refl: "R s s"
    and R_trans: "R s t \<Longrightarrow> R t u \<Longrightarrow> R s u"
    and R_fields: "R s (s\<lparr>inputBuffer := bi, outputBuffer := bo, socket_reads := rs, socket_writes := ws,
          wire := sent, fin_sent := fin, handed_over := ho\<rparr>)"
    and R_change: "Channel_change me ch (conn_channel s) s = Inr s' \<Longrightarrow> R s s'"
    and R_disconnecting: "conn_state s = kConnected \<or> conn_state s = kDisconnecting \<Longrightarrow>
          R s (s\<lparr>conn_state := kDisconnecting\<rparr>)"
begin

lemma R_data:
  "R s (s\<lparr>inputBuffer := bi\<rparr>)" "R s (s\<lparr>inputBuffer := bi, socket_reads := rs\<rparr>)"
  "R s (s\<lparr>outputBuffer := bo\<rparr>)" "R s (s\<lparr>socket_writes := ws\<rparr>)"
  "R s (s\<lparr>socket_writes := ws, wire := sent\<rparr>)" "R s (s\<lparr>fin_sent := fin\<rparr>)" "R s (s\<lparr>handed_over := ho\<rparr>)"
  using R_fields [where s = s and bi = bi and bo = "outputBuffer s" and rs = "socket_reads s" and ws = "socket_writes s" and sent = "wire s" and fin = "fin_sent s" and ho = "handed_over s"]
    R_fields [where s = s and bi = bi and bo = "outputBuffer s" and rs = rs and ws = "socket_writes s" and sent = "wire s" and fin = "fin_sent s" and ho = "handed_over s"]
    R_fields [where s = s and bi = "inputBuffer s" and bo = bo and rs = "socket_reads s" and ws = "socket_writes s" and sent = "wire s" and fin = "fin_sent s" and ho = "handed_over s"]
    R_fields [where s = s and bi = "inputBuffer s" and bo = "outputBuffer s" and rs = "socket_reads s" and ws = ws and sent = "wire s" and fin = "fin_sent s" and ho = "handed_over s"]
    R_fields [where s = s and bi = "inputBuffer s" and bo = "outputBuffer s" and rs = "socket_reads s" and ws = ws and sent = sent and fin = "fin_sent s" and ho = "handed_over s"]
    R_fields [where s = s and bi = "inputBuffer s" and bo = "outputBuffer s" and rs = "socket_reads s" and ws = "socket_writes s" and sent = "wire s" and fin = fin and ho = "handed_over s"]
    R_fields [where s = s and bi = "inputBuffer s" and bo = "outputBuffer s" and rs = "socket_reads s" and ws = "socket_writes s" and sent = "wire s" and fin = "fin_sent s" and ho = ho]
  by simp_all

lemma sockets_write_R: "sockets_write data s = (n, s') \<Longrightarrow> R s s'"
  by (auto simp: sockets_write_def R_refl R_data split: if_splits list.splits write_result.splits)

lemma append_output_R: "append_output data s = Inr s' \<Longrightarrow> R s s'"
  by (auto simp: append_output_def returned R_data)

lemma sendInLoop_R:
  assumes wc: "\<And>s s'. call_if_set wc s = Inr s' \<Longrightarrow> R s s'"
    and run: "TcpConnection_sendInLoop me wc data s = Inr s'"
  shows "R s s'"
proof -
  obtain n s1 where wr: "sockets_write data s = (n, s1)" by force
  note s1 = sockets_write_R [OF wr]
  have "R s s'"
    if s2: "append_output xs s1 = Inr s2" and ch: "Channel_change me EnableWriting (conn_channel s1) s2 = Inr s'"
    for xs s2
  proof -
    have "conn_channel s1 = conn_channel s2" using s2 by (auto simp: append_output_def returned)
    with ch have "R s2 s'" using R_change by metis
    with s1 append_output_R [OF s2] show ?thesis by (meson R_trans)
  qed
  then show ?thesis
    using run wr s1 R_trans [OF s1] wc
    by (auto simp: TcpConnection_sendInLoop_def returned Let_def append_output_R R_refl split: if_splits)
qed

lemma send_R:
  assumes "\<And>s s'. call_if_set wc s = Inr s' \<Longrightarrow> R s s'"
    and "TcpConnection_send me wc data s = Inr s'"
  shows "R s s'"
  using assms(2) R_refl R_trans [OF R_data(7) sendInLoop_R [OF assms(1)]]
  by (auto simp: TcpConnection_send_def split: if_splits)

lemma shutdownInLoop_R: "TcpConnection_shutdownInLoop me s = Inr s' \<Longrightarrow> R s s'"
  by (auto simp: TcpConnection_shutdownInLoop_def returned Socket_shutdownWrite_def R_refl R_data)

lemma shutdown_R: "TcpConnection_shutdown me s = Inr s' \<Longrightarrow> R s s'"
  using R_refl R_trans [OF R_disconnecting shutdownInLoop_R]
  by (auto simp: TcpConnection_shutdown_def split: if_splits)

end

locale conn_relation = conn_steps me R
  for me :: tid
    and R :: "('f, 'x, 'z) tcp_connection_scheme \<Rightarrow> ('f, 'x, 'z) tcp_connection_scheme \<Rightarrow> bool" +
  fixes cbs :: "('f, 'x, 'z) tcp_connection_scheme connection_callbacks"
  assumes R_connection: "call_if_set (connectionCallback cbs) s = Inr s' \<Longrightarrow> R s s'"
    and R_message: "call_if_set (messageCallback cbs) s = Inr s' \<Longrightarrow> R s s'"
    and R_complete: "call_if_set (writeCompleteCallback cbs) s = Inr s' \<Longrightarrow> R s s'"
    and R_closed: "conn_state s = kConnected \<or> conn_state s = kDisconnecting \<Longrightarrow>
          R (s\<lparr>conn_state := kDisconnected\<rparr>) t \<Longrightarrow> call_if_set (connectionClosed cbs) t = Inr u \<Longrightarrow> R s u"
begin

lemma handleClose_R:
  assumes "TcpConnection_handleClose me cbs s = Inr s'"
  shows "R s s'"
proof -
  from assms obtain s1 s2 where st: "conn_state s = kConnected \<or> conn_state s = kDisconnecting"
    and s1: "Channel_change me DisableAll (conn_channel s) (s\<lparr>conn_state := kDisconnected\<rparr>) = Inr s1"
    and s2: "call_if_set (connectionCallback cbs) s1 = Inr s2" "call_if_set (connectionClosed cbs) s2 = Inr s'"
    by (auto simp: TcpConnection_handleClose_def returned)
  have "R (s\<lparr>conn_state := kDisconnected\<rparr>) s1"
    using R_change [of DisableAll "s\<lparr>conn_state := kDisconnected\<rparr>"] s1 by simp
  with R_connection [OF s2(1)] have "R (s\<lparr>conn_state := kDisconnected\<rparr>) s2" by (meson R_trans)
  from R_closed [OF st this s2(2)] show ?thesis .
qed

lemma forceClose_R: "TcpConnection_forceClose me cbs s = Inr s' \<Longrightarrow> R s s'"
  using R_refl R_trans [OF R_disconnecting handleClose_R]
  by (auto simp: TcpConnection_forceClose_def split: if_splits)

lemma handleError_R: "TcpConnection_handleError s = Inr s' \<Longrightarrow> R s s'"
  by (auto simp: TcpConnection_handleError_def returned R_refl)

lemma handleRead_R:
  assumes "TcpConnection_handleRead me cbs s = Inr s'"
  shows "R s s'"
proof -
  from assms obtain n e b where run: "(if 0 < n then call_if_set (messageCallback cbs)
        (s\<lparr>inputBuffer := b, socket_reads := reads_after n (socket_reads s)\<rparr>)
      else if n = 0 then TcpConnection_handleClose me cbs
        (s\<lparr>inputBuffer := b, socket_reads := reads_after n (socket_reads s)\<rparr>)
      else if e \<noteq> Some EAGAIN then TcpConnection_handleError
        (s\<lparr>inputBuffer := b, socket_reads := reads_after n (socket_reads s)\<rparr>)
      else Inr (s\<lparr>inputBuffer := b, socket_reads := reads_after n (socket_reads s)\<rparr>)) = Inr s'"
    by (auto simp: TcpConnection_handleRead_def returned Let_def)
  let ?s = "s\<lparr>inputBuffer := b, socket_reads := reads_after n (socket_reads s)\<rparr>"
  have "R ?s s'"
    using run R_message handleClose_R handleError_R R_refl by (auto split: if_splits)
  with R_data(2) show ?thesis by (meson R_trans)
qed

lemma handleWrite_R:
  assumes run: "TcpConnection_handleWrite me cbs s = Inr s'"
  shows "R s s'"
proof (cases "s' = s")
  case False
  with run have w: "TcpConnection_isWriting s = Inr True"
    by (auto simp: TcpConnection_handleWrite_def returned split: if_splits)
  with run obtain data where data: "Buffer_writeFd (outputBuffer s) = Inr data"
    by (auto simp: TcpConnection_handleWrite_def returned)
  obtain n s1 where wr: "sockets_write data s = (n, s1)" by force
  note s1 = sockets_write_R [OF wr]
  let ?s = "s1\<lparr>outputBuffer := Buffer_retrieve (outputBuffer s1) (nat n)\<rparr>"
  have s2: "R s ?s" using s1 R_data(3) by (meson R_trans)
  have rest: "(if 0 < n then
         (if Buffer_readableBytes (outputBuffer ?s) = 0 then
            and_then (Channel_change me DisableWriting (conn_channel ?s) ?s) (\<lambda>s.
            and_then (call_if_set (writeCompleteCallback cbs) s) (\<lambda>s.
            if conn_state s = kDisconnecting then TcpConnection_shutdownInLoop me s
            else Inr s))
          else Inr ?s)
       else Inr s1) = Inr s'"
    using run w data wr
    by (auto simp: TcpConnection_handleWrite_def Let_def and_then_eq_Inr [of "EventLoop_assertInLoopThread me s"])
  show ?thesis
  proof (cases "0 < n \<and> Buffer_readableBytes (outputBuffer ?s) = 0")
    case False
    with rest s1 s2 show ?thesis by (auto split: if_splits)
  next
    case True
    with rest obtain s3 s4 where s3: "Channel_change me DisableWriting (conn_channel ?s) ?s = Inr s3"
      and s4: "call_if_set (writeCompleteCallback cbs) s3 = Inr s4"
      and s': "(if conn_state s4 = kDisconnecting then TcpConnection_shutdownInLoop me s4 else Inr s4) = Inr s'"
      by (auto simp: returned)
    have "R s4 s'" using s' shutdownInLoop_R R_refl by (auto split: if_splits)
    with s2 R_change [OF s3] R_complete [OF s4] show ?thesis by (meson R_trans)
  qed
qed (simp add: R_refl)

end

subsection \<open>Reported events are not touched\<close>

text \<open>Only \<open>poll\<close> changes the reported events of a channel; operations and callbacks do not.\<close>

definition same_revents ::
    "('f, 'x, 'z) tcp_connection_scheme \<Rightarrow> ('f, 'x, 'z) tcp_connection_scheme \<Rightarrow> bool" where
  "same_revents s s' \<longleftrightarrow>
     conn_channel s' = conn_channel s \<and>
     (\<forall>b. map_option ch_revents (channel_heap (poller s') b) =
          map_option ch_revents (channel_heap (poller s) b))"

definition keeps_revents ::
    "(('f, 'x, 'z) tcp_connection_scheme \<Rightarrow> ('f, 'x, 'z) tcp_connection_scheme res) \<Rightarrow> bool" where
  "keeps_revents f \<longleftrightarrow> (\<forall>s s'. f s = Inr s' \<longrightarrow> same_revents s s')"

lemma same_revents_refl [simp]: "same_revents s s"
  by (simp add: same_revents_def)

lemma same_revents_trans: "same_revents s t \<Longrightarrow> same_revents t u \<Longrightarrow> same_revents s u"
  by (simp add: same_revents_def)

lemma keeps_reventsD: "keeps_revents f \<Longrightarrow> f s = Inr s' \<Longrightarrow> same_revents s s'"
  by (simp add: keeps_revents_def)

lemma updateChannel_revents:
  "EPollPoller_updateChannel a p = Inr p' \<Longrightarrow>
   map_option ch_revents (channel_heap p' b) = map_option ch_revents (channel_heap p b)"
  by (auto simp: EPollPoller_updateChannel_def EPollPoller_update_def Channel_setIndex_def channel_at_def
      put_channel_def returned Let_def split: option.splits if_splits)

lemma removeChannel_revents:
  "EPollPoller_removeChannel a p = Inr p' \<Longrightarrow>
   map_option ch_revents (channel_heap p' b) = map_option ch_revents (channel_heap p b)"
  by (auto simp: EPollPoller_removeChannel_def EPollPoller_update_def Channel_setIndex_def channel_at_def
      put_channel_def returned Let_def split: option.splits if_splits)

lemma Channel_change_revents:
  assumes "Channel_change me ch a s = Inr s'"
  shows "same_revents s s'"
proof -
  from assms obtain c p where c: "channel_heap (poller s) a = Some c"
    and p: "EPollPoller_updateChannel a
              (put_channel a (c\<lparr>ch_events := changed_events ch (ch_events c)\<rparr>) (poller s)) = Inr p"
    and s': "s' = s\<lparr>poller := p\<rparr>"
    by (auto simp: Channel_change_def EventLoop_updateChannel_def channel_at_def returned
        split: option.splits)
  from updateChannel_revents [OF p] c show ?thesis
    by (simp add: same_revents_def s' put_channel_def)
qed

interpretation rev: conn_steps me same_revents for me
proof (unfold_locales, goal_cases)
  case (2 s t u)
  then show ?case by (rule same_revents_trans)
qed (simp_all add: same_revents_def Channel_change_revents [unfolded same_revents_def])

lemma send_revents: "keeps_revents (call_if_set wc) \<Longrightarrow> keeps_revents (TcpConnection_send me wc data)"
  using rev.send_R [of wc me data] by (auto simp: keeps_revents_def)

lemma shutdown_revents: "keeps_revents (TcpConnection_shutdown me)"
  using rev.shutdown_R [of me] by (auto simp: keeps_revents_def)

definition callbacks_keep_revents :: "('f, 'x, 'z) tcp_connection_scheme connection_callbacks \<Rightarrow> bool" where
  "callbacks_keep_revents cbs \<longleftrightarrow>
     keeps_revents (call_if_set (connectionCallback cbs)) \<and> keeps_revents (call_if_set (messageCallback cbs)) \<and>
     keeps_revents (call_if_set (writeCompleteCallback cbs)) \<and> keeps_revents (call_if_set (connectionClosed cbs))"

lemma revents_relation:
  assumes "callbacks_keep_revents cbs"
  shows "conn_relation me same_revents cbs"
proof unfold_locales
  fix s t u
  assume "same_revents (s\<lparr>conn_state := kDisconnected\<rparr>) t" "call_if_set (connectionClosed cbs) t = Inr u"
  then have "same_revents (s\<lparr>conn_state := kDisconnected\<rparr>) u"
    using assms unfolding callbacks_keep_revents_def keeps_revents_def by (meson same_revents_trans)
  then show "same_revents s u" by (simp add: same_revents_def)
qed (use assms in \<open>auto simp: callbacks_keep_revents_def keeps_revents_def\<close>)

lemmas handle_revents = conn_relation.handleClose_R [OF revents_relation]
  conn_relation.forceClose_R [OF revents_relation] conn_relation.handleRead_R [OF revents_relation]
  conn_relation.handleWrite_R [OF revents_relation]

lemma handleClose_revents: "callbacks_keep_revents cbs \<Longrightarrow> keeps_revents (TcpConnection_handleClose me cbs)"
  and forceClose_revents: "callbacks_keep_revents cbs \<Longrightarrow> keeps_revents (TcpConnection_forceClose me cbs)"
  and handleRead_revents: "callbacks_keep_revents cbs \<Longrightarrow> keeps_revents (TcpConnection_handleRead me cbs)"
  and handleWrite_revents: "callbacks_keep_revents cbs \<Longrightarrow> keeps_revents (TcpConnection_handleWrite me cbs)"
  using handle_revents by (auto simp: keeps_revents_def)

lemma handleError_revents: "keeps_revents TcpConnection_handleError"
  by (auto simp: keeps_revents_def TcpConnection_handleError_def returned)

subsection \<open>Dispatch of the reported events\<close>

definition TcpConnection_dispatch ::
    "tid \<Rightarrow> ('f, 'x, 'z) tcp_connection_scheme connection_callbacks \<Rightarrow>
     ('f, 'x, 'z) tcp_connection_scheme \<Rightarrow> ('f, 'x, 'z) tcp_connection_scheme res" where
  "TcpConnection_dispatch me cbs s =
     Channel_handleEvent (revents_of (conn_channel s)) (TcpConnection_events me cbs) s"

text \<open>A hang-up comes with input or without urgent data (for TCP it always comes with input).\<close>

definition plain_events :: "events \<Rightarrow> bool" where
  "plain_events r \<longleftrightarrow> r AND EPOLLHUP = 0 \<or> r AND EPOLLIN \<noteq> 0 \<or> r AND EPOLLPRI = 0"

lemma plain_events_no_read:
  "plain_events r \<Longrightarrow> r AND EPOLLHUP \<noteq> 0 \<Longrightarrow> r AND EPOLLIN = 0 \<Longrightarrow> r AND kReadEvent = 0"
  by (simp add: plain_events_def kReadEvent_def bit.conj_disj_distrib)

lemma revents_same:
  "same_revents s s' \<Longrightarrow> revents_of (conn_channel s) s = Inr r \<Longrightarrow> revents_of (conn_channel s) s' = Inr r"
  by (auto simp: same_revents_def revents_of_def channel_at_def returned dest!: spec [of _ "conn_channel s"]
      split: option.splits)

lemma call_when_result:
  assumes "conn_inv me s" and "b \<Longrightarrow> conn_result me ok s (f s)"
  shows "conn_result me ok s (call_when b (Some f) s)"
  using assms by (auto simp: call_when_def conn_result_def)

lemma call_when_revents: "keeps_revents f \<Longrightarrow> keeps_revents (call_when b (Some f))"
  by (auto simp: keeps_revents_def call_when_def)

lemma conn_result_then:
  assumes f: "conn_result me ok s (f s)" and fr: "keeps_revents f"
    and g: "\<And>s'. f s = Inr s' \<Longrightarrow> conn_inv me s' \<Longrightarrow> same_revents s s' \<Longrightarrow>
      conn_next ok s s' \<Longrightarrow> conn_result me ok s' (g s')"
  shows "conn_result me ok s (and_then (f s) g)"
proof (cases "f s")
  case (Inl x)
  with f show ?thesis by (simp add: conn_result_def)
next
  case (Inr s')
  with f have "conn_inv me s'" "conn_next ok s s'"
    by (simp_all add: conn_result_def)
  with g [OF Inr] keeps_reventsD [OF fr Inr] conn_result_mono Inr show ?thesis by auto
qed

lemma handleError_eq: "conn_inv me s \<Longrightarrow> TcpConnection_handleError s = Inr s"
  using conn_channel_at [of me "[]" s] by (simp add: TcpConnection_handleError_def conn_inv_def)

text \<open>
  The dispatch of a report keeps the invariant. It fails only where a callback does, unless the
  connection is not open any more: then the handlers may close it once more.
\<close>

lemma dispatch_result:
  assumes inv: "conn_inv me s"
    and st: "conn_open s \<and> plain_events (ch_revents (conn_ch s)) \<or> (\<forall>ctx. ok ctx AssertionFailed)"
    and cbs: "keeps_conn_callbacks me ok cbs" and rev: "callbacks_keep_revents cbs"
  shows "conn_result me ok s (TcpConnection_dispatch me cbs s)"
proof -
  define a where "a = conn_channel s"
  define r where "r = ch_revents (conn_ch s)"
  let ?hup = "r AND EPOLLHUP \<noteq> 0 \<and> r AND EPOLLIN = 0"
  have r0: "revents_of a s = Inr r"
    using conn_channel_at [of me "[]" s] inv
    by (simp add: conn_inv_def revents_of_def r_def a_def TcpConnection_channel_def)
  have rev_of: "revents_of a s' = Inr r" if "same_revents s s'" for s'
    using revents_same [OF that] r0 by (simp add: a_def)
  let ?close = "call_when ?hup (Some (TcpConnection_handleClose me cbs))"
  let ?error = "call_when (r AND EPOLLERR \<noteq> 0) (Some TcpConnection_handleError)"
  let ?reads = "call_when (r AND kReadEvent \<noteq> 0) (Some (TcpConnection_handleRead me cbs))"
  let ?writes = "call_when (r AND kWriteEvent \<noteq> 0) (Some (TcpConnection_handleWrite me cbs))"
  let ?three = "\<lambda>s. and_then (revents_of a s) (\<lambda>r.
        call_when (r AND kWriteEvent \<noteq> 0) (Some (TcpConnection_handleWrite me cbs)) s)"
  let ?two = "\<lambda>s. and_then (revents_of a s) (\<lambda>r.
        and_then (call_when (r AND kReadEvent \<noteq> 0) (Some (TcpConnection_handleRead me cbs)) s) ?three)"
  let ?one = "\<lambda>s. and_then (revents_of a s) (\<lambda>r.
        and_then (call_when (r AND EPOLLERR \<noteq> 0) (Some TcpConnection_handleError) s) ?two)"
  have run: "TcpConnection_dispatch me cbs s = and_then (?close s) ?one"
    using r0 by (simp add: TcpConnection_dispatch_def Channel_handleEvent_def TcpConnection_events_def a_def)
  note revs = call_when_revents [OF handleClose_revents [OF rev]] call_when_revents [OF handleError_revents]
    call_when_revents [OF handleRead_revents [OF rev]] call_when_revents [OF handleWrite_revents [OF rev]]
  have "conn_result me ok s (?close s)"
    by (rule call_when_result [OF inv], rule handleClose_result [OF inv _ cbs]) (use st in blast)
  then show ?thesis unfolding run
  proof (rule conn_result_then [OF _ revs(1)])
    fix s1
    assume s1: "?close s = Inr s1" "conn_inv me s1" "same_revents s s1"
    have open1: "conn_open s1 \<or> (\<forall>ctx. ok ctx AssertionFailed)" if "r AND kReadEvent \<noteq> 0"
    proof (cases "\<forall>ctx. ok ctx AssertionFailed")
      case False
      with st have op: "conn_open s" "plain_events r" by (auto simp: r_def)
      then have "\<not> ?hup" using that plain_events_no_read [of r] by blast
      with s1(1) have "s1 = s" by (simp only: call_when_def if_False sum.inject)
      with op show ?thesis by simp
    qed blast
    have "conn_result me ok s1 (?error s1)"
      by (rule call_when_result [OF s1(2)]) (simp add: handleError_eq [OF s1(2)] conn_result_def s1(2))
    then have "conn_result me ok s1 (and_then (?error s1) ?two)"
    proof (rule conn_result_then [OF _ revs(2)])
      fix s2
      assume s2: "?error s1 = Inr s2" "conn_inv me s2" "same_revents s1 s2"
      have s21: "s2 = s1" using s2(1) handleError_eq [OF s1(2)] by (auto simp: call_when_def split: if_splits)
      have "conn_result me ok s2 (?reads s2)"
        by (rule call_when_result [OF s2(2)], rule handleRead_ok [OF s2(2) _ cbs])
          (use open1 s21 in blast)
      then have "conn_result me ok s2 (and_then (?reads s2) ?three)"
      proof (rule conn_result_then [OF _ revs(3)])
        fix s3
        assume s3: "conn_inv me s3" "same_revents s2 s3"
        have "same_revents s s3" using s1(3) s2(3) s3(2) by (meson same_revents_trans)
        then have "?three s3 = ?writes s3" by (simp add: rev_of)
        moreover have "conn_result me ok s3 (?writes s3)"
          by (rule call_when_result [OF s3(1)], rule handleWrite_ok [OF s3(1) cbs])
        ultimately show "conn_result me ok s3 (?three s3)" by simp
      qed
      moreover have "same_revents s s2" using s1(3) s2(3) by (rule same_revents_trans)
      ultimately show "conn_result me ok s2 (?two s2)" by (simp add: rev_of)
    qed
    then show "conn_result me ok s1 (?one s1)" by (simp add: rev_of [OF s1(3)])
  qed
qed

lemma dispatch_ok:
  assumes "conn_inv me s" and "conn_open s" and "plain_events (ch_revents (conn_ch s))"
    and "keeps_conn_callbacks me ok cbs" and "callbacks_keep_revents cbs"
  shows "conn_result me ok s (TcpConnection_dispatch me cbs s)"
  using assms by (intro dispatch_result) simp_all

text \<open>The same, whatever has happened to the connection since the report was polled.\<close>

definition or_assertion :: "('x option \<Rightarrow> fault \<Rightarrow> bool) \<Rightarrow> 'x option \<Rightarrow> fault \<Rightarrow> bool" where
  "or_assertion ok ctx x \<longleftrightarrow> ok ctx x \<or> x = AssertionFailed"

lemma keeps_conn_or_assertion: "keeps_conn me ok f \<Longrightarrow> keeps_conn me (or_assertion ok) f"
  by (fastforce simp: keeps_conn_def conn_next_def or_assertion_def split: sum.splits)

lemma late_dispatch:
  assumes "conn_inv me s" and "keeps_conn_callbacks me ok cbs" and "callbacks_keep_revents cbs"
  shows "conn_result me (or_assertion ok) s (TcpConnection_dispatch me cbs s)"
  by (rule dispatch_result [OF assms(1) _ _ assms(3)])
    (use assms(2) keeps_conn_or_assertion [of me ok] in
      \<open>auto simp: or_assertion_def keeps_conn_callbacks_def keeps_conn_if_set_def\<close>)

end
