(* ===== verification/Connection_Output.thy ===== *)
theory Connection_Output
  imports Connections
begin

text \<open>
  When a TcpConnection (src/net/tcp_connection.cpp) asks for write events. An empty message whose
  write fails leaves it asking for them with an empty output buffer, which no write event ends; as
  long as no empty message is sent, every operation and every dispatch of events keeps it from that.
\<close>

unbundle bit_operations_syntax

definition unstalled :: "('f, 'x, 'z) tcp_connection_scheme \<Rightarrow> bool" where
  "unstalled s \<longleftrightarrow>
     (conn_open s \<and> Buffer_content (outputBuffer s) = [] \<longrightarrow> ch_events (conn_ch s) = kReadEvent)"

definition keeps_unstalled ::
    "tid \<Rightarrow> (('f, 'x, 'z) tcp_connection_scheme \<Rightarrow> ('f, 'x, 'z) tcp_connection_scheme res) \<Rightarrow> bool" where
  "keeps_unstalled me f \<longleftrightarrow> (\<forall>s s'. conn_wf me s \<and> unstalled s \<and> f s = Inr s' \<longrightarrow> unstalled s')"

lemma keeps_unstalledD: "keeps_unstalled me f \<Longrightarrow> conn_wf me s \<Longrightarrow> unstalled s \<Longrightarrow> f s = Inr s' \<Longrightarrow> unstalled s'"
  by (auto simp: keeps_unstalled_def)

lemma unstalled_simps [simp]:
  "unstalled (s\<lparr>inputBuffer := b\<rparr>) = unstalled s" "unstalled (s\<lparr>conn_context := c\<rparr>) = unstalled s"
  "unstalled (s\<lparr>inputBuffer := b, socket_reads := rs\<rparr>) = unstalled s" "unstalled (s\<lparr>fin_sent := f\<rparr>) = unstalled s"
  by (simp_all add: unstalled_def conn_open_def)

lemma unstalled_disconnected: "conn_state s = kDisconnected \<Longrightarrow> unstalled s"
  by (simp add: unstalled_def conn_open_def)

text \<open>What the callbacks of a connection need to do for that.\<close>

definition flowing :: "tid \<Rightarrow> ('f, 'x, 'z) tcp_connection_scheme connection_callbacks \<Rightarrow> bool" where
  "flowing me cbs \<longleftrightarrow>
     keeps_unstalled me (call_if_set (connectionCallback cbs)) \<and>
     keeps_unstalled me (call_if_set (messageCallback cbs)) \<and>
     keeps_unstalled me (call_if_set (writeCompleteCallback cbs))"

lemma send_unstalled:
  assumes "keeps_unstalled me (call_if_set wc)" and "data \<noteq> []"
  shows "keeps_unstalled me (TcpConnection_send me wc data)"
  unfolding keeps_unstalled_def
proof (intro allI impI)
  fix s s'
  assume s: "conn_wf me s \<and> unstalled s \<and> TcpConnection_send me wc data s = Inr s'"
  then have "conn_wf me s" by simp
  then show "unstalled s'"
  proof (cases rule: send_cases [where wc = wc and data = data])
    case (complete s2)
    then have "unstalled s2" by (simp add: unstalled_def)
    with keeps_unstalledD [OF assms(1) complete(3)] complete(2) s show ?thesis by simp
  qed (use s assms(2) in \<open>simp_all add: unstalled_def\<close>)
qed

lemma shutdownInLoop_frame:
  "TcpConnection_shutdownInLoop me s = Inr s' \<Longrightarrow> s' = s \<or> s' = s\<lparr>fin_sent := True\<rparr>"
  by (auto simp: TcpConnection_shutdownInLoop_def Socket_shutdownWrite_def returned split: if_splits)

lemma shutdown_unstalled: "keeps_unstalled me (TcpConnection_shutdown me)"
  unfolding keeps_unstalled_def
proof (intro allI impI)
  fix s s'
  assume s: "conn_wf me s \<and> unstalled s \<and> TcpConnection_shutdown me s = Inr s'"
  show "unstalled s'"
  proof (cases "conn_state s = kConnected")
    case True
    then have "unstalled (s\<lparr>conn_state := kDisconnecting\<rparr>)" using s by (simp add: unstalled_def conn_open_def)
    moreover have "TcpConnection_shutdownInLoop me (s\<lparr>conn_state := kDisconnecting\<rparr>) = Inr s'"
      using s True by (simp add: TcpConnection_shutdown_def)
    ultimately show ?thesis using shutdownInLoop_frame unstalled_simps(4) by metis
  next
    case False
    with s show ?thesis by (auto simp: TcpConnection_shutdown_def)
  qed
qed

text \<open>Closing leaves nothing to be asked for.\<close>

lemma handleClose_disconnects:
  assumes wf: "conn_wf me s" and cbs: "keeps_conn_callbacks me ok cbs"
    and run: "TcpConnection_handleClose me cbs s = Inr s'"
  shows "conn_state s' = kDisconnected"
proof -
  have st: "conn_state s = kConnected \<or> conn_state s = kDisconnecting"
    using run by (auto simp: TcpConnection_handleClose_def returned)
  from disconnect_wf [OF wf st] obtain s1 where
    s1: "Channel_change me DisableAll (conn_channel s) (s\<lparr>conn_state := kDisconnected\<rparr>) = Inr s1"
    "conn_wf me s1" "conn_state s1 = kDisconnected" by blast
  have "and_then (call_if_set (connectionCallback cbs) s1) (call_if_set (connectionClosed cbs)) = Inr s'"
    using run s1(1) by (auto simp: TcpConnection_handleClose_def and_then_eq_Inr [of "EventLoop_assertInLoopThread me s"]
        and_then_eq_Inr [of "assert_that b" for b])
  moreover have "keeps_conn me ok (\<lambda>s. and_then (call_if_set (connectionCallback cbs) s) (call_if_set (connectionClosed cbs)))"
    using cbs by (intro keeps_conn_comp) (simp_all add: keeps_conn_callbacks_def keeps_conn_if_set_def)
  ultimately have "conn_next ok s1 s'" using keeps_connD(2) [OF _ s1(2)] by blast
  then show ?thesis using s1(3) by (simp only: conn_next_def rank_disconnected)
qed

lemma handleClose_unstalled:
  "keeps_conn_callbacks me ok cbs \<Longrightarrow> keeps_unstalled me (TcpConnection_handleClose me cbs)"
  using handleClose_disconnects unstalled_disconnected unfolding keeps_unstalled_def by blast

lemma forceClose_unstalled:
  assumes "keeps_conn_callbacks me ok cbs"
  shows "keeps_unstalled me (TcpConnection_forceClose me cbs)"
  unfolding keeps_unstalled_def
proof (intro allI impI)
  fix s s'
  assume s: "conn_wf me s \<and> unstalled s \<and> TcpConnection_forceClose me cbs s = Inr s'"
  show "unstalled s'"
  proof (cases "conn_open s")
    case True
    then have "conn_wf me (s\<lparr>conn_state := kDisconnecting\<rparr>)"
      using s by (auto simp: conn_pre_def conn_registered_def conn_open_def)
    with handleClose_disconnects [OF this assms] True s show ?thesis
      by (auto simp: TcpConnection_forceClose_def conn_open_def intro: unstalled_disconnected)
  qed (use s in \<open>auto simp: TcpConnection_forceClose_def conn_open_def\<close>)
qed

lemma handleRead_unstalled:
  assumes cbs: "keeps_conn_callbacks me ok cbs" "flowing me cbs" and inv: "conn_inv me s" and un: "unstalled s"
    and run: "TcpConnection_handleRead me cbs s = Inr s'"
  shows "unstalled s'"
proof -
  have b: "Buffer_inv (inputBuffer s)" using inv by (simp add: conn_inv_def conn_pre_def)
  obtain n e b where read: "Buffer_readFd (inputBuffer s) (next_read s) = Inr (n, e, b)" "Buffer_inv b"
    using readFd_ok [OF b] by metis
  let ?s = "s\<lparr>inputBuffer := b, socket_reads := reads_after n (socket_reads s)\<rparr>"
  have s: "conn_wf me ?s" "unstalled ?s" using conn_inv_input [OF read(2) inv] un by (simp_all add: conn_inv_def)
  have "(if 0 < n then call_if_set (messageCallback cbs) ?s
       else if n = 0 then TcpConnection_handleClose me cbs ?s
       else if e \<noteq> Some EAGAIN then TcpConnection_handleError ?s
       else Inr ?s) = Inr s'"
    using run read(1) by (auto simp: TcpConnection_handleRead_def returned Let_def)
  moreover have "unstalled s'" if "call_if_set (messageCallback cbs) ?s = Inr s'"
    using keeps_unstalledD [of me "call_if_set (messageCallback cbs)", OF _ s that] cbs(2) by (simp add: flowing_def)
  moreover have "unstalled s'" if "TcpConnection_handleClose me cbs ?s = Inr s'"
    by (rule keeps_unstalledD [OF handleClose_unstalled [OF cbs(1)] s that])
  moreover have "unstalled s'" if "TcpConnection_handleError ?s = Inr s' \<or> Inr ?s = Inr s'"
  proof -
    have "s' = ?s" using that by (auto simp: TcpConnection_handleError_def returned)
    with s(2) show ?thesis by simp
  qed
  ultimately show ?thesis by (metis (full_types))
qed

lemma handleWrite_unstalled:
  assumes cbs: "flowing me cbs" and inv: "conn_inv me s" and un: "unstalled s"
    and run: "TcpConnection_handleWrite me cbs s = Inr s'"
  shows "unstalled s'"
  using inv
proof (cases rule: handleWrite_cases [where cbs = cbs])
  case (kept t)
  with run un show ?thesis by (simp add: unstalled_def conn_open_def)
next
  case (complete s3)
  then obtain s4 where s4: "call_if_set (writeCompleteCallback cbs) s3 = Inr s4"
    "(if conn_state s4 = kDisconnecting then TcpConnection_shutdownInLoop me s4 else Inr s4) = Inr s'"
    using run unfolding complete(5) and_then_eq_Inr by blast
  have "unstalled s3" using complete(4) by (simp add: unstalled_def)
  with keeps_unstalledD [of me "call_if_set (writeCompleteCallback cbs)", OF _ complete(1) _ s4(1)] cbs
  have "unstalled s4" by (simp add: flowing_def)
  moreover have "s' = s4 \<or> s' = s4\<lparr>fin_sent := True\<rparr>"
    using s4(2) shutdownInLoop_frame by (auto split: if_splits)
  ultimately show ?thesis by auto
qed

lemma dispatch_unstalled:
  assumes cbs: "keeps_conn_callbacks me ok cbs" "callbacks_keep_revents cbs" "flowing me cbs"
    and inv: "conn_inv me s" and un: "unstalled s" and run: "TcpConnection_dispatch me cbs s = Inr s'"
  shows "unstalled s'"
proof -
  let ?ok = "or_assertion ok"
  have cbs': "keeps_conn_callbacks me ?ok cbs"
    using cbs(1) keeps_conn_or_assertion [of me ok] by (auto simp: keeps_conn_callbacks_def keeps_conn_if_set_def)
  have late: "\<forall>ctx. ?ok ctx AssertionFailed" by (simp add: or_assertion_def)
  from run obtain b1 b2 b3 b4 s1 s2 s3
    where s: "call_when b1 (Some (TcpConnection_handleClose me cbs)) s = Inr s1"
      "call_when b2 (Some TcpConnection_handleError) s1 = Inr s2"
      "call_when b3 (Some (TcpConnection_handleRead me cbs)) s2 = Inr s3"
      "call_when b4 (Some (TcpConnection_handleWrite me cbs)) s3 = Inr s'"
    by (auto simp: TcpConnection_dispatch_def Channel_handleEvent_def TcpConnection_events_def returned)
  have s1: "conn_inv me s1 \<and> unstalled s1"
    using s(1) handleClose_result [OF inv _ cbs'] late inv un
      keeps_unstalledD [OF handleClose_unstalled [OF cbs(1)] _ un]
    by (auto simp: call_when_def conn_result_def conn_inv_def split: if_splits)
  have "s2 = s1" using s(2) handleError_eq [of me s1] s1 by (auto simp: call_when_def split: if_splits)
  then have i2: "conn_inv me s2" "unstalled s2" using s1 by simp_all
  have s3: "conn_inv me s3 \<and> unstalled s3"
  proof (cases b3)
    case True
    then have read: "TcpConnection_handleRead me cbs s2 = Inr s3" using s(3) by (simp add: call_when_def)
    have "conn_result me ?ok s2 (TcpConnection_handleRead me cbs s2)"
      by (rule handleRead_ok [OF i2(1) disjI2 [OF late] cbs'])
    with read handleRead_unstalled [OF cbs(1,3) i2 read] show ?thesis by (simp add: conn_result_def)
  qed (use s(3) i2 in \<open>simp add: call_when_def\<close>)
  then show ?thesis
    using s(4) handleWrite_unstalled [OF cbs(3)] by (auto simp: call_when_def split: if_splits)
qed

end
