(* ===== verification/Connection_Life.thy ===== *)
theory Connection_Life
  imports Connection_Output
begin

text \<open>
  The life of a TcpConnection (src/net/tcp_connection.cpp) as a sequence of events: the poller's
  reports on its channel and the calls of the program that uses it. The locale \<open>connection_user\<close> is
  the contract between a connection and its callbacks; programs whose callbacks make calls on the
  connection again are its first instance.
\<close>

unbundle bit_operations_syntax

subsection \<open>The life of a connection\<close>

text \<open>The public calls on a connection, in its loop's thread, and queueing a functor.\<close>

datatype 'f conn_call =
    Send "char list"
  | Shutdown
  | ForceClose
  | TakeInput nat
  | Enqueue 'f

fun TcpConnection_call ::
    "tid \<Rightarrow> ('f, 'x, 'z) tcp_connection_scheme connection_callbacks \<Rightarrow>
     ('f, 'x, 'z) tcp_connection_scheme \<Rightarrow> 'f conn_call \<Rightarrow> ('f, 'x, 'z) tcp_connection_scheme res" where
  "TcpConnection_call me cbs s (Send data) = TcpConnection_send me (writeCompleteCallback cbs) data s"
| "TcpConnection_call me cbs s Shutdown = TcpConnection_shutdown me s"
| "TcpConnection_call me cbs s ForceClose = TcpConnection_forceClose me cbs s"
| "TcpConnection_call me cbs s (TakeInput n) =
     Inr (s\<lparr>inputBuffer := Buffer_retrieve (inputBuffer s) n\<rparr>)"
| "TcpConnection_call me cbs s (Enqueue f) = Inr (EventLoop_queueInLoop me f s)"

text \<open>
  What happens to an established connection. \<open>Ready r\<close>: a turn of the loop polls \<open>r\<close> and dispatches it
  before any other handler runs; the kernel reports only what is in the interest list. \<open>Polled r\<close>: a
  report that was already in the list of active channels when an earlier handler of the same turn ran
  (a timer, another channel); \<open>EventLoop::loop\<close> dispatches it all the same, whatever has happened to
  the connection since. \<open>Called c\<close>: code in the loop thread calls the connection.
\<close>

datatype 'f conn_event =
    Ready events
  | Polled events
  | Called "'f conn_call"

fun TcpConnection_event ::
    "tid \<Rightarrow> ('f, 'x, 'z) tcp_connection_scheme connection_callbacks \<Rightarrow>
     ('f, 'x, 'z) tcp_connection_scheme \<Rightarrow> 'f conn_event \<Rightarrow> ('f, 'x, 'z) tcp_connection_scheme res" where
  "TcpConnection_event me cbs s (Ready r) =
     (if interest (poller s) (ch_fd (conn_ch s)) = None then Inr s
      else and_then (Channel_setRevents (conn_channel s) r (poller s)) (\<lambda>p.
           TcpConnection_dispatch me cbs (s\<lparr>poller := p\<rparr>)))"
| "TcpConnection_event me cbs s (Polled r) =
     and_then (Channel_setRevents (conn_channel s) r (poller s)) (\<lambda>p.
     TcpConnection_dispatch me cbs (s\<lparr>poller := p\<rparr>))"
| "TcpConnection_event me cbs s (Called c) = TcpConnection_call me cbs s c"

context conn_relation
begin

lemma call_when_R: "(\<And>s s'. f s = Inr s' \<Longrightarrow> R s s') \<Longrightarrow> call_when b (Some f) s = Inr s' \<Longrightarrow> R s s'"
  by (auto simp: call_when_def R_refl split: if_splits)

lemma dispatch_R:
  assumes "TcpConnection_dispatch me cbs s = Inr s'"
  shows "R s s'"
proof -
  from assms obtain b1 b2 b3 b4 s1 s2 s3
    where "call_when b1 (Some (TcpConnection_handleClose me cbs)) s = Inr s1"
      "call_when b2 (Some TcpConnection_handleError) s1 = Inr s2"
      "call_when b3 (Some (TcpConnection_handleRead me cbs)) s2 = Inr s3"
      "call_when b4 (Some (TcpConnection_handleWrite me cbs)) s3 = Inr s'"
    by (auto simp: TcpConnection_dispatch_def Channel_handleEvent_def TcpConnection_events_def returned)
  then have "R s s1" "R s1 s2" "R s2 s3" "R s3 s'"
    by (auto intro: call_when_R handleClose_R handleError_R handleRead_R handleWrite_R)
  then show ?thesis by (meson R_trans)
qed

lemma call_R:
  assumes "TcpConnection_call me cbs s c = Inr s'" and "\<And>f. c \<noteq> Enqueue f"
  shows "R s s'"
  using assms send_R [OF R_complete] shutdown_R forceClose_R R_data(1)
  by (cases c) auto

lemma calls_R:
  assumes "for_each (TcpConnection_call me cbs) s cs = Inr s'" and "\<And>f. Enqueue f \<notin> set cs"
  shows "R s s'"
  using assms
proof (induction cs arbitrary: s)
  case (Cons c cs)
  then obtain s1 where s1: "TcpConnection_call me cbs s c = Inr s1" "for_each (TcpConnection_call me cbs) s1 cs = Inr s'"
    by (auto simp: returned)
  have "R s s1" using call_R [OF s1(1)] Cons.prems(2) by auto
  moreover have "R s1 s'" using Cons.IH [OF s1(2)] Cons.prems(2) by auto
  ultimately show ?case by (rule R_trans)
qed (simp add: R_refl)

end

lemma conn_inv_queue [simp]: "conn_wf me (EventLoop_queueInLoop t f s) = conn_wf me s"
  "fin_due (EventLoop_queueInLoop t f s) = fin_due s" "conn_state (EventLoop_queueInLoop t f s) = conn_state s"
  "conn_context (EventLoop_queueInLoop t f s) = conn_context s"
  by (auto simp: loop_thread_ops conn_pre_def conn_registered_def conn_ch_def fin_due_def split: ConnState.splits)

lemma conn_wf_take [simp]: "conn_wf me (s\<lparr>inputBuffer := Buffer_retrieve (inputBuffer s) n\<rparr>)"
  if "conn_wf me s"
  using that by (auto simp: conn_pre_def conn_registered_def split: ConnState.splits)

lemma fin_due_input [simp]: "fin_due (s\<lparr>inputBuffer := b\<rparr>) = fin_due s"
  by (simp add: fin_due_def)

lemma call_keeps:
  assumes "keeps_conn_callbacks me ok cbs"
  shows "keeps_conn me ok (\<lambda>s. TcpConnection_call me cbs s c)"
proof (cases c)
  case (Send data)
  with send_keeps [of me ok "writeCompleteCallback cbs" data] assms show ?thesis by (simp add: keeps_conn_callbacks_def)
next
  case Shutdown
  with shutdown_keeps [of me ok] show ?thesis by simp
next
  case ForceClose
  with forceClose_keeps [of me ok cbs] assms show ?thesis by (simp add: keeps_conn_callbacks_def)
qed (simp_all add: keeps_conn_def conn_next_same)

lemma call_revents:
  assumes "callbacks_keep_revents cbs"
  shows "keeps_revents (\<lambda>s. TcpConnection_call me cbs s c)"
proof (cases c)
  case (Send data)
  with send_revents [of "writeCompleteCallback cbs" me data] assms show ?thesis by (simp add: callbacks_keep_revents_def)
next
  case Shutdown
  with shutdown_revents [of me] show ?thesis by simp
next
  case ForceClose
  with forceClose_revents [OF assms, of me] show ?thesis by simp
qed (simp_all add: keeps_revents_def same_revents_def loop_thread_ops)

lemma for_each_revents:
  assumes "\<And>c. keeps_revents (\<lambda>s. f s c)"
  shows "keeps_revents (\<lambda>s. for_each f s cs)"
proof (induction cs)
  case (Cons c cs)
  show ?case
    unfolding keeps_revents_def
  proof (intro allI impI)
    fix s s'
    assume "for_each f s (c # cs) = Inr s'"
    then obtain s1 where "f s c = Inr s1" "for_each f s1 cs = Inr s'" by (auto simp: returned)
    then have "same_revents s s1" "same_revents s1 s'"
      using assms [of c] Cons.IH by (auto simp: keeps_revents_def)
    then show "same_revents s s'" by (rule same_revents_trans)
  qed
qed (simp add: keeps_revents_def)

text \<open>
  The contract between a connection and the code that uses it: the callbacks keep the connection's
  invariant, fail only with expected faults, and leave the poller's report alone. In return every
  event of the connection's life keeps the invariant.
\<close>

lemma conn_open_interest:
  assumes "conn_inv me s"
  shows "interest (poller s) (ch_fd (conn_ch s)) =
         (if conn_open s then Some (ch_events (conn_ch s), conn_channel s) else None)"
proof -
  have c: "poller_inv (poller s)" "channel_heap (poller s) (conn_channel s) = Some (conn_ch s)"
    "sole_user (conn_channel s) (ch_fd (conn_ch s)) (poller s)"
    using assms by (auto simp: conn_inv_def conn_pre_def conn_registered_def)
  from poller_inv_interest [OF c] assms show ?thesis
    by (cases "conn_state s") (auto simp: conn_open_def conn_inv_def conn_pre_def conn_registered_def)
qed

lemma setRevents_inv:
  assumes inv: "conn_inv me s"
  obtains p where "Channel_setRevents (conn_channel s) r (poller s) = Inr p"
    and "conn_inv me (s\<lparr>poller := p\<rparr>)" and "ch_revents (conn_ch (s\<lparr>poller := p\<rparr>)) = r"
proof -
  let ?c = "conn_ch s"
  let ?p = "put_channel (conn_channel s) (?c\<lparr>ch_revents := r\<rparr>) (poller s)"
  have c: "channel_heap (poller s) (conn_channel s) = Some ?c" "poller_inv (poller s)"
    using inv by (auto simp: conn_inv_def conn_pre_def conn_registered_def)
  have "same_but_revents (poller s) ?p"
    using c(1) by (auto simp: same_but_revents_def put_channel_def)
  from same_but_revents_inv [OF this c(2)] have p: "poller_inv ?p" .
  have ch: "conn_ch (s\<lparr>poller := ?p\<rparr>) = ?c\<lparr>ch_revents := r\<rparr>" by (simp add: conn_ch_def put_channel_def)
  have sole: "sole_user (conn_channel s) fd ?p = sole_user (conn_channel s) fd (poller s)" for fd
    by (simp add: sole_user_def put_channel_def)
  have "conn_inv me (s\<lparr>poller := ?p\<rparr>)"
    using inv p sole ch
    by (simp add: conn_inv_def conn_pre_def conn_registered_def fin_due_def put_channel_def
        split: ConnState.splits)
  with c(1) ch show ?thesis
    by (intro that [of ?p]) (simp_all add: Channel_setRevents_def channel_at_def)
qed

lemma establish:
  assumes inv: "conn_inv me s" and st: "conn_state s = kConnecting"
  obtains p where "TcpConnection_connectEstablished me cbs s =
      call_if_set (connectionCallback cbs) (s\<lparr>conn_state := kConnected, poller := p\<rparr>)"
    and "conn_inv me (s\<lparr>conn_state := kConnected, poller := p\<rparr>)"
    and "unstalled (s\<lparr>conn_state := kConnected, poller := p\<rparr>)"
proof -
  let ?c = "conn_ch s"
  let ?s = "s\<lparr>conn_state := kConnected\<rparr>"
  let ?p = "updated (conn_channel s) ?c kReadEvent (poller s)"
  have c: "poller_inv (poller s)" "channel_heap (poller s) (conn_channel s) = Some ?c"
    "sole_user (conn_channel s) (ch_fd ?c) (poller s)" "ch_index ?c = kNew" "threadId s = me"
    "ch_events ?c = kNoneEvent" "\<not> fin_sent s"
    using inv st by (auto simp: conn_inv_def conn_pre_def conn_registered_def)
  note u = updated_poller [OF c(1-3), of kReadEvent]
  have change: "Channel_change me EnableReading (conn_channel s) ?s = Inr (?s\<lparr>poller := ?p\<rparr>)"
    using Channel_change_ok [of ?s me "conn_channel s" ?c EnableReading] c by simp
  let ?t = "?s\<lparr>poller := ?p\<rparr>"
  have "conn_wf me ?t" "fin_due ?t"
    using inv st u c(4,7)
    by (simp_all add: conn_inv_def conn_pre_def conn_registered_def conn_ch_updated conn_ch_def
        index_after_update_def fin_due_def)
  moreover have "TcpConnection_connectEstablished me cbs s = call_if_set (connectionCallback cbs) ?t"
    using c(5) st change by (simp add: TcpConnection_connectEstablished_def
        EventLoop_assertInLoopThread_def EventLoop_isInLoopThread_def)
  moreover have "unstalled ?t" using u(2) by (simp add: unstalled_def conn_ch_def)
  ultimately show ?thesis by (intro that [of ?p]) (simp_all add: conn_inv_def)
qed

locale connection_user =
  fixes me :: tid
    and ok :: "'x option \<Rightarrow> fault \<Rightarrow> bool"
    and cbs :: "('f, 'x, 'z) tcp_connection_scheme connection_callbacks"
  assumes keeps: "keeps_conn_callbacks me ok cbs"
    and revents: "callbacks_keep_revents cbs"
begin

lemma report_ok:
  assumes inv: "conn_inv me s" and op: "conn_open s" and plain: "plain_events r"
  shows "conn_result me ok s (TcpConnection_event me cbs s (Polled r))"
proof -
  obtain p where p: "Channel_setRevents (conn_channel s) r (poller s) = Inr p"
    "conn_inv me (s\<lparr>poller := p\<rparr>)" "ch_revents (conn_ch (s\<lparr>poller := p\<rparr>)) = r"
    using setRevents_inv [OF inv] by metis
  have "conn_open (s\<lparr>poller := p\<rparr>)" using op by (simp add: conn_open_def)
  from dispatch_ok [OF p(2) this _ keeps revents] plain p(3)
  have "conn_result me ok (s\<lparr>poller := p\<rparr>) (TcpConnection_dispatch me cbs (s\<lparr>poller := p\<rparr>))" by simp
  then have "conn_result me ok s (TcpConnection_dispatch me cbs (s\<lparr>poller := p\<rparr>))"
    by (rule conn_result_mono) (simp add: conn_next_same)
  with p(1) show ?thesis by simp
qed

lemma late_report_ok:
  assumes inv: "conn_inv me s"
  shows "conn_result me (or_assertion ok) s (TcpConnection_event me cbs s (Polled r))"
proof -
  obtain p where p: "Channel_setRevents (conn_channel s) r (poller s) = Inr p" "conn_inv me (s\<lparr>poller := p\<rparr>)"
    using setRevents_inv [OF inv] by metis
  from late_dispatch [OF p(2) keeps revents]
  have "conn_result me (or_assertion ok) s (TcpConnection_dispatch me cbs (s\<lparr>poller := p\<rparr>))"
    by (rule conn_result_mono) (simp add: conn_next_same)
  with p(1) show ?thesis by simp
qed

lemma ready_polled:
  assumes "conn_inv me s" and "conn_open s"
  shows "TcpConnection_event me cbs s (Ready r) = TcpConnection_event me cbs s (Polled r)"
  using conn_open_interest [OF assms(1)] assms(2) by simp

lemma event_ok:
  assumes inv: "conn_inv me s" and plain: "\<And>r. ev = Ready r \<Longrightarrow> plain_events r"
    and late: "\<And>r. ev = Polled r \<Longrightarrow> conn_open s \<and> plain_events r"
  shows "conn_result me ok s (TcpConnection_event me cbs s ev)"
proof (cases ev)
  case (Ready r)
  show ?thesis
  proof (cases "conn_open s")
    case False
    with conn_open_interest [OF inv] have "TcpConnection_event me cbs s ev = Inr s"
      by (simp add: Ready)
    with inv show ?thesis by (simp add: conn_result_def)
  next
    case True
    with report_ok [OF inv True plain [OF Ready]] show ?thesis by (simp only: Ready ready_polled [OF inv True])
  qed
next
  case (Polled r)
  with report_ok [OF inv] late show ?thesis by simp
next
  case (Called c)
  with keeps_conn_result [OF call_keeps [OF keeps] inv, of c] show ?thesis by simp
qed

text \<open>
  A sequence of events fails only where a callback does, or at a report that is dispatched after the
  connection was closed.
\<close>

definition overtaken :: "('f, 'x, 'z) tcp_connection_scheme \<Rightarrow> 'f conn_event list \<Rightarrow> bool" where
  "overtaken s evs \<longleftrightarrow> (\<exists>evs1 r evs2 s1. evs = evs1 @ Polled r # evs2 \<and>
     for_each (TcpConnection_event me cbs) s evs1 = Inr s1 \<and> \<not> conn_open s1)"

lemma overtaken_Cons:
  assumes "TcpConnection_event me cbs s ev = Inr s1" and "overtaken s1 evs"
  shows "overtaken s (ev # evs)"
proof -
  obtain evs1 r evs2 s2 where "evs = evs1 @ Polled r # evs2"
    "for_each (TcpConnection_event me cbs) s1 evs1 = Inr s2" "\<not> conn_open s2"
    using assms(2) by (auto simp: overtaken_def)
  with assms(1) have "ev # evs = (ev # evs1) @ Polled r # evs2 \<and>
      for_each (TcpConnection_event me cbs) s (ev # evs1) = Inr s2 \<and> \<not> conn_open s2"
    by (simp del: TcpConnection_event.simps)
  then show ?thesis unfolding overtaken_def by blast
qed

lemma events_or_overtaken:
  assumes "conn_inv me s" and "\<And>r. Ready r \<in> set evs \<or> Polled r \<in> set evs \<Longrightarrow> plain_events r"
    and noAF: "\<And>ctx. \<not> ok ctx AssertionFailed"
  shows "case for_each (TcpConnection_event me cbs) s evs of
           Inl x \<Rightarrow> ok (conn_context s) x \<or> x = AssertionFailed \<and> overtaken s evs
         | Inr s' \<Rightarrow> conn_inv me s' \<and> conn_next ok s s'"
  using assms(1,2)
proof (induction evs arbitrary: s)
  case Nil
  then show ?case by simp
next
  case (Cons ev evs)
  have one: "case TcpConnection_event me cbs s ev of
      Inl x \<Rightarrow> ok (conn_context s) x \<or> x = AssertionFailed \<and> overtaken s (ev # evs)
    | Inr s' \<Rightarrow> conn_inv me s' \<and> conn_next ok s s'"
  proof (cases "\<exists>r. ev = Polled r \<and> \<not> conn_open s")
    case True
    then obtain r where r: "ev = Polled r" "\<not> conn_open s" by blast
    have "overtaken s (ev # evs)" unfolding overtaken_def using r
      by (intro exI [of _ "[]"] exI [of _ r] exI [of _ evs] exI [of _ s]) simp
    moreover have "conn_next (or_assertion ok) s s' \<Longrightarrow> conn_next ok s s'" for s'
      using noAF by (auto simp: conn_next_def or_assertion_def)
    ultimately show ?thesis
      using late_report_ok [OF Cons.prems(1), of r] unfolding r(1) conn_result_def
      by (auto simp: or_assertion_def split: sum.splits simp del: TcpConnection_event.simps)
  next
    case False
    then have "conn_result me ok s (TcpConnection_event me cbs s ev)"
      using Cons.prems(2) by (intro event_ok [OF Cons.prems(1)]) auto
    then show ?thesis by (auto simp: conn_result_def split: sum.splits)
  qed
  show ?case
  proof (cases "TcpConnection_event me cbs s ev")
    case (Inl x)
    with one show ?thesis by simp
  next
    case (Inr s1)
    with one have s1: "conn_inv me s1" "conn_next ok s s1" by simp_all
    have "case for_each (TcpConnection_event me cbs) s1 evs of
        Inl x \<Rightarrow> ok (conn_context s1) x \<or> x = AssertionFailed \<and> overtaken s1 evs
      | Inr s' \<Rightarrow> conn_inv me s' \<and> conn_next ok s1 s'"
      using Cons.prems(2) by (intro Cons.IH [OF s1(1)]) auto
    then show ?thesis
      using Inr overtaken_Cons [OF Inr] conn_next_fault [OF s1(2)] conn_next_trans [OF s1(2)]
      by (auto split: sum.splits simp del: TcpConnection_event.simps)
  qed
qed

lemma events_ok:
  assumes "conn_inv me s" and "\<And>r. Ready r \<in> set evs \<Longrightarrow> plain_events r" and "\<And>r. Polled r \<notin> set evs"
  shows "conn_result me ok s (for_each (TcpConnection_event me cbs) s evs)"
  using assms
proof (induction evs arbitrary: s)
  case Nil
  then show ?case by (simp add: conn_result_def)
next
  case (Cons ev evs)
  have one: "conn_result me ok s (TcpConnection_event me cbs s ev)"
    by (rule event_ok [OF Cons.prems(1)]) (use Cons.prems(2,3) in auto)
  show ?case
  proof (cases "TcpConnection_event me cbs s ev")
    case (Inl x)
    with one show ?thesis by (simp add: conn_result_def)
  next
    case (Inr s1)
    with one have s1: "conn_inv me s1" "conn_next ok s s1" by (simp_all add: conn_result_def)
    have "conn_result me ok s1 (for_each (TcpConnection_event me cbs) s1 evs)"
      by (rule Cons.IH [OF s1(1)]) (use Cons.prems(2,3) in auto)
    from conn_result_mono [OF this s1(2)] Inr show ?thesis by simp
  qed
qed

text \<open>Every event keeps the connection from watching an empty buffer, if the callbacks and the calls do.\<close>

lemma event_unstalled:
  assumes inv: "conn_inv me s" and un: "unstalled s" and flow: "flowing me cbs"
    and call: "\<And>c. ev = Called c \<Longrightarrow> keeps_unstalled me (\<lambda>s. TcpConnection_call me cbs s c)"
    and run: "TcpConnection_event me cbs s ev = Inr s'"
  shows "unstalled s'"
proof -
  have report: "unstalled s'" if "TcpConnection_event me cbs s (Polled r) = Inr s'" for r
  proof -
    obtain p where p: "Channel_setRevents (conn_channel s) r (poller s) = Inr p" "conn_inv me (s\<lparr>poller := p\<rparr>)"
      using setRevents_inv [OF inv] by metis
    have "ch_events (conn_ch (s\<lparr>poller := p\<rparr>)) = ch_events (conn_ch s)"
      using p(1) by (auto simp: Channel_setRevents_def returned channel_at_def put_channel_def conn_ch_def
          split: option.splits)
    then have "unstalled (s\<lparr>poller := p\<rparr>)" using un by (simp add: unstalled_def conn_open_def)
    with dispatch_unstalled [OF keeps revents flow p(2)] that p(1) show ?thesis by simp
  qed
  show ?thesis
  proof (cases ev)
    case (Ready r)
    with run un report [of r] ready_polled [OF inv] conn_open_interest [OF inv] show ?thesis
      by (cases "conn_open s") (auto simp del: TcpConnection_event.simps(2))
  next
    case (Called c)
    with keeps_unstalledD [OF call _ un] inv run show ?thesis by (simp add: conn_inv_def)
  qed (use report run in simp)
qed

lemma events_unstalled:
  assumes "conn_inv me s" and "unstalled s" and "flowing me cbs"
    and "\<And>c. Called c \<in> set evs \<Longrightarrow> keeps_unstalled me (\<lambda>s. TcpConnection_call me cbs s c)"
    and "for_each (TcpConnection_event me cbs) s evs = Inr s'"
  shows "unstalled s'"
  using assms(1,2,4,5)
proof (induction evs arbitrary: s)
  case (Cons ev evs)
  obtain s1 where s1: "TcpConnection_event me cbs s ev = Inr s1" "for_each (TcpConnection_event me cbs) s1 evs = Inr s'"
    using Cons.prems(4) unfolding for_each.simps and_then_eq_Inr by blast
  have "conn_result me (or_assertion ok) s (TcpConnection_event me cbs s ev)"
    using late_report_ok [OF Cons.prems(1)] ready_polled [OF Cons.prems(1)] conn_open_interest [OF Cons.prems(1)]
      keeps_conn_result [OF keeps_conn_or_assertion [OF call_keeps [OF keeps]] Cons.prems(1)] Cons.prems(1)
    by (cases ev; cases "conn_open s") (auto simp: conn_result_def split: sum.splits simp del: TcpConnection_event.simps(2))
  then have "conn_inv me s1" using s1(1) by (simp add: conn_result_def)
  moreover have "unstalled s1"
    by (rule event_unstalled [OF Cons.prems(1,2) assms(3) _ s1(1)]) (use Cons.prems(3) in simp)
  ultimately show ?case using Cons.IH s1(2) Cons.prems(3) by simp
qed simp

lemma connectEstablished_ok:
  assumes inv: "conn_inv me s" and st: "conn_state s = kConnecting"
  shows "case TcpConnection_connectEstablished me cbs s of
           Inl x \<Rightarrow> ok (conn_context s) x
         | Inr s' \<Rightarrow> conn_inv me s' \<and> conn_next ok s s' \<and> state_rank kConnected \<le> state_rank (conn_state s')"
proof -
  obtain p where t: "TcpConnection_connectEstablished me cbs s =
      call_if_set (connectionCallback cbs) (s\<lparr>conn_state := kConnected, poller := p\<rparr>)"
    "conn_inv me (s\<lparr>conn_state := kConnected, poller := p\<rparr>)"
    using establish [OF inv st] by metis
  have "keeps_conn me ok (call_if_set (connectionCallback cbs))"
    using keeps by (simp add: keeps_conn_callbacks_def keeps_conn_if_set_def)
  from keeps_conn_result [OF this t(2)] show ?thesis
    unfolding t(1) using st by (auto simp: conn_result_def conn_next_def split: sum.splits)
qed

lemma life_unstalled:
  assumes inv: "conn_inv me s" and st: "conn_state s = kConnecting" and flow: "flowing me cbs"
    and calls: "\<And>c. Called c \<in> set evs \<Longrightarrow> keeps_unstalled me (\<lambda>s. TcpConnection_call me cbs s c)"
    and run: "and_then (TcpConnection_connectEstablished me cbs s)
                (\<lambda>s. for_each (TcpConnection_event me cbs) s evs) = Inr s'"
  shows "unstalled s'"
proof -
  obtain s1 where s1: "TcpConnection_connectEstablished me cbs s = Inr s1"
    "for_each (TcpConnection_event me cbs) s1 evs = Inr s'"
    using run unfolding and_then_eq_Inr by blast
  obtain p where p: "TcpConnection_connectEstablished me cbs s =
      call_if_set (connectionCallback cbs) (s\<lparr>conn_state := kConnected, poller := p\<rparr>)"
    "conn_inv me (s\<lparr>conn_state := kConnected, poller := p\<rparr>)" "unstalled (s\<lparr>conn_state := kConnected, poller := p\<rparr>)"
    using establish [OF inv st] by metis
  have "keeps_unstalled me (call_if_set (connectionCallback cbs))" using flow by (simp add: flowing_def)
  from keeps_unstalledD [OF this _ p(3)] p(1,2) s1(1) have "unstalled s1" by (simp add: conn_inv_def)
  moreover have "conn_inv me s1" using connectEstablished_ok [OF inv st] s1(1) by simp
  ultimately show ?thesis using events_unstalled [OF _ _ flow calls s1(2)] by blast
qed

end

subsection \<open>Programs on a connection\<close>

text \<open>
  A program: each callback looks at the state and makes a finite list of calls, which may invoke
  callbacks again (a \<open>send\<close> that completes at once calls the write-complete callback, which may
  \<open>send\<close>, and so on). The nesting is bounded by the stack, whose depth is a parameter: a callback
  invoked at depth 0 is the fault \<open>StackOverflow\<close>.
\<close>

record ('s, 'f) program =
  on_connection :: "'s \<Rightarrow> 'f conn_call list"
  on_message :: "'s \<Rightarrow> 'f conn_call list"
  on_write_complete :: "'s \<Rightarrow> 'f conn_call list"
  on_close :: "'s \<Rightarrow> 'f conn_call list"

primrec user_callbacks ::
    "tid \<Rightarrow> (('f, 'x, 'z) tcp_connection_scheme, 'f) program \<Rightarrow> nat \<Rightarrow>
     ('f, 'x, 'z) tcp_connection_scheme connection_callbacks" where
  "user_callbacks me prog 0 =
     \<lparr>connectionCallback = Some (\<lambda>s. Inl StackOverflow), messageCallback = Some (\<lambda>s. Inl StackOverflow),
      writeCompleteCallback = Some (\<lambda>s. Inl StackOverflow), connectionClosed = Some (\<lambda>s. Inl StackOverflow)\<rparr>"
| "user_callbacks me prog (Suc n) =
     \<lparr>connectionCallback =
        Some (\<lambda>s. for_each (TcpConnection_call me (user_callbacks me prog n)) s (on_connection prog s)),
      messageCallback =
        Some (\<lambda>s. for_each (TcpConnection_call me (user_callbacks me prog n)) s (on_message prog s)),
      writeCompleteCallback =
        Some (\<lambda>s. for_each (TcpConnection_call me (user_callbacks me prog n)) s (on_write_complete prog s)),
      connectionClosed =
        Some (\<lambda>s. for_each (TcpConnection_call me (user_callbacks me prog n)) s (on_close prog s))\<rparr>"

definition stack_fault :: "'x option \<Rightarrow> fault \<Rightarrow> bool" where
  "stack_fault ctx x \<longleftrightarrow> x = StackOverflow"

text \<open>The script of a callback may depend on the state in which it is invoked.\<close>

lemma keeps_conn_script:
  assumes "\<And>c. keeps_conn me ok (\<lambda>s. f s c)"
  shows "keeps_conn me ok (\<lambda>s. for_each f s (script s))"
  using keeps_conn_for_each [of me ok f, OF assms] by (auto simp: keeps_conn_def)

lemma revents_script:
  assumes "\<And>c. keeps_revents (\<lambda>s. f s c)"
  shows "keeps_revents (\<lambda>s. for_each f s (script s))"
  using for_each_revents [of f, OF assms] by (auto simp: keeps_revents_def)

lemma call_if_set_Some_eta [simp]: "call_if_set (Some f) = f"
  by (rule ext) simp

lemma user_callbacks_keep: "keeps_conn_callbacks me stack_fault (user_callbacks me prog n)"
proof (induction n)
  case 0
  show ?case by (simp add: keeps_conn_callbacks_def keeps_conn_def stack_fault_def)
next
  case (Suc n)
  from keeps_conn_script [where f = "TcpConnection_call me (user_callbacks me prog n)",
      OF call_keeps [OF Suc.IH]] show ?case by (simp add: keeps_conn_callbacks_def)
qed

lemma user_callbacks_revents: "callbacks_keep_revents (user_callbacks me prog n)"
proof (induction n)
  case 0
  show ?case by (simp add: callbacks_keep_revents_def keeps_revents_def)
next
  case (Suc n)
  from revents_script [where f = "TcpConnection_call me (user_callbacks me prog n)",
      OF call_revents [OF Suc.IH]] show ?case by (simp add: callbacks_keep_revents_def)
qed

text \<open>A program that sends no empty message.\<close>

fun says_something :: "'f conn_call \<Rightarrow> bool" where
  "says_something (Send data) = (data \<noteq> [])"
| "says_something _ = True"

definition no_empty_message :: "('s, 'f) program \<Rightarrow> bool" where
  "no_empty_message prog \<longleftrightarrow> (\<forall>s. \<forall>c \<in> set (on_connection prog s) \<union> set (on_message prog s) \<union>
     set (on_write_complete prog s) \<union> set (on_close prog s). says_something c)"

lemma call_unstalled:
  assumes "keeps_conn_callbacks me ok cbs" and "flowing me cbs" and "says_something c"
  shows "keeps_unstalled me (\<lambda>s. TcpConnection_call me cbs s c)"
proof (cases c)
  case (Send data)
  with send_unstalled [of me "writeCompleteCallback cbs" data] assms show ?thesis by (simp add: flowing_def)
next
  case Shutdown
  with shutdown_unstalled show ?thesis by simp
next
  case ForceClose
  with forceClose_unstalled [OF assms(1)] show ?thesis by simp
next
  case (Enqueue f)
  then show ?thesis by (auto simp: keeps_unstalled_def loop_thread_ops unstalled_def conn_open_def conn_ch_def)
qed (auto simp: keeps_unstalled_def)

lemma calls_unstalled:
  assumes "\<And>c. keeps_conn me ok (\<lambda>s. f s c)" and "\<And>c. c \<in> set cs \<Longrightarrow> keeps_unstalled me (\<lambda>s. f s c)"
  shows "keeps_unstalled me (\<lambda>s. for_each f s cs)"
  using assms(2)
proof (induction cs)
  case (Cons c cs)
  show ?case
    unfolding keeps_unstalled_def
  proof (intro allI impI)
    fix s s'
    assume s: "conn_wf me s \<and> unstalled s \<and> for_each f s (c # cs) = Inr s'"
    then obtain s1 where s1: "f s c = Inr s1" "for_each f s1 cs = Inr s'" by (auto simp: returned)
    have "conn_wf me s1" using keeps_connD(2) [OF assms(1) [of c], of s s1] s s1(1) by simp
    moreover have "unstalled s1" using keeps_unstalledD [OF Cons.prems, of c s s1] s s1(1) by simp
    moreover have "keeps_unstalled me (\<lambda>s. for_each f s cs)" using Cons by simp
    ultimately show "unstalled s'" using keeps_unstalledD s1(2) by blast
  qed
qed (simp add: keeps_unstalled_def)

lemma script_unstalled:
  assumes "\<And>c. keeps_conn me ok (\<lambda>s. f s c)" and "\<And>s c. c \<in> set (script s) \<Longrightarrow> keeps_unstalled me (\<lambda>s. f s c)"
  shows "keeps_unstalled me (\<lambda>s. for_each f s (script s))"
  unfolding keeps_unstalled_def
proof (intro allI impI)
  fix s s'
  assume s: "conn_wf me s \<and> unstalled s \<and> for_each f s (script s) = Inr s'"
  have "keeps_unstalled me (\<lambda>t. for_each f t (script s))" by (rule calls_unstalled [OF assms(1) assms(2)])
  with s show "unstalled s'" using keeps_unstalledD by blast
qed

lemma user_callbacks_flow:
  assumes "no_empty_message prog"
  shows "flowing me (user_callbacks me prog n)"
proof (induction n)
  case 0
  show ?case by (simp add: flowing_def keeps_unstalled_def)
next
  case (Suc n)
  have "keeps_unstalled me (\<lambda>s. for_each (TcpConnection_call me (user_callbacks me prog n)) s (script s))"
    if "script \<in> {on_connection prog, on_message prog, on_write_complete prog}" for script
    by (rule script_unstalled [OF call_keeps [OF user_callbacks_keep [of me prog n]]])
      (use that assms in \<open>auto simp: no_empty_message_def intro!: call_unstalled [OF user_callbacks_keep Suc.IH]\<close>)
  then show ?case by (simp add: flowing_def)
qed

interpretation cu: connection_user me stack_fault "user_callbacks me prog n" for me prog n
  by unfold_locales (rule user_callbacks_keep, rule user_callbacks_revents)

text \<open>A connection just made on a socket, not yet established.\<close>

definition fresh_connection :: "tid \<Rightarrow> ('f, 'x, 'z) tcp_connection_scheme \<Rightarrow> bool" where
  "fresh_connection me s \<longleftrightarrow>
     threadId s = me \<and> poller_inv (poller s) \<and> conn_state s = kConnecting \<and>
     channel_heap (poller s) (conn_channel s) = Some (conn_ch s) \<and> channels (poller s) (ch_fd (conn_ch s)) = None \<and>
     ch_index (conn_ch s) = kNew \<and> ch_events (conn_ch s) = kNoneEvent \<and>
     inputBuffer s = Buffer_new \<and> outputBuffer s = Buffer_new \<and> wire s = [] \<and> \<not> fin_sent s \<and> handed_over s = []"

lemma fresh_connection_inv: "fresh_connection me s \<Longrightarrow> conn_inv me s"
  by (simp add: fresh_connection_def conn_inv_def conn_pre_def conn_registered_def fin_due_def sole_user_def)

lemma TcpConnection_new_fresh:
  assumes "threadId s = me" and "poller_inv (poller s)" and "channel_heap (poller s) ch = None"
    and "channels (poller s) fd = None"
  shows "fresh_connection me (TcpConnection_new name fd ch s)"
  using assms put_new_channel_inv [OF assms(2,3), of fd]
  by (simp add: fresh_connection_def TcpConnection_new_def conn_ch_def put_channel_def Channel_new_def)

lemma conn_summary:
  assumes inv: "conn_inv me s"
  shows "handed_over s = wire s @ Buffer_content (outputBuffer s) \<and> ctl_failures (poller s) = 0 \<and>
      (conn_open s \<and> Buffer_content (outputBuffer s) \<noteq> [] \<longrightarrow>
         interest (poller s) (ch_fd (conn_ch s)) = Some (kReadEvent OR kWriteEvent, conn_channel s)) \<and>
      (conn_state s = kDisconnecting \<longrightarrow>
         (if fin_sent s then wire s = handed_over s
          else interest (poller s) (ch_fd (conn_ch s)) = Some (kReadEvent OR kWriteEvent, conn_channel s))) \<and>
      (conn_state s = kConnected \<longrightarrow> \<not> fin_sent s) \<and>
      (conn_state s = kDisconnected \<longrightarrow> interest (poller s) (ch_fd (conn_ch s)) = None)"
proof -
  have base: "handed_over s = wire s @ Buffer_content (outputBuffer s)" "ctl_failures (poller s) = 0"
    using inv by (simp_all add: conn_inv_def conn_pre_def poller_inv_def)
  note i = conn_open_interest [OF inv]
  show ?thesis
  proof (cases "conn_open s")
    case False
    with i have "interest (poller s) (ch_fd (conn_ch s)) = None"
      "conn_state s \<noteq> kConnected" "conn_state s \<noteq> kDisconnecting" by (simp_all add: conn_open_def)
    with base False show ?thesis by blast
  next
    case True
    then have ev: "ch_events (conn_ch s) = kReadEvent \<and> Buffer_content (outputBuffer s) = [] \<or>
        ch_events (conn_ch s) = kReadEvent OR kWriteEvent"
      and fin: "fin_sent s \<Longrightarrow> conn_state s = kDisconnecting \<and> ch_events (conn_ch s) = kReadEvent"
      and due: "conn_state s = kDisconnecting \<Longrightarrow> ch_events (conn_ch s) = kReadEvent \<Longrightarrow> fin_sent s"
      using inv by (auto simp: conn_open_def conn_inv_def conn_pre_def conn_registered_def fin_due_def)
    have on_wire: "wire s = handed_over s" if "fin_sent s"
    proof -
      have "Buffer_content (outputBuffer s) = []" using fin [OF that] ev by auto
      with base(1) show ?thesis by simp
    qed
    have "conn_state s \<noteq> kDisconnected" "conn_state s = kConnected \<longrightarrow> \<not> fin_sent s"
      using True fin by (auto simp: conn_open_def)
    moreover have "interest (poller s) (ch_fd (conn_ch s)) = Some (ch_events (conn_ch s), conn_channel s)"
      using i True by simp
    ultimately show ?thesis using base on_wire ev due by auto
  qed
qed

lemma conn_watched:
  assumes inv: "conn_inv me s" and st: "conn_state s \<noteq> kConnecting"
  shows "if conn_state s = kDisconnected then interest (poller s) (ch_fd (conn_ch s)) = None
    else interest (poller s) (ch_fd (conn_ch s)) \<in>
      {Some (kReadEvent, conn_channel s), Some (kReadEvent OR kWriteEvent, conn_channel s)}"
proof (cases "conn_open s")
  case True
  then have "ch_events (conn_ch s) = kReadEvent \<or> ch_events (conn_ch s) = kReadEvent OR kWriteEvent"
    using inv by (auto simp: conn_open_def conn_inv_def conn_pre_def conn_registered_def)
  with True conn_open_interest [OF inv] show ?thesis by (auto simp: conn_open_def)
next
  case False
  with st conn_open_interest [OF inv] show ?thesis by (cases "conn_state s") (simp_all add: conn_open_def)
qed

lemma conn_unstalled:
  assumes inv: "conn_inv me s" and "unstalled s" and "conn_open s" and "Buffer_content (outputBuffer s) = []"
  shows "interest (poller s) (ch_fd (conn_ch s)) = Some (kReadEvent, conn_channel s)"
    and "conn_state s = kDisconnecting \<Longrightarrow> fin_sent s"
  using assms conn_open_interest [OF inv] by (simp_all add: unstalled_def conn_inv_def fin_due_def)

text \<open>What is true of an established connection at any time.\<close>

lemma life_ok:
  assumes fresh: "fresh_connection me s" and plain: "\<And>r. Ready r \<in> set evs \<or> Polled r \<in> set evs \<Longrightarrow> plain_events r"
    and run: "and_then (TcpConnection_connectEstablished me (user_callbacks me prog n) s)
                (\<lambda>s. for_each (TcpConnection_event me (user_callbacks me prog n)) s evs) = Inr s'"
  shows "conn_inv me s' \<and> conn_state s' \<noteq> kConnecting \<and>
    (no_empty_message prog \<and> (\<forall>c. Called c \<in> set evs \<longrightarrow> says_something c) \<longrightarrow> unstalled s')"
proof -
  let ?cbs = "user_callbacks me prog n"
  have st: "conn_state s = kConnecting" using fresh by (simp add: fresh_connection_def)
  note inv = fresh_connection_inv [OF fresh]
  obtain s1 where s1: "TcpConnection_connectEstablished me ?cbs s = Inr s1"
    "for_each (TcpConnection_event me ?cbs) s1 evs = Inr s'"
    using run unfolding and_then_eq_Inr by blast
  have i1: "conn_inv me s1" "1 \<le> state_rank (conn_state s1)"
    using cu.connectEstablished_ok [OF inv st, of prog n] s1(1) by simp_all
  have "conn_inv me s' \<and> conn_next stack_fault s1 s'"
    using cu.events_or_overtaken [OF i1(1) plain, of evs prog n] s1(2) by (simp add: stack_fault_def)
  moreover have "unstalled s'" if prog: "no_empty_message prog" "\<forall>c. Called c \<in> set evs \<longrightarrow> says_something c"
    by (rule cu.life_unstalled [OF inv st user_callbacks_flow [OF prog(1)] _ run])
      (use prog(2) call_unstalled [OF user_callbacks_keep user_callbacks_flow [OF prog(1)]] in blast)
  ultimately show ?thesis using i1(2) by (auto simp: conn_next_def)
qed

text \<open>
  C1: Whatever a program does in its callbacks, whatever the kernel reports and however it splits
  reads and writes: a connection never touches a freed object and never has an \<open>epoll_ctl\<close> fail; it
  fails only because the stack runs out or, by an assertion, when a report that was polled earlier in
  the turn is dispatched after the connection was closed. The bytes on the wire, followed by the
  output buffer, are exactly the bytes handed to \<open>send\<close>, in order. The descriptor is watched for
  reading while the connection is open, for writing too while output is buffered, and not at all once
  it is disconnected. While it is disconnecting, either the write direction has been shut down after
  the last byte, or write events are asked for. If no message is empty, write events are asked for
  only while output is buffered, so that the write direction is then shut down exactly when nothing
  is left to write.
\<close>

theorem connection_sound:
  assumes "fresh_connection me s" and "\<And>r. Ready r \<in> set evs \<or> Polled r \<in> set evs \<Longrightarrow> plain_events r"
  shows "case and_then (TcpConnection_connectEstablished me (user_callbacks me prog n) s)
                (\<lambda>s. for_each (TcpConnection_event me (user_callbacks me prog n)) s evs) of
           Inl x \<Rightarrow> x = StackOverflow \<or> x = AssertionFailed \<and>
             (\<exists>evs1 r evs2 s1. evs = evs1 @ Polled r # evs2 \<and> conn_state s1 = kDisconnected \<and>
                and_then (TcpConnection_connectEstablished me (user_callbacks me prog n) s)
                  (\<lambda>s. for_each (TcpConnection_event me (user_callbacks me prog n)) s evs1) = Inr s1)
         | Inr s \<Rightarrow>
             handed_over s = wire s @ Buffer_content (outputBuffer s) \<and> ctl_failures (poller s) = 0 \<and>
             (if conn_state s = kDisconnected then interest (poller s) (ch_fd (conn_ch s)) = None
              else conn_open s \<and> interest (poller s) (ch_fd (conn_ch s)) \<in>
                {Some (kReadEvent, conn_channel s), Some (kReadEvent OR kWriteEvent, conn_channel s)}) \<and>
             (conn_open s \<and> Buffer_content (outputBuffer s) \<noteq> [] \<longrightarrow>
                interest (poller s) (ch_fd (conn_ch s)) = Some (kReadEvent OR kWriteEvent, conn_channel s)) \<and>
             (conn_state s = kDisconnecting \<longrightarrow>
                (if fin_sent s then wire s = handed_over s
                 else interest (poller s) (ch_fd (conn_ch s)) = Some (kReadEvent OR kWriteEvent, conn_channel s))) \<and>
             (conn_state s = kConnected \<longrightarrow> \<not> fin_sent s) \<and>
             (no_empty_message prog \<and> (\<forall>c. Called c \<in> set evs \<longrightarrow> says_something c) \<longrightarrow>
                (conn_open s \<and> Buffer_content (outputBuffer s) = [] \<longrightarrow>
                   interest (poller s) (ch_fd (conn_ch s)) = Some (kReadEvent, conn_channel s)) \<and>
                (conn_state s = kDisconnecting \<longrightarrow> (fin_sent s \<longleftrightarrow> Buffer_content (outputBuffer s) = [])))"
proof -
  let ?cbs = "user_callbacks me prog n"
  let ?run = "\<lambda>evs. and_then (TcpConnection_connectEstablished me ?cbs s)
                (\<lambda>s. for_each (TcpConnection_event me ?cbs) s evs)"
  have st: "conn_state s = kConnecting" using assms(1) by (simp add: fresh_connection_def)
  note inv = fresh_connection_inv [OF assms(1)]
  show ?thesis
  proof (cases "?run evs")
    case (Inl x)
    show ?thesis
    proof (cases "TcpConnection_connectEstablished me ?cbs s")
      case (Inl y)
      with cu.connectEstablished_ok [OF inv st, of prog n] \<open>?run evs = Inl x\<close> show ?thesis by (simp add: stack_fault_def)
    next
      case (Inr s1)
      then have "conn_inv me s1" using cu.connectEstablished_ok [OF inv st, of prog n] by simp
      from cu.events_or_overtaken [OF this assms(2), of evs prog n] Inl Inr
      have "x = StackOverflow \<or> x = AssertionFailed \<and> cu.overtaken me prog n s1 evs" by (simp add: stack_fault_def)
      moreover have "\<exists>evs1 r evs2 s2. evs = evs1 @ Polled r # evs2 \<and> conn_state s2 = kDisconnected \<and> ?run evs1 = Inr s2"
        if "cu.overtaken me prog n s1 evs"
      proof -
        obtain evs1 r evs2 s2 where e: "evs = evs1 @ Polled r # evs2" "?run evs1 = Inr s2" "\<not> conn_open s2"
          using \<open>cu.overtaken me prog n s1 evs\<close> Inr by (auto simp: cu.overtaken_def)
        have "conn_state s2 \<noteq> kConnecting"
          using life_ok [OF assms(1) _ e(2)] assms(2) unfolding e(1) by auto
        with e(3) have "conn_state s2 = kDisconnected" by (cases "conn_state s2") (simp_all add: conn_open_def)
        with e(1,2) show ?thesis by blast
      qed
      ultimately show ?thesis using Inl by auto
    qed
  next
    case (Inr s')
    note life = life_ok [OF assms Inr]
    then have i: "conn_inv me s'" and st': "conn_state s' \<noteq> kConnecting" by simp_all
    have op: "conn_state s' \<noteq> kDisconnected \<Longrightarrow> conn_open s'" using st' by (cases "conn_state s'") (simp_all add: conn_open_def)
    have silent: "fin_sent s' \<longleftrightarrow> Buffer_content (outputBuffer s') = []"
      if "unstalled s'" "conn_state s' = kDisconnecting"
      using conn_unstalled [OF i that(1)] conn_summary [OF i] that(2) by (auto simp: conn_open_def)
    have "if conn_state s' = kDisconnected then interest (poller s') (ch_fd (conn_ch s')) = None
        else conn_open s' \<and> interest (poller s') (ch_fd (conn_ch s')) \<in>
          {Some (kReadEvent, conn_channel s'), Some (kReadEvent OR kWriteEvent, conn_channel s')}"
      using conn_watched [OF i st'] op by (simp only: split: if_splits) blast+
    moreover have "no_empty_message prog \<and> (\<forall>c. Called c \<in> set evs \<longrightarrow> says_something c) \<longrightarrow>
        (conn_open s' \<and> Buffer_content (outputBuffer s') = [] \<longrightarrow>
           interest (poller s') (ch_fd (conn_ch s')) = Some (kReadEvent, conn_channel s')) \<and>
        (conn_state s' = kDisconnecting \<longrightarrow> (fin_sent s' \<longleftrightarrow> Buffer_content (outputBuffer s') = []))"
      using life silent conn_unstalled(1) [OF i] by blast
    ultimately show ?thesis using conn_summary [OF i] unfolding Inr sum.case by blast
  qed
qed

text \<open>
  C28: a report that was polled in the same turn is dispatched to a connection that a handler before it
  has closed by force: if the peer's end of stream is what is read, \<open>handleClose\<close> runs a second time and
  its assertion ends the process, whatever the program's callbacks do. Had the report been polled
  afterwards, there would have been none.
\<close>

theorem overtaken_report_asserts:
  assumes inv: "conn_inv me s" and op: "conn_open s"
    and close: "TcpConnection_event me (user_callbacks me prog n) s (Called ForceClose) = Inr s1"
    and eof: "socket_reads s1 = ReadData [] # rs"
  shows "TcpConnection_event me (user_callbacks me prog n) s1 (Polled EPOLLIN) = Inl AssertionFailed \<and>
         TcpConnection_event me (user_callbacks me prog n) s1 (Ready EPOLLIN) = Inr s1"
proof -
  let ?cbs = "user_callbacks me prog n"
  have i1: "conn_inv me s1"
    using cu.event_ok [OF inv, of "Called ForceClose" prog n] close by (simp add: conn_result_def)
  have "conn_wf me (s\<lparr>conn_state := kDisconnecting\<rparr>)"
    using inv op by (auto simp: conn_inv_def conn_pre_def conn_registered_def conn_open_def)
  from handleClose_disconnects [OF this user_callbacks_keep [of me prog n]] close op
  have closed: "\<not> conn_open s1" by (auto simp: TcpConnection_forceClose_def conn_open_def)
  then have ready: "TcpConnection_event me ?cbs s1 (Ready EPOLLIN) = Inr s1" using conn_open_interest [OF i1] by simp
  obtain p where p: "Channel_setRevents (conn_channel s1) EPOLLIN (poller s1) = Inr p"
    "conn_inv me (s1\<lparr>poller := p\<rparr>)" "ch_revents (conn_ch (s1\<lparr>poller := p\<rparr>)) = EPOLLIN"
    using setRevents_inv [OF i1] by metis
  let ?s = "s1\<lparr>poller := p\<rparr>"
  have b: "Buffer_inv (inputBuffer s1)" "threadId s1 = me" using i1 by (simp_all add: conn_inv_def conn_pre_def)
  obtain b' where b': "Buffer_readFd (inputBuffer s1) (ReadData []) = Inr (0, None, b')"
    using Buffer_readFd_data [OF b(1), of "[]"] by auto
  have "TcpConnection_handleRead me ?cbs ?s = Inl AssertionFailed"
    using b(2) b' eof closed handleClose_not_open [of "?s\<lparr>inputBuffer := b', socket_reads := rs\<rparr>" me ?cbs]
    by (simp add: TcpConnection_handleRead_def EventLoop_assertInLoopThread_def EventLoop_isInLoopThread_def
        next_read_def reads_after_def Let_def conn_open_def)
  moreover have "revents_of (conn_channel ?s) ?s = Inr EPOLLIN"
    using conn_channel_at [of me "[]" ?s] p(2,3)
    by (simp add: conn_inv_def revents_of_def TcpConnection_channel_def)
  moreover have "EPOLLIN AND EPOLLHUP = 0" "EPOLLIN AND EPOLLERR = 0" "EPOLLIN AND kReadEvent \<noteq> 0"
    by (simp_all add: event_masks)
  ultimately have "TcpConnection_dispatch me ?cbs ?s = Inl AssertionFailed"
    by (simp add: TcpConnection_dispatch_def Channel_handleEvent_def TcpConnection_events_def call_when_def)
  with p(1) ready show ?thesis by simp
qed

subsection \<open>End of a connection\<close>

text \<open>
  \<open>connectDestroyed\<close>, from any state of an established connection, removes the channel from
  the poller and the kernel, so that the channel can be freed; if the connection was still up it
  is taken down and its user told.
\<close>

lemma connectDestroyed_unregisters:
  assumes inv: "conn_inv me s" and st: "conn_state s \<noteq> kConnecting"
  shows "case TcpConnection_connectDestroyed me (user_callbacks me prog n) s of
           Inl x \<Rightarrow> x = StackOverflow
         | Inr s' \<Rightarrow> poller_inv (poller s') \<and> ch_index (conn_ch s') = kNew \<and>
             interest (poller s') (ch_fd (conn_ch s')) = None \<and> channels (poller s') (ch_fd (conn_ch s')) = None \<and>
             (conn_state s = kConnected \<longrightarrow> conn_state s' = kDisconnected)"
proof -
  let ?cb = "call_if_set (connectionCallback (user_callbacks me prog n))"
  let ?first = "if conn_state s = kConnected then
      and_then (Channel_change me DisableAll (conn_channel s) (s\<lparr>conn_state := kDisconnected\<rparr>)) ?cb
    else Inr s"
  have me: "threadId s = me" and wf: "conn_wf me s" using inv by (simp_all add: conn_inv_def conn_pre_def)
  have run: "TcpConnection_connectDestroyed me (user_callbacks me prog n) s =
      and_then ?first (\<lambda>s. EventLoop_removeChannel me (conn_channel s) s)"
    using me by (simp add: TcpConnection_connectDestroyed_def EventLoop_assertInLoopThread_def
        EventLoop_isInLoopThread_def)
  have cb: "keeps_conn me stack_fault ?cb"
    using user_callbacks_keep [of me prog n] by (simp add: keeps_conn_callbacks_def keeps_conn_if_set_def)
  have first: "case ?first of Inl x \<Rightarrow> x = StackOverflow
      | Inr s1 \<Rightarrow> conn_wf me s1 \<and> (conn_state s = kConnected \<longrightarrow> conn_state s1 = kDisconnected)"
  proof (cases "conn_state s = kConnected")
    case True
    from disconnect_wf [OF wf] True obtain s1 where
      s1: "Channel_change me DisableAll (conn_channel s) (s\<lparr>conn_state := kDisconnected\<rparr>) = Inr s1"
      "conn_wf me s1" "conn_state s1 = kDisconnected" by blast
    have "conn_state s2 = kDisconnected" if "?cb s1 = Inr s2" for s2
      using keeps_connD(2) [OF cb s1(2) that] s1(3) rank_disconnected [of "conn_state s2"] by (simp add: conn_next_def)
    with keeps_connD [OF cb s1(2)] s1 True show ?thesis
      by (auto simp: stack_fault_def split: sum.splits)
  qed (simp add: wf)
  show ?thesis
  proof (cases ?first)
    case (Inl x)
    with first show ?thesis unfolding run by simp
  next
    case (Inr s1)
    with first have s1: "conn_wf me s1" "conn_state s = kConnected \<longrightarrow> conn_state s1 = kDisconnected"
      by simp_all
    let ?c = "conn_ch s1"
    have c: "poller_inv (poller s1)" "channel_heap (poller s1) (conn_channel s1) = Some ?c"
      "sole_user (conn_channel s1) (ch_fd ?c) (poller s1)" "threadId s1 = me"
      using s1(1) by (auto simp: conn_pre_def conn_registered_def)
    let ?p = "removed (conn_channel s1) ?c (poller s1)"
    have "EventLoop_removeChannel me (conn_channel s1) s1 = Inr (s1\<lparr>poller := ?p\<rparr>)"
      by (rule EventLoop_removeChannel_ok [OF c(4,1,2,3)])
    moreover have "conn_ch (s1\<lparr>poller := ?p\<rparr>) = ?c\<lparr>ch_index := kNew\<rparr>"
      by (simp add: conn_ch_def removed_def)
    ultimately show ?thesis
      using removed_inv [OF c(1-3)] s1(2) unfolding run Inr by (simp add: removed_def)
  qed
qed

subsection \<open>Draining the output\<close>

lemma write_event:
  assumes inv: "conn_inv me s" and op: "conn_open s"
  obtains p where "TcpConnection_event me cbs s (Ready EPOLLOUT) = TcpConnection_handleWrite me cbs (s\<lparr>poller := p\<rparr>)"
    and "conn_inv me (s\<lparr>poller := p\<rparr>)" and "ch_events (conn_ch (s\<lparr>poller := p\<rparr>)) = ch_events (conn_ch s)"
proof -
  obtain p where p: "Channel_setRevents (conn_channel s) EPOLLOUT (poller s) = Inr p"
    "conn_inv me (s\<lparr>poller := p\<rparr>)" "ch_revents (conn_ch (s\<lparr>poller := p\<rparr>)) = EPOLLOUT"
    using setRevents_inv [OF inv] by metis
  let ?s = "s\<lparr>poller := p\<rparr>"
  have ev: "ch_events (conn_ch ?s) = ch_events (conn_ch s)"
    using p(1) by (auto simp: Channel_setRevents_def returned channel_at_def put_channel_def conn_ch_def
        split: option.splits)
  have r: "revents_of (conn_channel ?s) ?s = Inr EPOLLOUT"
    using conn_channel_at [of me "[]" ?s] p(2,3)
    by (simp add: conn_inv_def revents_of_def TcpConnection_channel_def)
  have masks: "EPOLLOUT AND EPOLLHUP = 0" "EPOLLOUT AND EPOLLERR = 0" "EPOLLOUT AND kReadEvent = 0"
    "EPOLLOUT AND kWriteEvent \<noteq> 0"
    by (simp_all add: event_masks)
  have "TcpConnection_dispatch me cbs ?s = TcpConnection_handleWrite me cbs ?s"
    using r by (simp add: TcpConnection_dispatch_def Channel_handleEvent_def TcpConnection_events_def
        call_when_def masks)
  with p ev op conn_open_interest [OF inv] show ?thesis by (intro that [of p]) simp_all
qed

lemma no_write_complete_keeps:
  "keeps_conn_callbacks me ok \<lparr>connectionCallback = None, messageCallback = None,
     writeCompleteCallback = None, connectionClosed = None\<rparr>"
  by (simp add: keeps_conn_callbacks_def)

text \<open>\<open>handleWrite\<close> calls no other callback.\<close>

definition only_write_complete :: "'s connection_callbacks \<Rightarrow> 's connection_callbacks" where
  "only_write_complete cbs = \<lparr>connectionCallback = None, messageCallback = None,
     writeCompleteCallback = writeCompleteCallback cbs, connectionClosed = None\<rparr>"

lemma handleWrite_only_complete:
  "TcpConnection_handleWrite me cbs = TcpConnection_handleWrite me (only_write_complete cbs)"
  by (rule ext) (simp only: TcpConnection_handleWrite_def only_write_complete_def connection_callbacks.simps)

lemma handleWrite_quiet:
  assumes "writeCompleteCallback cbs = None"
  shows "TcpConnection_handleWrite me cbs =
         TcpConnection_handleWrite me \<lparr>connectionCallback = None, messageCallback = None,
           writeCompleteCallback = None, connectionClosed = None\<rparr>"
  by (rule ext) (simp only: TcpConnection_handleWrite_def assms connection_callbacks.simps)

lemma Channel_change_frame:
  "Channel_change me ch a s = Inr s' \<Longrightarrow> \<exists>p. s' = s\<lparr>poller := p\<rparr>"
  by (auto simp: Channel_change_def EventLoop_updateChannel_def returned)

text \<open>A write-complete callback that makes no call on the connection, but may keep a record in its context.\<close>

definition only_context ::
    "(('f, 'x, 'z) tcp_connection_scheme \<Rightarrow> ('f, 'x, 'z) tcp_connection_scheme res) \<Rightarrow> bool" where
  "only_context f \<longleftrightarrow> (\<forall>s. \<exists>x. f s = Inr (s\<lparr>conn_context := x\<rparr>))"

lemma only_context_none [simp]: "only_context (call_if_set None)"
  unfolding only_context_def
proof
  fix s
  show "\<exists>x. call_if_set None s = Inr (s\<lparr>conn_context := x\<rparr>)" by (intro exI [of _ "conn_context s"]) simp
qed

lemma only_context_keeps:
  fixes f :: "('f, 'x, 'z) tcp_connection_scheme \<Rightarrow> ('f, 'x, 'z) tcp_connection_scheme res"
  assumes "only_context f"
  shows "keeps_conn me (\<lambda>_ _. False) f"
  unfolding keeps_conn_def
proof (intro allI impI)
  fix s :: "('f, 'x, 'z) tcp_connection_scheme"
  assume wf: "conn_wf me s"
  obtain x where "f s = Inr (s\<lparr>conn_context := x\<rparr>)" using assms unfolding only_context_def by blast
  with wf show "case f s of Inl x \<Rightarrow> False
      | Inr s' \<Rightarrow> conn_wf me s' \<and> (fin_due s \<longrightarrow> fin_due s') \<and> conn_next (\<lambda>_ _. False) s s'"
    by (simp add: conn_pre_def conn_registered_def fin_due_def conn_next_def split: ConnState.splits)
qed

lemma handleWrite_progress:
  assumes inv: "conn_inv me s" and op: "conn_open s" and out: "Buffer_content (outputBuffer s) \<noteq> []"
    and wr: "socket_writes s = Wrote (Suc k) # ws" and quiet: "only_context (call_if_set (writeCompleteCallback cbs))"
  obtains s' where "TcpConnection_handleWrite me cbs s = Inr s'" and "conn_inv me s'"
    and "conn_state s' = conn_state s" and "socket_writes s' = ws" and "handed_over s' = handed_over s"
    and "Buffer_content (outputBuffer s') = drop (Suc k) (Buffer_content (outputBuffer s))"
    and "Buffer_content (outputBuffer s') = [] \<Longrightarrow> ch_events (conn_ch s') = kReadEvent"
proof -
  let ?wc = "call_if_set (writeCompleteCallback cbs)"
  let ?data = "Buffer_content (outputBuffer s)"
  have wf: "conn_wf me s" "threadId s = me" and b: "Buffer_inv (outputBuffer s)"
    using inv by (simp_all add: conn_inv_def conn_pre_def)
  have ev: "ch_events (conn_ch s) = kReadEvent OR kWriteEvent" "\<not> fin_sent s"
    using inv op out by (auto simp: conn_inv_def conn_pre_def conn_registered_def conn_open_def)
  have writing: "TcpConnection_isWriting s = Inr True"
    using conn_channel_at [OF wf(1)] ev(1) by (simp add: TcpConnection_isWriting_def)
  define n where "n = min (Suc k) (length ?data)"
  define s1 where "s1 = s\<lparr>socket_writes := ws, wire := wire s @ take (Suc k) ?data,
               outputBuffer := Buffer_retrieve (outputBuffer s) n\<rparr>"
  have n: "0 < int n" using out by (simp add: n_def)
  have s1: "poller s1 = poller s" "conn_channel s1 = conn_channel s" "conn_state s1 = conn_state s"
    "threadId s1 = threadId s" "socket_writes s1 = ws" "handed_over s1 = handed_over s"
    "conn_ch s1 = conn_ch s"
    "Buffer_content (outputBuffer s1) = drop (Suc k) ?data" "Buffer_inv (outputBuffer s1)"
    using b by (simp_all add: s1_def conn_ch_def n_def min_def)
  have wrote: "sockets_write ?data s = (int n, s\<lparr>socket_writes := ws, wire := wire s @ take (Suc k) ?data\<rparr>)"
    using ev(2) wr by (simp add: sockets_write_def n_def)
  have run: "TcpConnection_handleWrite me cbs s =
      (if drop (Suc k) ?data = [] then
         and_then (Channel_change me DisableWriting (conn_channel s1) s1) (\<lambda>s.
         and_then (?wc s) (\<lambda>s.
         if conn_state s = kDisconnecting then TcpConnection_shutdownInLoop me s else Inr s))
       else Inr s1)"
    using wf(2) writing Buffer_writeFd_eq [OF b] wrote n s1(8) readable_zero [OF s1(9)]
    by (simp add: TcpConnection_handleWrite_def EventLoop_assertInLoopThread_def
        EventLoop_isInLoopThread_def Let_def s1_def)
  have "conn_result me (\<lambda>_ _. False) s (TcpConnection_handleWrite me (only_write_complete cbs) s)"
    using only_context_keeps [OF quiet, of me]
    by (intro handleWrite_ok [OF inv])
      (simp add: keeps_conn_callbacks_def only_write_complete_def keeps_conn_if_set_def [of me _ "writeCompleteCallback cbs"])
  then have "conn_result me (\<lambda>_ _. False) s (TcpConnection_handleWrite me cbs s)"
    by (simp only: handleWrite_only_complete [symmetric])
  then obtain s' where s': "TcpConnection_handleWrite me cbs s = Inr s'" "conn_inv me s'"
    by (auto simp: conn_result_def split: sum.splits)
  have c: "poller_inv (poller s)" "channel_heap (poller s) (conn_channel s) = Some (conn_ch s)"
    "sole_user (conn_channel s) (ch_fd (conn_ch s)) (poller s)"
    using wf(1) by (auto simp: conn_pre_def conn_registered_def)
  let ?s2 = "s1\<lparr>poller := updated (conn_channel s) (conn_ch s) kReadEvent (poller s)\<rparr>"
  obtain x where x: "?wc ?s2 = Inr (?s2\<lparr>conn_context := x\<rparr>)" using quiet unfolding only_context_def by blast
  define s2 where "s2 = ?s2\<lparr>conn_context := x\<rparr>"
  have change: "Channel_change me DisableWriting (conn_channel s1) s1 = Inr ?s2"
    using Channel_change_ok [of s1 me "conn_channel s1" "conn_ch s" DisableWriting] c wf(2) ev(1) s1 by simp
  have s2: "ch_events (conn_ch s2) = kReadEvent" "conn_state s2 = conn_state s1"
    "socket_writes s2 = socket_writes s1" "handed_over s2 = handed_over s1" "outputBuffer s2 = outputBuffer s1"
    using s1(2) by (simp_all add: s2_def conn_ch_def updated_def)
  show ?thesis
  proof (cases "drop (Suc k) ?data = []")
    case False
    with s'(1) run have "s' = s1" by simp
    with s1 False show ?thesis by (intro that [OF s']) simp_all
  next
    case True
    with s'(1) run change x [folded s2_def] have last:
      "(if conn_state s2 = kDisconnecting then TcpConnection_shutdownInLoop me s2 else Inr s2) = Inr s'"
      by simp
    have "s' = s2 \<or> s' = s2\<lparr>fin_sent := True\<rparr>"
    proof (cases "conn_state s2 = kDisconnecting")
      case True
      show ?thesis by (rule shutdownInLoop_frame [OF last [unfolded if_P [OF True]]])
    next
      case False
      from last [unfolded if_not_P [OF False]] show ?thesis by (simp only: sum.inject simp_thms)
    qed
    with s1 s2 show ?thesis by (intro that [OF s']) auto
  qed
qed

lemma handleWrite_idle:
  assumes "conn_inv me s" and "ch_events (conn_ch s) = kReadEvent"
  shows "TcpConnection_handleWrite me cbs s = Inr s"
  using assms conn_channel_at [of me "[]" s]
  by (simp add: TcpConnection_handleWrite_def TcpConnection_isWriting_def conn_inv_def conn_pre_def
      EventLoop_assertInLoopThread_def EventLoop_isInLoopThread_def)

definition drained :: "('f, 'x, 'z) tcp_connection_scheme \<Rightarrow> bool" where
  "drained s \<longleftrightarrow> Buffer_content (outputBuffer s) = [] \<and> ch_events (conn_ch s) = kReadEvent"

lemma drain_events:
  assumes "conn_inv me s" and "conn_open s" and quiet: "only_context (call_if_set (writeCompleteCallback cbs))"
    and "socket_writes s = map (\<lambda>k. Wrote (Suc k)) ks" and "n \<le> length ks"
    and "length (Buffer_content (outputBuffer s)) \<le> n"
    and "Buffer_content (outputBuffer s) \<noteq> [] \<or> drained s"
  shows "\<exists>s'. for_each (TcpConnection_event me cbs) s (replicate n (Ready EPOLLOUT)) = Inr s' \<and>
              conn_inv me s' \<and> conn_state s' = conn_state s \<and> handed_over s' = handed_over s \<and> drained s'"
  using assms(1,2,4-)
proof (induction n arbitrary: s ks)
  case 0
  then show ?case by auto
next
  case (Suc n)
  let ?out = "Buffer_content (outputBuffer s)"
  obtain p where p: "TcpConnection_event me cbs s (Ready EPOLLOUT) = TcpConnection_handleWrite me cbs (s\<lparr>poller := p\<rparr>)"
    "conn_inv me (s\<lparr>poller := p\<rparr>)" "ch_events (conn_ch (s\<lparr>poller := p\<rparr>)) = ch_events (conn_ch s)"
    using write_event [OF Suc.prems(1,2)] by metis
  let ?s = "s\<lparr>poller := p\<rparr>"
  have op: "conn_open ?s" using Suc.prems(2) by (simp add: conn_open_def)
  have "\<exists>s1 ks1. TcpConnection_handleWrite me cbs ?s = Inr s1 \<and> conn_inv me s1 \<and>
      conn_state s1 = conn_state s \<and> handed_over s1 = handed_over s \<and>
      socket_writes s1 = map (\<lambda>k. Wrote (Suc k)) ks1 \<and> n \<le> length ks1 \<and>
      length (Buffer_content (outputBuffer s1)) \<le> n \<and>
      (Buffer_content (outputBuffer s1) \<noteq> [] \<or> drained s1)"
  proof (cases "?out = []")
    case True
    then have d: "drained ?s" using Suc.prems(6) p(3) by (simp add: drained_def)
    with handleWrite_idle [OF p(2)] p(2) Suc.prems(3,4) True show ?thesis
      by (intro exI [of _ ?s] exI [of _ ks]) (simp add: drained_def)
  next
    case False
    obtain k ks1 where ks: "ks = k # ks1" using Suc.prems(4) by (cases ks) auto
    obtain s1 where s1: "TcpConnection_handleWrite me cbs ?s = Inr s1" "conn_inv me s1"
      "conn_state s1 = conn_state s" "socket_writes s1 = map (\<lambda>k. Wrote (Suc k)) ks1"
      "handed_over s1 = handed_over s" "Buffer_content (outputBuffer s1) = drop (Suc k) ?out"
      "Buffer_content (outputBuffer s1) = [] \<Longrightarrow> ch_events (conn_ch s1) = kReadEvent"
      using handleWrite_progress [OF p(2) op _ _ quiet, of k "map (\<lambda>k. Wrote (Suc k)) ks1"]
        False Suc.prems(3) ks by auto
    have "drained s1" if "Buffer_content (outputBuffer s1) = []"
      using s1(7) that by (simp add: drained_def)
    with s1 Suc.prems(4,5) ks show ?thesis by (intro exI [of _ s1] exI [of _ ks1]) auto
  qed
  then obtain s1 ks1 where s1: "TcpConnection_handleWrite me cbs ?s = Inr s1" "conn_inv me s1"
      "conn_state s1 = conn_state s" "handed_over s1 = handed_over s"
      "socket_writes s1 = map (\<lambda>k. Wrote (Suc k)) ks1" "n \<le> length ks1"
      "length (Buffer_content (outputBuffer s1)) \<le> n"
      "Buffer_content (outputBuffer s1) \<noteq> [] \<or> drained s1" by blast
  have "conn_open s1" using Suc.prems(2) s1(3) by (simp add: conn_open_def)
  from Suc.IH [OF s1(2) this s1(5-8)] s1(1,3,4) p(1) show ?case by auto
qed

text \<open>
  C15: Buffered output drains. An open connection that has output buffered, or asks for no write events,
  and whose write-complete callback, if it is set, makes no call on it: if the kernel accepts at least a
  byte on each write event, then after as many events as there are bytes all that was handed over is on
  the wire, write events are no longer asked for, and a connection that was shutting down has closed its
  write direction.
\<close>

theorem connection_drains:
  assumes inv: "conn_inv me s" and op: "conn_open s"
    and quiet: "only_context (call_if_set (writeCompleteCallback cbs))"
    and wr: "socket_writes s = map (\<lambda>k. Wrote (Suc k)) ks"
    and len: "length (Buffer_content (outputBuffer s)) \<le> length ks"
    and out: "Buffer_content (outputBuffer s) \<noteq> [] \<or>
      interest (poller s) (ch_fd (conn_ch s)) = Some (kReadEvent, conn_channel s)"
  shows "\<exists>s'. for_each (TcpConnection_event me cbs) s (replicate (length ks) (Ready EPOLLOUT)) = Inr s' \<and>
              wire s' = handed_over s \<and> conn_state s' = conn_state s \<and>
              interest (poller s') (ch_fd (conn_ch s')) = Some (kReadEvent, conn_channel s') \<and>
              (conn_state s = kDisconnecting \<longrightarrow> fin_sent s')"
proof -
  have "Buffer_content (outputBuffer s) \<noteq> [] \<or> drained s"
    using out conn_open_interest [OF inv] op by (auto simp: drained_def)
  with drain_events [OF inv op quiet wr order_refl len] obtain s' where
    s': "for_each (TcpConnection_event me cbs) s (replicate (length ks) (Ready EPOLLOUT)) = Inr s'"
    "conn_inv me s'" "conn_state s' = conn_state s" "handed_over s' = handed_over s" "drained s'" by blast
  then have "wire s' = handed_over s" by (simp add: conn_inv_def conn_pre_def drained_def)
  moreover have "conn_open s'" using op s'(3) by (simp add: conn_open_def)
  then have "interest (poller s') (ch_fd (conn_ch s')) = Some (kReadEvent, conn_channel s')"
    using conn_open_interest [OF s'(2)] s'(5) by (simp add: drained_def)
  moreover have "conn_state s = kDisconnecting \<longrightarrow> fin_sent s'"
    using s'(2,3,5) by (simp add: conn_inv_def fin_due_def drained_def)
  ultimately show ?thesis using s'(1,3) by blast
qed

subsection \<open>Examples\<close>

text \<open>
  A connection on descriptor 7: when it comes up the program sends five bytes, of which the socket
  takes two, and shuts down; the rest goes out on the next write event.
\<close>

definition example_connection :: "(nat, unit) tcp_connection" where
  "example_connection =
     \<lparr>threadId = 1, looping = True, quit = False,
      poller = put_channel 80 (Channel_new 7) EPollPoller_new,
      pendingFunctors = [], callingPendingFunctors = False, wakeupChannel = 64, wakeups = 0,
      timerfdChannel = 72, timerQueue = TimerQueue_new 1 (Timestamp 0),
      conn_name = ''c'', conn_state = kConnecting, conn_channel = 80, inputBuffer = Buffer_new,
      outputBuffer = Buffer_new, conn_context = None, socket_reads = [ReadData ''abc''],
      socket_writes = [Wrote 2, Wrote 1, Wrote 1, Wrote 1], wire = [], fin_sent = False, handed_over = []\<rparr>"

definition example_program :: "((nat, unit) tcp_connection, nat) program" where
  "example_program =
     \<lparr>on_connection = (\<lambda>s. if conn_state s = kConnected then [Send ''hello'', Shutdown, Send ''late''] else []),
      on_message = (\<lambda>s. [TakeInput 3]), on_write_complete = (\<lambda>s. []), on_close = (\<lambda>s. [Enqueue 0])\<rparr>"

lemma example_connection_fresh: "fresh_connection 1 example_connection"
  using put_new_channel_inv [OF EPollPoller_new_inv, of 80 7]
  by (simp add: fresh_connection_def example_connection_def conn_ch_def put_channel_def Channel_new_def
      EPollPoller_new_def)

definition example_start :: "(nat, unit) tcp_connection res" where
  "example_start =
     TcpConnection_connectEstablished 1 (user_callbacks 1 example_program 2) example_connection"

lemma example_start_result:
  "case example_start of
     Inl x \<Rightarrow> False
   | Inr s \<Rightarrow> wire s = ''he'' \<and> Buffer_content (outputBuffer s) = ''llo'' \<and> \<not> fin_sent s \<and>
             conn_state s = kDisconnecting \<and> socket_writes s = [Wrote 1, Wrote 1, Wrote 1] \<and>
             handed_over s = ''hello''"
  by code_simp

lemma example_start_inv:
  obtains s where "example_start = Inr s" and "conn_inv 1 s" and "conn_state s = kDisconnecting"
    and "Buffer_content (outputBuffer s) = ''llo''" and "socket_writes s = [Wrote 1, Wrote 1, Wrote 1]"
    and "handed_over s = ''hello''"
  using example_start_result
    cu.connectEstablished_ok [OF fresh_connection_inv [OF example_connection_fresh], of example_program 2]
    example_connection_fresh
  by (auto simp: example_start_def fresh_connection_def split: sum.splits)

lemma connection_sound_witness:
  "\<exists>s. and_then (TcpConnection_connectEstablished 1 (user_callbacks 1 example_program 2) example_connection)
          (\<lambda>s. for_each (TcpConnection_event 1 (user_callbacks 1 example_program 2)) s
                 (replicate 3 (Ready EPOLLOUT))) = Inr s \<and>
       fin_sent s \<and> wire s = ''hello'' \<and> handed_over s = ''hello''"
proof -
  let ?life = "and_then (TcpConnection_connectEstablished 1 (user_callbacks 1 example_program 2) example_connection)
          (\<lambda>s. for_each (TcpConnection_event 1 (user_callbacks 1 example_program 2)) s
                 (replicate 3 (Ready EPOLLOUT)))"
  have "case ?life of Inl x \<Rightarrow> False
      | Inr s \<Rightarrow> fin_sent s \<and> wire s = ''hello'' \<and> conn_state s = kDisconnecting"
    by code_simp
  then obtain s where s: "?life = Inr s" "fin_sent s" "wire s = ''hello''" "conn_state s = kDisconnecting"
    by (auto split: sum.splits)
  have "plain_events r" if "Ready r \<in> set (replicate 3 (Ready EPOLLOUT) :: nat conn_event list) \<or>
      Polled r \<in> set (replicate 3 (Ready EPOLLOUT) :: nat conn_event list)" for r
    using that by (auto simp: plain_events_def event_masks)
  from connection_sound [where prog = example_program and n = 2 and evs = "replicate 3 (Ready EPOLLOUT)",
      OF example_connection_fresh this, unfolded s(1)] s(2-4)
  have "handed_over s = ''hello''" by simp
  with s show ?thesis by blast
qed

lemma connectDestroyed_unregisters_witness:
  "\<exists>s. example_start = Inr s \<and>
     (case TcpConnection_connectDestroyed 1 (user_callbacks 1 example_program 2) s of
        Inl x \<Rightarrow> x = StackOverflow
      | Inr s' \<Rightarrow> interest (poller s') (ch_fd (conn_ch s')) = None)"
proof -
  obtain s where s: "example_start = Inr s" "conn_inv 1 s" "conn_state s = kDisconnecting"
    using example_start_inv by blast
  then have "conn_state s \<noteq> kConnecting" by simp
  from connectDestroyed_unregisters [OF s(2) this, of example_program 2] s(1) show ?thesis
    by (intro exI [of _ s]) (auto split: sum.splits)
qed

text \<open>The write-complete callback of this program notes that it was called.\<close>

definition noting_callbacks :: "(nat, unit) tcp_connection connection_callbacks" where
  "noting_callbacks = \<lparr>connectionCallback = None, messageCallback = None,
     writeCompleteCallback = Some (\<lambda>s. Inr (s\<lparr>conn_context := Some ()\<rparr>)), connectionClosed = None\<rparr>"

lemma connection_drains_witness:
  "\<exists>s s'. example_start = Inr s \<and>
     for_each (TcpConnection_event 1 noting_callbacks) s (replicate 3 (Ready EPOLLOUT)) = Inr s' \<and>
     wire s' = ''hello'' \<and> fin_sent s'"
proof -
  obtain s where s: "example_start = Inr s" "conn_inv 1 s" "conn_state s = kDisconnecting"
    "Buffer_content (outputBuffer s) = ''llo''" "socket_writes s = [Wrote 1, Wrote 1, Wrote 1]"
    "handed_over s = ''hello''"
    using example_start_inv by blast
  then have "conn_open s" "socket_writes s = map (\<lambda>k. Wrote (Suc k)) [0, 0, 0]"
    "length (Buffer_content (outputBuffer s)) \<le> length [0::nat, 0, 0]"
    "Buffer_content (outputBuffer s) \<noteq> [] \<or>
       interest (poller s) (ch_fd (conn_ch s)) = Some (kReadEvent, conn_channel s)"
    by (simp_all add: conn_open_def)
  moreover have "only_context (call_if_set (writeCompleteCallback noting_callbacks))"
    by (auto simp: only_context_def noting_callbacks_def)
  ultimately obtain s' where
    "for_each (TcpConnection_event 1 noting_callbacks) s (replicate (length [0::nat, 0, 0]) (Ready EPOLLOUT)) = Inr s'"
    "wire s' = handed_over s" "fin_sent s'"
    using connection_drains [OF s(2)] s(3) by blast
  moreover have "length [0::nat, 0, 0] = 3" by simp
  ultimately show ?thesis using s(1,6) by metis
qed

text \<open>The peer has closed, and the connection is closed by force before the report is dispatched.\<close>

lemma overtaken_report_asserts_witness:
  "\<exists>s s1. TcpConnection_connectEstablished 1 (user_callbacks 1 example_program 2)
        (example_connection\<lparr>socket_reads := [ReadData []]\<rparr>) = Inr s \<and>
     TcpConnection_event 1 (user_callbacks 1 example_program 2) s (Called ForceClose) = Inr s1 \<and>
     TcpConnection_event 1 (user_callbacks 1 example_program 2) s1 (Polled EPOLLIN) = Inl AssertionFailed"
proof -
  let ?cbs = "user_callbacks 1 example_program 2"
  let ?s = "example_connection\<lparr>socket_reads := [ReadData []]\<rparr>"
  have fresh: "fresh_connection 1 ?s" and st: "conn_state ?s = kConnecting"
    using example_connection_fresh by (simp_all add: fresh_connection_def)
  have "case TcpConnection_connectEstablished 1 ?cbs ?s of Inl x \<Rightarrow> False
      | Inr s \<Rightarrow> conn_state s = kDisconnecting \<and>
          (case TcpConnection_event 1 ?cbs s (Called ForceClose) of Inl x \<Rightarrow> False
           | Inr s1 \<Rightarrow> socket_reads s1 = [ReadData []])"
    by code_simp
  then obtain s s1 where s: "TcpConnection_connectEstablished 1 ?cbs ?s = Inr s" "conn_state s = kDisconnecting"
    "TcpConnection_event 1 ?cbs s (Called ForceClose) = Inr s1" "socket_reads s1 = [ReadData []]"
    by (auto split: sum.splits simp del: TcpConnection_event.simps)
  have "conn_inv 1 s"
    using cu.connectEstablished_ok [OF fresh_connection_inv [OF fresh] st, of example_program 2] s(1) by simp
  moreover have "conn_open s" using s(2) by (simp add: conn_open_def)
  ultimately show ?thesis using overtaken_report_asserts [OF _ _ s(3,4)] s(1,3) by blast
qed

end
