(* ===== verification/Stream_Apps.thy ===== *)
theory Stream_Apps
  imports Connection_Life
begin

text \<open>
  Applications on a TcpConnection (src/net/tcp_connection.cpp): what a callback sees of a
  connection is its state, the unread input, its context and the output so far (\<open>app_view\<close>). The
  locale \<open>stream_app\<close> is the contract of an application whose message callback acts on that view by
  a function \<open>react\<close>; in return the whole connection, for every way the kernel cuts reads and
  writes, acts by folding \<open>react\<close> over the received pieces. The echo server of
  examples/echo/echo_server.cpp is the first instance.
\<close>

unbundle bit_operations_syntax

section \<open>Applications on a connection\<close>

record 'x app_view =
  v_state :: ConnState
  v_input :: "char list"
  v_context :: "'x option"
  v_output :: "char list"

definition view_of :: "('f, 'x, 'z) tcp_connection_scheme \<Rightarrow> 'x app_view" where
  "view_of s = \<lparr>v_state = conn_state s, v_input = Buffer_content (inputBuffer s),
     v_context = conn_context s, v_output = handed_over s\<rparr>"

lemma view_of_simps [simp]:
  "v_state (view_of s) = conn_state s" "v_input (view_of s) = Buffer_content (inputBuffer s)"
  "v_context (view_of s) = conn_context s" "v_output (view_of s) = handed_over s"
  by (simp_all add: view_of_def)

text \<open>Operations that leave the view and the coming input alone.\<close>

definition same_view ::
    "('f, 'x, 'z) tcp_connection_scheme \<Rightarrow> ('f, 'x, 'z) tcp_connection_scheme \<Rightarrow> bool" where
  "same_view s s' \<longleftrightarrow> view_of s' = view_of s \<and> socket_reads s' = socket_reads s \<and>
     inputBuffer s' = inputBuffer s"

lemma same_view_refl [simp]: "same_view s s"
  by (simp add: same_view_def)

lemma same_view_trans: "same_view s t \<Longrightarrow> same_view t u \<Longrightarrow> same_view s u"
  by (simp add: same_view_def)

lemma same_view_fields [simp]:
  "same_view s (s\<lparr>poller := p\<rparr>)" "same_view s (s\<lparr>outputBuffer := b\<rparr>)" "same_view s (s\<lparr>fin_sent := f\<rparr>)"
  "same_view s (s\<lparr>socket_writes := w\<rparr>)" "same_view s (s\<lparr>socket_writes := w, wire := x\<rparr>)"
  by (simp_all add: same_view_def view_of_def)

lemma same_viewD: "same_view s s' \<Longrightarrow> conn_state s' = conn_state s"
  by (simp add: same_view_def view_of_def)

lemma Channel_change_view: "Channel_change me ch a s = Inr s' \<Longrightarrow> same_view s s'"
  using Channel_change_frame by force

lemma sockets_write_view: "sockets_write data s = (n, s') \<Longrightarrow> same_view s s'"
  by (auto simp: sockets_write_def split: if_splits list.splits write_result.splits)

lemma append_output_view: "append_output data s = Inr s' \<Longrightarrow> same_view s s'"
  by (auto simp: append_output_def returned)

lemma shutdownInLoop_view: "TcpConnection_shutdownInLoop me s = Inr s' \<Longrightarrow> same_view s s'"
  using shutdownInLoop_frame by force

lemma sendInLoop_view:
  assumes "TcpConnection_sendInLoop me None data s = Inr s'"
  shows "same_view s s'"
proof -
  obtain n s1 where wr: "sockets_write data s = (n, s1)" by force
  note s1 = sockets_write_view [OF wr]
  have cont: "same_view s s'"
    if "and_then (append_output xs s1) (Channel_change me EnableWriting (conn_channel s1)) = Inr s'" for xs
    using that s1 by (auto simp: returned)
      (meson append_output_view Channel_change_view same_view_trans)
  show ?thesis
    using assms wr s1 cont
    by (auto simp: TcpConnection_sendInLoop_def returned Let_def append_output_view split: if_splits)
qed

text \<open>Sending on a connection without write-complete callback: it always returns.\<close>

lemma send_quiet:
  fixes s :: "('f, 'x, 'z) tcp_connection_scheme"
  assumes wf: "conn_inv me s" and op: "conn_open s"
  obtains s' where "TcpConnection_send me None data s = Inr s'" and "conn_inv me s'"
    and "view_of s' = (view_of s)\<lparr>v_output :=
           if conn_state s = kConnected then handed_over s @ data else handed_over s\<rparr>"
    and "socket_reads s' = socket_reads s"
proof -
  have "keeps_conn me (\<lambda>_ _. False) (TcpConnection_send me None data ::
      ('f, 'x, 'z) tcp_connection_scheme \<Rightarrow> _)"
    by (rule send_keeps) simp
  from keeps_conn_result [OF this wf] obtain s' where
    s': "TcpConnection_send me None data s = Inr s'" "conn_inv me s'"
    by (auto simp: conn_result_def split: sum.splits)
  have "view_of s' = (view_of s)\<lparr>v_output :=
           if conn_state s = kConnected then handed_over s @ data else handed_over s\<rparr> \<and>
         socket_reads s' = socket_reads s"
    using s'(1) sendInLoop_view [of me data "s\<lparr>handed_over := handed_over s @ data\<rparr>" s']
    by (auto simp: TcpConnection_send_def same_view_def view_of_def split: if_splits)
  with s' that show ?thesis by blast
qed

lemma shutdown_quiet:
  fixes s :: "('f, 'x, 'z) tcp_connection_scheme"
  assumes wf: "conn_inv me s" and op: "conn_open s"
  obtains s' where "TcpConnection_shutdown me s = Inr s'" and "conn_inv me s'"
    and "view_of s' = (view_of s)\<lparr>v_state := kDisconnecting\<rparr>" and "socket_reads s' = socket_reads s"
proof -
  have "keeps_conn me (\<lambda>_ _. False) (TcpConnection_shutdown me ::
      ('f, 'x, 'z) tcp_connection_scheme \<Rightarrow> _)" by (rule shutdown_keeps)
  from keeps_conn_result [OF this wf] obtain s' where
    s': "TcpConnection_shutdown me s = Inr s'" "conn_inv me s'"
    by (auto simp: conn_result_def split: sum.splits)
  have "view_of s' = (view_of s)\<lparr>v_state := kDisconnecting\<rparr> \<and> socket_reads s' = socket_reads s"
    using s'(1) op shutdownInLoop_view [of me "s\<lparr>conn_state := kDisconnecting\<rparr>" s']
    by (auto simp: TcpConnection_shutdown_def conn_open_def same_view_def view_of_def split: if_splits)
  with s' that show ?thesis by blast
qed

lemma handleWrite_view:
  assumes quiet: "writeCompleteCallback cbs = None" and run: "TcpConnection_handleWrite me cbs s = Inr s'"
  shows "same_view s s'"
proof (cases "s' = s")
  case False
  with run have "TcpConnection_isWriting s = Inr True"
    by (auto simp: TcpConnection_handleWrite_def returned split: if_splits)
  with run obtain data where data: "Buffer_writeFd (outputBuffer s) = Inr data"
    by (auto simp: TcpConnection_handleWrite_def returned)
  obtain n s1 where wr: "sockets_write data s = (n, s1)" by force
  let ?s = "s1\<lparr>outputBuffer := Buffer_retrieve (outputBuffer s1) (nat n)\<rparr>"
  have rest: "(if 0 < n then
         (if Buffer_readableBytes (outputBuffer ?s) = 0 then
            and_then (Channel_change me DisableWriting (conn_channel ?s) ?s) (\<lambda>s.
            if conn_state s = kDisconnecting then TcpConnection_shutdownInLoop me s else Inr s)
          else Inr ?s)
       else Inr s1) = Inr s'"
    using run \<open>TcpConnection_isWriting s = Inr True\<close> data wr quiet
    by (auto simp: TcpConnection_handleWrite_def and_then_eq_Inr [of "EventLoop_assertInLoopThread me s"]
        Let_def)
  have s1: "same_view s s1" by (rule sockets_write_view [OF wr])
  then have s2: "same_view s ?s" by (simp add: same_view_def view_of_def)
  show ?thesis
  proof (cases "0 < n \<and> Buffer_readableBytes (outputBuffer ?s) = 0")
    case False
    with rest s1 s2 show ?thesis by (auto split: if_splits)
  next
    case True
    with rest obtain s3 where s3: "Channel_change me DisableWriting (conn_channel ?s) ?s = Inr s3"
      and s': "(if conn_state s3 = kDisconnecting then TcpConnection_shutdownInLoop me s3 else Inr s3) = Inr s'"
      by (auto simp: returned)
    have "same_view s3 s'" using s' shutdownInLoop_view by (auto split: if_splits)
    with s2 Channel_change_view [OF s3] show ?thesis by (meson same_view_trans)
  qed
qed simp

subsection \<open>Input\<close>

definition received :: "char list \<Rightarrow> 'x app_view \<Rightarrow> 'x app_view" where
  "received piece v = v\<lparr>v_input := v_input v @ piece\<rparr>"

lemma read_dispatch:
  assumes inv: "conn_inv me s" and op: "conn_open s"
  obtains p where "conn_inv me (s\<lparr>poller := p\<rparr>)" and "ch_revents (conn_ch (s\<lparr>poller := p\<rparr>)) = EPOLLIN"
    and "only_channel (conn_channel s) (poller s) p"
    and "(\<forall>t. TcpConnection_handleRead me cbs (s\<lparr>poller := p\<rparr>) = Inr t \<longrightarrow>
            revents_of (conn_channel s) t = Inr EPOLLIN) \<longrightarrow>
         TcpConnection_event me cbs s (Ready EPOLLIN) = TcpConnection_handleRead me cbs (s\<lparr>poller := p\<rparr>)"
proof -
  obtain p where p: "Channel_setRevents (conn_channel s) EPOLLIN (poller s) = Inr p"
    "conn_inv me (s\<lparr>poller := p\<rparr>)" "ch_revents (conn_ch (s\<lparr>poller := p\<rparr>)) = EPOLLIN"
    using setRevents_inv [OF inv] by metis
  let ?s = "s\<lparr>poller := p\<rparr>"
  have r: "revents_of (conn_channel ?s) ?s = Inr EPOLLIN"
    using conn_channel_at [of me "[]" ?s] p(2,3)
    by (simp add: conn_inv_def revents_of_def TcpConnection_channel_def)
  have masks: "EPOLLIN AND EPOLLHUP = 0" "EPOLLIN AND EPOLLERR = 0" "EPOLLIN AND kReadEvent \<noteq> 0"
    "EPOLLIN AND kWriteEvent = 0"
    by (simp_all add: event_masks)
  have "TcpConnection_dispatch me cbs ?s = TcpConnection_handleRead me cbs ?s"
    if after: "\<And>t. TcpConnection_handleRead me cbs ?s = Inr t \<Longrightarrow> revents_of (conn_channel s) t = Inr EPOLLIN"
  proof (cases "TcpConnection_handleRead me cbs ?s")
    case (Inl x)
    with r show ?thesis by (simp add: TcpConnection_dispatch_def Channel_handleEvent_def
          TcpConnection_events_def call_when_def masks)
  next
    case (Inr t)
    with r after [OF Inr] show ?thesis by (simp add: TcpConnection_dispatch_def Channel_handleEvent_def
          TcpConnection_events_def call_when_def masks)
  qed
  moreover have "TcpConnection_event me cbs s (Ready EPOLLIN) = TcpConnection_dispatch me cbs ?s"
    using p(1) op conn_open_interest [OF inv] by simp
  moreover have "only_channel (conn_channel s) (poller s) p"
    using p(1) by (auto simp: Channel_setRevents_def channel_at_def only_channel_def put_channel_def returned
        split: option.splits)
  ultimately show ?thesis using p(2,3) by (intro that [of p]) simp_all
qed

lemma read_event:
  assumes inv: "conn_inv me s" and op: "conn_open s"
    and input: "socket_reads s = ReadData piece # rs" and some: "piece \<noteq> []" and fits: "length piece \<le> kExtrabufSize"
    and rev: "callbacks_keep_revents cbs"
  obtains s1 where "TcpConnection_event me cbs s (Ready EPOLLIN) = call_if_set (messageCallback cbs) s1"
    and "conn_inv me s1" and "conn_open s1" and "view_of s1 = received piece (view_of s)"
    and "socket_reads s1 = rs"
proof -
  obtain p where p: "conn_inv me (s\<lparr>poller := p\<rparr>)" "ch_revents (conn_ch (s\<lparr>poller := p\<rparr>)) = EPOLLIN"
    "only_channel (conn_channel s) (poller s) p"
    and event: "(\<forall>t. TcpConnection_handleRead me cbs (s\<lparr>poller := p\<rparr>) = Inr t \<longrightarrow>
            revents_of (conn_channel s) t = Inr EPOLLIN) \<longrightarrow>
         TcpConnection_event me cbs s (Ready EPOLLIN) = TcpConnection_handleRead me cbs (s\<lparr>poller := p\<rparr>)"
    by (rule read_dispatch [OF inv op, of cbs])
  let ?s = "s\<lparr>poller := p\<rparr>"
  have b: "Buffer_inv (inputBuffer s)" "threadId s = me" using inv by (simp_all add: conn_inv_def conn_pre_def)
  have cap: "take (Buffer_readCapacity (inputBuffer s)) piece = piece"
    using fits by (simp add: Buffer_readCapacity_def Let_def)
  obtain b' where read: "Buffer_readFd (inputBuffer s) (ReadData piece) = Inr (int (length piece), None, b')"
    "Buffer_inv b'" "Buffer_content b' = Buffer_content (inputBuffer s) @ piece"
    using Buffer_readFd_data [OF b(1), of piece] cap by metis
  let ?s1 = "?s\<lparr>inputBuffer := b', socket_reads := rs\<rparr>"
  have s1: "conn_inv me ?s1" by (rule conn_inv_input [OF read(2) p(1)])
  have r: "revents_of (conn_channel s) ?s = Inr EPOLLIN"
    using conn_channel_at [of me "[]" ?s] p(1,2)
    by (simp add: conn_inv_def revents_of_def TcpConnection_channel_def)
  have "TcpConnection_handleRead me cbs ?s = call_if_set (messageCallback cbs) ?s1"
    using b(2) read(1) some input
    by (simp add: TcpConnection_handleRead_def EventLoop_assertInLoopThread_def EventLoop_isInLoopThread_def
        next_read_def reads_after_def Let_def)
  moreover have "revents_of (conn_channel s) t = Inr EPOLLIN" if "TcpConnection_handleRead me cbs ?s = Inr t" for t
    using revents_same [OF keeps_reventsD [OF handleRead_revents [OF rev] that]] r by simp
  then have "TcpConnection_event me cbs s (Ready EPOLLIN) = TcpConnection_handleRead me cbs ?s" using event by blast
  moreover have "view_of ?s1 = received piece (view_of s)"
    by (simp add: view_of_def received_def read(3))
  ultimately show ?thesis using s1 op by (intro that [of ?s1]) (simp_all add: conn_open_def)
qed

text \<open>
  The contract of an application: its callbacks keep the connection's invariant and, on an open
  connection, the message callback does to the view what \<open>react\<close> says, without taking the
  connection down.
\<close>

definition v_open :: "'x app_view \<Rightarrow> bool" where
  "v_open v \<longleftrightarrow> v_state v = kConnected \<or> v_state v = kDisconnecting"

fun react_pieces :: "('x app_view \<Rightarrow> 'x app_view res) \<Rightarrow> 'x app_view \<Rightarrow> char list list \<Rightarrow> 'x app_view res" where
  "react_pieces react v [] = Inr v"
| "react_pieces react v (piece # ps) =
     and_then (react (received piece v)) (\<lambda>v. react_pieces react v ps)"

text \<open>Pieces that one call of \<open>readv\<close> takes whole, however full the buffer is.\<close>

definition readable_pieces :: "char list list \<Rightarrow> bool" where
  "readable_pieces ps \<longleftrightarrow> (\<forall>p \<in> set ps. p \<noteq> [] \<and> length p \<le> kExtrabufSize)"

locale stream_app = connection_user me ok cbs
  for me :: tid and ok :: "'x option \<Rightarrow> fault \<Rightarrow> bool"
    and cbs :: "('f, 'x, 'z) tcp_connection_scheme connection_callbacks" +
  fixes greet :: "'x app_view \<Rightarrow> 'x app_view"
    and react :: "'x app_view \<Rightarrow> 'x app_view res"
  assumes no_write_complete: "writeCompleteCallback cbs = None"
    and connected: "conn_inv me s \<Longrightarrow> conn_state s = kConnected \<Longrightarrow>
      \<exists>s'. call_if_set (connectionCallback cbs) s = Inr s' \<and> view_of s' = greet (view_of s) \<and>
           socket_reads s' = socket_reads s \<and> v_open (greet (view_of s))"
    and message: "conn_inv me s \<Longrightarrow> conn_open s \<Longrightarrow>
      (case react (view_of s) of
         Inl x \<Rightarrow> call_if_set (messageCallback cbs) s = Inl x
       | Inr v \<Rightarrow> \<exists>s'. call_if_set (messageCallback cbs) s = Inr s' \<and> view_of s' = v \<and>
                    socket_reads s' = socket_reads s \<and> v_open v)"
begin

lemma read_ok:
  assumes inv: "conn_inv me s" and op: "conn_open s" and input: "socket_reads s = map ReadData (p # ps) @ rest"
    and ps: "readable_pieces (p # ps)"
  shows "case react (received p (view_of s)) of
           Inl x \<Rightarrow> TcpConnection_event me cbs s (Ready EPOLLIN) = Inl x
         | Inr v \<Rightarrow> \<exists>s'. TcpConnection_event me cbs s (Ready EPOLLIN) = Inr s' \<and> conn_inv me s' \<and>
                      conn_open s' \<and> view_of s' = v \<and> socket_reads s' = map ReadData ps @ rest"
proof -
  have p: "p \<noteq> []" "length p \<le> kExtrabufSize" using ps by (simp_all add: readable_pieces_def)
  obtain s1 where s1: "TcpConnection_event me cbs s (Ready EPOLLIN) = call_if_set (messageCallback cbs) s1"
    "conn_inv me s1" "conn_open s1" "view_of s1 = received p (view_of s)"
    "socket_reads s1 = map ReadData ps @ rest"
    using read_event [OF inv op _ p revents] input by (metis append_Cons list.simps(9))
  show ?thesis
  proof (cases "react (received p (view_of s))")
    case (Inl x)
    with message [OF s1(2,3)] s1(1,4) show ?thesis by simp
  next
    case (Inr v)
    with message [OF s1(2,3)] s1 obtain s' where
      s': "call_if_set (messageCallback cbs) s1 = Inr s'" "view_of s' = v" "socket_reads s' = map ReadData ps @ rest"
      "v_open v" by auto
    have "keeps_conn me ok (call_if_set (messageCallback cbs))"
      using keeps by (simp add: keeps_conn_callbacks_def keeps_conn_if_set_def)
    from keeps_conn_result [OF this s1(2)] s'(1) have "conn_inv me s'" by (simp add: conn_result_def)
    moreover have "conn_open s'" using s'(2,4) by (auto simp: v_open_def conn_open_def view_of_def)
    ultimately show ?thesis using Inr s1(1) s' by simp
  qed
qed

lemma write_ok:
  assumes inv: "conn_inv me s" and op: "conn_open s"
  obtains s' where "TcpConnection_event me cbs s (Ready EPOLLOUT) = Inr s'" and "conn_inv me s'"
    and "conn_open s'" and "view_of s' = view_of s" and "socket_reads s' = socket_reads s"
proof -
  obtain p where p: "TcpConnection_event me cbs s (Ready EPOLLOUT) = TcpConnection_handleWrite me cbs (s\<lparr>poller := p\<rparr>)"
    "conn_inv me (s\<lparr>poller := p\<rparr>)" using write_event [OF inv op] by metis
  have "conn_result me (\<lambda>_ _. False) (s\<lparr>poller := p\<rparr>) (TcpConnection_handleWrite me cbs (s\<lparr>poller := p\<rparr>))"
    using handleWrite_ok [OF p(2) no_write_complete_keeps, of "\<lambda>_ _. False"]
      handleWrite_quiet [OF no_write_complete] by simp
  then obtain s' where s': "TcpConnection_handleWrite me cbs (s\<lparr>poller := p\<rparr>) = Inr s'" "conn_inv me s'"
    by (auto simp: conn_result_def split: sum.splits)
  from handleWrite_view [OF no_write_complete s'(1)]
  have v: "view_of s' = view_of s" "socket_reads s' = socket_reads s" by (simp_all add: same_view_def view_of_def)
  then have "conn_open s'" using op by (simp add: view_of_def conn_open_def)
  with p(1) s' v show ?thesis by (intro that [of s']) simp_all
qed

lemma events_react:
  assumes "conn_inv me s" and "conn_open s" and "socket_reads s = map ReadData ps @ rest"
    and "readable_pieces ps" and "set evs \<subseteq> {Ready EPOLLIN, Ready EPOLLOUT}"
    and "length (filter (\<lambda>e. e = Ready EPOLLIN) evs) = length ps"
  shows "case react_pieces react (view_of s) ps of
           Inl x \<Rightarrow> for_each (TcpConnection_event me cbs) s evs = Inl x
         | Inr v \<Rightarrow> \<exists>s'. for_each (TcpConnection_event me cbs) s evs = Inr s' \<and> conn_inv me s' \<and>
                      conn_open s' \<and> view_of s' = v \<and> socket_reads s' = rest"
  using assms
proof (induction evs arbitrary: s ps)
  case Nil
  then show ?case by simp
next
  case (Cons ev evs)
  have evs: "set evs \<subseteq> {Ready EPOLLIN, Ready EPOLLOUT}" using Cons.prems(5) by simp
  show ?case
  proof (cases "ev = Ready EPOLLIN")
    case True
    then obtain p ps' where ps: "ps = p # ps'" using Cons.prems(6) by (cases ps) auto
    have rp: "readable_pieces ps'" using Cons.prems(4) by (simp add: ps readable_pieces_def)
    have len: "length (filter (\<lambda>e. e = Ready EPOLLIN) evs) = length ps'"
      using Cons.prems(6) True by (simp add: ps)
    note r = read_ok [OF Cons.prems(1,2) Cons.prems(3) [unfolded ps] Cons.prems(4) [unfolded ps]]
    show ?thesis
    proof (cases "react (received p (view_of s))")
      case (Inl x)
      with r show ?thesis by (simp add: True ps del: TcpConnection_event.simps)
    next
      case (Inr v)
      with r obtain s1 where s1: "TcpConnection_event me cbs s (Ready EPOLLIN) = Inr s1" "conn_inv me s1"
        "conn_open s1" "view_of s1 = v" "socket_reads s1 = map ReadData ps' @ rest" by auto
      have "for_each (TcpConnection_event me cbs) s (ev # evs) = for_each (TcpConnection_event me cbs) s1 evs"
        using s1(1) by (simp add: True del: TcpConnection_event.simps)
      moreover have "react_pieces react (view_of s) ps = react_pieces react (view_of s1) ps'"
        using Inr s1(4) by (simp add: ps)
      ultimately show ?thesis using Cons.IH [OF s1(2,3,5) rp evs len] by (simp only:)
    qed
  next
    case False
    then have ev: "ev = Ready EPOLLOUT" using Cons.prems(5) by simp
    obtain s1 where s1: "TcpConnection_event me cbs s (Ready EPOLLOUT) = Inr s1" "conn_inv me s1"
      "conn_open s1" "view_of s1 = view_of s" "socket_reads s1 = socket_reads s"
      by (rule write_ok [OF Cons.prems(1,2)])
    have len: "length (filter (\<lambda>e. e = Ready EPOLLIN) evs) = length ps"
      using Cons.prems(6) False by simp
    have "for_each (TcpConnection_event me cbs) s (ev # evs) = for_each (TcpConnection_event me cbs) s1 evs"
      using s1(1) by (simp add: ev del: TcpConnection_event.simps)
    moreover have "socket_reads s1 = map ReadData ps @ rest" using s1(5) Cons.prems(3) by simp
    ultimately show ?thesis using Cons.IH [OF s1(2,3) _ Cons.prems(4) evs len] s1(4) by (simp only:)
  qed
qed

lemma life_react:
  assumes inv: "conn_inv me s" and st: "conn_state s = kConnecting"
    and input: "socket_reads s = map ReadData ps @ rest" and ps: "readable_pieces ps"
    and evs: "set evs \<subseteq> {Ready EPOLLIN, Ready EPOLLOUT}"
    and len: "length (filter (\<lambda>e. e = Ready EPOLLIN) evs) = length ps"
  shows "case react_pieces react (greet ((view_of s)\<lparr>v_state := kConnected\<rparr>)) ps of
           Inl x \<Rightarrow> and_then (TcpConnection_connectEstablished me cbs s)
                      (\<lambda>s. for_each (TcpConnection_event me cbs) s evs) = Inl x
         | Inr v \<Rightarrow> \<exists>s'. and_then (TcpConnection_connectEstablished me cbs s)
                           (\<lambda>s. for_each (TcpConnection_event me cbs) s evs) = Inr s' \<and>
                      conn_inv me s' \<and> conn_open s' \<and> view_of s' = v \<and> socket_reads s' = rest"
proof -
  obtain p where t: "TcpConnection_connectEstablished me cbs s =
      call_if_set (connectionCallback cbs) (s\<lparr>conn_state := kConnected, poller := p\<rparr>)"
    "conn_inv me (s\<lparr>conn_state := kConnected, poller := p\<rparr>)"
    using establish [OF inv st] by metis
  have v: "view_of (s\<lparr>conn_state := kConnected, poller := p\<rparr>) = (view_of s)\<lparr>v_state := kConnected\<rparr>"
    by (simp add: view_of_def)
  from connected [OF t(2)] obtain s1 where
    s1: "TcpConnection_connectEstablished me cbs s = Inr s1"
    "view_of s1 = greet ((view_of s)\<lparr>v_state := kConnected\<rparr>)" "socket_reads s1 = map ReadData ps @ rest"
    "v_open (view_of s1)"
    using t(1) input v by auto
  have "keeps_conn me ok (call_if_set (connectionCallback cbs))"
    using keeps by (simp add: keeps_conn_callbacks_def keeps_conn_if_set_def)
  note cb = keeps_conn_result [OF this t(2), folded t(1), unfolded s1(1)]
  from cb have "conn_inv me s1" by (simp add: conn_result_def)
  moreover have "conn_open s1" using s1(4) by (simp add: v_open_def conn_open_def)
  ultimately have "case react_pieces react (view_of s1) ps of
      Inl x \<Rightarrow> for_each (TcpConnection_event me cbs) s1 evs = Inl x
    | Inr v \<Rightarrow> \<exists>s'. for_each (TcpConnection_event me cbs) s1 evs = Inr s' \<and> conn_inv me s' \<and>
                 conn_open s' \<and> view_of s' = v \<and> socket_reads s' = rest"
    by (rule events_react [OF _ _ s1(3) ps evs len])
  then show ?thesis by (simp only: s1(1,2) and_then_Inr)
qed

end

subsection \<open>Callbacks of a server's connection\<close>

text \<open>
  The callbacks that TcpServer gives to a connection in the server's own loop: the user's
  connection and message callbacks, no write-complete callback unless the user has set one, and a
  close callback that removes the connection by queueing its \<open>connectDestroyed\<close>.
\<close>

definition server_callbacks ::
    "tid \<Rightarrow> (('f, 'x, 'z) tcp_connection_scheme \<Rightarrow> ('f, 'x, 'z) tcp_connection_scheme res) \<Rightarrow>
     (('f, 'x, 'z) tcp_connection_scheme \<Rightarrow> ('f, 'x, 'z) tcp_connection_scheme res) \<Rightarrow> 'f \<Rightarrow>
     ('f, 'x, 'z) tcp_connection_scheme connection_callbacks" where
  "server_callbacks me onConnection onMessage destroyed =
     \<lparr>connectionCallback = Some onConnection, messageCallback = Some onMessage,
      writeCompleteCallback = None,
      connectionClosed = Some (\<lambda>s. Inr (EventLoop_queueInLoop me destroyed s))\<rparr>"

lemma server_callbacks_keep:
  assumes "keeps_conn me ok onC" and "keeps_conn me ok onM"
  shows "keeps_conn_callbacks me ok (server_callbacks me onC onM destroyed)"
  using assms by (simp add: keeps_conn_callbacks_def server_callbacks_def keeps_conn_def conn_next_same)

lemma server_callbacks_revents:
  assumes "keeps_revents onC" and "keeps_revents onM"
  shows "callbacks_keep_revents (server_callbacks me onC onM destroyed)"
  using assms
  by (simp add: callbacks_keep_revents_def server_callbacks_def keeps_revents_def same_revents_def
      loop_thread_ops)

lemma server_callbacks_simps [simp]:
  "connectionCallback (server_callbacks me onC onM d) = Some onC"
  "messageCallback (server_callbacks me onC onM d) = Some onM"
  "writeCompleteCallback (server_callbacks me onC onM d) = None"
  by (simp_all add: server_callbacks_def)

subsection \<open>What callbacks are made of\<close>

text \<open>Output is accepted only while connected; a shutdown turns the state.\<close>

definition v_send :: "char list \<Rightarrow> 'x app_view \<Rightarrow> 'x app_view" where
  "v_send data v = v\<lparr>v_output := if v_state v = kConnected then v_output v @ data else v_output v\<rparr>"

definition v_shutdown :: "'x app_view \<Rightarrow> 'x app_view" where
  "v_shutdown v = v\<lparr>v_state := if v_state v = kConnected then kDisconnecting else v_state v\<rparr>"

lemma send_view:
  assumes "conn_inv me s" and "conn_open s"
  obtains s' where "TcpConnection_send me None data s = Inr s'" and "conn_inv me s'" and "conn_open s'"
    and "view_of s' = v_send data (view_of s)" and "socket_reads s' = socket_reads s"
proof -
  obtain s' where s': "TcpConnection_send me None data s = Inr s'" "conn_inv me s'"
    "view_of s' = (view_of s)\<lparr>v_output := if conn_state s = kConnected
       then handed_over s @ data else handed_over s\<rparr>"
    "socket_reads s' = socket_reads s" by (rule send_quiet [OF assms])
  have "conn_open s'" using s'(3) assms(2) by (auto simp: view_of_def conn_open_def)
  with s' show ?thesis by (intro that [of s']) (auto simp: v_send_def view_of_def)
qed

lemma shutdown_view:
  assumes "conn_inv me s" and "conn_open s"
  obtains s' where "TcpConnection_shutdown me s = Inr s'" and "conn_inv me s'" and "conn_open s'"
    and "view_of s' = v_shutdown (view_of s)" and "socket_reads s' = socket_reads s"
proof -
  obtain s' where s': "TcpConnection_shutdown me s = Inr s'" "conn_inv me s'"
    "view_of s' = (view_of s)\<lparr>v_state := kDisconnecting\<rparr>" "socket_reads s' = socket_reads s"
    by (rule shutdown_quiet [OF assms])
  have "conn_open s'" using s'(3) by (auto simp: view_of_def conn_open_def)
  with s' assms(2) show ?thesis
    by (intro that [of s']) (auto simp: v_shutdown_def view_of_def conn_open_def)
qed

text \<open>Keeping the invariant, for the parts of a callback run from a given state.\<close>

definition keeps_from ::
    "tid \<Rightarrow> ('x option \<Rightarrow> fault \<Rightarrow> bool) \<Rightarrow> ('f, 'x, 'z) tcp_connection_scheme \<Rightarrow>
     ('f, 'x, 'z) tcp_connection_scheme res \<Rightarrow> bool" where
  "keeps_from me ok s r \<longleftrightarrow>
     (case r of
        Inl x \<Rightarrow> ok (conn_context s) x
      | Inr s' \<Rightarrow> conn_wf me s' \<and> (fin_due s \<longrightarrow> fin_due s') \<and> conn_next ok s s')"

lemma keeps_conn_iff: "keeps_conn me ok f \<longleftrightarrow> (\<forall>s. conn_wf me s \<longrightarrow> keeps_from me ok s (f s))"
  by (simp add: keeps_conn_def keeps_from_def)

lemma keeps_from_Inr [simp]:
  "keeps_from me ok s (Inr s') \<longleftrightarrow> conn_wf me s' \<and> (fin_due s \<longrightarrow> fin_due s') \<and> conn_next ok s s'"
  "keeps_from me ok s (Inl x) \<longleftrightarrow> ok (conn_context s) x"
  by (simp_all add: keeps_from_def)

lemma keeps_from_step:
  "conn_wf me s' \<Longrightarrow> fin_due s' = fin_due s \<Longrightarrow> conn_next ok s s' \<Longrightarrow> keeps_from me ok s' r \<Longrightarrow>
   keeps_from me ok s r"
  by (cases r) (auto simp: conn_next_def)

lemma keeps_from_then:
  assumes m: "keeps_from me ok s m"
    and g: "\<And>s'. m = Inr s' \<Longrightarrow> conn_wf me s' \<Longrightarrow> keeps_from me ok s' (g s')"
  shows "keeps_from me ok s (and_then m g)"
proof (cases m)
  case (Inr s1)
  with m have s1: "conn_wf me s1" "fin_due s \<longrightarrow> fin_due s1" "conn_next ok s s1" by simp_all
  from g [OF Inr s1(1)] s1(2,3) show ?thesis
    unfolding Inr and_then_Inr by (cases "g s1") (auto simp: conn_next_def)
qed (use m in simp)

lemma keeps_from_call: "keeps_conn me ok f \<Longrightarrow> conn_wf me s \<Longrightarrow> keeps_from me ok s (f s)"
  by (simp add: keeps_conn_iff)

lemma keeps_from_send: "conn_wf me s \<Longrightarrow> keeps_from me ok s (TcpConnection_send me None data s)"
  by (rule keeps_from_call [OF send_keeps]) simp_all

lemma keeps_from_shutdown: "conn_wf me s \<Longrightarrow> keeps_from me ok s (TcpConnection_shutdown me s)"
  by (rule keeps_from_call [OF shutdown_keeps])

lemma conn_wf_context [simp]:
  "conn_pre me pend (s\<lparr>conn_context := c\<rparr>) = conn_pre me pend s"
  "fin_due (s\<lparr>conn_context := c\<rparr>) = fin_due s"
  by (auto simp: conn_pre_def conn_registered_def fin_due_def split: ConnState.splits)

section \<open>The echo server (examples/echo/echo_server.cpp)\<close>

definition EchoServer_onConnection ::
    "('f, 'x, 'z) tcp_connection_scheme \<Rightarrow> ('f, 'x, 'z) tcp_connection_scheme res" where
  "EchoServer_onConnection s = Inr s"

definition EchoServer_onMessage ::
    "tid \<Rightarrow> ('f, 'x, 'z) tcp_connection_scheme \<Rightarrow> ('f, 'x, 'z) tcp_connection_scheme res" where
  "EchoServer_onMessage me s =
     and_then (Buffer_retrieveAllAsString (inputBuffer s)) (\<lambda>(msg, buf).
     TcpConnection_send me None msg (s\<lparr>inputBuffer := buf\<rparr>))"

definition echo_react :: "'x app_view \<Rightarrow> 'x app_view res" where
  "echo_react v = Inr (v\<lparr>v_input := [],
     v_output := if v_state v = kConnected then v_output v @ v_input v else v_output v\<rparr>)"

lemma retrieveAll_string:
  assumes "Buffer_inv b"
  shows "Buffer_retrieveAllAsString b = Inr (Buffer_content b, Buffer_retrieve b (Buffer_readableBytes b))"
  using assms by (simp add: Buffer_retrieveAllAsString_def Buffer_retrieveAsString_eq)

lemma conn_inv_input_buffer:
  "Buffer_inv b \<Longrightarrow> conn_inv me s \<Longrightarrow> conn_inv me (s\<lparr>inputBuffer := b\<rparr>)"
  by (auto simp: conn_inv_def conn_pre_def conn_registered_def fin_due_def split: ConnState.splits)

text \<open>Every message callback that takes input and then makes calls keeps the invariant piecewise.\<close>

lemma conn_wf_input_buffer:
  "Buffer_inv b \<Longrightarrow> conn_wf me s \<Longrightarrow> conn_wf me (s\<lparr>inputBuffer := b\<rparr>)"
  by (auto simp: conn_pre_def conn_registered_def split: ConnState.splits)

lemma echo_keeps:
  fixes ok :: "'x option \<Rightarrow> fault \<Rightarrow> bool"
  shows "keeps_conn me ok (EchoServer_onMessage me)"
proof (rule keeps_connI)
  fix s :: "('f, 'x, 'z) tcp_connection_scheme"
  assume wf: "conn_wf me s"
  then have b: "Buffer_inv (inputBuffer s)" by (simp add: conn_pre_def)
  let ?s = "s\<lparr>inputBuffer := Buffer_retrieve (inputBuffer s) (Buffer_readableBytes (inputBuffer s))\<rparr>"
  have wf': "conn_wf me ?s" using b wf by (intro conn_wf_input_buffer) simp_all
  have "keeps_conn me ok (TcpConnection_send me None (Buffer_content (inputBuffer s)) ::
      ('f, 'x, 'z) tcp_connection_scheme \<Rightarrow> _)" by (rule send_keeps) simp
  note send = keeps_connD [OF this wf']
  have "conn_next ok s ?s" by (simp add: conn_next_same)
  with send conn_next_trans [of ok s ?s] conn_next_fault [of ok s ?s]
  show "case EchoServer_onMessage me s of Inl x \<Rightarrow> ok (conn_context s) x
      | Inr s' \<Rightarrow> conn_wf me s' \<and> (fin_due s \<longrightarrow> fin_due s') \<and> conn_next ok s s'"
    by (simp add: EchoServer_onMessage_def retrieveAll_string [OF b] split: sum.split)
qed

lemma echo_revents: "keeps_revents (EchoServer_onMessage me)"
  unfolding keeps_revents_def EchoServer_onMessage_def
proof (intro allI impI)
  fix s s'
  assume "and_then (Buffer_retrieveAllAsString (inputBuffer s)) (\<lambda>(msg, buf).
      TcpConnection_send me None msg (s\<lparr>inputBuffer := buf\<rparr>)) = Inr s'"
  then obtain msg buf where "TcpConnection_send me None msg (s\<lparr>inputBuffer := buf\<rparr>) = Inr s'"
    by (auto simp: returned)
  moreover have "keeps_revents (call_if_set None)" by (simp add: keeps_revents_def)
  ultimately have "same_revents (s\<lparr>inputBuffer := buf\<rparr>) s'" by (rule keeps_reventsD [OF send_revents, rotated])
  then show "same_revents s s'" by (simp add: same_revents_def)
qed

lemma echo_up: "keeps_conn me ok EchoServer_onConnection" "keeps_revents EchoServer_onConnection"
  by (simp_all add: keeps_conn_def keeps_revents_def EchoServer_onConnection_def)

lemma echo_message:
  assumes inv: "conn_inv me s" and op: "conn_open s"
  shows "\<exists>s'. EchoServer_onMessage me s = Inr s' \<and> echo_react (view_of s) = Inr (view_of s') \<and>
           socket_reads s' = socket_reads s \<and> v_open (view_of s')"
proof -
  have b: "Buffer_inv (inputBuffer s)" using inv by (simp add: conn_inv_def conn_pre_def)
  let ?b = "Buffer_retrieve (inputBuffer s) (Buffer_readableBytes (inputBuffer s))"
  let ?s = "s\<lparr>inputBuffer := ?b\<rparr>"
  have s: "conn_inv me ?s" "conn_open ?s"
    using conn_inv_input_buffer [of ?b me s] b inv op by (simp_all add: conn_open_def)
  obtain s' where s': "TcpConnection_send me None (Buffer_content (inputBuffer s)) ?s = Inr s'"
    "view_of s' = (view_of ?s)\<lparr>v_output := if conn_state ?s = kConnected
       then handed_over ?s @ Buffer_content (inputBuffer s) else handed_over ?s\<rparr>"
    "socket_reads s' = socket_reads ?s" by (rule send_quiet [OF s])
  have "Buffer_content ?b = []" using b by simp
  with s' op show ?thesis
    by (auto simp: EchoServer_onMessage_def retrieveAll_string [OF b] echo_react_def view_of_def
        conn_open_def v_open_def)
qed

interpretation echo: stream_app me "\<lambda>_ _. False"
    "server_callbacks me EchoServer_onConnection (EchoServer_onMessage me) destroyed" "\<lambda>v. v" echo_react
  for me destroyed
  by unfold_locales
    (rule server_callbacks_keep [OF echo_up(1) echo_keeps],
     rule server_callbacks_revents [OF echo_up(2) echo_revents], simp,
     simp add: EchoServer_onConnection_def v_open_def, drule (1) echo_message, auto)

lemma echo_pieces:
  "v_state v = kConnected \<Longrightarrow> v_input v = [] \<Longrightarrow>
   react_pieces echo_react v ps = Inr (v\<lparr>v_output := v_output v @ concat ps\<rparr>)"
  by (induction ps arbitrary: v) (simp_all add: echo_react_def received_def)

text \<open>
  The echo server hands over exactly the bytes it receives, in order, however the kernel cuts
  them into reads and interleaves write events: after the reads all input has been consumed, and
  the bytes on the wire followed by the output buffer are the bytes received.
\<close>

lemma echo_server_echoes:
  assumes fresh: "fresh_connection me s" and input: "socket_reads s = map ReadData ps @ rest"
    and ps: "readable_pieces ps" and evs: "set evs \<subseteq> {Ready EPOLLIN, Ready EPOLLOUT}"
    and len: "length (filter (\<lambda>e. e = Ready EPOLLIN) evs) = length ps"
  shows "\<exists>s'. and_then (TcpConnection_connectEstablished me
             (server_callbacks me EchoServer_onConnection (EchoServer_onMessage me) destroyed) s)
           (\<lambda>s. for_each (TcpConnection_event me
             (server_callbacks me EchoServer_onConnection (EchoServer_onMessage me) destroyed)) s evs) = Inr s' \<and>
         conn_state s' = kConnected \<and> Buffer_content (inputBuffer s') = [] \<and> socket_reads s' = rest \<and>
         wire s' @ Buffer_content (outputBuffer s') = concat ps"
proof -
  have st: "conn_state s = kConnecting" and v: "v_input (view_of s) = []" "handed_over s = []"
    using fresh by (simp_all add: fresh_connection_def)
  from echo.life_react [OF fresh_connection_inv [OF fresh] st input ps evs len, of destroyed]
  obtain s' where s': "and_then (TcpConnection_connectEstablished me
             (server_callbacks me EchoServer_onConnection (EchoServer_onMessage me) destroyed) s)
           (\<lambda>s. for_each (TcpConnection_event me
             (server_callbacks me EchoServer_onConnection (EchoServer_onMessage me) destroyed)) s evs) = Inr s'"
    "conn_inv me s'" "socket_reads s' = rest"
    "view_of s' = (view_of s)\<lparr>v_state := kConnected, v_output := concat ps\<rparr>"
    using v echo_pieces [of "(view_of s)\<lparr>v_state := kConnected\<rparr>" ps] by (auto simp: view_of_def)
  have "conn_state s' = kConnected" "Buffer_content (inputBuffer s') = []" "handed_over s' = concat ps"
    using s'(4) v by (simp_all add: view_of_def)
  with s' show ?thesis by (auto simp: conn_inv_def conn_pre_def)
qed

lemma echo_server_echoes_witness:
  "\<exists>s'. and_then (TcpConnection_connectEstablished 1
             (server_callbacks 1 EchoServer_onConnection (EchoServer_onMessage 1) 0) example_connection)
           (\<lambda>s. for_each (TcpConnection_event 1
             (server_callbacks 1 EchoServer_onConnection (EchoServer_onMessage 1) 0)) s
               [Ready EPOLLIN, Ready EPOLLOUT]) = Inr s' \<and>
         wire s' @ Buffer_content (outputBuffer s') = ''abc''"
proof -
  have "EPOLLIN \<noteq> EPOLLOUT" by (simp add: event_masks)
  then show ?thesis
    using echo_server_echoes [OF example_connection_fresh, of "[''abc'']" "[]"
        "[Ready EPOLLIN, Ready EPOLLOUT]" 0]
    by (auto simp: readable_pieces_def kExtrabufSize_def example_connection_def
        simp del: TcpConnection_event.simps)
qed

end
