(* ===== verification/Http_Serve.thy ===== *)
theory Http_Serve
  imports Stream_Apps Http_Static
begin

text \<open>
  HttpServer (src/net/http/http_server.cpp): the connection and message callbacks that it gives to
  its TcpServer, on the model of a connection whose context is the request parser. \<open>http_react\<close> is
  what the message callback does, on plain bytes; the server is an instance of the locale
  \<open>stream_app\<close> with it, and serves whole requests however they are cut.
\<close>

unbundle bit_operations_syntax

section \<open>HttpServer\<close>

type_synonym http_callback = "http_request \<Rightarrow> http_response \<Rightarrow> http_response res"

text \<open>The order in which a response's header map is traversed (unspecified in C++) is a parameter.\<close>

type_synonym header_order = "http_response \<Rightarrow> (string \<times> string) list"

definition bad_request :: string where
  "bad_request = ''HTTP/1.1 400 Bad Request'' @ kCRLF @ kCRLF"

definition HttpServer_onConnection ::
    "('f, http_context, 'z) tcp_connection_scheme \<Rightarrow> ('f, http_context, 'z) tcp_connection_scheme res" where
  "HttpServer_onConnection s =
     Inr (if conn_state s = kConnected then s\<lparr>conn_context := Some HttpContext_new\<rparr> else s)"

definition HttpServer_response :: "http_callback option \<Rightarrow> http_request \<Rightarrow> http_response res" where
  "HttpServer_response httpCallback request =
     (let response = HttpResponse_new True in
      case httpCallback of
        Some f \<Rightarrow> f request response
      | None \<Rightarrow> Inr (response\<lparr>statusCode := k404NotFound, statusMessage := ''Not Found''\<rparr>))"

definition HttpServer_onMessage ::
    "tid \<Rightarrow> header_order \<Rightarrow> http_callback option \<Rightarrow>
     ('f, http_context, 'z) tcp_connection_scheme \<Rightarrow> ('f, http_context, 'z) tcp_connection_scheme res" where
  "HttpServer_onMessage me order httpCallback s =
     (case conn_context s of
        None \<Rightarrow> Inl NullDeref
      | Some context \<Rightarrow>
          (case HttpContext_parseRequest context (inputBuffer s) of (ok, context, buf) \<Rightarrow>
           and_then
             (let s = s\<lparr>conn_context := Some context, inputBuffer := buf\<rparr>
              in if ok then Inr s
                 else and_then (TcpConnection_send me None bad_request s) (TcpConnection_shutdown me)) (\<lambda>s.
           if HttpContext_gotAll context then
             and_then (HttpServer_response httpCallback (ctx_request context)) (\<lambda>response.
             and_then (HttpResponse_appendToBuffer response (order response) Buffer_new) (\<lambda>buf.
             and_then (TcpConnection_sendBuffer me None buf s) (\<lambda>(buf, s).
             if closeConnection response then TcpConnection_shutdown me s
             else Inr (s\<lparr>conn_context := Some (HttpContext_reset context)\<rparr>))))
           else Inr s)))"

definition http_callbacks ::
    "tid \<Rightarrow> header_order \<Rightarrow> http_callback option \<Rightarrow> 'f \<Rightarrow>
     ('f, http_context, 'z) tcp_connection_scheme connection_callbacks" where
  "http_callbacks me order httpCallback destroyed =
     server_callbacks me HttpServer_onConnection (HttpServer_onMessage me order httpCallback) destroyed"

subsection \<open>What the message callback does\<close>

definition response_bytes :: "header_order \<Rightarrow> http_response \<Rightarrow> char list" where
  "response_bytes order r = line_bytes (response_lines r (order r)) @ kCRLF @ resp_body r"

definition http_react ::
    "header_order \<Rightarrow> http_callback option \<Rightarrow> http_context app_view \<Rightarrow> http_context app_view res" where
  "http_react order httpCallback v =
     (case v_context v of
        None \<Rightarrow> Inl NullDeref
      | Some context \<Rightarrow>
          (case parse_bytes context (v_input v) of (ok, context, rest) \<Rightarrow>
             (let v = v\<lparr>v_context := Some context, v_input := rest\<rparr>;
                  v = (if ok then v else v_shutdown (v_send bad_request v))
              in if HttpContext_gotAll context then
                   and_then (HttpServer_response httpCallback (ctx_request context)) (\<lambda>response.
                   (let v = v_send (response_bytes order response) v
                    in Inr (if closeConnection response then v_shutdown v
                            else v\<lparr>v_context := Some (HttpContext_reset context)\<rparr>)))
                 else Inr v)))"

lemma sendBuffer_quiet:
  assumes "conn_inv me s" and "conn_open s"
  obtains b s' where "TcpConnection_sendBuffer me None buf s = Inr (b, s')" and "conn_inv me s'"
    and "view_of s' = v_send (Buffer_content buf) (view_of s)" and "socket_reads s' = socket_reads s"
proof (cases "conn_state s = kConnected")
  case True
  obtain s' where "TcpConnection_send me None (Buffer_content buf) s = Inr s'" "conn_inv me s'"
    "view_of s' = (view_of s)\<lparr>v_output := if conn_state s = kConnected
       then handed_over s @ Buffer_content buf else handed_over s\<rparr>"
    "socket_reads s' = socket_reads s" by (rule send_quiet [OF assms])
  with True that [of _ s'] show ?thesis by (simp add: TcpConnection_sendBuffer_def v_send_def view_of_def)
next
  case False
  with assms that [of buf s] show ?thesis by (simp add: TcpConnection_sendBuffer_def v_send_def view_of_def)
qed

text \<open>The callback with the work on the local response buffer carried out.\<close>

lemma sendBuffer_then:
  "and_then (TcpConnection_sendBuffer me wc buf s) (\<lambda>(b, s). g s) =
   and_then (TcpConnection_send me wc (Buffer_content buf) s) g"
  by (cases "TcpConnection_send me wc (Buffer_content buf) s")
    (auto simp: TcpConnection_sendBuffer_def TcpConnection_send_def)

definition HttpServer_answer ::
    "tid \<Rightarrow> header_order \<Rightarrow> http_callback option \<Rightarrow> http_context \<Rightarrow>
     ('f, http_context, 'z) tcp_connection_scheme \<Rightarrow> ('f, http_context, 'z) tcp_connection_scheme res" where
  "HttpServer_answer me order httpCallback context s =
     and_then (HttpServer_response httpCallback (ctx_request context)) (\<lambda>response.
     and_then (TcpConnection_send me None (response_bytes order response) s) (\<lambda>s.
     if closeConnection response then TcpConnection_shutdown me s
     else Inr (s\<lparr>conn_context := Some (HttpContext_reset context)\<rparr>)))"

lemma onMessage_eq:
  assumes ctx: "conn_context s = Some context"
    and parse: "HttpContext_parseRequest context (inputBuffer s) = (ok, context', buf)"
  shows "HttpServer_onMessage me order httpCallback s =
     (let s = s\<lparr>conn_context := Some context', inputBuffer := buf\<rparr>
      in and_then (if ok then Inr s
                   else and_then (TcpConnection_send me None bad_request s) (TcpConnection_shutdown me))
           (\<lambda>s. if HttpContext_gotAll context' then HttpServer_answer me order httpCallback context' s
                else Inr s))"
proof -
  have answer: "and_then (HttpServer_response httpCallback (ctx_request context')) (\<lambda>response.
      and_then (HttpResponse_appendToBuffer response (order response) Buffer_new) (\<lambda>buf.
      and_then (TcpConnection_sendBuffer me None buf t) (\<lambda>(buf, s).
      if closeConnection response then TcpConnection_shutdown me s
      else Inr (s\<lparr>conn_context := Some (HttpContext_reset context')\<rparr>)))) =
    HttpServer_answer me order httpCallback context' t" for t
  proof (cases "HttpServer_response httpCallback (ctx_request context')")
    case (Inr r)
    obtain out where out: "HttpResponse_appendToBuffer r (order r) Buffer_new = Inr out"
      "Buffer_content out = response_bytes order r"
      using appendToBuffer_ok [OF Buffer_new_inv, of r "order r"]
      by (auto simp: response_bytes_def)
    with Inr show ?thesis by (simp add: HttpServer_answer_def sendBuffer_then)
  qed (simp add: HttpServer_answer_def)
  show ?thesis
    unfolding HttpServer_onMessage_def ctx option.case parse prod.case answer Let_def ..
qed

subsection \<open>The invariant of the connection is kept\<close>

text \<open>
  A connection whose context is set fails only with a fault of the user's callback; without a
  context the message callback dereferences a null pointer.
\<close>

definition http_fault :: "http_callback option \<Rightarrow> http_context option \<Rightarrow> fault \<Rightarrow> bool" where
  "http_fault httpCallback ctx x \<longleftrightarrow>
     (\<exists>request. HttpServer_response httpCallback request = Inl x) \<or> ctx = None \<and> x = NullDeref"

lemma http_context_set:
  "conn_next (http_fault cb) s (s\<lparr>conn_context := Some c\<rparr>)"
  by (auto simp: conn_next_def http_fault_def)

lemma answer_keeps:
  assumes wf: "conn_wf me s"
  shows "keeps_from me (http_fault cb) s (HttpServer_answer me order cb context s)"
proof (cases "HttpServer_response cb (ctx_request context)")
  case (Inl x)
  then show ?thesis by (auto simp: HttpServer_answer_def http_fault_def)
next
  case (Inr r)
  have "keeps_from me (http_fault cb) t (if closeConnection r then TcpConnection_shutdown me t
      else Inr (t\<lparr>conn_context := Some (HttpContext_reset context)\<rparr>))" if "conn_wf me t" for t
    using that keeps_from_shutdown [OF that] by (simp add: http_context_set)
  then have "keeps_from me (http_fault cb) s (and_then (TcpConnection_send me None (response_bytes order r) s)
      (\<lambda>t. if closeConnection r then TcpConnection_shutdown me t
           else Inr (t\<lparr>conn_context := Some (HttpContext_reset context)\<rparr>)))"
    by (intro keeps_from_then [OF keeps_from_send [OF wf]])
  then show ?thesis by (simp add: HttpServer_answer_def Inr)
qed

lemma http_message_keeps: "keeps_conn me (http_fault cb) (HttpServer_onMessage me order cb)"
  unfolding keeps_conn_iff
proof (intro allI impI)
  fix s :: "('f, http_context, 'z) tcp_connection_scheme"
  assume wf: "conn_wf me s"
  show "keeps_from me (http_fault cb) s (HttpServer_onMessage me order cb s)"
  proof (cases "conn_context s")
    case None
    then show ?thesis by (simp add: HttpServer_onMessage_def http_fault_def)
  next
    case (Some ctx)
    obtain ok ctx' buf where parse: "HttpContext_parseRequest ctx (inputBuffer s) = (ok, ctx', buf)"
      by (metis prod_cases3)
    have "Buffer_inv (inputBuffer s)" using wf by (simp add: conn_pre_def)
    from parseRequest_refines [OF this, of ctx] parse have b: "Buffer_inv buf" by simp
    let ?s = "s\<lparr>conn_context := Some ctx', inputBuffer := buf\<rparr>"
    have wf': "conn_wf me ?s" using conn_wf_input_buffer [OF b wf] by (simp add: conn_wf_input_buffer b wf)
    let ?first = "if ok then Inr ?s
      else and_then (TcpConnection_send me None bad_request ?s) (TcpConnection_shutdown me)"
    let ?rest = "\<lambda>s. if HttpContext_gotAll ctx' then HttpServer_answer me order cb ctx' s else Inr s"
    have first: "keeps_from me (http_fault cb) ?s ?first"
    proof (cases ok)
      case True
      with wf' show ?thesis by simp
    next
      case False
      have "keeps_from me (http_fault cb) ?s
          (and_then (TcpConnection_send me None bad_request ?s) (TcpConnection_shutdown me))"
        by (rule keeps_from_then [OF keeps_from_send [OF wf']]) (rule keeps_from_shutdown)
      with False show ?thesis by (simp only: if_False)
    qed
    have "keeps_from me (http_fault cb) ?s (and_then ?first ?rest)"
    proof (rule keeps_from_then [OF first])
      fix t :: "('f, http_context, 'z) tcp_connection_scheme"
      assume "conn_wf me t"
      with answer_keeps [of me t cb order ctx'] show "keeps_from me (http_fault cb) t (?rest t)" by simp
    qed
    moreover have "HttpServer_onMessage me order cb s = and_then ?first ?rest"
      by (simp only: onMessage_eq [OF Some parse] Let_def)
    moreover have "fin_due ?s = fin_due s" by (simp add: fin_due_def)
    moreover have "conn_next (http_fault cb) s ?s" by (auto simp: conn_next_def http_fault_def)
    ultimately show ?thesis using keeps_from_step [OF wf', of s "http_fault cb"] by simp
  qed
qed

lemma http_connection_keeps: "keeps_conn me (http_fault cb) HttpServer_onConnection"
  by (simp add: keeps_conn_def HttpServer_onConnection_def http_context_set)

text \<open>What the message callback changes is what sending, shutting down and setting the context change.\<close>

lemma http_message_R:
  fixes s s' :: "('f, http_context, 'z) tcp_connection_scheme"
  assumes R: "conn_steps me R" and ctx: "\<And>s c. R s (s\<lparr>conn_context := c\<rparr>)"
    and run: "HttpServer_onMessage me order cb s = Inr s'"
  shows "R s s'"
proof -
  note trans = conn_steps.R_trans [OF R]
  have send: "R s t" if "TcpConnection_send me None data s = Inr t" for s t data
    using conn_steps.send_R [OF R, of None] conn_steps.R_refl [OF R] that by simp
  note shut = conn_steps.shutdown_R [OF R]
  have answer: "R s t" if run: "HttpServer_answer me order cb c s = Inr t" for c s t
  proof -
    obtain r u where "TcpConnection_send me None (response_bytes order r) s = Inr u"
      and u: "(if closeConnection r then TcpConnection_shutdown me u
            else Inr (u\<lparr>conn_context := Some (HttpContext_reset c)\<rparr>)) = Inr t"
      using run by (auto simp: HttpServer_answer_def returned)
    then have "R s u" by (intro send)
    moreover have "R u t" using u ctx shut by (auto split: if_splits)
    ultimately show ?thesis by (rule trans)
  qed
  obtain c where c: "conn_context s = Some c" using run by (auto simp: HttpServer_onMessage_def split: option.splits)
  obtain ok c' buf where parse: "HttpContext_parseRequest c (inputBuffer s) = (ok, c', buf)" by (metis prod_cases3)
  let ?s = "s\<lparr>conn_context := Some c', inputBuffer := buf\<rparr>"
  have "R s ?s" using trans [OF ctx [of s "Some c'"] conn_steps.R_data(1) [OF R]] .
  moreover obtain t where t: "(if ok then Inr ?s
        else and_then (TcpConnection_send me None bad_request ?s) (TcpConnection_shutdown me)) = Inr t"
    and s': "(if HttpContext_gotAll c' then HttpServer_answer me order cb c' t else Inr t) = Inr s'"
    using run unfolding onMessage_eq [OF c parse] Let_def and_then_eq_Inr by blast
  have "R ?s t"
  proof (cases ok)
    case False
    with t obtain u where "TcpConnection_send me None bad_request ?s = Inr u" "TcpConnection_shutdown me u = Inr t"
      by (auto simp: returned)
    from trans [OF send [OF this(1)] shut [OF this(2)]] show ?thesis .
  qed (use t conn_steps.R_refl [OF R] in simp)
  moreover have "R t s'" using s' answer conn_steps.R_refl [OF R] by (auto split: if_splits)
  ultimately show ?thesis using trans by blast
qed

lemma revents_context [simp]: "same_revents s (s\<lparr>conn_context := c\<rparr>)"
  by (simp add: same_revents_def)

lemma http_message_revents: "keeps_revents (HttpServer_onMessage me order cb)"
  unfolding keeps_revents_def
proof (intro allI impI)
  fix s s' :: "('f, http_context, 'z) tcp_connection_scheme"
  assume "HttpServer_onMessage me order cb s = Inr s'"
  then show "same_revents s s'"
    by (rule http_message_R [OF rev.conn_steps_axioms revents_context])
qed

subsection \<open>The server as an instance of the contract\<close>

text \<open>A run on an open connection and its effect on the view go together.\<close>

definition mirrors ::
    "tid \<Rightarrow> readv_result list \<Rightarrow> ('f, 'x, 'z) tcp_connection_scheme res \<Rightarrow> 'x app_view res \<Rightarrow> bool" where
  "mirrors me rs m r \<longleftrightarrow>
     (case r of
        Inl x \<Rightarrow> m = Inl x
      | Inr v \<Rightarrow> \<exists>s. m = Inr s \<and> conn_inv me s \<and> conn_open s \<and> view_of s = v \<and> socket_reads s = rs)"

lemma mirrors_then:
  assumes "mirrors me rs m r"
    and "\<And>s. conn_inv me s \<Longrightarrow> conn_open s \<Longrightarrow> socket_reads s = rs \<Longrightarrow> mirrors me rs (g s) (h (view_of s))"
  shows "mirrors me rs (and_then m g) (and_then r h)"
proof (cases r)
  case (Inl x)
  with assms(1) show ?thesis by (simp add: mirrors_def)
next
  case (Inr v)
  with assms(1) obtain s where "m = Inr s" "conn_inv me s" "conn_open s" "view_of s = v" "socket_reads s = rs"
    by (auto simp: mirrors_def)
  with assms(2) [of s] Inr show ?thesis by simp
qed

lemma mirrors_value:
  "mirrors me rs (and_then (x :: 'a res) g) (and_then x h)"
  if "\<And>y. x = Inr y \<Longrightarrow> mirrors me rs (g y) (h y)"
  using that by (cases x) (auto simp: mirrors_def)

lemma mirrors_send:
  assumes "conn_inv me s" and "conn_open s" and "socket_reads s = rs"
  shows "mirrors me rs (TcpConnection_send me None data s) (Inr (v_send data (view_of s)))"
proof -
  obtain s' where "TcpConnection_send me None data s = Inr s'" "conn_inv me s'" "conn_open s'"
    "view_of s' = v_send data (view_of s)" "socket_reads s' = socket_reads s"
    by (rule send_view [OF assms(1,2)])
  with assms(3) show ?thesis by (simp add: mirrors_def)
qed

lemma mirrors_shutdown:
  assumes "conn_inv me s" and "conn_open s" and "socket_reads s = rs"
  shows "mirrors me rs (TcpConnection_shutdown me s) (Inr (v_shutdown (view_of s)))"
proof -
  obtain s' where "TcpConnection_shutdown me s = Inr s'" "conn_inv me s'" "conn_open s'"
    "view_of s' = v_shutdown (view_of s)" "socket_reads s' = socket_reads s"
    by (rule shutdown_view [OF assms(1,2)])
  with assms(3) show ?thesis by (simp add: mirrors_def)
qed

lemma mirrors_context:
  assumes "conn_inv me s" and "conn_open s" and "socket_reads s = rs"
  shows "mirrors me rs (Inr (s\<lparr>conn_context := c\<rparr>)) (Inr ((view_of s)\<lparr>v_context := c\<rparr>))"
  using assms by (simp add: mirrors_def conn_inv_def conn_open_def view_of_def)

definition answer_view ::
    "header_order \<Rightarrow> http_callback option \<Rightarrow> http_context \<Rightarrow> http_context app_view \<Rightarrow> http_context app_view res" where
  "answer_view order cb context v =
     and_then (HttpServer_response cb (ctx_request context)) (\<lambda>response.
     and_then (Inr (v_send (response_bytes order response) v)) (\<lambda>v.
     if closeConnection response then Inr (v_shutdown v)
     else Inr (v\<lparr>v_context := Some (HttpContext_reset context)\<rparr>)))"

lemma mirrors_answer:
  assumes "conn_inv me s" and "conn_open s" and "socket_reads s = rs"
  shows "mirrors me rs (HttpServer_answer me order cb context s) (answer_view order cb context (view_of s))"
  unfolding HttpServer_answer_def answer_view_def
proof (rule mirrors_value, rule mirrors_then [OF mirrors_send [OF assms]])
  fix r and s :: "('f, http_context, 'z) tcp_connection_scheme"
  assume s: "conn_inv me s" "conn_open s" "socket_reads s = rs"
  show "mirrors me rs (if closeConnection r then TcpConnection_shutdown me s
       else Inr (s\<lparr>conn_context := Some (HttpContext_reset context)\<rparr>))
     (if closeConnection r then Inr (v_shutdown (view_of s))
      else Inr ((view_of s)\<lparr>v_context := Some (HttpContext_reset context)\<rparr>))"
    using mirrors_shutdown [OF s] mirrors_context [OF s] by simp
qed

lemma http_react_eq:
  "http_react order cb v =
     (case v_context v of
        None \<Rightarrow> Inl NullDeref
      | Some context \<Rightarrow>
          (case parse_bytes context (v_input v) of (ok, context, rest) \<Rightarrow>
             and_then (let v = v\<lparr>v_context := Some context, v_input := rest\<rparr>
                       in if ok then Inr v
                          else and_then (Inr (v_send bad_request v)) (\<lambda>v. Inr (v_shutdown v)))
               (\<lambda>v. if HttpContext_gotAll context then answer_view order cb context v else Inr v)))"
  by (auto simp: http_react_def answer_view_def Let_def split: option.split prod.split
      intro!: arg_cong2 [where f = and_then])

lemma http_message:
  assumes inv: "conn_inv me s" and op: "conn_open s"
  shows "mirrors me (socket_reads s) (HttpServer_onMessage me order cb s) (http_react order cb (view_of s))"
proof (cases "conn_context s")
  case None
  then show ?thesis by (simp add: HttpServer_onMessage_def http_react_def mirrors_def)
next
  case (Some ctx)
  obtain ok ctx' buf where parse: "HttpContext_parseRequest ctx (inputBuffer s) = (ok, ctx', buf)"
    by (metis prod_cases3)
  have b: "Buffer_inv (inputBuffer s)" using inv by (simp add: conn_inv_def conn_pre_def)
  have buf: "Buffer_inv buf" "parse_bytes ctx (Buffer_content (inputBuffer s)) = (ok, ctx', Buffer_content buf)"
    using parseRequest_refines [OF b, of ctx] parse by simp_all
  let ?s = "s\<lparr>conn_context := Some ctx', inputBuffer := buf\<rparr>"
  let ?v = "(view_of s)\<lparr>v_context := Some ctx', v_input := Buffer_content buf\<rparr>"
  have s: "conn_inv me ?s" "conn_open ?s" "socket_reads ?s = socket_reads s" "view_of ?s = ?v"
    using conn_inv_input_buffer [OF buf(1), of me "s\<lparr>conn_context := Some ctx'\<rparr>"] inv op
    by (simp_all add: conn_inv_def [of me s] conn_inv_def [of me "s\<lparr>conn_context := Some ctx'\<rparr>"]
        conn_open_def view_of_def)
  have first: "mirrors me (socket_reads s)
      (if ok then Inr ?s else and_then (TcpConnection_send me None bad_request ?s) (TcpConnection_shutdown me))
      (if ok then Inr ?v else and_then (Inr (v_send bad_request ?v)) (\<lambda>v. Inr (v_shutdown v)))"
  proof (cases ok)
    case False
    have "mirrors me (socket_reads s)
        (and_then (TcpConnection_send me None bad_request ?s) (TcpConnection_shutdown me))
        (and_then (Inr (v_send bad_request (view_of ?s))) (\<lambda>v. Inr (v_shutdown v)))"
      by (rule mirrors_then [OF mirrors_send [OF s(1-3)]]) (rule mirrors_shutdown)
    then show ?thesis unfolding s(4) by (simp only: False if_False)
  qed (use s in \<open>simp add: mirrors_def\<close>)
  have "http_react order cb (view_of s) =
      and_then (if ok then Inr ?v else and_then (Inr (v_send bad_request ?v)) (\<lambda>v. Inr (v_shutdown v)))
        (\<lambda>v. if HttpContext_gotAll ctx' then answer_view order cb ctx' v else Inr v)"
    by (simp only: http_react_eq view_of_simps Some buf(2) option.case prod.case Let_def)
  moreover have "HttpServer_onMessage me order cb s =
      and_then (if ok then Inr ?s
                else and_then (TcpConnection_send me None bad_request ?s) (TcpConnection_shutdown me))
        (\<lambda>s. if HttpContext_gotAll ctx' then HttpServer_answer me order cb ctx' s else Inr s)"
    by (simp only: onMessage_eq [OF Some parse] Let_def)
  moreover have "mirrors me (socket_reads s)
      (and_then (if ok then Inr ?s
                else and_then (TcpConnection_send me None bad_request ?s) (TcpConnection_shutdown me))
        (\<lambda>s. if HttpContext_gotAll ctx' then HttpServer_answer me order cb ctx' s else Inr s))
      (and_then (if ok then Inr ?v else and_then (Inr (v_send bad_request ?v)) (\<lambda>v. Inr (v_shutdown v)))
        (\<lambda>v. if HttpContext_gotAll ctx' then answer_view order cb ctx' v else Inr v))"
    by (rule mirrors_then [OF first]) (simp add: mirrors_answer, simp add: mirrors_def)
  ultimately show ?thesis by simp
qed

lemma mirrors_contract:
  "mirrors me (socket_reads s) m r \<Longrightarrow>
   (case r of Inl x \<Rightarrow> m = Inl x
    | Inr v \<Rightarrow> \<exists>s'. m = Inr s' \<and> view_of s' = v \<and> socket_reads s' = socket_reads s \<and> v_open v)"
  by (cases r) (auto simp: mirrors_def conn_open_def v_open_def)

lemma http_connected:
  "conn_state s = kConnected \<Longrightarrow>
   \<exists>s'. HttpServer_onConnection s = Inr s' \<and> view_of s' = (view_of s)\<lparr>v_context := Some HttpContext_new\<rparr> \<and>
        socket_reads s' = socket_reads s \<and> v_open ((view_of s)\<lparr>v_context := Some HttpContext_new\<rparr>)"
  by (simp add: HttpServer_onConnection_def view_of_def v_open_def)

lemma http_connection_revents: "keeps_revents HttpServer_onConnection"
  by (simp add: keeps_revents_def HttpServer_onConnection_def)

interpretation http: stream_app me "http_fault cb" "http_callbacks me order cb destroyed"
    "\<lambda>v. v\<lparr>v_context := Some HttpContext_new\<rparr>" "http_react order cb"
  for me cb order destroyed
  unfolding http_callbacks_def
  by unfold_locales
    (rule server_callbacks_keep [OF http_connection_keeps http_message_keeps],
     rule server_callbacks_revents [OF http_connection_revents http_message_revents], simp,
     simp add: http_connected,
     simp only: server_callbacks_simps call_if_set_Some, rule mirrors_contract [OF http_message])

subsection \<open>Serving a request\<close>

text \<open>A refused request line stays refused, whatever follows.\<close>

lemma parse_bytes_refused:
  "parse_bytes c a = (False, c1, r) \<Longrightarrow>
   ctx_state c1 = kExpectRequestLine \<and> std_search kCRLF r < length r \<and>
   HttpContext_processRequestLine (ctx_request c1) (take (std_search kCRLF r) r) = (False, ctx_request c1)"
proof (induction c a rule: parse_bytes.induct)
  case (1 c a)
  let ?i = "std_search kCRLF a"
  show ?case
  proof (cases "?i < length a")
    case False
    with 1(3) show ?thesis using std_search_le [of kCRLF a] by (simp add: parse_bytes_wait)
  next
    case True
    obtain ok req where line: "HttpContext_processRequestLine (ctx_request c) (take ?i a) = (ok, req)" by fastforce
    show ?thesis
    proof (cases "ctx_state c")
      case kExpectRequestLine
      note a = parse_bytes_request_line [OF kExpectRequestLine True line]
      show ?thesis
      proof (cases ok)
        case ok: True
        from "1.IH"(1) [OF refl kExpectRequestLine True line [symmetric] ok] 1(3) a ok
        show ?thesis by simp
      next
        case False
        with 1(3) a True processRequestLine_idem [OF line] kExpectRequestLine show ?thesis by auto
      qed
    next
      case kExpectHeaders
      from "1.IH"(2) [OF refl kExpectHeaders True] 1(3) parse_bytes_header [OF kExpectHeaders True]
      show ?thesis by simp
    qed (use 1(3) in \<open>simp_all add: parse_bytes_done\<close>)
  qed
qed

lemma parse_bytes_still_refused:
  assumes "parse_bytes c a = (False, c1, r)"
  shows "\<not> fst (parse_bytes c (a @ b))"
proof -
  note r = parse_bytes_refused [OF assms]
  have lt: "std_search kCRLF r < length r" using r by simp
  have i: "std_search kCRLF (r @ b) = std_search kCRLF r" "std_search kCRLF (r @ b) < length (r @ b)"
    "take (std_search kCRLF r) (r @ b) = take (std_search kCRLF r) r"
    using search_crlf_append [OF lt, of b] lt by simp_all
  have "parse_bytes c (a @ b) = parse_bytes c1 (r @ b)"
    by (simp only: parse_bytes_append [of c a b] assms prod.case)
  then show ?thesis
    using parse_bytes_request_line [of c1 "r @ b" False, unfolded i(1,3)] r i(2) by simp
qed

text \<open>Pieces that end exactly with a request's head: the callback answers once, at the last piece.\<close>

lemma react_request:
  assumes "v_context v = Some c" and "parse_bytes c (v_input v) = (True, c, v_input v)"
    and "\<not> HttpContext_gotAll c" and "\<forall>p \<in> set ps. p \<noteq> []"
    and "parse_bytes c (v_input v @ concat ps) = (True, c', [])" and "HttpContext_gotAll c'"
  shows "react_pieces (http_react order cb) v ps =
         answer_view order cb c' (v\<lparr>v_context := Some c', v_input := []\<rparr>)"
  using assms
proof (induction ps arbitrary: v c)
  case Nil
  then show ?case by simp
next
  case (Cons p ps)
  obtain ok1 c1 r1 where p: "parse_bytes c (v_input v @ p) = (ok1, c1, r1)" by (metis prod_cases3)
  have ok1: "ok1"
  proof (rule ccontr)
    assume "\<not> ok1"
    with p have "parse_bytes c (v_input v @ p) = (False, c1, r1)" by simp
    from parse_bytes_still_refused [OF this, of "concat ps"] Cons.prems(5) show False by simp
  qed
  have rest: "parse_bytes c1 (r1 @ concat ps) = (True, c', [])"
    using parse_bytes_append [of c "v_input v @ p" "concat ps"] p Cons.prems(5) by simp
  have idle: "parse_bytes c1 r1 = (True, c1, r1)"
    using parse_bytes_append [of c "v_input v @ p" "[]"] p ok1 by simp
  let ?v = "v\<lparr>v_context := Some c1, v_input := r1\<rparr>"
  have react: "http_react order cb (received p v) =
      (if HttpContext_gotAll c1 then answer_view order cb c1 ?v else Inr ?v)"
    using Cons.prems(1) p ok1 by (simp add: http_react_eq received_def)
  show ?case
  proof (cases "HttpContext_gotAll c1")
    case True
    then have "parse_bytes c1 (r1 @ concat ps) = (True, c1, r1 @ concat ps)"
      by (simp add: HttpContext_gotAll_def parse_bytes_done)
    with rest have "c1 = c'" "r1 = []" "concat ps = []" by simp_all
    moreover from this(3) Cons.prems(4) have "ps = []" by (cases ps) auto
    ultimately show ?thesis using react True
      by (cases "answer_view order cb c' (v\<lparr>v_context := Some c', v_input := []\<rparr>)") simp_all
  next
    case False
    have "react_pieces (http_react order cb) ?v ps =
        answer_view order cb c' (?v\<lparr>v_context := Some c', v_input := []\<rparr>)"
      by (rule Cons.IH [OF _ _ False]) (use idle rest Cons.prems(4,6) in simp_all)
    with react False show ?thesis by simp
  qed
qed

text \<open>As long as part of the request is missing, the callback only parses.\<close>

lemma react_waits:
  assumes "v_context v = Some c" and "parse_bytes c (v_input v) = (True, c, v_input v)"
    and "\<not> HttpContext_gotAll c" and "parse_bytes c (v_input v @ concat ps @ rest) = (True, c', [])" and "rest \<noteq> []"
  obtains c1 r1 where "react_pieces (http_react order cb) v ps = Inr (v\<lparr>v_context := Some c1, v_input := r1\<rparr>)"
proof -
  have "\<exists>c1 r1. react_pieces (http_react order cb) v ps = Inr (v\<lparr>v_context := Some c1, v_input := r1\<rparr>)"
    using assms(1-4)
  proof (induction ps arbitrary: v c)
    case Nil
    then have "v\<lparr>v_context := Some c, v_input := v_input v\<rparr> = v" by (cases v) simp
    then show ?case by (metis react_pieces.simps(1))
  next
    case (Cons p ps)
    obtain ok1 c1 r1 where p: "parse_bytes c (v_input v @ p) = (ok1, c1, r1)" by (metis prod_cases3)
    have ok1: "ok1"
    proof (rule ccontr)
      assume "\<not> ok1"
      with p have "parse_bytes c (v_input v @ p) = (False, c1, r1)" by simp
      from parse_bytes_still_refused [OF this, of "concat ps @ rest"] Cons.prems(4) show False by simp
    qed
    have more: "parse_bytes c1 (r1 @ concat ps @ rest) = (True, c', [])"
      using parse_bytes_append [of c "v_input v @ p" "concat ps @ rest"] p Cons.prems(4) by simp
    have idle: "parse_bytes c1 r1 = (True, c1, r1)"
      using parse_bytes_append [of c "v_input v @ p" "[]"] p ok1 by simp
    have not_yet: "\<not> HttpContext_gotAll c1"
      using more \<open>rest \<noteq> []\<close> by (auto simp: HttpContext_gotAll_def parse_bytes_done)
    let ?v = "v\<lparr>v_context := Some c1, v_input := r1\<rparr>"
    have "http_react order cb (received p v) = Inr ?v"
      using Cons.prems(1) p ok1 not_yet by (simp add: http_react_eq received_def)
    moreover have "\<exists>c2 r2. react_pieces (http_react order cb) ?v ps = Inr (?v\<lparr>v_context := Some c2, v_input := r2\<rparr>)"
      by (rule Cons.IH [OF _ _ not_yet]) (use idle more in simp_all)
    ultimately show ?case by simp
  qed
  with that show ?thesis by blast
qed

lemma http_react_context:
  assumes "react_pieces (http_react order cb) v ps = Inr u" and "v_context v \<noteq> None"
  shows "v_context u \<noteq> None"
  using assms
proof (induction ps arbitrary: v)
  case (Cons p ps)
  then obtain w where w: "http_react order cb (received p v) = Inr w" "react_pieces (http_react order cb) w ps = Inr u"
    by (auto simp: returned)
  have "v_context w \<noteq> None"
    using w(1) by (auto simp: http_react_def returned Let_def v_send_def v_shutdown_def
        split: option.splits prod.splits if_splits)
  from Cons.IH [OF w(2) this] show ?case .
qed simp

lemma new_context_idle: "parse_bytes HttpContext_new [] = (True, HttpContext_new, [])"
  by (simp add: parse_bytes_wait std_search.simps)

lemma feed_pieces_nonempty: "readable_pieces ps \<Longrightarrow> \<forall>p \<in> set ps. p \<noteq> []"
  by (simp add: readable_pieces_def)

text \<open>
  On a connection to the HTTP server nothing faults but the user's callback: no assertion
  fails, the context is never missing when a message arrives, whatever bytes the peer sends, and
  what is handed over stays on the wire followed by the output buffer.
\<close>

lemma http_faults_only_in_callback:
  assumes fresh: "fresh_connection me s" and plain: "\<And>r. Ready r \<in> set evs \<Longrightarrow> plain_events r"
    and none: "\<And>r. Polled r \<notin> set evs"
  shows "case and_then (TcpConnection_connectEstablished me (http_callbacks me order cb destroyed) s)
                (\<lambda>s. for_each (TcpConnection_event me (http_callbacks me order cb destroyed)) s evs) of
           Inl x \<Rightarrow> \<exists>request. HttpServer_response cb request = Inl x
         | Inr s' \<Rightarrow> handed_over s' = wire s' @ Buffer_content (outputBuffer s') \<and> ctl_failures (poller s') = 0"
proof -
  let ?cbs = "http_callbacks me order cb destroyed"
  have inv: "conn_inv me s" and st: "conn_state s = kConnecting"
    using fresh_connection_inv [OF fresh] fresh by (simp_all add: fresh_connection_def)
  obtain p where up: "TcpConnection_connectEstablished me ?cbs s =
      call_if_set (connectionCallback ?cbs) (s\<lparr>conn_state := kConnected, poller := p\<rparr>)"
    "conn_inv me (s\<lparr>conn_state := kConnected, poller := p\<rparr>)"
    using establish [OF inv st] by metis
  let ?s = "s\<lparr>conn_state := kConnected, poller := p, conn_context := Some HttpContext_new\<rparr>"
  have run: "TcpConnection_connectEstablished me ?cbs s = Inr ?s"
    using up(1) by (simp add: http_callbacks_def HttpServer_onConnection_def)
  have "conn_inv me ?s" using up(2) by (simp add: conn_inv_def)
  have "conn_result me (http_fault cb) ?s (for_each (TcpConnection_event me ?cbs) ?s evs)"
    by (rule http.events_ok [OF \<open>conn_inv me ?s\<close> plain none])
  then show ?thesis
    unfolding run and_then_Inr conn_result_def
    by (auto simp: http_fault_def split: sum.splits dest!: conn_summary)
qed

text \<open>Neither answer is empty, so a connection of the server never watches an empty output buffer.\<close>

lemma answers_nonempty: "bad_request \<noteq> []" "response_bytes order r \<noteq> []"
  by (simp_all add: bad_request_def response_bytes_def kCRLF_def)

lemma quiet_send_unstalled: "data \<noteq> [] \<Longrightarrow> keeps_unstalled me (TcpConnection_send me None data)"
  by (rule send_unstalled) (simp_all add: keeps_unstalled_def)

lemma unstalled_sent:
  fixes s :: "('f, 'x, 'z) tcp_connection_scheme"
  assumes "conn_wf me s" and "unstalled s" and "data \<noteq> []" and "TcpConnection_send me None data s = Inr t"
  shows "conn_wf me t \<and> unstalled t"
proof -
  have "keeps_conn me (\<lambda>_ _. False) (TcpConnection_send me None data :: ('f, 'x, 'z) tcp_connection_scheme \<Rightarrow> _)"
    by (rule send_keeps) simp
  from keeps_connD(2) [OF this assms(1,4)] keeps_unstalledD [OF quiet_send_unstalled [OF assms(3)] assms(1,2,4)]
  show ?thesis by blast
qed

lemma unstalled_shutdown:
  fixes s :: "('f, 'x, 'z) tcp_connection_scheme"
  assumes "conn_wf me s" and "unstalled s" and "TcpConnection_shutdown me s = Inr t"
  shows "conn_wf me t \<and> unstalled t"
proof -
  have "keeps_conn me (\<lambda>_ _. False) (TcpConnection_shutdown me :: ('f, 'x, 'z) tcp_connection_scheme \<Rightarrow> _)"
    by (rule shutdown_keeps)
  from keeps_connD(2) [OF this assms(1,3)] keeps_unstalledD [OF shutdown_unstalled assms] show ?thesis by blast
qed

lemma answer_unstalled:
  assumes "conn_wf me s" and "unstalled s" and run: "HttpServer_answer me order cb c s = Inr s'"
  shows "unstalled s'"
proof -
  obtain r t where t: "TcpConnection_send me None (response_bytes order r) s = Inr t"
    "(if closeConnection r then TcpConnection_shutdown me t
      else Inr (t\<lparr>conn_context := Some (HttpContext_reset c)\<rparr>)) = Inr s'"
    using run by (auto simp: HttpServer_answer_def returned)
  from unstalled_sent [OF assms(1,2) answers_nonempty(2) t(1)] t(2) unstalled_shutdown [of me t s'] show ?thesis
    by (auto split: if_splits)
qed

lemma message_unstalled: "keeps_unstalled me (HttpServer_onMessage me order cb)"
  unfolding keeps_unstalled_def
proof (intro allI impI)
  fix s s'
  assume s: "conn_wf me s \<and> unstalled s \<and> HttpServer_onMessage me order cb s = Inr s'"
  then obtain c where c: "conn_context s = Some c" by (auto simp: HttpServer_onMessage_def split: option.splits)
  obtain ok c' buf where parse: "HttpContext_parseRequest c (inputBuffer s) = (ok, c', buf)" by (metis prod_cases3)
  have "Buffer_inv (inputBuffer s)" using s by (simp add: conn_pre_def)
  from parseRequest_refines [OF this, of c] parse have b: "Buffer_inv buf" by simp
  let ?s = "s\<lparr>conn_context := Some c', inputBuffer := buf\<rparr>"
  have u: "conn_wf me ?s" "unstalled ?s" using s by (simp_all add: conn_wf_input_buffer b)
  obtain t where t: "(if ok then Inr ?s
        else and_then (TcpConnection_send me None bad_request ?s) (TcpConnection_shutdown me)) = Inr t"
    "(if HttpContext_gotAll c' then HttpServer_answer me order cb c' t else Inr t) = Inr s'"
    using s unfolding onMessage_eq [OF c parse] Let_def and_then_eq_Inr by blast
  have "conn_wf me t \<and> unstalled t"
  proof (cases ok)
    case False
    with t(1) obtain v where v: "TcpConnection_send me None bad_request ?s = Inr v" "TcpConnection_shutdown me v = Inr t"
      by (auto simp: returned)
    from unstalled_sent [OF u answers_nonempty(1) v(1)] unstalled_shutdown [OF _ _ v(2)] show ?thesis by blast
  qed (use t(1) u in auto)
  with t(2) answer_unstalled show "unstalled s'" by (auto split: if_splits)
qed

lemma http_flows: "flowing me (http_callbacks me order cb destroyed)"
  using message_unstalled [of me order cb]
  by (auto simp: flowing_def http_callbacks_def server_callbacks_def keeps_unstalled_def HttpServer_onConnection_def)

text \<open>What is left after a request has been served.\<close>

definition served :: "tid \<Rightarrow> char list \<Rightarrow> bool \<Rightarrow> ('f, http_context, 'z) tcp_connection_scheme \<Rightarrow> bool" where
  "served me answer closing s \<longleftrightarrow>
     conn_inv me s \<and> conn_open s \<and> unstalled s \<and> handed_over s = answer \<and> Buffer_content (inputBuffer s) = [] \<and>
     (if closing then conn_state s = kDisconnecting
      else conn_state s = kConnected \<and> conn_context s = Some HttpContext_new)"

lemma conn_inv_output: "conn_inv me s \<Longrightarrow> wire s @ Buffer_content (outputBuffer s) = handed_over s"
  by (simp add: conn_inv_def conn_pre_def)

lemma served_wire: "served me answer closing s \<Longrightarrow> wire s @ Buffer_content (outputBuffer s) = answer"
  using conn_inv_output [of me s] by (auto simp: served_def)

lemma request_served:
  assumes fresh: "fresh_connection me s" and req: "clean_request r" and pieces: "concat ps = render_request r"
    and ps: "readable_pieces ps" and resp: "HttpServer_response cb (request_of r) = Inr resp"
    and input: "socket_reads s = map ReadData ps @ rest" and evs: "set evs \<subseteq> {Ready EPOLLIN, Ready EPOLLOUT}"
    and len: "length (filter (\<lambda>e. e = Ready EPOLLIN) evs) = length ps"
  obtains s' where "and_then (TcpConnection_connectEstablished me (http_callbacks me order cb destroyed) s)
                (\<lambda>s. for_each (TcpConnection_event me (http_callbacks me order cb destroyed)) s evs) = Inr s'"
    and "served me (response_bytes order resp) (closeConnection resp) s'" and "socket_reads s' = rest"
proof -
  have st: "conn_state s = kConnecting" and v: "Buffer_content (inputBuffer s) = []" "handed_over s = []"
    using fresh by (simp_all add: fresh_connection_def)
  let ?c = "\<lparr>ctx_state = kGotAll, ctx_request = request_of r\<rparr>"
  let ?v = "(view_of s)\<lparr>v_state := kConnected, v_context := Some HttpContext_new\<rparr>"
  have parse: "parse_bytes HttpContext_new (v_input ?v @ concat ps) = (True, ?c, [])"
    using parse_render_request [OF req, of "[]"] v by (simp add: pieces)
  have not_yet: "\<not> HttpContext_gotAll HttpContext_new" by (simp add: HttpContext_gotAll_def HttpContext_new_def)
  have "react_pieces (http_react order cb) ?v ps = answer_view order cb ?c (?v\<lparr>v_context := Some ?c, v_input := []\<rparr>)"
    by (rule react_request [OF _ _ not_yet feed_pieces_nonempty [OF ps] parse])
      (simp_all add: v new_context_idle HttpContext_gotAll_def)
  also have "\<dots> = Inr (let v = ?v\<lparr>v_context := Some ?c, v_input := [], v_output := response_bytes order resp\<rparr>
      in if closeConnection resp then v\<lparr>v_state := kDisconnecting\<rparr>
         else v\<lparr>v_context := Some HttpContext_new\<rparr>)"
    using resp v
    by (simp add: answer_view_def v_send_def v_shutdown_def HttpContext_reset_def HttpContext_new_def Let_def)
  finally obtain s' where s': "and_then (TcpConnection_connectEstablished me (http_callbacks me order cb destroyed) s)
        (\<lambda>s. for_each (TcpConnection_event me (http_callbacks me order cb destroyed)) s evs) = Inr s'"
    "conn_inv me s'" "socket_reads s' = rest"
    "view_of s' = (let v = ?v\<lparr>v_context := Some ?c, v_input := [], v_output := response_bytes order resp\<rparr>
      in if closeConnection resp then v\<lparr>v_state := kDisconnecting\<rparr>
         else v\<lparr>v_context := Some HttpContext_new\<rparr>)"
    using http.life_react [OF fresh_connection_inv [OF fresh] st input ps evs len, of order cb destroyed] by auto
  have "unstalled s'"
    by (rule http.life_unstalled [OF fresh_connection_inv [OF fresh] st http_flows _ s'(1)]) (use evs in auto)
  from s'(4) have "handed_over s' = response_bytes order resp \<and> Buffer_content (inputBuffer s') = [] \<and>
      (if closeConnection resp then conn_state s' = kDisconnecting
       else conn_state s' = kConnected \<and> conn_context s' = Some HttpContext_new)"
    by (simp add: view_of_def Let_def split: if_splits)
  with s' \<open>unstalled s'\<close> that [of s'] show ?thesis by (auto simp: served_def conn_open_def split: if_splits)
qed

text \<open>
  C5: Serving a request, end to end: however a well-formed request arrives in pieces and write
  events come in between, the server calls the user's callback on that request and hands over
  exactly the bytes of its response, once; it then shuts the connection down or, if the response
  keeps it, is ready for the next request.
\<close>

theorem http_serves_request:
  assumes fresh: "fresh_connection me s" and req: "clean_request r" and pieces: "concat ps = render_request r"
    and ps: "readable_pieces ps" and resp: "HttpServer_response cb (request_of r) = Inr resp"
    and input: "socket_reads s = map ReadData ps @ rest" and evs: "set evs \<subseteq> {Ready EPOLLIN, Ready EPOLLOUT}"
    and len: "length (filter (\<lambda>e. e = Ready EPOLLIN) evs) = length ps"
  shows "\<exists>s'. and_then (TcpConnection_connectEstablished me (http_callbacks me order cb destroyed) s)
                (\<lambda>s. for_each (TcpConnection_event me (http_callbacks me order cb destroyed)) s evs) = Inr s' \<and>
              wire s' @ Buffer_content (outputBuffer s') = response_bytes order resp \<and>
              Buffer_content (inputBuffer s') = [] \<and> socket_reads s' = rest \<and>
              (if closeConnection resp then conn_state s' = kDisconnecting
               else conn_state s' = kConnected \<and> conn_context s' = Some HttpContext_new)"
proof -
  obtain s' where s': "and_then (TcpConnection_connectEstablished me (http_callbacks me order cb destroyed) s)
                (\<lambda>s. for_each (TcpConnection_event me (http_callbacks me order cb destroyed)) s evs) = Inr s'"
    "served me (response_bytes order resp) (closeConnection resp) s'" "socket_reads s' = rest"
    by (rule request_served [OF fresh req pieces ps resp input evs len])
  with served_wire [OF s'(2)] show ?thesis by (auto simp: served_def)
qed

text \<open>
  A second request that arrives in the same read as the first is not served: after a response
  that keeps the connection, the parser is reset but the rest of the input waits in the buffer
  until the peer sends more.
\<close>

lemma pipelined_request_waits:
  assumes fresh: "fresh_connection me s" and req: "clean_request r"
    and resp: "HttpServer_response cb (request_of r) = Inr resp" and keep: "\<not> closeConnection resp"
    and input: "socket_reads s = [ReadData (render_request r @ extra)]"
    and fits: "length (render_request r @ extra) \<le> kExtrabufSize"
  shows "\<exists>s'. and_then (TcpConnection_connectEstablished me (http_callbacks me order cb destroyed) s)
                (\<lambda>s. TcpConnection_event me (http_callbacks me order cb destroyed) s (Ready EPOLLIN)) = Inr s' \<and>
              handed_over s' = response_bytes order resp \<and> Buffer_content (inputBuffer s') = extra \<and>
              conn_state s' = kConnected \<and> conn_context s' = Some HttpContext_new"
proof -
  let ?p = "render_request r @ extra"
  have st: "conn_state s = kConnecting" and v: "Buffer_content (inputBuffer s) = []" "handed_over s = []"
    using fresh by (simp_all add: fresh_connection_def)
  let ?c = "\<lparr>ctx_state = kGotAll, ctx_request = request_of r\<rparr>"
  let ?v = "(view_of s)\<lparr>v_state := kConnected, v_context := Some HttpContext_new\<rparr>"
  let ?w = "?v\<lparr>v_input := extra, v_output := response_bytes order resp\<rparr>"
  have ps: "readable_pieces [?p]" using fits by (simp add: readable_pieces_def render_request_def kCRLF_def)
  have "react_pieces (http_react order cb) ?v [?p] = Inr ?w"
    using parse_render_request [OF req, of extra] resp keep v
    by (simp add: http_react_eq received_def answer_view_def HttpContext_gotAll_def v_send_def
        HttpContext_reset_def HttpContext_new_def)
  moreover have "socket_reads s = map ReadData [?p] @ []" using input by simp
  moreover have "set [Ready EPOLLIN] \<subseteq> {Ready EPOLLIN, Ready EPOLLOUT :: 'b conn_event}"
    "length (filter (\<lambda>e. e = (Ready EPOLLIN :: 'b conn_event)) [Ready EPOLLIN]) = length [?p]" by simp_all
  ultimately obtain s' where
    "and_then (TcpConnection_connectEstablished me (http_callbacks me order cb destroyed) s)
        (\<lambda>s. TcpConnection_event me (http_callbacks me order cb destroyed) s (Ready EPOLLIN)) = Inr s'"
    "view_of s' = ?w"
    using http.life_react [OF fresh_connection_inv [OF fresh] st _ ps, of "[]" "[Ready EPOLLIN]" order cb destroyed]
    by (auto simp: and_then_def split: sum.splits)
  then show ?thesis by (auto simp: view_of_def)
qed

subsection \<open>Examples\<close>

text \<open>The server of src/main.cpp on a connection that gets a request in two pieces.\<close>

definition example_request :: request_spec where
  "example_request = \<lparr>rs_method = kGet, rs_path = ''/hello'', rs_query = None, rs_version = kHttp11, rs_headers = []\<rparr>"

definition example_order :: header_order where
  "example_order r = (case resp_headers r ''Content-Type'' of None \<Rightarrow> [] | Some t \<Rightarrow> [(''Content-Type'', t)])"

definition example_callback :: http_callback where
  "example_callback req resp = Inr (main_handler req resp)"

definition keeping_callback :: http_callback where
  "keeping_callback req resp = Inr ((main_handler req resp)\<lparr>closeConnection := False\<rparr>)"

definition example_http_connection :: "char list list \<Rightarrow> (nat, http_context) tcp_connection" where
  "example_http_connection ps =
     \<lparr>threadId = 1, looping = True, quit = False,
      poller = put_channel 80 (Channel_new 7) EPollPoller_new,
      pendingFunctors = [], callingPendingFunctors = False, wakeupChannel = 64, wakeups = 0,
      timerfdChannel = 72, timerQueue = TimerQueue_new 1 (Timestamp 0),
      conn_name = ''c'', conn_state = kConnecting, conn_channel = 80, inputBuffer = Buffer_new,
      outputBuffer = Buffer_new, conn_context = None, socket_reads = map ReadData ps,
      socket_writes = [Wrote 2], wire = [], fin_sent = False, handed_over = []\<rparr>"

lemma example_http_fresh: "fresh_connection 1 (example_http_connection ps)"
  using put_new_channel_inv [OF EPollPoller_new_inv, of 80 7]
  by (simp add: fresh_connection_def example_http_connection_def conn_ch_def put_channel_def Channel_new_def
      EPollPoller_new_def)

lemma example_request_bytes:
  "render_request example_request = ''GET /hel'' @ ''lo HTTP/1.1'' @ kCRLF @ kCRLF" "clean_request example_request"
  by (simp_all add: render_request_def example_request_def render_line_def line_bytes_def clean_request_def)

lemma http_faults_only_in_callback_witness:
  "case and_then (TcpConnection_connectEstablished 1 (http_callbacks 1 example_order (Some example_callback) 0)
            (example_http_connection [''zzz'' @ kCRLF]))
          (\<lambda>s. for_each (TcpConnection_event 1 (http_callbacks 1 example_order (Some example_callback) 0)) s
             [Ready EPOLLIN, Ready EPOLLOUT]) of
     Inl x \<Rightarrow> False
   | Inr s' \<Rightarrow> handed_over s' = wire s' @ Buffer_content (outputBuffer s') \<and> ctl_failures (poller s') = 0"
proof -
  have "plain_events r" if "Ready r \<in> set [Ready EPOLLIN, Ready EPOLLOUT :: nat conn_event]" for r
    using that by (auto simp: plain_events_def event_masks)
  from http_faults_only_in_callback [where evs = "[Ready EPOLLIN, Ready EPOLLOUT]",
      OF example_http_fresh [of "[''zzz'' @ kCRLF]"] this _,
      where cb = "Some example_callback" and order = example_order and destroyed = 0] show ?thesis
    by (simp add: HttpServer_response_def example_callback_def Let_def cong: sum.case_cong
        del: for_each.simps TcpConnection_event.simps)
qed

lemma http_serves_request_witness:
  "\<exists>s'. and_then (TcpConnection_connectEstablished 1 (http_callbacks 1 example_order (Some example_callback) 0)
            (example_http_connection [''GET /hel'', ''lo HTTP/1.1'' @ kCRLF @ kCRLF]))
          (\<lambda>s. for_each (TcpConnection_event 1 (http_callbacks 1 example_order (Some example_callback) 0)) s
             [Ready EPOLLIN, Ready EPOLLOUT, Ready EPOLLIN]) = Inr s' \<and>
        wire s' @ Buffer_content (outputBuffer s') =
          response_bytes example_order (main_handler (request_of example_request) (HttpResponse_new True)) \<and>
        conn_state s' = kDisconnecting"
proof -
  let ?ps = "[''GET /hel'', ''lo HTTP/1.1'' @ kCRLF @ kCRLF]"
  let ?evs = "[Ready EPOLLIN, Ready EPOLLOUT, Ready EPOLLIN] :: nat conn_event list"
  let ?resp = "main_handler (request_of example_request) (HttpResponse_new True)"
  have pieces: "concat ?ps = render_request example_request" "readable_pieces ?ps"
    by (simp_all add: example_request_bytes readable_pieces_def kExtrabufSize_def kCRLF_def)
  have resp: "HttpServer_response (Some example_callback) (request_of example_request) = Inr ?resp"
    by (simp add: HttpServer_response_def example_callback_def)
  have close: "closeConnection ?resp"
    by (simp add: main_handler_def request_of_def example_request_def HttpResponse_new_def
        HttpResponse_setContentType_def HttpResponse_addHeader_def)
  have input: "socket_reads (example_http_connection ?ps) = map ReadData ?ps @ []"
    by (simp add: example_http_connection_def)
  have "EPOLLIN \<noteq> EPOLLOUT" by (simp add: event_masks)
  then have "length (filter (\<lambda>e. e = Ready EPOLLIN) ?evs) = length ?ps" "set ?evs \<subseteq> {Ready EPOLLIN, Ready EPOLLOUT}"
    by simp_all
  from http_serves_request [OF example_http_fresh example_request_bytes(2) pieces resp input this(2,1),
      where order = example_order and destroyed = 0] close show ?thesis by auto
qed

lemma pipelined_request_waits_witness:
  "\<exists>s'. and_then (TcpConnection_connectEstablished 1 (http_callbacks 1 example_order (Some keeping_callback) 0)
            (example_http_connection [render_request example_request @ render_request example_request]))
          (\<lambda>s. TcpConnection_event 1 (http_callbacks 1 example_order (Some keeping_callback) 0) s (Ready EPOLLIN))
            = Inr s' \<and>
        Buffer_content (inputBuffer s') = render_request example_request \<and> conn_state s' = kConnected"
proof -
  let ?resp = "(main_handler (request_of example_request) (HttpResponse_new True))\<lparr>closeConnection := False\<rparr>"
  have resp: "HttpServer_response (Some keeping_callback) (request_of example_request) = Inr ?resp"
    by (simp add: HttpServer_response_def keeping_callback_def)
  have input: "socket_reads (example_http_connection [render_request example_request @ render_request example_request])
      = [ReadData (render_request example_request @ render_request example_request)]"
    by (simp add: example_http_connection_def)
  have fits: "length (render_request example_request @ render_request example_request) \<le> kExtrabufSize"
    by (simp add: example_request_bytes kExtrabufSize_def kCRLF_def)
  from pipelined_request_waits [OF example_http_fresh example_request_bytes(2) resp _ input fits,
      where order = example_order and destroyed = 0] show ?thesis by auto
qed

end
