(* ===== verification/Connectors.thy ===== *)
theory Connectors
  imports Event_Loops
begin

text \<open>
  Connector (src/net/connector.cpp): the state machine that opens a connection to a server, with
  retries. The connector lives in its loop, whose record it extends; the functors that it gives to
  the loop are values of a datatype. What the kernel and the allocator answer is in the state: the
  results of the coming \<open>socket\<close> and \<open>connect\<close> calls, of \<open>getsockopt(SO_ERROR)\<close>, and the addresses
  of the coming allocations. The lemmas show that the connector neither leaks nor loses a
  descriptor and that its channel is registered exactly while it is connecting, as long as it is
  not started between the removal of a channel and its deletion; and what goes wrong otherwise.
\<close>

unbundle bit_operations_syntax

section \<open>Connector\<close>

datatype ConnectorState = Connector_kDisconnected | Connector_kConnecting | Connector_kConnected

text \<open>The functors bound to the connector, and those of other parts of the program.\<close>

datatype 'g connector_functor = StartInLoop | StopInLoop | ResetChannel | Other 'g

text \<open>
  \<open>socket_results\<close>: for each coming connection attempt the descriptor that \<open>socket\<close> returns and the
  error that \<open>connect\<close> sets (0 if it succeeds at once). When there is none left, \<open>socket\<close> fails.
  \<open>sockets_owned\<close> is a history variable: the descriptors that the connector has opened and neither
  closed nor passed on; those passed on are listed in \<open>delivered\<close>. \<open>double_closes\<close> counts calls of
  \<open>close\<close> on a descriptor that the connector does not own (any more).
\<close>

record 'g connector = "'g connector_functor event_loop" +
  connect_wanted :: bool
  connector_state :: ConnectorState
  connector_channel :: "addr option"
  retryDelayMs :: int
  socket_results :: "(int \<times> nat) list"
  so_errors :: "nat list"
  allocations :: "addr list"
  sockets_owned :: "int set"
  delivered :: "int list"
  double_closes :: nat

definition kInitRetryDelayMs :: int where
  "kInitRetryDelayMs = 500"

definition kMaxRetryDelayMs :: int where
  "kMaxRetryDelayMs = 30000"

definition EINTR :: nat where "EINTR = 4"
definition EINPROGRESS :: nat where "EINPROGRESS = 115"

definition isInProgress :: "nat \<Rightarrow> bool" where
  "isInProgress err \<longleftrightarrow> err = EINPROGRESS \<or> err = EINTR"

subsection \<open>The socket calls\<close>

text \<open>A descriptor that \<open>socket\<close> returns is in use nowhere else; without one the program aborts.\<close>

definition createNonblockingOrDie ::
    "('g, 'z) connector_scheme \<Rightarrow> (int \<times> nat \<times> ('g, 'z) connector_scheme) res" where
  "createNonblockingOrDie s =
     (case socket_results s of
        [] \<Rightarrow> Inl Aborted
      | (fd, err) # rs \<Rightarrow>
          if fd < 0 \<or> fd \<in> sockets_owned s \<or> channels (poller s) fd \<noteq> None then Inl Aborted
          else Inr (fd, err, s\<lparr>socket_results := rs, sockets_owned := insert fd (sockets_owned s)\<rparr>))"

definition sockets_close :: "int \<Rightarrow> ('g, 'z) connector_scheme \<Rightarrow> ('g, 'z) connector_scheme" where
  "sockets_close fd s =
     (if fd \<in> sockets_owned s then s\<lparr>sockets_owned := sockets_owned s - {fd}\<rparr>
      else s\<lparr>double_closes := double_closes s + 1\<rparr>)"

definition getSocketError :: "('g, 'z) connector_scheme \<Rightarrow> nat \<times> ('g, 'z) connector_scheme" where
  "getSocketError s =
     (case so_errors s of [] \<Rightarrow> (0, s) | e # es \<Rightarrow> (e, s\<lparr>so_errors := es\<rparr>))"

text \<open>\<open>new\<close> gives an address that is not in use, or throws.\<close>

definition allocate :: "('g, 'z) connector_scheme \<Rightarrow> (addr \<times> ('g, 'z) connector_scheme) res" where
  "allocate s =
     (case allocations s of [] \<Rightarrow> Inl UncaughtException | a # as \<Rightarrow> Inr (a, s\<lparr>allocations := as\<rparr>))"

definition new_Channel :: "int \<Rightarrow> ('g, 'z) connector_scheme \<Rightarrow> (addr \<times> ('g, 'z) connector_scheme) res" where
  "new_Channel fd s =
     and_then (allocate s) (\<lambda>(a, s).
     if channel_heap (poller s) a \<noteq> None then Inl UncaughtException
     else Inr (a, s\<lparr>poller := put_channel a (Channel_new fd) (poller s)\<rparr>))"

definition delete_channel :: "addr \<Rightarrow> epoll_poller \<Rightarrow> epoll_poller" where
  "delete_channel a p = p\<lparr>channel_heap := (channel_heap p)(a := None)\<rparr>"

subsection \<open>Operations\<close>

definition Connector_retry :: "tid \<Rightarrow> ('g, 'z) connector_scheme \<Rightarrow> ('g, 'z) connector_scheme res" where
  "Connector_retry me s =
     (let s = s\<lparr>connector_state := Connector_kDisconnected\<rparr>
      in if connect_wanted s then
           and_then (allocate s) (\<lambda>(p, s).
           and_then (EventLoop_runAfter me p (int_div_double (retryDelayMs s) 1000) StartInLoop s) (\<lambda>(_, s).
           (let s = s\<lparr>retryDelayMs := retryDelayMs s * 2\<rparr>
            in Inr (if retryDelayMs s > kMaxRetryDelayMs then s\<lparr>retryDelayMs := kMaxRetryDelayMs\<rparr> else s))))
         else Inr s)"

definition Connector_connecting ::
    "tid \<Rightarrow> int \<Rightarrow> ('g, 'z) connector_scheme \<Rightarrow> ('g, 'z) connector_scheme res" where
  "Connector_connecting me sockfd s =
     (let s = s\<lparr>connector_state := Connector_kConnecting\<rparr>
      in and_then (assert_that (connector_channel s = None)) (\<lambda>_.
         and_then (new_Channel sockfd s) (\<lambda>(a, s).
         Channel_change me EnableWriting a (s\<lparr>connector_channel := Some a\<rparr>))))"

definition Connector_resetChannel :: "('g, 'z) connector_scheme \<Rightarrow> ('g, 'z) connector_scheme" where
  "Connector_resetChannel s =
     (case connector_channel s of
        None \<Rightarrow> s
      | Some a \<Rightarrow> s\<lparr>connector_channel := None, poller := delete_channel a (poller s)\<rparr>)"

definition Connector_connect :: "tid \<Rightarrow> ('g, 'z) connector_scheme \<Rightarrow> ('g, 'z) connector_scheme res" where
  "Connector_connect me s =
     and_then
       (case connector_channel s of
          None \<Rightarrow> Inr s
        | Some a \<Rightarrow> and_then (Channel_change me DisableAll a s) (\<lambda>s.
                    and_then (EventLoop_removeChannel me a s) (\<lambda>s.
                    Inr (Connector_resetChannel s)))) (\<lambda>s.
     and_then (createNonblockingOrDie s) (\<lambda>(sockfd, savedErrno, s).
     if savedErrno = 0 then Connector_connecting me sockfd (s\<lparr>retryDelayMs := kInitRetryDelayMs\<rparr>)
     else if isInProgress savedErrno then Connector_connecting me sockfd s
     else (let s = sockets_close sockfd s
           in if connect_wanted s then Connector_retry me s else Inr s)))"

definition Connector_removeAndResetChannel ::
    "tid \<Rightarrow> ('g, 'z) connector_scheme \<Rightarrow> (int \<times> ('g, 'z) connector_scheme) res" where
  "Connector_removeAndResetChannel me s =
     (case connector_channel s of
        None \<Rightarrow> Inl NullDeref
      | Some a \<Rightarrow>
          and_then (Channel_change me DisableAll a s) (\<lambda>s.
          and_then (EventLoop_removeChannel me a s) (\<lambda>s.
          and_then (channel_at (poller s) a) (\<lambda>c.
          Inr (ch_fd c, EventLoop_queueInLoop me ResetChannel s)))))"

definition Connector_startInLoop :: "tid \<Rightarrow> ('g, 'z) connector_scheme \<Rightarrow> ('g, 'z) connector_scheme res" where
  "Connector_startInLoop me s =
     and_then (EventLoop_assertInLoopThread me s) (\<lambda>_.
     if connector_state s \<noteq> Connector_kDisconnected then Inr s
     else if connect_wanted s then Connector_connect me s
     else Inr s)"

definition Connector_stopInLoop :: "tid \<Rightarrow> ('g, 'z) connector_scheme \<Rightarrow> ('g, 'z) connector_scheme res" where
  "Connector_stopInLoop me s =
     and_then (EventLoop_assertInLoopThread me s) (\<lambda>_.
     if connector_state s = Connector_kConnecting then
       and_then (Connector_removeAndResetChannel me s) (\<lambda>(sockfd, s).
       Inr ((sockets_close sockfd s)\<lparr>connector_state := Connector_kDisconnected\<rparr>))
     else Inr s)"

definition Connector_exec ::
    "tid \<Rightarrow> ('g \<Rightarrow> ('g, 'z) connector_scheme \<Rightarrow> ('g, 'z) connector_scheme res) \<Rightarrow> 'g connector_functor \<Rightarrow>
     ('g, 'z) connector_scheme \<Rightarrow> ('g, 'z) connector_scheme res" where
  "Connector_exec me other f s =
     (case f of
        StartInLoop \<Rightarrow> Connector_startInLoop me s
      | StopInLoop \<Rightarrow> Connector_stopInLoop me s
      | ResetChannel \<Rightarrow> Inr (Connector_resetChannel s)
      | Other g \<Rightarrow> other g s)"

text \<open>The public operations; \<open>start\<close> and \<open>stop\<close> may be called from any thread.\<close>

definition Connector_start ::
    "tid \<Rightarrow> ('g \<Rightarrow> ('g, 'z) connector_scheme \<Rightarrow> ('g, 'z) connector_scheme res) \<Rightarrow>
     ('g, 'z) connector_scheme \<Rightarrow> ('g, 'z) connector_scheme res" where
  "Connector_start me other s =
     EventLoop_runInLoop me (Connector_exec me other) StartInLoop (s\<lparr>connect_wanted := True\<rparr>)"

definition Connector_restart :: "tid \<Rightarrow> ('g, 'z) connector_scheme \<Rightarrow> ('g, 'z) connector_scheme res" where
  "Connector_restart me s =
     and_then (EventLoop_assertInLoopThread me s) (\<lambda>_.
     Connector_startInLoop me
       (s\<lparr>connector_state := Connector_kDisconnected, retryDelayMs := kInitRetryDelayMs, connect_wanted := True\<rparr>))"

definition Connector_stop :: "tid \<Rightarrow> ('g, 'z) connector_scheme \<Rightarrow> ('g, 'z) connector_scheme" where
  "Connector_stop me s = EventLoop_queueInLoop me StopInLoop (s\<lparr>connect_wanted := False\<rparr>)"

definition Connector_handleWrite ::
    "tid \<Rightarrow> (int \<Rightarrow> ('g, 'z) connector_scheme \<Rightarrow> ('g, 'z) connector_scheme res) option \<Rightarrow>
     ('g, 'z) connector_scheme \<Rightarrow> ('g, 'z) connector_scheme res" where
  "Connector_handleWrite me newConnectionCallback s =
     (if connector_state s = Connector_kConnecting then
        and_then (Connector_removeAndResetChannel me s) (\<lambda>(sockfd, s).
        (let (err, s) = getSocketError s
         in if err = 0 then
              (let s = s\<lparr>connector_state := Connector_kConnected, retryDelayMs := kInitRetryDelayMs\<rparr>
               in if connect_wanted s then
                    (case newConnectionCallback of
                       Some f \<Rightarrow> f sockfd (s\<lparr>sockets_owned := sockets_owned s - {sockfd},
                                            delivered := delivered s @ [sockfd]\<rparr>)
                     | None \<Rightarrow> Inr (sockets_close sockfd s))
                  else Inr (sockets_close sockfd s))
            else
              (let s = sockets_close sockfd s
               in if connect_wanted s then Connector_retry me s else Inr s)))
      else Inr s)"

definition Connector_handleError :: "tid \<Rightarrow> ('g, 'z) connector_scheme \<Rightarrow> ('g, 'z) connector_scheme res" where
  "Connector_handleError me s =
     (if connector_state s = Connector_kConnecting then
        and_then (Connector_removeAndResetChannel me s) (\<lambda>(sockfd, s).
        (let (err, s) = getSocketError s;
             s = sockets_close sockfd s
         in if connect_wanted s then Connector_retry me s else Inr s))
      else Inr s)"

definition Connector_events ::
    "tid \<Rightarrow> (int \<Rightarrow> ('g, 'z) connector_scheme \<Rightarrow> ('g, 'z) connector_scheme res) option \<Rightarrow>
     ('g, 'z) connector_scheme event_callbacks" where
  "Connector_events me newConnectionCallback =
     \<lparr>readCallback = None, writeCallback = Some (Connector_handleWrite me newConnectionCallback),
      closeCallback = None, errorCallback = Some (Connector_handleError me)\<rparr>"

definition Connector_new :: "'g connector_functor event_loop \<Rightarrow> (int \<times> nat) list \<Rightarrow> nat list \<Rightarrow> addr list \<Rightarrow> 'g connector" where
  "Connector_new l socks errs as =
     event_loop.extend l
       \<lparr>connect_wanted = False, connector_state = Connector_kDisconnected, connector_channel = None,
        retryDelayMs = kInitRetryDelayMs, socket_results = socks, so_errors = errs, allocations = as,
        sockets_owned = {}, delivered = [], double_closes = 0\<rparr>"

text \<open>The destructor asserts that the channel, if there is one, wants no events, and deletes it.\<close>

definition Connector_destroy :: "('g, 'z) connector_scheme \<Rightarrow> ('g, 'z) connector_scheme res" where
  "Connector_destroy s =
     (case connector_channel s of
        None \<Rightarrow> Inr s
      | Some a \<Rightarrow> and_then (channel_at (poller s) a) (\<lambda>c.
                  and_then (assert_that (Channel_isNoneEvent c)) (\<lambda>_. Inr (Connector_resetChannel s))))"

subsection \<open>Retry delays\<close>

text \<open>The delays that occur, and the exact number of microseconds that \<open>runAfter\<close> makes of them.\<close>

definition retry_delays :: "int list" where
  "retry_delays = [500, 1000, 2000, 4000, 8000, 16000, 30000]"

definition next_delay :: "int \<Rightarrow> int" where
  "next_delay d = (if d * 2 > kMaxRetryDelayMs then kMaxRetryDelayMs else d * 2)"

lemma retry_delays_exact:
  "\<forall>d \<in> set retry_delays. next_delay d \<in> set retry_delays \<and>
     double_trunc (double_mul_int (double_mul_int (int_div_double d 1000) 1000) 1000) = d * 1000"
  by code_simp

lemma next_delay_closed: "d \<in> set retry_delays \<Longrightarrow> next_delay d \<in> set retry_delays"
  using retry_delays_exact by blast

lemma first_delay: "kInitRetryDelayMs \<in> set retry_delays"
  by (simp add: kInitRetryDelayMs_def retry_delays_def)

lemma next_delay_iterate: "(next_delay ^^ k) kInitRetryDelayMs = min (500 * 2 ^ k) 30000"
proof (induction k)
  case 0
  show ?case by (simp add: kInitRetryDelayMs_def)
next
  case (Suc k)
  have "next_delay (min (500 * 2 ^ k) 30000) = min (500 * 2 ^ Suc k) 30000"
    by (auto simp: next_delay_def kMaxRetryDelayMs_def min_def)
  with Suc show ?case by simp
qed

lemma addTime_delay:
  assumes "d \<in> set retry_delays"
  shows "Timestamp_addTime t (int_div_double d 1000) =
         map_res Timestamp (int64 (microSecondsSinceEpoch t + d * 1000))"
proof -
  have "double_trunc (double_mul_int (double_mul_int (int_div_double d 1000) 1000) 1000) = d * 1000"
    using retry_delays_exact assms by blast
  moreover have "in_int64 (d * 1000)"
    using assms by (auto simp: retry_delays_def in_int64_def)
  ultimately show ?thesis by (simp add: Timestamp_addTime_def int64_def)
qed

subsection \<open>Invariant\<close>

text \<open>
  \<open>todo\<close> are functors that \<open>doPendingFunctors\<close> has taken out and not yet run. While connecting, the
  channel is registered for writing and its descriptor is the only one owned; otherwise there is
  no channel, or it is unregistered and exactly one deletion of it is due.
\<close>

definition resets_due :: "'g connector_functor list \<Rightarrow> ('g, 'z) connector_scheme \<Rightarrow> nat" where
  "resets_due todo s = count_list todo ResetChannel + count_list (pendingFunctors s) ResetChannel"

definition timers_ok :: "tid \<Rightarrow> 'c timer_queue \<Rightarrow> bool" where
  "timers_ok me q \<longleftrightarrow> tq_owner q = me \<and> (\<exists>E. tq_inv E q)"

definition loop_ok :: "tid \<Rightarrow> ('g, 'z) connector_scheme \<Rightarrow> bool" where
  "loop_ok me s \<longleftrightarrow>
     threadId s = me \<and> poller_inv (poller s) \<and> timers_ok me (timerQueue s) \<and>
     retryDelayMs s \<in> set retry_delays \<and> double_closes s = 0"

definition channel_is :: "ChannelState \<Rightarrow> events \<Rightarrow> addr \<Rightarrow> epoll_poller \<Rightarrow> bool" where
  "channel_is i ev a p \<longleftrightarrow> (\<exists>c. channel_heap p a = Some c \<and> ch_index c = i \<and> ch_events c = ev)"

definition idle_connector :: "'g connector_functor list \<Rightarrow> ('g, 'z) connector_scheme \<Rightarrow> bool" where
  "idle_connector todo s \<longleftrightarrow>
     sockets_owned s = {} \<and>
     (case connector_channel s of
        None \<Rightarrow> resets_due todo s = 0
      | Some a \<Rightarrow> channel_is kNew kNoneEvent a (poller s) \<and> resets_due todo s = 1)"

definition busy_connector :: "'g connector_functor list \<Rightarrow> ('g, 'z) connector_scheme \<Rightarrow> bool" where
  "busy_connector todo s \<longleftrightarrow>
     resets_due todo s = 0 \<and>
     (\<exists>a c. connector_channel s = Some a \<and> channel_heap (poller s) a = Some c \<and> ch_index c = kAdded \<and>
        ch_events c = kWriteEvent \<and> sockets_owned s = {ch_fd c})"

definition connector_inv :: "tid \<Rightarrow> 'g connector_functor list \<Rightarrow> ('g, 'z) connector_scheme \<Rightarrow> bool" where
  "connector_inv me todo s \<longleftrightarrow>
     loop_ok me s \<and>
     (if connector_state s = Connector_kConnecting then busy_connector todo s else idle_connector todo s)"

text \<open>
  The faults that only exhausted resources cause: no socket can be made (\<open>Aborted\<close>, by
  \<open>createNonblockingOrDie\<close>), no memory (\<open>UncaughtException\<close>), or a retry time beyond the range of the
  clock (\<open>SignedOverflow\<close>). A call in the wrong thread is another fault and not among them.
\<close>

definition resource_fault :: "fault \<Rightarrow> bool" where
  "resource_fault x \<longleftrightarrow> x = Aborted \<or> x = UncaughtException \<or> x = SignedOverflow"

definition connector_result ::
    "tid \<Rightarrow> 'g connector_functor list \<Rightarrow> ('g, 'z) connector_scheme res \<Rightarrow> bool" where
  "connector_result me todo r \<longleftrightarrow>
     (case r of Inl x \<Rightarrow> resource_fault x | Inr s \<Rightarrow> connector_inv me todo s)"

lemma connector_result_simps [simp]:
  "connector_result me todo (Inr s) \<longleftrightarrow> connector_inv me todo s"
  "connector_result me todo (Inl x) \<longleftrightarrow> resource_fault x"
  by (simp_all add: connector_result_def)

text \<open>What the invariants do not look at.\<close>

lemma idle_connector_fields [simp]:
  "idle_connector todo (s\<lparr>connector_state := x1\<rparr>) = idle_connector todo s"
  "idle_connector todo (s\<lparr>retryDelayMs := x2\<rparr>) = idle_connector todo s"
  "idle_connector todo (s\<lparr>socket_results := x3\<rparr>) = idle_connector todo s"
  "idle_connector todo (s\<lparr>allocations := x4\<rparr>) = idle_connector todo s"
  "idle_connector todo (s\<lparr>timerQueue := x5\<rparr>) = idle_connector todo s"
  "idle_connector todo (s\<lparr>so_errors := x6\<rparr>) = idle_connector todo s"
  "idle_connector todo (s\<lparr>connect_wanted := x7\<rparr>) = idle_connector todo s"
  "idle_connector todo (s\<lparr>delivered := x8\<rparr>) = idle_connector todo s"
  by (simp_all add: idle_connector_def resets_due_def cong: option.case_cong)

lemma busy_connector_fields [simp]:
  "busy_connector todo (s\<lparr>connect_wanted := x7\<rparr>) = busy_connector todo s"
  by (simp add: busy_connector_def resets_due_def)

lemma loop_ok_fields [simp]:
  "loop_ok me (s\<lparr>connector_state := x1\<rparr>) = loop_ok me s"
  "loop_ok me (s\<lparr>socket_results := x3\<rparr>) = loop_ok me s"
  "loop_ok me (s\<lparr>allocations := x4\<rparr>) = loop_ok me s"
  "loop_ok me (s\<lparr>so_errors := x6\<rparr>) = loop_ok me s"
  "loop_ok me (s\<lparr>connect_wanted := x7\<rparr>) = loop_ok me s"
  "loop_ok me (s\<lparr>delivered := x8\<rparr>) = loop_ok me s"
  "loop_ok me (s\<lparr>sockets_owned := x9\<rparr>) = loop_ok me s"
  by (simp_all add: loop_ok_def)

lemma queue_reset_due [simp]:
  "resets_due todo (EventLoop_queueInLoop t f s) = resets_due todo s + (if f = ResetChannel then 1 else 0)"
  by (simp add: resets_due_def loop_thread_ops)

lemma queue_fields [simp]:
  "poller (EventLoop_queueInLoop t f s) = poller s" "threadId (EventLoop_queueInLoop t f s) = threadId s"
  "timerQueue (EventLoop_queueInLoop t f s) = timerQueue s"
  by (simp_all add: loop_thread_ops)

lemma queue_connector_fields [simp]:
  "retryDelayMs (EventLoop_queueInLoop t f s) = retryDelayMs s"
  "double_closes (EventLoop_queueInLoop t f s) = double_closes s"
  "sockets_owned (EventLoop_queueInLoop t f s) = sockets_owned s"
  "connector_channel (EventLoop_queueInLoop t f s) = connector_channel s"
  "connector_state (EventLoop_queueInLoop t f s) = connector_state s"
  "connect_wanted (EventLoop_queueInLoop t f s) = connect_wanted s"
  "so_errors (EventLoop_queueInLoop t f s) = so_errors s"
  "delivered (EventLoop_queueInLoop t f s) = delivered s"
  by (simp_all add: loop_thread_ops)

text \<open>Unregistering a channel: \<open>disableAll\<close>, then \<open>removeChannel\<close>.\<close>

lemma unregister_ok:
  assumes "threadId s = me" and "poller_inv (poller s)" and "channel_heap (poller s) a = Some c"
    and "sole_user a (ch_fd c) (poller s)"
  obtains p where "and_then (Channel_change me DisableAll a s) (EventLoop_removeChannel me a) = Inr (s\<lparr>poller := p\<rparr>)"
    and "poller_inv p" and "channel_heap p a = Some (c\<lparr>ch_events := kNoneEvent, ch_index := kNew\<rparr>)"
    and "interest p (ch_fd c) = None" and "channels p (ch_fd c) = None"
    and "\<forall>b. b \<noteq> a \<longrightarrow> channel_heap p b = channel_heap (poller s) b"
    and "\<forall>fd. fd \<noteq> ch_fd c \<longrightarrow> channels p fd = channels (poller s) fd" and "events_size p = events_size (poller s)"
proof -
  let ?p = "updated a c kNoneEvent (poller s)"
  let ?c = "c\<lparr>ch_events := kNoneEvent, ch_index := index_after_update (ch_index c) kNoneEvent\<rparr>"
  have "Channel_change me DisableAll a s = Inr (s\<lparr>poller := ?p\<rparr>)"
    using Channel_change_ok [OF assms, of DisableAll] by simp
  moreover have up: "poller_inv ?p" "channel_heap ?p a = Some ?c" "sole_user a (ch_fd ?c) ?p"
    using updated_inv [OF assms(2-4)] by (auto simp: updated_def sole_user_def)
  from EventLoop_removeChannel_ok [of "s\<lparr>poller := ?p\<rparr>" me a ?c] up assms(1)
  have "EventLoop_removeChannel me a (s\<lparr>poller := ?p\<rparr>) = Inr (s\<lparr>poller := removed a ?c ?p\<rparr>)" by simp
  ultimately have "and_then (Channel_change me DisableAll a s) (EventLoop_removeChannel me a) =
      Inr (s\<lparr>poller := removed a ?c ?p\<rparr>)" by simp
  with removed_inv [OF up] show ?thesis
    by (intro that [of "removed a ?c ?p"]) (simp_all add: removed_def updated_def)
qed

lemma removeAndReset_ok:
  assumes inv: "loop_ok me s" and busy: "busy_connector todo s"
  obtains fd s' where "Connector_removeAndResetChannel me s = Inr (fd, s')"
    and "loop_ok me s'" and "sockets_owned s' = {fd}" and "idle_connector todo (sockets_close fd s')"
    and "connector_state s' = connector_state s" and "connect_wanted s' = connect_wanted s"
    and "so_errors s' = so_errors s" and "delivered s' = delivered s"
proof -
  obtain a c where a: "connector_channel s = Some a" "channel_heap (poller s) a = Some c"
    "ch_index c = kAdded" "sockets_owned s = {ch_fd c}" and due: "resets_due todo s = 0"
    using busy by (auto simp: busy_connector_def)
  have l: "threadId s = me" "poller_inv (poller s)" using inv by (simp_all add: loop_ok_def)
  have sole: "sole_user a (ch_fd c) (poller s)"
    using poller_inv_sole_user [OF l(2) a(2)] a(3) by simp
  from unregister_ok [OF l a(2) sole] obtain p where
    p: "and_then (Channel_change me DisableAll a s) (EventLoop_removeChannel me a) = Inr (s\<lparr>poller := p\<rparr>)"
    "poller_inv p" "channel_heap p a = Some (c\<lparr>ch_events := kNoneEvent, ch_index := kNew\<rparr>)" by metis
  let ?s = "EventLoop_queueInLoop me ResetChannel (s\<lparr>poller := p\<rparr>)"
  have "Connector_removeAndResetChannel me s =
      and_then (and_then (Channel_change me DisableAll a s) (EventLoop_removeChannel me a)) (\<lambda>s.
      and_then (channel_at (poller s) a) (\<lambda>c. Inr (ch_fd c, EventLoop_queueInLoop me ResetChannel s)))"
    by (simp add: Connector_removeAndResetChannel_def a(1) and_then_assoc)
  then have run: "Connector_removeAndResetChannel me s = Inr (ch_fd c, ?s)"
    by (simp add: p(1,3) channel_at_def)
  have "loop_ok me ?s" using inv p(2) by (simp add: loop_ok_def)
  moreover have "idle_connector todo (sockets_close (ch_fd c) ?s)"
    using a(1,4) due p(3)
    by (simp add: idle_connector_def sockets_close_def channel_is_def resets_due_def loop_thread_ops)
  ultimately show ?thesis using run a(4) by (intro that [of "ch_fd c" ?s]) simp_all
qed

subsection \<open>Every operation keeps the invariant\<close>

lemma runAfter_ok:
  assumes "timers_ok me (timerQueue s)"
  shows "case EventLoop_runAfter me p d f s of
           Inl x \<Rightarrow> resource_fault x
         | Inr (i, s') \<Rightarrow> (\<exists>q. s' = s\<lparr>timerQueue := q\<rparr> \<and> timers_ok me q)"
proof -
  obtain E where inv: "tq_inv E (timerQueue s)" "tq_owner (timerQueue s) = me"
    using assms by (auto simp: timers_ok_def)
  show ?thesis
  proof (cases "Timestamp_addTime (tq_clock (timerQueue s)) d")
    case (Inl x)
    with addTime_fault [OF Inl] show ?thesis by (simp add: EventLoop_runAfter_def resource_fault_def)
  next
    case (Inr w)
    have run: "EventLoop_runAfter me p d f s = map_res (\<lambda>(i, q). (i, s\<lparr>timerQueue := q\<rparr>))
        (TimerQueue_addTimer me (timerQueue s) p f w (double_of_int 0))"
      by (simp add: EventLoop_runAfter_def Inr with_timers_def)
    note added = addTimer_ok [OF inv, of p f w "double_of_int 0"]
    show ?thesis
    proof (cases "TimerQueue_addTimer me (timerQueue s) p f w (double_of_int 0)")
      case (Inl x)
      with added show ?thesis unfolding run Inl by (auto simp: timer_fault_def resource_fault_def)
    next
      case (Inr r)
      obtain i q where r: "r = (i, q)" by force
      with added Inr have "tq_inv E q" "tq_owner q = me" by simp_all
      then have "timers_ok me q" by (auto simp: timers_ok_def)
      then show ?thesis unfolding run Inr r by auto
    qed
  qed
qed

lemma allocate_cases:
  obtains "allocate s = Inl UncaughtException"
  | a as where "allocate s = Inr (a, s\<lparr>allocations := as\<rparr>)"
proof (cases "allocations s")
  case Nil
  then show ?thesis by (intro that(1)) (simp add: allocate_def)
next
  case (Cons a as)
  then show ?thesis by (intro that(2) [of a as]) (simp add: allocate_def)
qed

lemma retry_ok:
  assumes inv: "loop_ok me s" and idle: "idle_connector todo s"
  shows "connector_result me todo (Connector_retry me s)"
proof (cases "connect_wanted s")
  case False
  with inv idle show ?thesis by (simp add: Connector_retry_def connector_inv_def)
next
  case True
  let ?s = "s\<lparr>connector_state := Connector_kDisconnected\<rparr>"
  from allocate_cases [of ?s] show ?thesis
  proof cases
    case 1
    with True show ?thesis by (simp add: Connector_retry_def resource_fault_def)
  next
    case (2 p as)
    let ?t = "?s\<lparr>allocations := as\<rparr>"
    have "timers_ok me (timerQueue ?t)" using inv by (simp add: loop_ok_def)
    from runAfter_ok [OF this, of p "int_div_double (retryDelayMs s) 1000" StartInLoop]
    show ?thesis
    proof (cases "EventLoop_runAfter me p (int_div_double (retryDelayMs s) 1000) StartInLoop ?t")
      case (Inl x)
      with runAfter_ok [OF \<open>timers_ok me (timerQueue ?t)\<close>, of p "int_div_double (retryDelayMs s) 1000" StartInLoop]
        2 True show ?thesis by (simp add: Connector_retry_def)
    next
      case (Inr r)
      obtain i s' where r: "r = (i, s')" by force
      with runAfter_ok [OF \<open>timers_ok me (timerQueue ?t)\<close>, of p "int_div_double (retryDelayMs s) 1000" StartInLoop]
        Inr obtain q where s': "s' = ?t\<lparr>timerQueue := q\<rparr>" "timers_ok me q" by auto
      have d: "retryDelayMs s \<in> set retry_delays" using inv by (simp add: loop_ok_def)
      then have "next_delay (retryDelayMs s) \<in> set retry_delays" using retry_delays_exact by blast
      moreover have "Connector_retry me s = Inr (s'\<lparr>retryDelayMs := next_delay (retryDelayMs s)\<rparr>)"
        using True 2 Inr r s'(1) by (simp add: Connector_retry_def next_delay_def Let_def)
      moreover have "loop_ok me (s'\<lparr>retryDelayMs := next_delay (retryDelayMs s)\<rparr>)"
        using inv s' \<open>next_delay (retryDelayMs s) \<in> set retry_delays\<close> by (simp add: loop_ok_def)
      ultimately show ?thesis using idle s'(1) by (simp add: connector_inv_def)
    qed
  qed
qed

lemma connecting_eq:
  assumes me: "threadId s = me" and p: "poller_inv (poller s)" and none: "connector_channel s = None"
    and new: "allocations s = a # as" "channel_heap (poller s) a = None" and free: "channels (poller s) fd = None"
  shows "Connector_connecting me fd s =
         Inr (s\<lparr>connector_state := Connector_kConnecting, allocations := as,
                poller := updated a (Channel_new fd) kWriteEvent (put_channel a (Channel_new fd) (poller s)),
                connector_channel := Some a\<rparr>)"
    and "poller_inv (updated a (Channel_new fd) kWriteEvent (put_channel a (Channel_new fd) (poller s)))"
proof -
  let ?c = "Channel_new fd"
  let ?p = "put_channel a ?c (poller s)"
  let ?t = "s\<lparr>connector_state := Connector_kConnecting, allocations := as, poller := ?p, connector_channel := Some a\<rparr>"
  have q: "poller_inv ?p" by (rule put_new_channel_inv [OF p new(2)])
  have c: "channel_heap ?p a = Some ?c" "sole_user a (ch_fd ?c) ?p" "ch_events ?c = kNoneEvent"
    using free by (simp_all add: put_channel_def sole_user_def Channel_new_def)
  have "changed_events EnableWriting (ch_events ?c) = kWriteEvent" by (simp add: c(3) event_masks)
  then have "Channel_change me EnableWriting a ?t = Inr (?t\<lparr>poller := updated a ?c kWriteEvent ?p\<rparr>)"
    using Channel_change_ok [of ?t me a ?c EnableWriting] me q c by simp
  then show "Connector_connecting me fd s =
         Inr (s\<lparr>connector_state := Connector_kConnecting, allocations := as, poller := updated a ?c kWriteEvent ?p,
                connector_channel := Some a\<rparr>)"
    using new none by (simp add: Connector_connecting_def new_Channel_def allocate_def)
  show "poller_inv (updated a ?c kWriteEvent ?p)" by (rule updated_inv [OF q c(1,2)])
qed

lemma connecting_ok:
  assumes inv: "loop_ok me s" and owned: "sockets_owned s = {fd}" and none: "connector_channel s = None"
    and due: "resets_due todo s = 0" and free: "channels (poller s) fd = None"
  shows "connector_result me todo (Connector_connecting me fd s)"
proof (cases "\<exists>a as. allocations s = a # as \<and> channel_heap (poller s) a = None")
  case False
  then show ?thesis using none
    by (auto simp: Connector_connecting_def new_Channel_def allocate_def resource_fault_def split: list.split)
next
  case True
  then obtain a as where a: "allocations s = a # as" "channel_heap (poller s) a = None" by blast
  have l: "threadId s = me" "poller_inv (poller s)" using inv by (simp_all add: loop_ok_def)
  have "index_after_update kNew kWriteEvent = kAdded" by (simp add: index_after_update_def)
  with connecting_eq [OF l none a free] inv owned due show ?thesis
    by (simp add: connector_inv_def loop_ok_def busy_connector_def resets_due_def updated_def Channel_new_def)
qed

lemma connect_ok:
  assumes inv: "loop_ok me s" and idle: "idle_connector todo s" and none: "connector_channel s = None"
    and st: "connector_state s = Connector_kDisconnected"
  shows "connector_result me todo (Connector_connect me s)"
proof (cases "createNonblockingOrDie s")
  case (Inl x)
  then show ?thesis using none
    by (auto simp: Connector_connect_def createNonblockingOrDie_def resource_fault_def split: list.splits if_splits)
next
  case (Inr r)
  then obtain fd err rs where r: "socket_results s = (fd, err) # rs" "channels (poller s) fd = None"
    and s1: "createNonblockingOrDie s = Inr (fd, err, s\<lparr>socket_results := rs, sockets_owned := insert fd (sockets_owned s)\<rparr>)"
    by (auto simp: createNonblockingOrDie_def split: list.splits if_splits)
  let ?s = "s\<lparr>socket_results := rs, sockets_owned := {fd}\<rparr>"
  have own: "sockets_owned s = {}" and due: "resets_due todo s = 0"
    using idle none by (simp_all add: idle_connector_def)
  have l: "loop_ok me ?s" "loop_ok me (?s\<lparr>retryDelayMs := kInitRetryDelayMs\<rparr>)"
    using inv by (simp_all add: loop_ok_def kInitRetryDelayMs_def retry_delays_def)
  have go: "connector_result me todo (Connector_connecting me fd ?s)"
    "connector_result me todo (Connector_connecting me fd (?s\<lparr>retryDelayMs := kInitRetryDelayMs\<rparr>))"
    using connecting_ok [OF l(1), of fd todo] connecting_ok [OF l(2), of fd todo] none due r(2)
    by (simp_all add: resets_due_def)
  let ?closed = "s\<lparr>socket_results := rs, sockets_owned := {}\<rparr>"
  have closed: "sockets_close fd ?s = ?closed" by (simp add: sockets_close_def)
  have "loop_ok me ?closed" "idle_connector todo ?closed"
    using inv own due none by (simp_all add: idle_connector_def resets_due_def)
  then have "connector_result me todo
      (if connect_wanted ?closed then Connector_retry me ?closed else Inr ?closed)"
    using retry_ok [of me ?closed todo] st by (simp add: connector_inv_def)
  moreover have "Connector_connect me s =
      (if err = 0 then Connector_connecting me fd (?s\<lparr>retryDelayMs := kInitRetryDelayMs\<rparr>)
       else if isInProgress err then Connector_connecting me fd ?s
       else if connect_wanted ?closed then Connector_retry me ?closed else Inr ?closed)"
    by (simp add: Connector_connect_def none s1 own closed Let_def)
  ultimately show ?thesis using go by simp
qed

definition startable :: "('g, 'z) connector_scheme \<Rightarrow> bool" where
  "startable s \<longleftrightarrow> connector_state s \<noteq> Connector_kDisconnected \<or> \<not> connect_wanted s \<or> connector_channel s = None"

lemma startInLoop_ok:
  assumes inv: "connector_inv me todo s" and ok: "startable s"
  shows "connector_result me todo (Connector_startInLoop me s)"
  using assms connect_ok [of me s todo]
  by (auto simp: Connector_startInLoop_def EventLoop_assertInLoopThread_def EventLoop_isInLoopThread_def
      connector_inv_def startable_def loop_ok_def)

lemma loop_ok_close: "fd \<in> sockets_owned s \<Longrightarrow> loop_ok me (sockets_close fd s) = loop_ok me s"
  by (simp add: sockets_close_def)

lemma stopInLoop_ok:
  assumes inv: "connector_inv me todo s"
  shows "connector_result me todo (Connector_stopInLoop me s)"
proof (cases "connector_state s = Connector_kConnecting")
  case False
  with inv show ?thesis
    by (simp add: Connector_stopInLoop_def connector_inv_def loop_ok_def EventLoop_assertInLoopThread_def
        EventLoop_isInLoopThread_def)
next
  case True
  with inv have "loop_ok me s" "busy_connector todo s" by (simp_all add: connector_inv_def)
  then obtain fd s' where s': "Connector_removeAndResetChannel me s = Inr (fd, s')"
    "loop_ok me s'" "sockets_owned s' = {fd}" "idle_connector todo (sockets_close fd s')"
    by (rule removeAndReset_ok)
  with True \<open>loop_ok me s\<close> show ?thesis
    by (simp add: Connector_stopInLoop_def connector_inv_def loop_ok_close EventLoop_assertInLoopThread_def
        EventLoop_isInLoopThread_def loop_ok_def [of me s])
qed

lemma delete_channel_inv:
  assumes "poller_inv p" and "channel_is kNew ev a p"
  shows "poller_inv (delete_channel a p)"
proof -
  obtain c where "channel_heap p a = Some c" "ch_index c = kNew" using assms(2) by (auto simp: channel_is_def)
  from poller_step_inv [OF poller_step.destroy [OF this] assms(1)] show ?thesis by (simp add: delete_channel_def)
qed

lemma resetChannel_ok:
  assumes "connector_inv me (ResetChannel # todo) s"
  shows "connector_inv me todo (Connector_resetChannel s)"
proof -
  have l: "loop_ok me s" using assms by (simp add: connector_inv_def)
  have idle: "connector_state s \<noteq> Connector_kConnecting" "idle_connector (ResetChannel # todo) s"
    using assms by (auto simp: connector_inv_def busy_connector_def resets_due_def split: if_splits)
  then obtain a where a: "connector_channel s = Some a" "channel_is kNew kNoneEvent a (poller s)"
    "resets_due todo s = 0" "sockets_owned s = {}"
    by (auto simp: idle_connector_def resets_due_def split: option.splits)
  with l idle(1) delete_channel_inv [OF _ a(2)] show ?thesis
    by (simp add: Connector_resetChannel_def connector_inv_def loop_ok_def idle_connector_def resets_due_def)
qed

text \<open>The end of an attempt: both handlers close the descriptor, and retry if the user still wants it.\<close>

lemma failed_attempt_ok:
  assumes l: "loop_ok me s" and own: "sockets_owned s = {fd}" and idle: "idle_connector todo (sockets_close fd s)"
    and want: "connect_wanted s"
  shows "connector_result me todo
           (let s = sockets_close fd s in if connect_wanted s then Connector_retry me s else Inr s)"
proof -
  have "loop_ok me (sockets_close fd s)" "connect_wanted (sockets_close fd s)"
    using l own want by (simp_all add: loop_ok_close sockets_close_def)
  with retry_ok [OF _ idle] show ?thesis by (simp add: Let_def)
qed

lemma getSocketError_eq: "getSocketError s = (fst (getSocketError s), s\<lparr>so_errors := tl (so_errors s)\<rparr>)"
  by (cases "so_errors s") (simp_all add: getSocketError_def)

definition next_so_error :: "('g, 'z) connector_scheme \<Rightarrow> nat" where
  "next_so_error s = fst (getSocketError s)"

lemma next_so_error_cong: "so_errors s' = so_errors s \<Longrightarrow> next_so_error s' = next_so_error s"
  by (simp add: next_so_error_def getSocketError_def split: list.split)

lemma connector_handleError_ok:
  assumes inv: "connector_inv me todo s" and want: "connector_state s = Connector_kConnecting \<Longrightarrow> connect_wanted s"
  shows "connector_result me todo (Connector_handleError me s)"
proof (cases "connector_state s = Connector_kConnecting")
  case False
  with inv show ?thesis by (simp add: Connector_handleError_def)
next
  case True
  with inv have "loop_ok me s" "busy_connector todo s" by (simp_all add: connector_inv_def)
  then obtain fd s' where s': "Connector_removeAndResetChannel me s = Inr (fd, s')"
    "loop_ok me s'" "sockets_owned s' = {fd}" "idle_connector todo (sockets_close fd s')"
    "connect_wanted s' = connect_wanted s"
    by (rule removeAndReset_ok)
  let ?t = "s'\<lparr>so_errors := tl (so_errors s')\<rparr>"
  have close: "sockets_close fd ?t = (sockets_close fd s')\<lparr>so_errors := tl (so_errors s')\<rparr>"
    using s'(3) by (simp add: sockets_close_def)
  have "connector_result me todo
      (let s = sockets_close fd ?t in if connect_wanted s then Connector_retry me s else Inr s)"
    by (rule failed_attempt_ok) (use s' want True in \<open>simp_all add: close\<close>)
  moreover obtain err where "getSocketError s' = (err, ?t)" using getSocketError_eq [of s'] by metis
  ultimately show ?thesis using True s'(1) by (simp add: Connector_handleError_def Let_def)
qed

lemma connector_handleWrite_ok:
  assumes inv: "connector_inv me todo s"
    and want: "connector_state s = Connector_kConnecting \<Longrightarrow> next_so_error s \<noteq> 0 \<Longrightarrow> connect_wanted s"
    and nc: "\<And>f fd s. newConnection = Some f \<Longrightarrow> connector_inv me todo s \<Longrightarrow>
      connector_state s = Connector_kConnected \<Longrightarrow> connector_result me todo (f fd s)"
  shows "connector_result me todo (Connector_handleWrite me newConnection s)"
proof (cases "connector_state s = Connector_kConnecting")
  case False
  with inv show ?thesis by (simp add: Connector_handleWrite_def)
next
  case True
  with inv have "loop_ok me s" "busy_connector todo s" by (simp_all add: connector_inv_def)
  then obtain fd s' where s': "Connector_removeAndResetChannel me s = Inr (fd, s')"
    "loop_ok me s'" "sockets_owned s' = {fd}" "idle_connector todo (sockets_close fd s')"
    "connect_wanted s' = connect_wanted s" "so_errors s' = so_errors s"
    by (rule removeAndReset_ok)
  let ?t = "s'\<lparr>so_errors := tl (so_errors s')\<rparr>"
  let ?up = "?t\<lparr>connector_state := Connector_kConnected, retryDelayMs := kInitRetryDelayMs\<rparr>"
  have close: "sockets_close fd ?t = (sockets_close fd s')\<lparr>so_errors := tl (so_errors s')\<rparr>"
    "sockets_close fd ?up = (sockets_close fd s')\<lparr>so_errors := tl (so_errors s'),
       connector_state := Connector_kConnected, retryDelayMs := kInitRetryDelayMs\<rparr>"
    "sockets_close fd s' = s'\<lparr>sockets_owned := {}\<rparr>"
    using s'(3) by (simp_all add: sockets_close_def)
  have run: "Connector_handleWrite me newConnection s =
      (if next_so_error s = 0 then
         if connect_wanted s then
           (case newConnection of
              Some f \<Rightarrow> f fd (?up\<lparr>sockets_owned := sockets_owned ?up - {fd}, delivered := delivered ?up @ [fd]\<rparr>)
            | None \<Rightarrow> Inr (sockets_close fd ?up))
         else Inr (sockets_close fd ?up)
       else (let s = sockets_close fd ?t in if connect_wanted s then Connector_retry me s else Inr s))"
    using True s'(1,5) getSocketError_eq [of s'] next_so_error_cong [OF s'(6)]
    by (simp add: Connector_handleWrite_def next_so_error_def Let_def split: prod.splits)
  have idle: "idle_connector todo (s'\<lparr>sockets_owned := {}\<rparr>)" using s'(4) close(3) by simp
  have up: "loop_ok me (?up\<lparr>sockets_owned := {}\<rparr>)"
    using s'(2) by (simp add: loop_ok_def retry_delays_def kInitRetryDelayMs_def)
  have closed: "connector_inv me todo (sockets_close fd ?up)"
    using up idle unfolding close(2,3) by (simp add: connector_inv_def loop_ok_def)
  have given: "connector_inv me todo (?up\<lparr>sockets_owned := sockets_owned ?up - {fd}, delivered := delivered ?up @ [fd]\<rparr>)"
    using up idle s'(3) by (simp add: connector_inv_def loop_ok_def idle_connector_def resets_due_def cong: option.case_cong)
  show ?thesis
  proof (cases "next_so_error s = 0")
    case True
    show ?thesis
    proof (cases newConnection)
      case None
      show ?thesis unfolding run using closed True None by simp
    next
      case (Some f)
      show ?thesis unfolding run using closed nc [OF Some given, of fd] True Some by simp
    qed
  next
    case False
    have "connector_result me todo
        (let s = sockets_close fd ?t in if connect_wanted s then Connector_retry me s else Inr s)"
      by (rule failed_attempt_ok) (use s'(1-5) want True False in \<open>simp_all add: close\<close>)
    with False show ?thesis unfolding run by (simp only: if_False)
  qed
qed

subsection \<open>Events\<close>

text \<open>
  What happens to a connector, one functor at a time: the first component of the state are the
  functors that the loop has taken out and not yet run. The kernel reports events of registered
  channels only.
\<close>

datatype connector_event =
    ChannelReady events
  | RetryTimer
  | TakeFunctors
  | RunFunctor
  | FunctorsDone
  | CallStart
  | CallStop
  | RemoteStart tid
  | RemoteStop tid

type_synonym ('g, 'z) connector_world = "'g connector_functor list \<times> ('g, 'z) connector_scheme"

definition Connector_dispatch ::
    "tid \<Rightarrow> (int \<Rightarrow> ('g, 'z) connector_scheme \<Rightarrow> ('g, 'z) connector_scheme res) option \<Rightarrow> events \<Rightarrow>
     ('g, 'z) connector_scheme \<Rightarrow> ('g, 'z) connector_scheme res" where
  "Connector_dispatch me newConnection r s =
     (case connector_channel s of
        None \<Rightarrow> Inr s
      | Some a \<Rightarrow>
          and_then (channel_at (poller s) a) (\<lambda>c.
          if ch_index c = kAdded then
            and_then (Channel_setRevents a r (poller s)) (\<lambda>p.
            Channel_handleEvent (revents_of a) (Connector_events me newConnection) (s\<lparr>poller := p\<rparr>))
          else Inr s))"

fun Connector_event ::
    "tid \<Rightarrow> (int \<Rightarrow> ('g, 'z) connector_scheme \<Rightarrow> ('g, 'z) connector_scheme res) option \<Rightarrow>
     ('g \<Rightarrow> ('g, 'z) connector_scheme \<Rightarrow> ('g, 'z) connector_scheme res) \<Rightarrow>
     ('g, 'z) connector_world \<Rightarrow> connector_event \<Rightarrow> ('g, 'z) connector_world res" where
  "Connector_event me nc other (todo, s) (ChannelReady r) = map_res (Pair todo) (Connector_dispatch me nc r s)"
| "Connector_event me nc other (todo, s) RetryTimer = map_res (Pair todo) (Connector_startInLoop me s)"
| "Connector_event me nc other (todo, s) TakeFunctors =
     Inr (pendingFunctors s, s\<lparr>callingPendingFunctors := True, pendingFunctors := []\<rparr>)"
| "Connector_event me nc other ([], s) RunFunctor = Inr ([], s)"
| "Connector_event me nc other (f # todo, s) RunFunctor = map_res (Pair todo) (Connector_exec me other f s)"
| "Connector_event me nc other (todo, s) FunctorsDone = Inr (todo, s\<lparr>callingPendingFunctors := False\<rparr>)"
| "Connector_event me nc other (todo, s) CallStart = map_res (Pair todo) (Connector_start me other s)"
| "Connector_event me nc other (todo, s) CallStop = Inr (todo, Connector_stop me s)"
| "Connector_event me nc other (todo, s) (RemoteStart t) = map_res (Pair todo) (Connector_start t other s)"
| "Connector_event me nc other (todo, s) (RemoteStop t) = Inr (todo, Connector_stop t s)"

text \<open>The events run \<open>doPendingFunctors\<close>.\<close>

lemma run_functors_events:
  "for_each (Connector_event me nc other) (fs, s) (replicate (length fs) RunFunctor) =
   map_res (Pair []) (for_each (\<lambda>s f. Connector_exec me other f s) s fs)"
proof (induction fs arbitrary: s)
  case (Cons f fs)
  show ?case
  proof (cases "Connector_exec me other f s")
    case (Inr s')
    with Cons [of s'] show ?thesis by simp
  qed simp
qed simp

lemma doPendingFunctors_events:
  "map_res (Pair []) (EventLoop_doPendingFunctors (Connector_exec me other) s) =
   for_each (Connector_event me nc other) ([], s)
     (TakeFunctors # replicate (length (pendingFunctors s)) RunFunctor @ [FunctorsDone])"
  by (cases "for_each (\<lambda>s f. Connector_exec me other f s)
       (s\<lparr>callingPendingFunctors := True, pendingFunctors := []\<rparr>) (pendingFunctors s)")
    (simp_all add: EventLoop_doPendingFunctors_def Let_def for_each_append run_functors_events)

text \<open>
  The orders of events for which the connector is sound. A connection attempt is started only when
  no channel waits for its deletion, and an attempt does not fail while a \<open>stop\<close> is under way. The
  code guards against neither; see the last section.
\<close>

definition sound_order :: "tid \<Rightarrow> ('g, 'z) connector_world \<Rightarrow> connector_event \<Rightarrow> bool" where
  "sound_order me w ev \<longleftrightarrow>
     (case w of (todo, s) \<Rightarrow>
      case ev of
        ChannelReady r \<Rightarrow> todo = [] \<and> (connector_state s = Connector_kConnecting \<and>
          (r AND EPOLLERR \<noteq> 0 \<or> next_so_error s \<noteq> 0) \<longrightarrow> connect_wanted s)
      | RetryTimer \<Rightarrow> todo = [] \<and> startable s
      | TakeFunctors \<Rightarrow> todo = []
      | RunFunctor \<Rightarrow> (case todo of [] \<Rightarrow> False | f # _ \<Rightarrow> f = StartInLoop \<longrightarrow> startable s)
      | FunctorsDone \<Rightarrow> todo = []
      | CallStart \<Rightarrow> startable (s\<lparr>connect_wanted := True\<rparr>)
      | CallStop \<Rightarrow> True
      | RemoteStart t \<Rightarrow> t \<noteq> me
      | RemoteStop t \<Rightarrow> t \<noteq> me)"

lemma setRevents_connector:
  assumes inv: "connector_inv me todo s" and a: "connector_channel s = Some a" "channel_heap (poller s) a = Some c"
  shows "connector_inv me todo (s\<lparr>poller := put_channel a (c\<lparr>ch_revents := r\<rparr>) (poller s)\<rparr>)"
proof -
  let ?p = "put_channel a (c\<lparr>ch_revents := r\<rparr>) (poller s)"
  have "same_but_revents (poller s) ?p"
    using a(2) by (auto simp: same_but_revents_def put_channel_def)
  with inv same_but_revents_inv have "loop_ok me (s\<lparr>poller := ?p\<rparr>)"
    by (auto simp: connector_inv_def loop_ok_def)
  moreover have "idle_connector todo (s\<lparr>poller := ?p\<rparr>)" if "idle_connector todo s"
    using that a by (auto simp: idle_connector_def channel_is_def put_channel_def resets_due_def)
  moreover have "busy_connector todo (s\<lparr>poller := ?p\<rparr>)" if "busy_connector todo s"
    using that a by (auto simp: busy_connector_def put_channel_def resets_due_def)
  ultimately show ?thesis using inv by (simp add: connector_inv_def split: if_splits)
qed

text \<open>After a failed attempt the channel object is still there, for the rest of the dispatch.\<close>

lemma handleError_disconnects:
  assumes inv: "connector_inv me todo s" and busy: "connector_state s = Connector_kConnecting"
    and want: "connect_wanted s" and run: "Connector_handleError me s = Inr s'"
  shows "connector_state s' = Connector_kDisconnected \<and> connector_channel s' = connector_channel s"
proof -
  have "loop_ok me s" "busy_connector todo s" using inv busy by (simp_all add: connector_inv_def)
  then obtain fd s1 where s1: "Connector_removeAndResetChannel me s = Inr (fd, s1)"
    "connect_wanted s1 = connect_wanted s"
    by (rule removeAndReset_ok)
  have ch: "connector_channel s1 = connector_channel s"
    using s1(1) by (auto simp: Connector_removeAndResetChannel_def returned Channel_change_def
        EventLoop_updateChannel_def EventLoop_removeChannel_def split: option.splits)
  let ?t = "sockets_close fd (s1\<lparr>so_errors := tl (so_errors s1)\<rparr>)"
  have t: "connect_wanted ?t" "connector_channel ?t = connector_channel s"
    using s1(2) want ch by (simp_all add: sockets_close_def)
  have "Connector_handleError me s = Connector_retry me ?t"
    using busy s1(1) t(1) getSocketError_eq [of s1]
    by (cases "getSocketError s1") (simp add: Connector_handleError_def Let_def)
  with run t show ?thesis
    by (auto simp: Connector_retry_def returned allocate_def EventLoop_runAfter_def with_timers_def Let_def
        split: list.splits)
qed

lemma connector_inv_cong:
  assumes "resets_due todo' s' = resets_due todo s" and "loop_ok me s' = loop_ok me s"
    and "connector_state s' = connector_state s" and "connector_channel s' = connector_channel s"
    and "sockets_owned s' = sockets_owned s" and "poller s' = poller s"
  shows "connector_inv me todo' s' = connector_inv me todo s"
  using assms
  by (cases "connector_channel s") (simp_all add: connector_inv_def busy_connector_def idle_connector_def)

lemma loop_ok_functor_fields [simp]:
  "loop_ok me (s\<lparr>callingPendingFunctors := b\<rparr>) = loop_ok me s"
  "loop_ok me (s\<lparr>pendingFunctors := fs\<rparr>) = loop_ok me s"
  "loop_ok me (s\<lparr>pendingFunctors := fs, callingPendingFunctors := b\<rparr>) = loop_ok me s"
  "loop_ok me (EventLoop_queueInLoop t f s) = loop_ok me s"
  by (simp_all add: loop_ok_def)

lemma wanted_inv: "connector_inv me todo (s\<lparr>connect_wanted := b\<rparr>) = connector_inv me todo s"
  by (simp add: connector_inv_def)

lemma queue_inv:
  "f \<noteq> ResetChannel \<Longrightarrow> connector_inv me todo (EventLoop_queueInLoop t f s) = connector_inv me todo s"
  by (rule connector_inv_cong) simp_all

subsection \<open>The contract with the code that uses the connector\<close>

locale connector_user =
  fixes me :: tid
    and newConnection :: "(int \<Rightarrow> ('g, 'z) connector_scheme \<Rightarrow> ('g, 'z) connector_scheme res) option"
    and other :: "'g \<Rightarrow> ('g, 'z) connector_scheme \<Rightarrow> ('g, 'z) connector_scheme res"
  assumes new_ok: "newConnection = Some f \<Longrightarrow> connector_inv me todo s \<Longrightarrow>
      connector_state s = Connector_kConnected \<Longrightarrow> connector_result me todo (f fd s)"
    and other_ok: "connector_inv me todo s \<Longrightarrow> connector_result me todo (other g s)"
begin

lemma ready_ok:
  assumes inv: "connector_inv me todo s"
    and want: "connector_state s = Connector_kConnecting \<Longrightarrow> r AND EPOLLERR \<noteq> 0 \<or> next_so_error s \<noteq> 0 \<Longrightarrow>
      connect_wanted s"
  shows "connector_result me todo (Connector_dispatch me newConnection r s)"
proof (cases "connector_state s = Connector_kConnecting")
  case False
  with inv show ?thesis
    by (auto simp: Connector_dispatch_def connector_inv_def idle_connector_def channel_is_def channel_at_def
        split: option.splits)
next
  case True
  with inv obtain a c where a: "connector_channel s = Some a" "channel_heap (poller s) a = Some c" "ch_index c = kAdded"
    by (auto simp: connector_inv_def busy_connector_def)
  let ?s = "s\<lparr>poller := put_channel a (c\<lparr>ch_revents := r\<rparr>) (poller s)\<rparr>"
  have s: "connector_inv me todo ?s" by (rule setRevents_connector [OF inv a(1,2)])
  have rev: "revents_of a ?s = Inr r" by (simp add: revents_of_def channel_at_def put_channel_def)
  have run: "Connector_dispatch me newConnection r s =
      Channel_handleEvent (revents_of a) (Connector_events me newConnection) ?s"
    using a by (simp add: Connector_dispatch_def channel_at_def Channel_setRevents_def)
  show ?thesis
  proof (cases "r AND EPOLLERR = 0")
    case True
    then have "Connector_dispatch me newConnection r s =
        call_when (r AND kWriteEvent \<noteq> 0) (Some (Connector_handleWrite me newConnection)) ?s"
      unfolding run by (simp add: Channel_handleEvent_def rev Connector_events_def call_when_def)
    moreover have "connector_result me todo (Connector_handleWrite me newConnection ?s)"
      by (rule connector_handleWrite_ok [OF s]) (use want next_so_error_cong [of ?s s] new_ok in auto)
    ultimately show ?thesis using s by (simp add: call_when_def)
  next
    case False
    have w: "connect_wanted ?s" using want True False by simp
    have err: "connector_result me todo (Connector_handleError me ?s)"
      by (rule connector_handleError_ok [OF s]) (use w in simp)
    show ?thesis
    proof (cases "Connector_handleError me ?s")
      case (Inl x)
      with err False show ?thesis unfolding run
        by (simp add: Channel_handleEvent_def rev Connector_events_def call_when_def)
    next
      case (Inr s1)
      have s1: "connector_state s1 = Connector_kDisconnected" "connector_channel s1 = Some a"
        using handleError_disconnects [OF s _ w Inr] True a(1) by simp_all
      have inv1: "connector_inv me todo s1" using err Inr by simp
      then obtain c1 where "channel_heap (poller s1) a = Some c1"
        using s1 by (auto simp: connector_inv_def idle_connector_def channel_is_def)
      then have "revents_of a s1 = Inr (ch_revents c1)" by (simp add: revents_of_def channel_at_def)
      then show ?thesis unfolding run
        using Inr False s1(1) inv1
        by (simp add: Channel_handleEvent_def rev Connector_events_def call_when_def Connector_handleWrite_def)
    qed
  qed
qed

lemma exec_ok:
  assumes inv: "connector_inv me (f # todo) s" and start: "f = StartInLoop \<Longrightarrow> startable s"
  shows "connector_result me todo (Connector_exec me other f s)"
proof -
  have rest: "connector_inv me todo s" if "f \<noteq> ResetChannel"
    using connector_inv_cong [of todo s "f # todo" s me] inv that by (simp add: resets_due_def)
  show ?thesis
  proof (cases f)
    case StartInLoop
    with startInLoop_ok [OF rest] start show ?thesis by (simp add: Connector_exec_def)
  next
    case StopInLoop
    with stopInLoop_ok [OF rest] show ?thesis by (simp add: Connector_exec_def)
  next
    case ResetChannel
    with resetChannel_ok [of me todo s] inv show ?thesis by (simp add: Connector_exec_def)
  next
    case (Other g)
    with other_ok [OF rest, of g] show ?thesis by (simp add: Connector_exec_def)
  qed
qed

lemma event_ok:
  assumes inv: "connector_inv me todo s" and order: "sound_order me (todo, s) ev"
  shows "case Connector_event me newConnection other (todo, s) ev of
           Inl x \<Rightarrow> resource_fault x | Inr (todo', s') \<Rightarrow> connector_inv me todo' s'"
proof -
  have lift: "case map_res (Pair todo') r of Inl x \<Rightarrow> resource_fault x | Inr (t, s') \<Rightarrow> connector_inv me t s'"
    if "connector_result me todo' r" for todo' r
    using that by (cases r) simp_all
  have me: "threadId s = me" using inv by (simp add: connector_inv_def loop_ok_def)
  show ?thesis
  proof (cases ev)
    case (ChannelReady r)
    with lift ready_ok [OF inv, of r] order show ?thesis by (simp add: sound_order_def)
  next
    case RetryTimer
    with lift startInLoop_ok [OF inv] order show ?thesis by (simp add: sound_order_def)
  next
    case TakeFunctors
    have "connector_inv me (pendingFunctors s) (s\<lparr>callingPendingFunctors := True, pendingFunctors := []\<rparr>) =
        connector_inv me todo s"
      using order TakeFunctors by (intro connector_inv_cong) (simp_all add: sound_order_def resets_due_def)
    with inv TakeFunctors show ?thesis by (cases todo) simp_all
  next
    case RunFunctor
    with order obtain f todo' where todo: "todo = f # todo'" "f = StartInLoop \<Longrightarrow> startable s"
      by (auto simp: sound_order_def split: list.splits)
    with lift exec_ok [of f todo' s] inv show ?thesis by (simp add: RunFunctor)
  next
    case FunctorsDone
    have "connector_inv me todo (s\<lparr>callingPendingFunctors := False\<rparr>) = connector_inv me todo s"
      by (rule connector_inv_cong) (simp_all add: resets_due_def)
    with inv FunctorsDone show ?thesis by (cases todo) simp_all
  next
    case CallStart
    have "connector_result me todo (Connector_startInLoop me (s\<lparr>connect_wanted := True\<rparr>))"
      using startInLoop_ok [of me todo "s\<lparr>connect_wanted := True\<rparr>"] inv order CallStart
      by (simp add: sound_order_def wanted_inv)
    then have "connector_result me todo (Connector_start me other s)"
      using me by (simp add: Connector_start_def EventLoop_runInLoop_def EventLoop_isInLoopThread_def Connector_exec_def)
    with lift show ?thesis by (cases todo) (simp_all add: CallStart)
  next
    case CallStop
    with inv show ?thesis by (cases todo) (simp_all add: Connector_stop_def queue_inv wanted_inv)
  next
    case (RemoteStart t)
    then have "Connector_start t other s = Inr (EventLoop_queueInLoop t StartInLoop (s\<lparr>connect_wanted := True\<rparr>))"
      using order me by (auto simp: Connector_start_def EventLoop_runInLoop_def EventLoop_isInLoopThread_def sound_order_def)
    with inv show ?thesis by (cases todo) (simp_all add: RemoteStart queue_inv wanted_inv)
  next
    case (RemoteStop t)
    with inv show ?thesis by (cases todo) (simp_all add: Connector_stop_def queue_inv wanted_inv)
  qed
qed

end

subsection \<open>Programs that use a connector\<close>

text \<open>
  The callback for a new connection and the program's own functors may stop the connector and queue
  further functors, in any number and order.
\<close>

datatype 'g connector_call = StopConnector | QueueOther 'g

fun Connector_call :: "tid \<Rightarrow> ('g, 'z) connector_scheme \<Rightarrow> 'g connector_call \<Rightarrow> ('g, 'z) connector_scheme res" where
  "Connector_call me s StopConnector = Inr (Connector_stop me s)"
| "Connector_call me s (QueueOther g) = Inr (EventLoop_queueInLoop me (Other g) s)"

record 'g connector_program =
  on_new_connection :: "int \<Rightarrow> 'g connector_call list"
  on_functor :: "'g \<Rightarrow> 'g connector_call list"

definition program_new ::
    "tid \<Rightarrow> 'g connector_program \<Rightarrow> (int \<Rightarrow> ('g, 'z) connector_scheme \<Rightarrow> ('g, 'z) connector_scheme res) option" where
  "program_new me prog = Some (\<lambda>fd s. for_each (Connector_call me) s (on_new_connection prog fd))"

definition program_other ::
    "tid \<Rightarrow> 'g connector_program \<Rightarrow> 'g \<Rightarrow> ('g, 'z) connector_scheme \<Rightarrow> ('g, 'z) connector_scheme res" where
  "program_other me prog g s = for_each (Connector_call me) s (on_functor prog g)"

lemma connector_call_inv: "connector_inv me todo s \<Longrightarrow> \<exists>s'. Connector_call me s c = Inr s' \<and> connector_inv me todo s'"
proof (cases c)
  case StopConnector
  assume "connector_inv me todo s"
  then have "connector_inv me todo (s\<lparr>connect_wanted := False\<rparr>)" by (simp add: connector_inv_def)
  moreover have "connector_inv me todo (EventLoop_queueInLoop me StopInLoop (s\<lparr>connect_wanted := False\<rparr>)) =
      connector_inv me todo (s\<lparr>connect_wanted := False\<rparr>)" by (rule connector_inv_cong) simp_all
  ultimately show ?thesis by (simp add: StopConnector Connector_stop_def)
next
  case (QueueOther g)
  assume "connector_inv me todo s"
  moreover have "connector_inv me todo (EventLoop_queueInLoop me (Other g) s) = connector_inv me todo s"
    by (rule connector_inv_cong) simp_all
  ultimately show ?thesis by (simp add: QueueOther)
qed

lemma connector_calls_inv: "connector_inv me todo s \<Longrightarrow> connector_result me todo (for_each (Connector_call me) s cs)"
  using for_each_inv [where P = "connector_inv me todo" and f = "Connector_call me" and xs = cs] connector_call_inv
  by fastforce

interpretation cn: connector_user me "program_new me prog" "program_other me prog" for me prog
  by unfold_locales (auto simp: program_new_def program_other_def connector_calls_inv)

text \<open>The states that a connector reaches by events in sound order.\<close>

inductive connector_reaches ::
    "tid \<Rightarrow> (int \<Rightarrow> ('g, 'z) connector_scheme \<Rightarrow> ('g, 'z) connector_scheme res) option \<Rightarrow>
     ('g \<Rightarrow> ('g, 'z) connector_scheme \<Rightarrow> ('g, 'z) connector_scheme res) \<Rightarrow>
     ('g, 'z) connector_world \<Rightarrow> ('g, 'z) connector_world \<Rightarrow> bool"
  for me nc other w where
  here: "connector_reaches me nc other w w"
| event: "connector_reaches me nc other w w' \<Longrightarrow> sound_order me w' ev \<Longrightarrow>
    Connector_event me nc other w' ev = Inr w'' \<Longrightarrow> connector_reaches me nc other w w''"

inductive_cases connector_reachesE: "connector_reaches me nc other w w'"

lemma reaches_inv:
  assumes "connector_reaches me (program_new me prog) (program_other me prog) ([], s) w"
    and "connector_inv me [] s"
  shows "connector_inv me (fst w) (snd w)"
  using assms
proof (induction rule: connector_reaches.induct)
  case (event w' ev w'')
  obtain todo s' where w': "w' = (todo, s')" by force
  from cn.event_ok [of me todo s' ev prog] event w' show ?case by (auto split: prod.splits)
qed simp

definition new_connector :: "tid \<Rightarrow> ('g, 'z) connector_scheme \<Rightarrow> bool" where
  "new_connector me s \<longleftrightarrow>
     threadId s = me \<and> poller_inv (poller s) \<and> timers_ok me (timerQueue s) \<and>
     ResetChannel \<notin> set (pendingFunctors s) \<and> connector_state s = Connector_kDisconnected \<and>
     connector_channel s = None \<and> retryDelayMs s = kInitRetryDelayMs \<and> sockets_owned s = {} \<and> double_closes s = 0"

lemma new_connector_inv: "new_connector me s \<Longrightarrow> connector_inv me [] s"
  by (simp add: new_connector_def connector_inv_def loop_ok_def idle_connector_def resets_due_def
      kInitRetryDelayMs_def retry_delays_def count_list_0_iff)

lemma Connector_new_new:
  assumes "threadId l = me" and "poller_inv (poller l)" and "timers_ok me (timerQueue l)"
    and "ResetChannel \<notin> set (pendingFunctors l)"
  shows "new_connector me (Connector_new l socks errs as)"
  using assms by (simp add: new_connector_def Connector_new_def event_loop.extend_def)

text \<open>
  C11: However attempts succeed or fail, functors and timers run and threads start and stop it, in
  any order that is sound: a connector owns a descriptor exactly while it is connecting, and then
  the poller watches it for writing through the connector's channel; it never closes a descriptor
  that is not its own, no registered channel is ever freed, the retry delay stays within its
  bounds, and the next event fails only if no socket can be made, memory is exhausted, or the time of
  a retry is beyond the range of the clock.
\<close>

theorem connector_sound:
  assumes new: "new_connector me s0"
    and run: "connector_reaches me (program_new me prog) (program_other me prog) ([], s0) (todo, s)"
  shows "(if connector_state s = Connector_kConnecting
          then \<exists>a fd. connector_channel s = Some a \<and> sockets_owned s = {fd} \<and>
                 interest (poller s) fd = Some (kWriteEvent, a)
          else sockets_owned s = {}) \<and>
         double_closes s = 0 \<and> ctl_failures (poller s) = 0 \<and>
         500 \<le> retryDelayMs s \<and> retryDelayMs s \<le> 30000 \<and>
         (\<forall>fd ev a. interest (poller s) fd = Some (ev, a) \<longrightarrow> channel_heap (poller s) a \<noteq> None) \<and>
         (\<forall>ev. sound_order me (todo, s) ev \<longrightarrow>
            (case Connector_event me (program_new me prog) (program_other me prog) (todo, s) ev of
               Inl x \<Rightarrow> x = Aborted \<or> x = UncaughtException \<or> x = SignedOverflow | Inr w \<Rightarrow> True))"
proof -
  have inv: "connector_inv me todo s" using reaches_inv [OF run new_connector_inv [OF new]] by simp
  then have l: "poller_inv (poller s)" "retryDelayMs s \<in> set retry_delays" "double_closes s = 0"
    by (simp_all add: connector_inv_def loop_ok_def)
  have "if connector_state s = Connector_kConnecting
      then \<exists>a fd. connector_channel s = Some a \<and> sockets_owned s = {fd} \<and>
             interest (poller s) fd = Some (kWriteEvent, a)
      else sockets_owned s = {}"
  proof (cases "connector_state s = Connector_kConnecting")
    case True
    with inv obtain a c where a: "connector_channel s = Some a" "channel_heap (poller s) a = Some c"
      "ch_index c = kAdded" "ch_events c = kWriteEvent" "sockets_owned s = {ch_fd c}"
      by (auto simp: connector_inv_def busy_connector_def)
    with l(1) have "interest (poller s) (ch_fd c) = Some (kWriteEvent, a)" by (auto simp: poller_inv_def)
    with a True show ?thesis by auto
  qed (use inv in \<open>simp add: connector_inv_def idle_connector_def\<close>)
  moreover have "500 \<le> retryDelayMs s \<and> retryDelayMs s \<le> 30000" using l(2) by (auto simp: retry_delays_def)
  moreover have "channel_heap (poller s) a \<noteq> None" if "interest (poller s) fd = Some (ev, a)" for fd ev a
    using l(1) that by (auto simp: poller_inv_def)
  moreover have "case Connector_event me (program_new me prog) (program_other me prog) (todo, s) ev of
      Inl x \<Rightarrow> x = Aborted \<or> x = UncaughtException \<or> x = SignedOverflow | Inr w \<Rightarrow> True"
    if "sound_order me (todo, s) ev" for ev
    using cn.event_ok [OF inv that, of prog] by (auto simp: resource_fault_def split: sum.splits)
  ultimately show ?thesis using l by (simp add: poller_inv_def)
qed

subsection \<open>Back-off\<close>

lemma addTimer_returns:
  assumes "tq_owner q = me" and "0 < p" and "p < UINTPTR_MAX" and "tq_heap q p = None"
    and "in_int64 (microSecondsSinceEpoch w - microSecondsSinceEpoch (tq_clock q))"
  shows "\<exists>r. TimerQueue_addTimer me q p cb w d = Inr r"
proof -
  define q1 where "q1 = q\<lparr>tq_heap := (tq_heap q)(p \<mapsto> \<lparr>callback = cb, expiration = w, interval = d,
    repeat = double_positive d, sequence = tq_numCreated q + 1\<rparr>), tq_numCreated := tq_numCreated q + 1\<rparr>"
  have new: "Timer_new p cb w d q = Inr (p, q1)" using assms by (simp add: Timer_new_def q1_def)
  have q1: "tq_owner q1 = me" "tq_clock q1 = tq_clock q" "\<exists>t. tq_heap q1 p = Some t \<and> expiration t = w"
    using assms(1) by (simp_all add: q1_def)
  then obtain t where t: "tq_heap q1 p = Some t" "expiration t = w" by blast
  show ?thesis
    using assms(5) q1(1,2) t
    by (simp add: TimerQueue_addTimer_def new TimerQueue_addTimerInLoop_def insert_eq [OF q1(1) t(1)]
        TimerQueue_assertInLoopThread_def timer_at_def TimerQueue_resetTimerfd_def howMuchTimeFromNow_def
        int64_def Let_def)
qed

text \<open>
  C30: The retries back off: the attempt after \<open>k\<close> failures in a row is scheduled exactly
  \<open>min (500 * 2 ^ k) 30000\<close> milliseconds ahead, rounding in \<open>double\<close> included, by a timer that starts
  the connector again; the connector is disconnected until then.
\<close>

theorem retries_back_off:
  assumes timers: "timers_ok me (timerQueue s)" and want: "connect_wanted s"
    and delay: "retryDelayMs s = (next_delay ^^ k) kInitRetryDelayMs"
    and mem: "allocations s = p # as" "0 < p" "p < UINTPTR_MAX" "tq_heap (timerQueue s) p = None"
    and clock: "tq_clock (timerQueue s) = Timestamp now" "0 \<le> now" "now + 30000000 < 2 ^ 63"
  shows "\<exists>s' t. Connector_retry me s = Inr s' \<and> connector_state s' = Connector_kDisconnected \<and>
           retryDelayMs s' = (next_delay ^^ Suc k) kInitRetryDelayMs \<and>
           (Timestamp (now + min (500 * 2 ^ k) 30000 * 1000), p) \<in> set (tq_timers (timerQueue s')) \<and>
           tq_heap (timerQueue s') p = Some t \<and> callback t = StartInLoop"
proof -
  let ?d = "min (500 * 2 ^ k) 30000 :: int"
  let ?w = "Timestamp (now + ?d * 1000)"
  let ?t = "s\<lparr>connector_state := Connector_kDisconnected, allocations := as\<rparr>"
  have "(next_delay ^^ k) kInitRetryDelayMs \<in> set retry_delays"
    by (induction k) (simp_all add: next_delay_closed first_delay)
  then have d: "retryDelayMs s = ?d" "?d \<in> set retry_delays"
    using delay by (simp_all add: next_delay_iterate)
  then have bound: "500 \<le> ?d" "?d \<le> 30000" by (auto simp: retry_delays_def)
  have "in_int64 (now + d * 1000) \<and> in_int64 (d * 1000)" if "500 \<le> d" "d \<le> 30000" for d :: int
    using clock(2,3) that by (simp add: in_int64_def)
  then have range: "in_int64 (now + ?d * 1000)" "in_int64 (?d * 1000)" using bound by blast+
  have time: "Timestamp_addTime (Timestamp now) (int_div_double ?d 1000) = Inr ?w"
    using addTime_delay [OF d(2), of "Timestamp now"] range(1) by (simp add: int64_def)
  obtain E where q: "tq_inv E (timerQueue s)" "tq_owner (timerQueue s) = me"
    using timers by (auto simp: timers_ok_def)
  obtain r where r: "TimerQueue_addTimer me (timerQueue s) p StartInLoop ?w (double_of_int 0) = Inr r"
    using addTimer_returns [OF q(2) mem(2-4), of ?w StartInLoop "double_of_int 0"] range(2) clock(1) by auto
  obtain i q' where iq: "r = (i, q')" by force
  with addTimer_ok [OF q, of p StartInLoop ?w "double_of_int 0"] r obtain t where
    t: "tq_heap q' p = Some t" "callback t = StartInLoop" "(?w, p) \<in> set (tq_timers q')" by auto
  have "EventLoop_runAfter me p (int_div_double ?d 1000) StartInLoop ?t = Inr (i, ?t\<lparr>timerQueue := q'\<rparr>)"
    using time r iq clock(1) by (simp add: EventLoop_runAfter_def with_timers_def)
  then have "Connector_retry me s =
      Inr (?t\<lparr>timerQueue := q', retryDelayMs := next_delay (retryDelayMs s)\<rparr>)"
    using want mem(1) d(1)
    by (simp add: Connector_retry_def allocate_def next_delay_def Let_def)
  moreover have "next_delay (retryDelayMs s) = (next_delay ^^ Suc k) kInitRetryDelayMs" using delay by simp
  ultimately show ?thesis using t
    by (intro exI [of _ "?t\<lparr>timerQueue := q', retryDelayMs := next_delay (retryDelayMs s)\<rparr>"] exI [of _ t])
      (simp del: funpow.simps)
qed

subsection \<open>Orders that are not sound\<close>

text \<open>
  C40: A \<open>stop\<close> from another thread that overlaps with a failing attempt: the thread has cleared
  \<open>connect_\<close>, the loop then handles the failure (which leaves the state at \<open>kConnecting\<close>), and only
  then \<open>stopInLoop\<close> is queued, behind \<open>resetChannel\<close>: it dereferences a null channel.
\<close>

theorem remote_stop_race:
  assumes inv: "connector_inv me [] s" and busy: "connector_state s = Connector_kConnecting"
    and err: "next_so_error s \<noteq> 0" and idle: "pendingFunctors s = []"
  shows "\<exists>s1. Connector_handleWrite me nc (s\<lparr>connect_wanted := False\<rparr>) = Inr s1 \<and>
           EventLoop_doPendingFunctors (Connector_exec me other) (EventLoop_queueInLoop t StopInLoop s1)
             = Inl NullDeref"
proof -
  let ?s = "s\<lparr>connect_wanted := False\<rparr>"
  have l: "loop_ok me ?s" "busy_connector [] ?s" using inv busy by (simp_all add: connector_inv_def)
  obtain fd s1 where s1: "Connector_removeAndResetChannel me ?s = Inr (fd, s1)" "loop_ok me s1"
    "connector_state s1 = connector_state ?s" "connect_wanted s1 = connect_wanted ?s" "so_errors s1 = so_errors ?s"
    by (rule removeAndReset_ok [OF l])
  have pend: "pendingFunctors s1 = [ResetChannel]"
    using s1(1) idle by (auto simp: Connector_removeAndResetChannel_def returned Channel_change_def
        EventLoop_updateChannel_def EventLoop_removeChannel_def loop_thread_ops split: option.splits)
  let ?t = "sockets_close fd (s1\<lparr>so_errors := tl (so_errors s1)\<rparr>)"
  have "getSocketError s1 = (next_so_error s, s1\<lparr>so_errors := tl (so_errors s1)\<rparr>)"
    using getSocketError_eq [of s1] next_so_error_cong [of s1 s] s1(5) by (simp add: next_so_error_def)
  moreover have "connect_wanted ?t = False" using s1(4) by (simp add: sockets_close_def)
  ultimately have run: "Connector_handleWrite me nc ?s = Inr ?t"
    using busy s1(1) err by (simp add: Connector_handleWrite_def Let_def)
  let ?q = "EventLoop_queueInLoop t StopInLoop ?t"
  have q: "pendingFunctors ?q = [ResetChannel, StopInLoop]"
    using pend by (simp add: loop_thread_ops sockets_close_def)
  let ?r = "Connector_resetChannel (?q\<lparr>callingPendingFunctors := True, pendingFunctors := []\<rparr>)"
  have r: "connector_channel ?r = None" "connector_state ?r = Connector_kConnecting" "threadId ?r = me"
    using s1(2,3) busy
    by (simp_all add: Connector_resetChannel_def sockets_close_def loop_thread_ops loop_ok_def split: option.split)
  have "Connector_stopInLoop me ?r = Inl NullDeref"
    using r by (simp add: Connector_stopInLoop_def Connector_removeAndResetChannel_def
        EventLoop_assertInLoopThread_def EventLoop_isInLoopThread_def)
  then have "EventLoop_doPendingFunctors (Connector_exec me other) ?q = Inl NullDeref"
    by (simp add: EventLoop_doPendingFunctors_def Let_def q Connector_exec_def)
  with run show ?thesis by blast
qed

text \<open>
  C39: An attempt that is started while the channel of a failed one waits for its deletion: the new
  channel is registered, and the deletion that is still queued frees the new channel instead. The
  poller keeps the pointer, and the next report on it uses freed memory.
\<close>

theorem start_before_reset:
  assumes inv: "connector_inv me [] s" and st: "connector_state s = Connector_kDisconnected"
    and a: "connector_channel s = Some a" "channel_heap (poller s) a = Some c" "sole_user a (ch_fd c) (poller s)"
    and pend: "pendingFunctors s = [ResetChannel]" and size: "0 < events_size (poller s)"
    and sock: "socket_results s = (fd, EINPROGRESS) # rs" "0 \<le> fd" "channels (poller s) fd = None"
    and mem: "allocations s = b # as" "channel_heap (poller s) b = None"
  shows "\<exists>s1 s2. Connector_start me other s = Inr s1 \<and>
           EventLoop_doPendingFunctors (Connector_exec me other) s1 = Inr s2 \<and>
           connector_state s2 = Connector_kConnecting \<and> interest (poller s2) fd = Some (kWriteEvent, b) \<and>
           channel_heap (poller s2) b = None \<and> EPollPoller_poll (Some [(r, b)]) (poller s2) = Inl UseAfterFree"
proof -
  have l: "threadId s = me" "poller_inv (poller s)" "sockets_owned s = {}"
    using inv st by (simp_all add: connector_inv_def loop_ok_def idle_connector_def)
  have b: "b \<noteq> a" using mem(2) a(2) by auto
  let ?s = "s\<lparr>connect_wanted := True\<rparr>"
  have "threadId ?s = me" "poller_inv (poller ?s)" "channel_heap (poller ?s) a = Some c"
    "sole_user a (ch_fd c) (poller ?s)" using l a by simp_all
  then obtain p where p: "and_then (Channel_change me DisableAll a ?s) (EventLoop_removeChannel me a) = Inr (?s\<lparr>poller := p\<rparr>)"
    "poller_inv p" "channel_heap p a = Some (c\<lparr>ch_events := kNoneEvent, ch_index := kNew\<rparr>)"
    "interest p (ch_fd c) = None" "channels p (ch_fd c) = None"
    "\<forall>b. b \<noteq> a \<longrightarrow> channel_heap p b = channel_heap (poller ?s) b"
    "\<forall>fd. fd \<noteq> ch_fd c \<longrightarrow> channels p fd = channels (poller ?s) fd" "events_size p = events_size (poller ?s)"
    by (rule unregister_ok)
  have free: "channel_heap p b = None" "channels p fd = None"
    using p(5-7) b mem(2) sock(3) by (simp, cases "fd = ch_fd c", simp_all)
  let ?d = "delete_channel a p"
  let ?t = "?s\<lparr>connector_channel := None, poller := ?d, socket_results := rs, sockets_owned := {fd}\<rparr>"
  have d: "poller_inv ?d" "channel_heap ?d b = None" "channels ?d fd = None"
    using delete_channel_inv [OF p(2), of kNoneEvent a] p(3) free
    by (simp_all add: channel_is_def delete_channel_def)
  let ?q = "updated b (Channel_new fd) kWriteEvent (put_channel b (Channel_new fd) ?d)"
  let ?u = "?t\<lparr>connector_state := Connector_kConnecting, allocations := as, poller := ?q, connector_channel := Some b\<rparr>"
  have "Connector_connecting me fd ?t = Inr ?u"
    using connecting_eq(1) [of ?t me b as fd] l d mem(1) by simp
  moreover have "Connector_connect me ?s = Connector_connecting me fd ?t"
    using p(1) a(1) sock d(3) l(3)
    by (simp add: Connector_connect_def and_then_assoc [symmetric] Connector_resetChannel_def
        createNonblockingOrDie_def EINPROGRESS_def isInProgress_def)
  ultimately have start: "Connector_start me other s = Inr ?u"
    using l(1) st by (simp add: Connector_start_def EventLoop_runInLoop_def EventLoop_isInLoopThread_def
        Connector_exec_def Connector_startInLoop_def EventLoop_assertInLoopThread_def)
  let ?v = "?u\<lparr>pendingFunctors := [], callingPendingFunctors := False, connector_channel := None,
    poller := delete_channel b ?q\<rparr>"
  have run: "EventLoop_doPendingFunctors (Connector_exec me other) ?u = Inr ?v"
    using pend by (simp add: EventLoop_doPendingFunctors_def Connector_exec_def Connector_resetChannel_def)
  have "interest (poller ?v) fd = Some (kWriteEvent, b)" "channel_heap (poller ?v) b = None"
    "events_size (poller ?v) = events_size (poller s)"
    using p(8) by (simp_all add: delete_channel_def updated_def Channel_new_def index_after_update_def put_channel_def)
  moreover from this have "EPollPoller_poll (Some [(r, b)]) (poller ?v) = Inl UseAfterFree"
    using size by (simp add: EPollPoller_poll_def EPollPoller_fillActiveChannels_def Channel_setRevents_def
        channel_at_def)
  ultimately show ?thesis using start run by (intro exI [of _ ?u] exI [of _ ?v]) simp
qed

subsection \<open>Examples\<close>

text \<open>A run of events, each checked to be in sound order.\<close>

definition sound_event ::
    "tid \<Rightarrow> (int \<Rightarrow> ('g, 'z) connector_scheme \<Rightarrow> ('g, 'z) connector_scheme res) option \<Rightarrow>
     ('g \<Rightarrow> ('g, 'z) connector_scheme \<Rightarrow> ('g, 'z) connector_scheme res) \<Rightarrow>
     ('g, 'z) connector_world \<Rightarrow> connector_event \<Rightarrow> ('g, 'z) connector_world res" where
  "sound_event me nc other w ev =
     and_then (assert_that (sound_order me w ev)) (\<lambda>_. Connector_event me nc other w ev)"

lemma sound_run_reaches:
  "for_each (sound_event me nc other) w evs = Inr w' \<Longrightarrow> connector_reaches me nc other w0 w \<Longrightarrow>
   connector_reaches me nc other w0 w'"
proof (induction evs arbitrary: w)
  case (Cons ev evs)
  then obtain w1 where "sound_event me nc other w ev = Inr w1"
    and rest: "for_each (sound_event me nc other) w1 evs = Inr w'"
    by (auto simp only: for_each.simps and_then_eq_Inr)
  then have w1: "sound_order me w ev" "Connector_event me nc other w ev = Inr w1"
    by (simp_all add: sound_event_def and_then_eq_Inr)
  from Cons.IH [OF rest connector_reaches.event [OF Cons.prems(2) w1(1,2)]] show ?case .
qed simp

text \<open>
  A connector whose first attempt fails with \<open>ECONNREFUSED\<close>; the kernel gives the same descriptor
  to both attempts.
\<close>

definition example_connector :: "nat connector" where
  "example_connector =
     \<lparr>threadId = 1, looping = True, quit = False, poller = EPollPoller_new,
      pendingFunctors = [], callingPendingFunctors = False, wakeupChannel = 64, wakeups = 0,
      timerfdChannel = 72, timerQueue = TimerQueue_new 1 (Timestamp 1000000),
      connect_wanted = False, connector_state = Connector_kDisconnected, connector_channel = None,
      retryDelayMs = kInitRetryDelayMs, socket_results = [(7, EINPROGRESS), (7, EINPROGRESS)],
      so_errors = [111], allocations = [80, 96, 112], sockets_owned = {}, delivered = [], double_closes = 0\<rparr>"

definition example_user :: "nat connector_program" where
  "example_user = \<lparr>on_new_connection = (\<lambda>fd. [QueueOther 0]), on_functor = (\<lambda>g. [StopConnector])\<rparr>"

abbreviation example_run :: "connector_event list \<Rightarrow> nat connector_functor list \<times> nat connector \<Rightarrow> bool" where
  "example_run evs w \<equiv>
     for_each (sound_event 1 (program_new 1 example_user) (program_other 1 example_user)) ([], example_connector) evs
       = Inr w"

lemma example_connector_new: "new_connector 1 example_connector"
  using EPollPoller_new_inv
  by (auto simp: new_connector_def example_connector_def timers_ok_def TimerQueue_new_def tq_inv_def)

lemma example_run_inv: "example_run evs (todo, s) \<Longrightarrow> connector_inv 1 todo s"
  using reaches_inv [OF sound_run_reaches [OF _ connector_reaches.here] new_connector_inv [OF example_connector_new]]
  by fastforce

lemma example_connecting:
  "case for_each (sound_event 1 (program_new 1 example_user) (program_other 1 example_user))
          ([], example_connector) [CallStart] of
     Inl x \<Rightarrow> False
   | Inr (todo, s) \<Rightarrow> todo = [] \<and> connector_state s = Connector_kConnecting \<and> next_so_error s = 111 \<and>
       pendingFunctors s = []"
  by code_simp

lemma example_failed:
  "case for_each (sound_event 1 (program_new 1 example_user) (program_other 1 example_user))
          ([], example_connector) [CallStart, ChannelReady EPOLLOUT] of
     Inl x \<Rightarrow> False
   | Inr (todo, s) \<Rightarrow> todo = [] \<and> connector_state s = Connector_kDisconnected \<and> connector_channel s = Some 80 \<and>
       channel_heap (poller s) 80 = Some \<lparr>ch_fd = 7, ch_events = kNoneEvent, ch_revents = EPOLLOUT, ch_index = kNew\<rparr> \<and>
       channels (poller s) 7 = None \<and> pendingFunctors s = [ResetChannel] \<and> 0 < events_size (poller s) \<and>
       socket_results s = [(7, EINPROGRESS)] \<and> allocations s = [112] \<and> channel_heap (poller s) 112 = None"
  by code_simp

lemma example_retried:
  "case for_each (sound_event 1 (program_new 1 example_user) (program_other 1 example_user))
          ([], example_connector)
          [CallStart, ChannelReady EPOLLOUT, TakeFunctors, RunFunctor, FunctorsDone, RetryTimer] of
     Inl x \<Rightarrow> False
   | Inr (todo, s) \<Rightarrow> todo = [] \<and> connector_state s = Connector_kConnecting \<and> sockets_owned s = {7} \<and>
       retryDelayMs s = 1000 \<and> connector_channel s = Some 112"
  by code_simp

lemma connector_sound_witness:
  "\<exists>s. example_run [CallStart, ChannelReady EPOLLOUT, TakeFunctors, RunFunctor, FunctorsDone, RetryTimer] ([], s) \<and>
       interest (poller s) 7 = Some (kWriteEvent, 112) \<and> double_closes s = 0"
proof -
  let ?evs = "[CallStart, ChannelReady EPOLLOUT, TakeFunctors, RunFunctor, FunctorsDone, RetryTimer]"
  obtain s where s: "example_run ?evs ([], s)" "connector_state s = Connector_kConnecting" "sockets_owned s = {7}"
    "connector_channel s = Some 112"
    using example_retried by (auto split: sum.splits)
  note sound = connector_sound [OF example_connector_new sound_run_reaches [OF s(1) connector_reaches.here]]
  then have "interest (poller s) 7 = Some (kWriteEvent, 112)" using s(2-4) by simp
  moreover have "double_closes s = 0" using sound by blast
  ultimately show ?thesis using s(1) by blast
qed

lemma remote_stop_race_witness:
  "\<exists>s s1. example_run [CallStart] ([], s) \<and>
     Connector_handleWrite 1 (program_new 1 example_user) (s\<lparr>connect_wanted := False\<rparr>) = Inr s1 \<and>
     EventLoop_doPendingFunctors (Connector_exec 1 (program_other 1 example_user))
       (EventLoop_queueInLoop 2 StopInLoop s1) = Inl NullDeref"
proof -
  obtain s where s: "example_run [CallStart] ([], s)" "connector_state s = Connector_kConnecting"
    "next_so_error s = 111" "pendingFunctors s = []"
    using example_connecting by (auto split: sum.splits)
  then have "next_so_error s \<noteq> 0" by simp
  from remote_stop_race [OF example_run_inv [OF s(1)] s(2) this s(4), of "program_new 1 example_user"
      "program_other 1 example_user" 2] s(1) show ?thesis by blast
qed

lemma start_before_reset_witness:
  "\<exists>s s1 s2. example_run [CallStart, ChannelReady EPOLLOUT] ([], s) \<and>
     Connector_start 1 (program_other 1 example_user) s = Inr s1 \<and>
     EventLoop_doPendingFunctors (Connector_exec 1 (program_other 1 example_user)) s1 = Inr s2 \<and>
     EPollPoller_poll (Some [(EPOLLOUT, 112)]) (poller s2) = Inl UseAfterFree"
proof -
  obtain s where s: "example_run [CallStart, ChannelReady EPOLLOUT] ([], s)"
    "connector_state s = Connector_kDisconnected" "connector_channel s = Some 80"
    "channel_heap (poller s) 80 = Some \<lparr>ch_fd = 7, ch_events = kNoneEvent, ch_revents = EPOLLOUT, ch_index = kNew\<rparr>"
    "channels (poller s) 7 = None" "pendingFunctors s = [ResetChannel]" "0 < events_size (poller s)"
    "socket_results s = [(7, EINPROGRESS)]" "allocations s = [112]" "channel_heap (poller s) 112 = None"
    using example_failed by (auto split: sum.splits)
  have "sole_user 80 (ch_fd \<lparr>ch_fd = 7, ch_events = kNoneEvent, ch_revents = EPOLLOUT, ch_index = kNew\<rparr>) (poller s)"
    using s(5) by (simp add: sole_user_def)
  from start_before_reset [OF example_run_inv [OF s(1)] s(2-4) this s(6-8) _ s(5,9,10),
      of "program_other 1 example_user" EPOLLOUT] s(1) show ?thesis by auto
qed

lemma retries_back_off_witness:
  "\<exists>s' t. Connector_retry 1 (example_connector\<lparr>connect_wanted := True, retryDelayMs := 2000\<rparr>) = Inr s' \<and>
     (Timestamp 3000000, 80) \<in> set (tq_timers (timerQueue s')) \<and>
     tq_heap (timerQueue s') 80 = Some t \<and> callback t = StartInLoop"
proof -
  let ?s = "example_connector\<lparr>connect_wanted := True, retryDelayMs := 2000\<rparr>"
  have d: "retryDelayMs ?s = (next_delay ^^ 2) kInitRetryDelayMs" by (simp add: next_delay_iterate)
  have "timers_ok 1 (timerQueue ?s)" "connect_wanted ?s" "allocations ?s = 80 # [96, 112]" "(0::addr) < 80"
    "(80::addr) < UINTPTR_MAX" "tq_heap (timerQueue ?s) 80 = None" "tq_clock (timerQueue ?s) = Timestamp 1000000"
    by (auto simp: example_connector_def timers_ok_def TimerQueue_new_def tq_inv_def UINTPTR_MAX_def)
  from retries_back_off [OF this(1,2) d this(3-7)] show ?thesis by auto
qed

end
