(* ===== verification/Servers.thy ===== *)
theory Servers
  imports Connection_Life
begin

text \<open>
  The server side above the connections: EventLoopThread and EventLoopThreadPool
  (src/net/event_loop_thread.cpp, event_loop_thread_pool.cpp), Acceptor (acceptor.cpp) with
  \<open>sockets::accept\<close>, and TcpServer (tcp_server.cpp). The state is that of the whole server process:
  the loops of its threads, the TcpConnection objects, the server with its pool and its acceptor.
  A pointer to a loop is a number, 0 for the loop of the server; so is a pointer to a connection.
\<close>

section \<open>Loops and connections of a server\<close>

datatype server_functor =
    ConnectEstablished nat
  | ConnectDestroyed nat
  | RemoveConnectionInLoop nat

type_synonym server_loop = "server_functor event_loop"

text \<open>
  A TcpConnection object without the loop it lives in (\<open>co_loop\<close>); the fields are those of
  \<open>tcp_connection\<close>.
\<close>

record 'x connection_object =
  co_loop :: nat
  co_name :: string
  co_state :: ConnState
  co_channel :: addr
  co_input :: buffer
  co_output :: buffer
  co_context :: "'x option"
  co_reads :: "readv_result list"
  co_writes :: "write_result list"
  co_wire :: "char list"
  co_fin_sent :: bool
  co_handed_over :: "char list"

definition object_of :: "nat \<Rightarrow> ('f, 'x, 'z) tcp_connection_scheme \<Rightarrow> 'x connection_object" where
  object_of_simp [simp]: "object_of l s =
     \<lparr>co_loop = l, co_name = conn_name s, co_state = conn_state s, co_channel = conn_channel s,
      co_input = inputBuffer s, co_output = outputBuffer s, co_context = conn_context s,
      co_reads = socket_reads s, co_writes = socket_writes s, co_wire = wire s,
      co_fin_sent = fin_sent s, co_handed_over = handed_over s\<rparr>"

record thread_pool =
  pool_started :: bool
  numThreads :: int
  pool_loops :: "nat list"
  pool_next :: nat

record acceptor =
  acc_channel :: addr
  listening :: bool

text \<open>
  What a new thread with its loop gets from the system: the thread id, and for the eventfd and the
  timerfd of the loop a descriptor and the address of the channel.
\<close>

record thread_resources =
  new_tid :: tid
  new_wakeupFd :: int
  new_wakeupChannel :: addr
  new_timerfd :: int
  new_timerfdChannel :: addr

text \<open>
  \<open>running\<close> holds the functors that \<open>doPendingFunctors\<close> of a loop has swapped out and not called
  yet. \<open>objects\<close> are the connections that have not been deleted and \<open>created\<close> the number of all
  that were made. \<open>srv_alive\<close> tells whether the TcpServer object exists.
\<close>

record 'x server_world =
  loops :: "nat \<Rightarrow> server_loop"
  running :: "nat \<Rightarrow> server_functor list"
  loop_count :: nat
  objects :: "nat \<Rightarrow> 'x connection_object option"
  created :: nat
  srv_alive :: bool
  srv_name :: string
  srv_started :: bool
  nextConnId :: int
  connections :: "string \<Rightarrow> nat option"
  pool :: thread_pool
  acceptor :: acceptor

subsection \<open>A connection in its loop\<close>

text \<open>
  The operations of a connection act on a loop together with the connection. \<open>enter i\<close> takes
  connection \<open>i\<close> and its loop out of the world, whose rest stays in the \<open>more\<close> part of the record;
  \<open>leave\<close> puts both back.
\<close>

type_synonym 'x served = "(server_functor, 'x, 'x server_world) tcp_connection_scheme"

definition vacant_loop :: server_loop where
  "vacant_loop =
     \<lparr>threadId = 0, looping = False, quit = False, poller = EPollPoller_new, pendingFunctors = [],
      callingPendingFunctors = False, wakeupChannel = 0, wakeups = 0, timerfdChannel = 0,
      timerQueue = TimerQueue_new 0 (Timestamp 0)\<rparr>"

definition enter :: "nat \<Rightarrow> 'x server_world \<Rightarrow> 'x served" where
  "enter i w =
     (let c = the (objects w i); s = loops w (co_loop c)
      in \<lparr>threadId = threadId s, looping = looping s, quit = quit s, poller = poller s,
          pendingFunctors = pendingFunctors s, callingPendingFunctors = callingPendingFunctors s,
          wakeupChannel = wakeupChannel s, wakeups = wakeups s, timerfdChannel = timerfdChannel s,
          timerQueue = timerQueue s,
          conn_name = co_name c, conn_state = co_state c, conn_channel = co_channel c,
          inputBuffer = co_input c, outputBuffer = co_output c, conn_context = co_context c,
          socket_reads = co_reads c, socket_writes = co_writes c, wire = co_wire c,
          fin_sent = co_fin_sent c, handed_over = co_handed_over c,
          \<dots> = w\<lparr>loops := (loops w)(co_loop c := vacant_loop), objects := (objects w)(i := None)\<rparr>\<rparr>)"

definition leave :: "nat \<Rightarrow> nat \<Rightarrow> 'x served \<Rightarrow> 'x server_world" where
  "leave l i s =
     (let w = tcp_connection.more s
      in w\<lparr>loops := (loops w)(l := event_loop.truncate s),
           objects := (objects w)(i \<mapsto> object_of l s)\<rparr>)"

text \<open>A member function of connection \<open>i\<close>, called on the object behind a pointer.\<close>

definition on_connection ::
    "nat \<Rightarrow> ('x served \<Rightarrow> 'x served res) \<Rightarrow> 'x server_world \<Rightarrow> 'x server_world res" where
  "on_connection i f w =
     (case objects w i of
        None \<Rightarrow> Inl UseAfterFree
      | Some c \<Rightarrow> map_res (leave (co_loop c) i) (f (enter i w)))"

text \<open>\<open>queueInLoop\<close> and \<open>runInLoop\<close> of loop \<open>l\<close>, called in thread \<open>me\<close>.\<close>

definition queue_in :: "tid \<Rightarrow> nat \<Rightarrow> server_functor \<Rightarrow> 'x server_world \<Rightarrow> 'x server_world" where
  "queue_in me l f w = w\<lparr>loops := (loops w)(l := EventLoop_queueInLoop me f (loops w l))\<rparr>"

definition run_in ::
    "tid \<Rightarrow> nat \<Rightarrow> ('x server_world \<Rightarrow> 'x server_world res) \<Rightarrow> server_functor \<Rightarrow>
     'x server_world \<Rightarrow> 'x server_world res" where
  "run_in me l exec f w =
     (if EventLoop_isInLoopThread me (loops w l) then exec w else Inr (queue_in me l f w))"

section \<open>EventLoopThreadPool and EventLoopThread\<close>

definition EventLoopThreadPool_new :: thread_pool where
  "EventLoopThreadPool_new = \<lparr>pool_started = False, numThreads = 0, pool_loops = [], pool_next = 0\<rparr>"

definition EventLoopThreadPool_setThreadNum :: "int \<Rightarrow> thread_pool \<Rightarrow> thread_pool" where
  "EventLoopThreadPool_setThreadNum n p = p\<lparr>numThreads := n\<rparr>"

text \<open>
  \<open>startLoop\<close> returns after the new thread has made its loop and called the user's callback on
  it.
\<close>

definition EventLoopThread_startLoop ::
    "(server_loop \<Rightarrow> server_loop res) option \<Rightarrow> thread_resources \<Rightarrow> timestamp \<Rightarrow>
     'x server_world \<Rightarrow> (nat \<times> 'x server_world) res" where
  "EventLoopThread_startLoop cb r now w =
     and_then (EventLoop_new (new_tid r) now (new_wakeupFd r) (new_wakeupChannel r)
                 (new_timerfd r) (new_timerfdChannel r)) (\<lambda>s.
     and_then (call_if_set cb s) (\<lambda>s.
     Inr (loop_count w,
          w\<lparr>loops := (loops w)(loop_count w := s), loop_count := loop_count w + 1\<rparr>)))"

definition EventLoopThreadPool_start ::
    "tid \<Rightarrow> (server_loop \<Rightarrow> server_loop res) option \<Rightarrow> (nat \<Rightarrow> thread_resources) \<Rightarrow> timestamp \<Rightarrow>
     'x server_world \<Rightarrow> 'x server_world res" where
  "EventLoopThreadPool_start me cb resources now w =
     and_then (assert_that (\<not> pool_started (pool w))) (\<lambda>_.
     and_then (assert_that (0 \<le> numThreads (pool w))) (\<lambda>_.
     and_then (EventLoop_assertInLoopThread me (loops w 0)) (\<lambda>_.
     for_each (\<lambda>w i.
         and_then (EventLoopThread_startLoop cb (resources i) now w) (\<lambda>(l, w).
         Inr (w\<lparr>pool := (pool w)\<lparr>pool_loops := pool_loops (pool w) @ [l]\<rparr>\<rparr>)))
       (w\<lparr>pool := (pool w)\<lparr>pool_started := True\<rparr>\<rparr>) [0..<nat (numThreads (pool w))])))"

definition EventLoopThreadPool_getNextLoop ::
    "tid \<Rightarrow> 'x server_world \<Rightarrow> (nat \<times> 'x server_world) res" where
  "EventLoopThreadPool_getNextLoop me w =
     and_then (EventLoop_assertInLoopThread me (loops w 0)) (\<lambda>_.
     and_then (assert_that (pool_started (pool w))) (\<lambda>_.
     if pool_loops (pool w) = [] then Inr (0, w)
     else if pool_next (pool w) < length (pool_loops (pool w)) then
       (let loop = pool_loops (pool w) ! pool_next (pool w);
            next = pool_next (pool w) + 1;
            next = (if length (pool_loops (pool w)) \<le> next then 0 else next)
        in Inr (loop, w\<lparr>pool := (pool w)\<lparr>pool_next := next\<rparr>\<rparr>))
     else Inl OutOfBounds))"

section \<open>TcpServer and Acceptor\<close>

subsection \<open>Removing a connection\<close>

definition TcpServer_removeConnectionInLoop :: "tid \<Rightarrow> nat \<Rightarrow> 'x server_world \<Rightarrow> 'x server_world res" where
  "TcpServer_removeConnectionInLoop me i w =
     and_then (EventLoop_assertInLoopThread me (loops w 0)) (\<lambda>_.
     case objects w i of
       None \<Rightarrow> Inl UseAfterFree
     | Some c \<Rightarrow>
         Inr (queue_in me (co_loop c) (ConnectDestroyed i)
                (w\<lparr>connections := (connections w)(co_name c := None)\<rparr>)))"

definition TcpServer_removeConnection :: "tid \<Rightarrow> nat \<Rightarrow> 'x server_world \<Rightarrow> 'x server_world res" where
  "TcpServer_removeConnection me i w =
     run_in me 0 (TcpServer_removeConnectionInLoop me i) (RemoveConnectionInLoop i) w"

text \<open>
  The close callback that \<open>newConnection\<close> sets. The other callbacks are the user's; \<open>user me l i\<close>
  are those of connection \<open>i\<close> when called in thread \<open>me\<close> of loop \<open>l\<close>.
\<close>

definition server_close_callback :: "tid \<Rightarrow> nat \<Rightarrow> nat \<Rightarrow> 'x served \<Rightarrow> 'x served res" where
  "server_close_callback me l i s = map_res (enter i) (TcpServer_removeConnection me i (leave l i s))"

type_synonym 'x served_callbacks = "tid \<Rightarrow> nat \<Rightarrow> nat \<Rightarrow> 'x served connection_callbacks"

text \<open>Calling a functor in its loop; the one that holds a raw pointer to the server needs it alive.\<close>

definition server_exec ::
    "'x served_callbacks \<Rightarrow> tid \<Rightarrow> server_functor \<Rightarrow> 'x server_world \<Rightarrow> 'x server_world res" where
  "server_exec cbs me f w =
     (case f of
        ConnectEstablished i \<Rightarrow>
          on_connection i (\<lambda>s. TcpConnection_connectEstablished me (cbs me (co_loop (the (objects w i))) i) s) w
      | ConnectDestroyed i \<Rightarrow>
          on_connection i (\<lambda>s. TcpConnection_connectDestroyed me (cbs me (co_loop (the (objects w i))) i) s) w
      | RemoveConnectionInLoop i \<Rightarrow>
          if srv_alive w then TcpServer_removeConnectionInLoop me i w else Inl UseAfterFree)"

subsection \<open>New connections\<close>

definition connection_name :: "string \<Rightarrow> int \<Rightarrow> string" where
  "connection_name name n = name @ ''#'' @ nat_to_string (nat n)"

text \<open>
  The new connection on a descriptor: its channel is at the address \<open>a\<close>. What its socket will
  deliver and accept is \<open>reads\<close> and \<open>writes\<close>.
\<close>

definition new_object :: "nat \<Rightarrow> string \<Rightarrow> addr \<Rightarrow> readv_result list \<Rightarrow> write_result list \<Rightarrow> 'x connection_object" where
  "new_object l name a reads writes =
     \<lparr>co_loop = l, co_name = name, co_state = kConnecting, co_channel = a, co_input = Buffer_new,
      co_output = Buffer_new, co_context = None, co_reads = reads, co_writes = writes, co_wire = [],
      co_fin_sent = False, co_handed_over = []\<rparr>"

record accepted =
  acc_fd :: int
  acc_address :: addr
  acc_reads :: "readv_result list"
  acc_writes :: "write_result list"

definition TcpServer_newConnection ::
    "'x served_callbacks \<Rightarrow> tid \<Rightarrow> accepted \<Rightarrow> 'x server_world \<Rightarrow> 'x server_world res" where
  "TcpServer_newConnection cbs me a w =
     and_then (EventLoop_assertInLoopThread me (loops w 0)) (\<lambda>_.
     and_then (EventLoopThreadPool_getNextLoop me w) (\<lambda>(l, w).
     if nextConnId w = 2 ^ 31 - 1 then Inl SignedOverflow
     else
       (let i = created w;
            connName = connection_name (srv_name w) (nextConnId w);
            w = w\<lparr>nextConnId := nextConnId w + 1, created := created w + 1,
                  loops := (loops w)(l := (loops w l)
                    \<lparr>poller := put_channel (acc_address a) (Channel_new (acc_fd a)) (poller (loops w l))\<rparr>),
                  objects := (objects w)(i \<mapsto> new_object l connName (acc_address a) (acc_reads a) (acc_writes a)),
                  connections := (connections w)(connName \<mapsto> i)\<rparr>
        in run_in me l (server_exec cbs me (ConnectEstablished i)) (ConnectEstablished i) w)))"

text \<open>
  \<open>accept\<close>: the descriptor of a connection, or an error; the unexpected ones abort the process.
\<close>

datatype accept_result = Accepted accepted | AcceptErr nat

definition expected_accept_errors :: "nat set" where
  "expected_accept_errors = {EAGAIN, 103, 4, 71, 1, 24}"

definition sockets_accept :: "accept_result \<Rightarrow> accepted option res" where
  "sockets_accept r =
     (case r of
        Accepted a \<Rightarrow> Inr (Some a)
      | AcceptErr e \<Rightarrow> if e \<in> expected_accept_errors then Inr None else Inl Aborted)"

text \<open>
  The loop of \<open>Acceptor::handleRead\<close> on the results that the coming calls of \<open>accept\<close> have (when
  they are used up: \<open>EAGAIN\<close>).
\<close>

fun Acceptor_accept_loop ::
    "(accepted \<Rightarrow> 'w \<Rightarrow> 'w res) option \<Rightarrow> accept_result list \<Rightarrow> 'w \<Rightarrow> 'w res" where
  "Acceptor_accept_loop cb [] w = Inr w"
| "Acceptor_accept_loop cb (r # rs) w =
     and_then (sockets_accept r) (\<lambda>conn.
     case conn of
       None \<Rightarrow> Inr w
     | Some a \<Rightarrow>
         and_then (case cb of Some f \<Rightarrow> f a w | None \<Rightarrow> Inr w)
           (Acceptor_accept_loop cb rs))"

definition Acceptor_handleRead ::
    "tid \<Rightarrow> (accepted \<Rightarrow> 'x server_world \<Rightarrow> 'x server_world res) option \<Rightarrow> accept_result list \<Rightarrow>
     'x server_world \<Rightarrow> 'x server_world res" where
  "Acceptor_handleRead me cb rs w =
     and_then (EventLoop_assertInLoopThread me (loops w 0)) (\<lambda>_. Acceptor_accept_loop cb rs w)"

definition Acceptor_listen :: "tid \<Rightarrow> 'x server_world \<Rightarrow> 'x server_world res" where
  "Acceptor_listen me w =
     and_then (EventLoop_assertInLoopThread me (loops w 0)) (\<lambda>_.
     and_then (assert_that (\<not> listening (acceptor w))) (\<lambda>_.
     map_res (\<lambda>s. w\<lparr>loops := (loops w)(0 := s), acceptor := (acceptor w)\<lparr>listening := True\<rparr>\<rparr>)
       (Channel_change me EnableReading (acc_channel (acceptor w)) (loops w 0))))"

subsection \<open>Construction, start and destruction\<close>

text \<open>
  A server in loop 0, named \<open>name\<close>, whose listening descriptor is \<open>fd\<close> with its channel at the
  address \<open>a\<close>.
\<close>

definition TcpServer_new :: "server_loop \<Rightarrow> string \<Rightarrow> int \<Rightarrow> addr \<Rightarrow> 'x server_world" where
  "TcpServer_new base name fd a =
     \<lparr>loops = (\<lambda>_. vacant_loop)(0 := base\<lparr>poller := put_channel a (Channel_new fd) (poller base)\<rparr>),
      running = (\<lambda>_. []), loop_count = 1, objects = Map.empty, created = 0, srv_alive = True,
      srv_name = name, srv_started = False, nextConnId = 1, connections = Map.empty,
      pool = EventLoopThreadPool_new, acceptor = \<lparr>acc_channel = a, listening = False\<rparr>\<rparr>"

definition TcpServer_setThreadNum :: "int \<Rightarrow> 'x server_world \<Rightarrow> 'x server_world res" where
  "TcpServer_setThreadNum n w =
     map_res (\<lambda>_. w\<lparr>pool := EventLoopThreadPool_setThreadNum n (pool w)\<rparr>) (assert_that (\<not> srv_started w))"

definition TcpServer_start ::
    "tid \<Rightarrow> (server_loop \<Rightarrow> server_loop res) option \<Rightarrow> (nat \<Rightarrow> thread_resources) \<Rightarrow> timestamp \<Rightarrow>
     'x server_world \<Rightarrow> 'x server_world res" where
  "TcpServer_start me threadInit resources now w =
     and_then (EventLoop_assertInLoopThread me (loops w 0)) (\<lambda>_.
     if srv_started w then Inr w
     else and_then (EventLoopThreadPool_start me threadInit resources now (w\<lparr>srv_started := True\<rparr>))
            (Acceptor_listen me))"

text \<open>
  Destruction. \<open>~Acceptor\<close> deletes the channel and closes the listening descriptor, which the kernel
  then drops from its interest list; the poller is not told. \<open>~EventLoopThread\<close> makes its loop quit;
  its \<open>join\<close> is not in these definitions, which see the other loops only through their queues and flags:
  that it waits for the thread to end shows in the steps that the other threads still make, and
  theory Loop_Threads shows when it comes back.
  The destructor of the server takes the connections in the order \<open>order\<close> in which its map is
  traversed.
\<close>

definition Acceptor_destroy :: "'x server_world \<Rightarrow> 'x server_world res" where
  "Acceptor_destroy w =
     (let s = loops w 0; p = poller s; a = acc_channel (acceptor w)
      in map_res (\<lambda>c. w\<lparr>loops := (loops w)(0 := s\<lparr>poller :=
             p\<lparr>channel_heap := (channel_heap p)(a := None), interest := (interest p)(ch_fd c := None)\<rparr>\<rparr>)\<rparr>)
           (channel_at p a))"

definition EventLoopThread_destroy :: "tid \<Rightarrow> nat \<Rightarrow> 'x server_world \<Rightarrow> 'x server_world" where
  "EventLoopThread_destroy me l w = w\<lparr>loops := (loops w)(l := EventLoop_quit me (loops w l))\<rparr>"

definition TcpServer_destroy ::
    "'x served_callbacks \<Rightarrow> tid \<Rightarrow> nat list \<Rightarrow> 'x server_world \<Rightarrow> 'x server_world res" where
  "TcpServer_destroy cbs me order w =
     and_then (EventLoop_assertInLoopThread me (loops w 0)) (\<lambda>_.
     and_then
       (for_each (\<lambda>w i.
            case objects w i of
              None \<Rightarrow> Inl UseAfterFree
            | Some c \<Rightarrow> run_in me (co_loop c) (server_exec cbs me (ConnectDestroyed i)) (ConnectDestroyed i) w)
          w order) (\<lambda>w.
     map_res (\<lambda>w. w\<lparr>srv_alive := False\<rparr>)
       (Acceptor_destroy
         (fold (EventLoopThread_destroy me) (pool_loops (pool w)) (w\<lparr>connections := Map.empty\<rparr>)))))"

end
