(* ===== verification/Served_Connections.thy ===== *)
theory Served_Connections
  imports Servers
begin

text \<open>
  One connection inside a server: what taking it out of the world and putting it back does, what its
  operations can change of the world (the relation \<open>served_step\<close>: nothing but the connection, or the
  connection has closed and the server was told, once), the contract \<open>server_user\<close> of the callbacks of
  a server's connections, and programs as its instance.
\<close>

subsection \<open>Entering and leaving a connection\<close>

lemma enter_fields [simp]:
  "threadId (enter i w) = threadId (loops w (co_loop (the (objects w i))))"
  "poller (enter i w) = poller (loops w (co_loop (the (objects w i))))"
  "pendingFunctors (enter i w) = pendingFunctors (loops w (co_loop (the (objects w i))))"
  "conn_name (enter i w) = co_name (the (objects w i))" "conn_state (enter i w) = co_state (the (objects w i))"
  "conn_channel (enter i w) = co_channel (the (objects w i))" "inputBuffer (enter i w) = co_input (the (objects w i))"
  "outputBuffer (enter i w) = co_output (the (objects w i))" "wire (enter i w) = co_wire (the (objects w i))"
  "fin_sent (enter i w) = co_fin_sent (the (objects w i))"
  "handed_over (enter i w) = co_handed_over (the (objects w i))"
  "conn_context (enter i w) = co_context (the (objects w i))"
  "tcp_connection.more (enter i w) =
     w\<lparr>loops := (loops w)(co_loop (the (objects w i)) := vacant_loop), objects := (objects w)(i := None)\<rparr>"
  by (simp_all add: enter_def Let_def)

lemma leave_world [simp]:
  "running (leave l i s) = running (tcp_connection.more s)" "loop_count (leave l i s) = loop_count (tcp_connection.more s)"
  "created (leave l i s) = created (tcp_connection.more s)" "srv_alive (leave l i s) = srv_alive (tcp_connection.more s)"
  "srv_name (leave l i s) = srv_name (tcp_connection.more s)" "nextConnId (leave l i s) = nextConnId (tcp_connection.more s)"
  "connections (leave l i s) = connections (tcp_connection.more s)" "pool (leave l i s) = pool (tcp_connection.more s)"
  "srv_started (leave l i s) = srv_started (tcp_connection.more s)" "acceptor (leave l i s) = acceptor (tcp_connection.more s)"
  "loops (leave l i s) l = event_loop.truncate s" "l' \<noteq> l \<Longrightarrow> loops (leave l i s) l' = loops (tcp_connection.more s) l'"
  "j \<noteq> i \<Longrightarrow> objects (leave l i s) j = objects (tcp_connection.more s) j"
  by (simp_all add: leave_def Let_def)

lemma leave_object [simp]:
  "objects (leave l i s) i = Some
     \<lparr>co_loop = l, co_name = conn_name s, co_state = conn_state s, co_channel = conn_channel s,
      co_input = inputBuffer s, co_output = outputBuffer s, co_context = conn_context s,
      co_reads = socket_reads s, co_writes = socket_writes s, co_wire = wire s,
      co_fin_sent = fin_sent s, co_handed_over = handed_over s\<rparr>"
  by (simp add: leave_def Let_def)

lemma truncate_fields [simp]:
  "threadId (event_loop.truncate s) = threadId s" "poller (event_loop.truncate s) = poller s"
  "pendingFunctors (event_loop.truncate s) = pendingFunctors s"
  by (simp_all add: event_loop.defs)

lemma queue_in_fields [simp]:
  "running (queue_in me l f w) = running w" "loop_count (queue_in me l f w) = loop_count w"
  "objects (queue_in me l f w) = objects w" "created (queue_in me l f w) = created w"
  "srv_alive (queue_in me l f w) = srv_alive w" "srv_name (queue_in me l f w) = srv_name w"
  "nextConnId (queue_in me l f w) = nextConnId w" "connections (queue_in me l f w) = connections w"
  "pool (queue_in me l f w) = pool w" "acceptor (queue_in me l f w) = acceptor w"
  "loops (queue_in me l f w) l = EventLoop_queueInLoop me f (loops w l)"
  "l' \<noteq> l \<Longrightarrow> loops (queue_in me l f w) l' = loops w l'"
  by (simp_all add: queue_in_def)

lemma queueInLoop_fields [simp]:
  "threadId (EventLoop_queueInLoop me f s) = threadId s" "poller (EventLoop_queueInLoop me f s) = poller s"
  "pendingFunctors (EventLoop_queueInLoop me f s) = pendingFunctors s @ [f]"
  "callingPendingFunctors (EventLoop_queueInLoop me f s) = callingPendingFunctors s"
  by (simp_all add: EventLoop_queueInLoop_def queueInLoop_push_def queueInLoop_wake_def EventLoop_wakeup_def)

text \<open>What the state of a connection that was taken out of the world looks like.\<close>

definition taken_out :: "tid \<Rightarrow> nat \<Rightarrow> nat \<Rightarrow> 'x served \<Rightarrow> bool" where
  "taken_out me l i s \<longleftrightarrow>
     threadId s = me \<and> loops (tcp_connection.more s) l = vacant_loop \<and> objects (tcp_connection.more s) i = None \<and>
     (l \<noteq> 0 \<longrightarrow> threadId (loops (tcp_connection.more s) 0) \<noteq> me)"

lemma enter_leave:
  assumes "taken_out me l i s"
  shows "enter i (leave l i s) = s"
  using assms
  by (cases s) (auto simp: enter_def leave_def Let_def taken_out_def event_loop.defs fun_upd_idem_iff)

subsection \<open>What the operations of one connection change\<close>

definition same_connection :: "'x served \<Rightarrow> 'x served \<Rightarrow> bool" where
  "same_connection s s' \<longleftrightarrow>
     threadId s' = threadId s \<and> poller s' = poller s \<and> conn_name s' = conn_name s \<and>
     conn_state s' = conn_state s \<and> conn_channel s' = conn_channel s \<and> inputBuffer s' = inputBuffer s \<and>
     outputBuffer s' = outputBuffer s \<and> conn_context s' = conn_context s \<and> wire s' = wire s \<and>
     fin_sent s' = fin_sent s \<and> handed_over s' = handed_over s"

lemma close_callback_same:
  obtains s' where "server_close_callback me l i s = Inr s'" and "same_connection s s'"
proof -
  let ?w = "leave l i s"
  obtain w' where w': "TcpServer_removeConnection me i ?w = Inr w'"
    "objects w' = objects ?w" "threadId (loops w' l) = threadId s" "poller (loops w' l) = poller s"
  proof (cases "EventLoop_isInLoopThread me (loops ?w 0)")
    case True
    then have "TcpServer_removeConnection me i ?w =
      Inr (queue_in me l (ConnectDestroyed i) (?w\<lparr>connections := (connections ?w)(conn_name s := None)\<rparr>))"
      by (simp add: TcpServer_removeConnection_def run_in_def TcpServer_removeConnectionInLoop_def
          EventLoop_assertInLoopThread_def del: leave_world)
    then show ?thesis by (rule that) simp_all
  next
    case False
    then have "TcpServer_removeConnection me i ?w = Inr (queue_in me 0 (RemoveConnectionInLoop i) ?w)"
      by (simp add: TcpServer_removeConnection_def run_in_def)
    then show ?thesis by (rule that) (auto simp: queue_in_def)
  qed
  then show ?thesis
    by (intro that [of "enter i w'"]) (simp_all add: server_close_callback_def same_connection_def)
qed


lemma same_connection_wf: "same_connection s s' \<Longrightarrow> conn_wf me s \<Longrightarrow> conn_wf me s'"
  by (auto simp: same_connection_def conn_pre_def conn_registered_def conn_ch_def split: ConnState.splits)

lemma close_callback_keeps:
  fixes ok :: "'x option \<Rightarrow> fault \<Rightarrow> bool"
  shows "keeps_conn me ok (server_close_callback me l i)"
  unfolding keeps_conn_def
proof (intro allI impI)
  fix s :: "'x served"
  assume wf: "conn_wf me s"
  obtain s' where s': "server_close_callback me l i s = Inr s'" "same_connection s s'"
    by (rule close_callback_same)
  then have "conn_wf me s'" "fin_due s = fin_due s'" "conn_next ok s s'"
    using same_connection_wf wf
    by (auto simp: same_connection_def fin_due_def conn_ch_def conn_next_same)
  with s'(1) show "case server_close_callback me l i s of Inl x \<Rightarrow> ok (conn_context s) x
      | Inr s' \<Rightarrow> conn_wf me s' \<and> (fin_due s \<longrightarrow> fin_due s') \<and> conn_next ok s s'" by simp
qed

lemma close_callback_revents: "keeps_revents (server_close_callback me l i)"
  unfolding keeps_revents_def
proof (intro allI impI)
  fix s s' :: "'x served"
  assume "server_close_callback me l i s = Inr s'"
  with close_callback_same [of me l i s] have "same_connection s s'" by (metis Inr_inject)
  then show "same_revents s s'" by (simp add: same_connection_def same_revents_def)
qed

text \<open>
  The relation between the states before and after an operation on connection \<open>i\<close> of loop \<open>l\<close> that
  was taken out of the world: either it did not close and nothing outside it has changed, or it has
  closed and the server was told once.
\<close>

definition still_there :: "'x served \<Rightarrow> 'x served \<Rightarrow> bool" where
  "still_there s s' \<longleftrightarrow>
     (conn_state s' = kDisconnected \<longleftrightarrow> conn_state s = kDisconnected) \<and>
     tcp_connection.more s' = tcp_connection.more s \<and> pendingFunctors s' = pendingFunctors s"

definition just_closed :: "tid \<Rightarrow> nat \<Rightarrow> nat \<Rightarrow> 'x served \<Rightarrow> 'x served \<Rightarrow> bool" where
  "just_closed me l i s s' \<longleftrightarrow>
     conn_state s \<noteq> kDisconnected \<and> conn_state s' = kDisconnected \<and>
     (if l = 0 then
        tcp_connection.more s' = (tcp_connection.more s)
          \<lparr>connections := (connections (tcp_connection.more s))(conn_name s := None)\<rparr> \<and>
        pendingFunctors s' = pendingFunctors s @ [ConnectDestroyed i]
      else
        tcp_connection.more s' = queue_in me 0 (RemoveConnectionInLoop i) (tcp_connection.more s) \<and>
        pendingFunctors s' = pendingFunctors s)"

definition served_step :: "tid \<Rightarrow> nat \<Rightarrow> nat \<Rightarrow> 'x served \<Rightarrow> 'x served \<Rightarrow> bool" where
  "served_step me l i s s' \<longleftrightarrow>
     (taken_out me l i s \<longrightarrow>
        taken_out me l i s' \<and> conn_name s' = conn_name s \<and> conn_channel s' = conn_channel s \<and>
        only_channel (conn_channel s) (poller s) (poller s') \<and>
        (still_there s s' \<or> just_closed me l i s s'))"

lemma served_step_trans: "served_step me l i s t \<Longrightarrow> served_step me l i t u \<Longrightarrow> served_step me l i s u"
  by (auto simp: served_step_def still_there_def just_closed_def intro: only_channel_trans)

interpretation served: conn_steps me "served_step me l i" for me l i
proof (unfold_locales, goal_cases)
  case (2 s t u)
  then show ?case by (rule served_step_trans)
next
  case (4 ch s s')
  then show ?case
    by (rule Channel_change_only) (simp add: served_step_def taken_out_def still_there_def)
qed (auto simp: served_step_def taken_out_def still_there_def)

lemma close_callback_step:
  assumes "conn_state s = kDisconnected" and "taken_out me l i s" and "server_close_callback me l i s = Inr s'"
  shows "taken_out me l i s' \<and> same_connection s s' \<and>
         (if l = 0 then
            tcp_connection.more s' = (tcp_connection.more s)
              \<lparr>connections := (connections (tcp_connection.more s))(conn_name s := None)\<rparr> \<and>
            pendingFunctors s' = pendingFunctors s @ [ConnectDestroyed i]
          else
            tcp_connection.more s' = queue_in me 0 (RemoveConnectionInLoop i) (tcp_connection.more s) \<and>
            pendingFunctors s' = pendingFunctors s)"
proof -
  let ?w = "leave l i s"
  obtain s1 where s1: "server_close_callback me l i s = Inr s1" "same_connection s s1"
    by (rule close_callback_same)
  with assms(3) have same: "same_connection s s'" by simp
  have home: "threadId s = me" "loops (tcp_connection.more s) l = vacant_loop"
    "objects (tcp_connection.more s) i = None" "l \<noteq> 0 \<Longrightarrow> threadId (loops (tcp_connection.more s) 0) \<noteq> me"
    using assms(2) by (auto simp: taken_out_def)
  show ?thesis
  proof (cases "l = 0")
    case True
    then have "TcpServer_removeConnection me i ?w =
      Inr (queue_in me 0 (ConnectDestroyed i) (?w\<lparr>connections := (connections ?w)(conn_name s := None)\<rparr>))"
      using home(1) by (simp add: TcpServer_removeConnection_def run_in_def TcpServer_removeConnectionInLoop_def
          EventLoop_assertInLoopThread_def EventLoop_isInLoopThread_def del: leave_world(7))
    with assms(3) have s': "s' = enter i (queue_in me 0 (ConnectDestroyed i)
        (?w\<lparr>connections := (connections ?w)(conn_name s := None)\<rparr>))"
      by (simp add: server_close_callback_def)
    have "tcp_connection.more s' = (tcp_connection.more s)
        \<lparr>connections := (connections (tcp_connection.more s))(conn_name s := None)\<rparr>"
      using home True unfolding s' by (simp add: leave_def queue_in_def Let_def fun_upd_idem)
    moreover have "pendingFunctors s' = pendingFunctors s @ [ConnectDestroyed i]"
      using True by (simp add: s')
    ultimately show ?thesis
      using True home same by (simp add: taken_out_def same_connection_def)
  next
    case False
    then have "TcpServer_removeConnection me i ?w = Inr (queue_in me 0 (RemoveConnectionInLoop i) ?w)"
      using home(4) by (simp add: TcpServer_removeConnection_def run_in_def EventLoop_isInLoopThread_def)
    with assms(3) have s': "s' = enter i (queue_in me 0 (RemoveConnectionInLoop i) ?w)"
      by (simp add: server_close_callback_def)
    have "tcp_connection.more s' = queue_in me 0 (RemoveConnectionInLoop i) (tcp_connection.more s)"
      using home False unfolding s'
      by (auto simp: leave_def queue_in_def Let_def fun_upd_idem fun_upd_twist)
    moreover have "pendingFunctors s' = pendingFunctors s"
      using False by (simp add: s')
    ultimately show ?thesis
      using False home same by (simp add: taken_out_def same_connection_def)
  qed
qed

subsection \<open>Programs on the connections of a server\<close>

text \<open>
  The public calls that the user's callbacks, and other code of the user in the thread of a
  connection, make on it.
\<close>

datatype user_call = CallSend "char list" | CallShutdown | CallForceClose | CallTakeInput nat

fun conn_call_of :: "user_call \<Rightarrow> server_functor conn_call" where
  "conn_call_of (CallSend data) = Send data"
| "conn_call_of CallShutdown = Shutdown"
| "conn_call_of CallForceClose = ForceClose"
| "conn_call_of (CallTakeInput n) = TakeInput n"

lemma conn_call_of_no_enqueue [simp]: "conn_call_of c \<noteq> Enqueue f" "Enqueue f \<noteq> conn_call_of c"
  by (cases c; simp)+

text \<open>
  The contract of the callbacks of a server's connections: the close callback is the server's; the
  user's keep the connection's invariant and, like every operation, either leave everything outside
  the connection as it is or close it and tell the server.
\<close>

locale server_user =
  fixes ok :: "'x option \<Rightarrow> fault \<Rightarrow> bool"
    and cbs :: "'x served_callbacks"
  assumes closes: "connectionClosed (cbs me l i) = Some (server_close_callback me l i)"
    and keeps_all: "keeps_conn_callbacks me ok (cbs me l i)"
    and revents_all: "callbacks_keep_revents (cbs me l i)"
    and step_connection: "call_if_set (connectionCallback (cbs me l i)) s = Inr s' \<Longrightarrow> served_step me l i s s'"
    and step_message: "call_if_set (messageCallback (cbs me l i)) s = Inr s' \<Longrightarrow> served_step me l i s s'"
    and step_complete: "call_if_set (writeCompleteCallback (cbs me l i)) s = Inr s' \<Longrightarrow> served_step me l i s s'"

lemma closed_step:
  assumes open': "conn_state s = kConnected \<or> conn_state s = kDisconnecting"
    and st: "served_step me l i (s\<lparr>conn_state := kDisconnected\<rparr>) t"
    and cl: "server_close_callback me l i t = Inr u"
  shows "served_step me l i s u"
  unfolding served_step_def
proof (intro impI)
  assume out: "taken_out me l i s"
  then have "taken_out me l i (s\<lparr>conn_state := kDisconnected\<rparr>)" by (simp add: taken_out_def)
  with st have t: "taken_out me l i t" "conn_name t = conn_name s" "conn_channel t = conn_channel s"
    "only_channel (conn_channel s) (poller s) (poller t)" "conn_state t = kDisconnected"
    "tcp_connection.more t = tcp_connection.more s" "pendingFunctors t = pendingFunctors s"
    by (auto simp: served_step_def still_there_def just_closed_def)
  from close_callback_step [OF t(5,1) cl] t open'
  show "taken_out me l i u \<and> conn_name u = conn_name s \<and> conn_channel u = conn_channel s \<and>
      only_channel (conn_channel s) (poller s) (poller u) \<and> (still_there s u \<or> just_closed me l i s u)"
    by (auto simp: same_connection_def just_closed_def)
qed

sublocale server_user \<subseteq> user: connection_user me ok "cbs me l i" for me l i
  by unfold_locales (rule keeps_all, rule revents_all)

sublocale server_user \<subseteq> rel: conn_relation me "served_step me l i" "cbs me l i" for me l i
  by unfold_locales
    (fact step_connection, fact step_message, fact step_complete, simp add: closes, fact closed_step)

text \<open>Programs: each callback makes a list of calls, which may invoke callbacks again, as before.\<close>

record 's server_program =
  prog_connection :: "'s \<Rightarrow> user_call list"
  prog_message :: "'s \<Rightarrow> user_call list"
  prog_complete :: "'s \<Rightarrow> user_call list"

fun program_callbacks :: "'x served server_program \<Rightarrow> nat \<Rightarrow> 'x served_callbacks" where
  "program_callbacks prog 0 me l i =
     \<lparr>connectionCallback = Some (\<lambda>s. Inl StackOverflow), messageCallback = Some (\<lambda>s. Inl StackOverflow),
      writeCompleteCallback = Some (\<lambda>s. Inl StackOverflow),
      connectionClosed = Some (server_close_callback me l i)\<rparr>"
| "program_callbacks prog (Suc n) me l i =
     (let run = (\<lambda>script s. for_each (TcpConnection_call me (program_callbacks prog n me l i)) s
                              (map conn_call_of (script s)))
      in \<lparr>connectionCallback = Some (run (prog_connection prog)), messageCallback = Some (run (prog_message prog)),
          writeCompleteCallback = Some (run (prog_complete prog)),
          connectionClosed = Some (server_close_callback me l i)\<rparr>)"

lemma program_closes [simp]:
  "connectionClosed (program_callbacks prog n me l i) = Some (server_close_callback me l i)"
  by (cases n) (simp_all add: Let_def)

lemma program_keeps: "keeps_conn_callbacks me stack_fault (program_callbacks prog n me l i)"
proof (induction n)
  case 0
  show ?case
    by (simp add: keeps_conn_callbacks_def close_callback_keeps) (simp add: keeps_conn_def stack_fault_def)
next
  case (Suc n)
  have "keeps_conn me stack_fault (\<lambda>s. for_each (TcpConnection_call me (program_callbacks prog n me l i)) s
      (map conn_call_of (script s)))" for script
    by (rule keeps_conn_script) (rule call_keeps [OF Suc.IH])
  then show ?case by (simp add: keeps_conn_callbacks_def close_callback_keeps Let_def)
qed

lemma program_revents: "callbacks_keep_revents (program_callbacks prog n me l i)"
proof (induction n)
  case 0
  show ?case
    by (simp add: callbacks_keep_revents_def close_callback_revents) (simp add: keeps_revents_def)
next
  case (Suc n)
  have "keeps_revents (\<lambda>s. for_each (TcpConnection_call me (program_callbacks prog n me l i)) s
      (map conn_call_of (script s)))" for script
    by (rule revents_script) (rule call_revents [OF Suc.IH])
  then show ?case by (simp add: callbacks_keep_revents_def close_callback_revents Let_def)
qed

lemma program_relation:
  assumes "\<And>s s'. call_if_set (connectionCallback cbs) s = Inr s' \<or> call_if_set (messageCallback cbs) s = Inr s' \<or>
      call_if_set (writeCompleteCallback cbs) s = Inr s' \<Longrightarrow> served_step me l i s s'"
    and "connectionClosed cbs = Some (server_close_callback me l i)"
    and "for_each (TcpConnection_call me cbs) s (map conn_call_of cs) = Inr s'"
  shows "served_step me l i s s'"
proof -
  have "conn_relation me (served_step me l i) cbs"
    by unfold_locales (use assms(1) in blast, use assms(1) in blast, use assms(1) in blast,
      use assms(2) closed_step in simp)
  then show ?thesis by (rule conn_relation.calls_R [OF _ assms(3)]) auto
qed

lemma program_steps:
  "call_if_set (connectionCallback (program_callbacks prog n me l i)) s = Inr s' \<or>
   call_if_set (messageCallback (program_callbacks prog n me l i)) s = Inr s' \<or>
   call_if_set (writeCompleteCallback (program_callbacks prog n me l i)) s = Inr s' \<Longrightarrow> served_step me l i s s'"
proof (induction n arbitrary: s s')
  case (Suc n)
  then show ?case by (auto simp: Let_def intro: program_relation [OF Suc.IH])
qed simp

interpretation programs: server_user stack_fault "program_callbacks prog n" for prog n
proof (unfold_locales, goal_cases)
  case (1 me l i) show ?case by (rule program_closes)
next
  case (2 me l i) show ?case by (rule program_keeps)
next
  case (3 me l i) show ?case by (rule program_revents)
qed (use program_steps in blast)+

end
