(* ===== verification/Server_Life.thy ===== *)
theory Server_Life
  imports Served_Connections
begin

text \<open>
  The life of a server: what its threads do, in any order. Each step is one functor, one event of a
  connection, or one report on the listening descriptor, handled in the thread of its loop; the
  threads share only the queues of the loops, so that a handler is atomic. The invariant
  \<open>server_inv\<close> ties the phase of each connection to the server's map and to the queues.
\<close>

subsection \<open>Steps\<close>

datatype server_label =
    AcceptReady "accept_result list"
  | TakeFunctors nat
  | RunFunctor nat
  | ConnReady nat events
  | ConnPolled nat events
  | UserCall nat user_call
  | Release nat

text \<open>
  The last pointer to a connection goes: the object is deleted, its channel with it, and its
  descriptor is closed.
\<close>

definition TcpConnection_delete :: "nat \<Rightarrow> 'x server_world \<Rightarrow> 'x server_world res" where
  "TcpConnection_delete i w =
     (case objects w i of
        None \<Rightarrow> Inl UseAfterFree
      | Some c \<Rightarrow>
          (let s = loops w (co_loop c); p = poller s
           in map_res (\<lambda>ch. w\<lparr>objects := (objects w)(i := None), loops := (loops w)(co_loop c := s\<lparr>poller :=
                  p\<lparr>channel_heap := (channel_heap p)(co_channel c := None),
                    interest := (interest p)(ch_fd ch := None)\<rparr>\<rparr>)\<rparr>)
                (channel_at p (co_channel c))))"

text \<open>\<open>TakeFunctors\<close> and \<open>RunFunctor\<close> are the steps of \<open>doPendingFunctors\<close>.\<close>

definition take_functors :: "nat \<Rightarrow> 'x server_world \<Rightarrow> 'x server_world" where
  "take_functors l w =
     (let s = loops w l
      in if callingPendingFunctors s \<or> running w l \<noteq> [] then w
         else w\<lparr>loops := (loops w)(l := s\<lparr>callingPendingFunctors := True, pendingFunctors := []\<rparr>),
                running := (running w)(l := pendingFunctors s)\<rparr>)"

definition run_functor_of ::
    "'x served_callbacks \<Rightarrow> nat \<Rightarrow> 'x server_world \<Rightarrow> 'x server_world res" where
  "run_functor_of cbs l w =
     (case running w l of
        [] \<Rightarrow> Inr (w\<lparr>loops := (loops w)(l := (loops w l)\<lparr>callingPendingFunctors := False\<rparr>)\<rparr>)
      | f # fs \<Rightarrow> server_exec cbs (threadId (loops w l)) f (w\<lparr>running := (running w)(l := fs)\<rparr>))"

definition connection_event ::
    "'x served_callbacks \<Rightarrow> nat \<Rightarrow> server_functor conn_event \<Rightarrow> 'x server_world \<Rightarrow> 'x server_world res" where
  "connection_event cbs i ev w =
     on_connection i (\<lambda>s. TcpConnection_event (threadId s)
       (cbs (threadId s) (co_loop (the (objects w i))) i) s ev) w"

fun server_step :: "'x served_callbacks \<Rightarrow> 'x server_world \<Rightarrow> server_label \<Rightarrow> 'x server_world res" where
  "server_step cbs w (AcceptReady rs) =
     (let me = threadId (loops w 0)
      in if listening (acceptor w)
         then Acceptor_handleRead me (Some (TcpServer_newConnection cbs me)) rs w else Inr w)"
| "server_step cbs w (TakeFunctors l) = Inr (take_functors l w)"
| "server_step cbs w (RunFunctor l) = run_functor_of cbs l w"
| "server_step cbs w (ConnReady i r) = connection_event cbs i (Ready r) w"
| "server_step cbs w (ConnPolled i r) = connection_event cbs i (Polled r) w"
| "server_step cbs w (UserCall i c) = connection_event cbs i (Called (conn_call_of c)) w"
| "server_step cbs w (Release i) = TcpConnection_delete i w"

text \<open>
  The functors queued in a loop, and those about connection \<open>i\<close>. A label is sound where the rest of
  the process behaves: the descriptors of accepted connections and the addresses of their channels
  are not in use, a call is made on an object that exists, and an object goes only when neither the
  server's map nor a queued functor points to it. A report that was polled earlier in the turn can be
  dispatched late, after the connection was closed, but not after its channel was removed, since that
  is done by a functor, after the reports of the turn.
\<close>

fun target :: "server_functor \<Rightarrow> nat" where
  "target (ConnectEstablished i) = i"
| "target (ConnectDestroyed i) = i"
| "target (RemoveConnectionInLoop i) = i"

definition queued :: "'x server_world \<Rightarrow> nat \<Rightarrow> server_functor list" where
  "queued w l = running w l @ pendingFunctors (loops w l)"

definition about :: "nat \<Rightarrow> 'x server_world \<Rightarrow> nat \<Rightarrow> server_functor list" where
  "about i w = (\<lambda>l. filter (\<lambda>f. target f = i) (queued w l))"

abbreviation nothing :: "nat \<Rightarrow> server_functor list" where
  "nothing \<equiv> (\<lambda>l. [])"

definition fresh_accept :: "'x server_world \<Rightarrow> accepted \<Rightarrow> bool" where
  "fresh_accept w a \<longleftrightarrow>
     (\<forall>l. channel_heap (poller (loops w l)) (acc_address a) = None \<and>
          (\<forall>b c. channel_heap (poller (loops w l)) b = Some c \<longrightarrow> ch_fd c \<noteq> acc_fd a))"

definition accepted_of :: "accept_result list \<Rightarrow> accepted list" where
  "accepted_of rs = concat (map (\<lambda>r. case r of Accepted a \<Rightarrow> [a] | AcceptErr e \<Rightarrow> []) rs)"

fun sound_label :: "'x server_world \<Rightarrow> server_label \<Rightarrow> bool" where
  "sound_label w (AcceptReady rs) \<longleftrightarrow>
     (\<forall>a \<in> set (accepted_of rs). fresh_accept w a) \<and>
     distinct (map acc_fd (accepted_of rs)) \<and> distinct (map acc_address (accepted_of rs))"
| "sound_label w (ConnReady i r) \<longleftrightarrow> objects w i \<noteq> None \<and> plain_events r"
| "sound_label w (ConnPolled i r) \<longleftrightarrow>
     objects w i \<noteq> None \<and> plain_events r \<and> ch_index (conn_ch (enter i w)) \<noteq> kNew"
| "sound_label w (UserCall i c) \<longleftrightarrow> objects w i \<noteq> None"
| "sound_label w (Release i) \<longleftrightarrow>
     objects w i \<noteq> None \<and> (\<forall>n. connections w n \<noteq> Some i) \<and> about i w = nothing"
| "sound_label w _ \<longleftrightarrow> True"

subsection \<open>The invariant\<close>

definition distinct_fds :: "epoll_poller \<Rightarrow> bool" where
  "distinct_fds p \<longleftrightarrow>
     (\<forall>a b c d. channel_heap p a = Some c \<and> channel_heap p b = Some d \<and> ch_fd c = ch_fd d \<longrightarrow> a = b)"

text \<open>
  The phases of a connection: made but not established; open; closed with its removal queued in
  the server's loop; removed with its destruction queued in its own loop; destroyed.
\<close>

definition in_phase :: "nat \<Rightarrow> 'x connection_object \<Rightarrow> 'x server_world \<Rightarrow> bool" where
  "in_phase i c w \<longleftrightarrow>
     (let known = connections w (co_name c) = Some i
      in case co_state c of
           kConnecting \<Rightarrow> known \<and> about i w = nothing(co_loop c := [ConnectEstablished i])
         | kDisconnected \<Rightarrow>
             known \<and> about i w = nothing(0 := [RemoveConnectionInLoop i]) \<or>
             \<not> known \<and> about i w = nothing(co_loop c := [ConnectDestroyed i]) \<or>
             \<not> known \<and> about i w = nothing \<and> ch_index (conn_ch (enter i w)) = kNew
         | _ \<Rightarrow> known \<and> about i w = nothing)"

text \<open>Where \<open>getNextLoop\<close> puts the \<open>i\<close>-th connection when there are \<open>n\<close> loops.\<close>

definition home_loop :: "nat \<Rightarrow> nat \<Rightarrow> nat" where
  "home_loop n i = (if n = 1 then 0 else 1 + i mod (n - 1))"

definition object_ok :: "nat \<Rightarrow> 'x connection_object \<Rightarrow> 'x server_world \<Rightarrow> bool" where
  "object_ok i c w \<longleftrightarrow>
     i < created w \<and> home_loop (loop_count w) i = co_loop c \<and> co_name c = connection_name (srv_name w) (int i + 1) \<and>
     conn_inv (threadId (loops w (co_loop c))) (enter i w) \<and>
     (co_loop c = 0 \<longrightarrow> co_channel c \<noteq> acc_channel (acceptor w))"

text \<open>The listening channel is in the server's loop, and watched once the server listens.\<close>

definition acceptor_ok :: "'x server_world \<Rightarrow> bool" where
  "acceptor_ok w \<longleftrightarrow>
     (\<exists>c. channel_heap (poller (loops w 0)) (acc_channel (acceptor w)) = Some c \<and>
          (listening (acceptor w) \<longrightarrow> ch_index c = kAdded \<and> ch_events c = kReadEvent))"

definition pool_ok :: "'x server_world \<Rightarrow> bool" where
  "pool_ok w \<longleftrightarrow>
     0 < loop_count w \<and> pool_started (pool w) \<and> pool_loops (pool w) = [1..<loop_count w] \<and>
     pool_next (pool w) = (if loop_count w = 1 then 0 else created w mod (loop_count w - 1))"

definition loops_ok :: "'x server_world \<Rightarrow> bool" where
  "loops_ok w \<longleftrightarrow>
     (\<forall>l. poller_inv (poller (loops w l)) \<and> distinct_fds (poller (loops w l))) \<and>
     inj_on (\<lambda>l. threadId (loops w l)) {..<loop_count w}"

text \<open>Everything but the phases.\<close>

definition server_base :: "'x server_world \<Rightarrow> bool" where
  "server_base w \<longleftrightarrow>
     loops_ok w \<and> pool_ok w \<and> acceptor_ok w \<and> srv_alive w \<and> nextConnId w = int (created w) + 1 \<and>
     (\<forall>i c. objects w i = Some c \<longrightarrow> object_ok i c w) \<and>
     (\<forall>i j c d. objects w i = Some c \<and> objects w j = Some d \<and> i \<noteq> j \<and> co_loop c = co_loop d \<longrightarrow>
        co_channel c \<noteq> co_channel d) \<and>
     (\<forall>n i. connections w n = Some i \<longrightarrow> (\<exists>c. objects w i = Some c \<and> co_name c = n))"

definition phases_but :: "nat set \<Rightarrow> 'x server_world \<Rightarrow> bool" where
  "phases_but I w \<longleftrightarrow>
     (\<forall>i. i \<notin> I \<longrightarrow> (case objects w i of Some c \<Rightarrow> in_phase i c w | None \<Rightarrow> about i w = nothing))"

definition server_inv :: "'x server_world \<Rightarrow> bool" where
  "server_inv w \<longleftrightarrow> server_base w \<and> phases_but {} w"

subsection \<open>When one connection moves\<close>

lemma connection_name_inj:
  assumes "0 \<le> m" and "0 \<le> n" and "connection_name s m = connection_name s n"
  shows "m = n"
proof -
  have "nat_to_string (nat m) = nat_to_string (nat n)" using assms(3) by (simp add: connection_name_def)
  from nat_to_string_inj [OF this] assms(1,2) show ?thesis by simp
qed

lemma distinct_fds_sole_user:
  assumes "poller_inv p" and "distinct_fds p" and "channel_heap p a = Some c"
  shows "sole_user a (ch_fd c) p"
proof -
  have "b = a" if "channels p (ch_fd c) = Some b" for b
  proof -
    from that assms(1) obtain d where "channel_heap p b = Some d" "ch_fd d = ch_fd c"
      by (auto simp: poller_inv_def)
    with assms(2,3) show ?thesis unfolding distinct_fds_def by metis
  qed
  then show ?thesis by (simp add: sole_user_def)
qed

text \<open>The invariant of a connection depends only on its own fields, its channel, and its poller's invariant.\<close>

lemma conn_inv_frame:
  assumes "conn_inv me s" and "threadId s' = me" and "conn_channel s' = conn_channel s"
    and "conn_state s' = conn_state s" and "inputBuffer s' = inputBuffer s" and "outputBuffer s' = outputBuffer s"
    and "wire s' = wire s" and "fin_sent s' = fin_sent s" and "handed_over s' = handed_over s"
    and heap: "channel_heap (poller s') (conn_channel s) = channel_heap (poller s) (conn_channel s)"
    and p: "poller_inv (poller s')" "distinct_fds (poller s')"
  shows "conn_inv me s'"
proof -
  have "channel_heap (poller s) (conn_channel s) = Some (conn_ch s)"
    using assms(1) by (simp add: conn_inv_def conn_pre_def conn_registered_def)
  then have "sole_user (conn_channel s) (ch_fd (conn_ch s)) (poller s')"
    using distinct_fds_sole_user [OF p] heap by simp
  moreover have "conn_ch s' = conn_ch s" using heap assms(3) by (simp add: conn_ch_def)
  ultimately show ?thesis using assms
    by (auto simp: conn_inv_def conn_pre_def conn_registered_def fin_due_def split: ConnState.splits)
qed

lemma only_channel_distinct:
  assumes "only_channel a p p'" and "distinct_fds p"
  shows "distinct_fds p'"
proof -
  have "\<exists>d. channel_heap p b = Some d \<and> ch_fd d = ch_fd c" if "channel_heap p' b = Some c" for b c
    using assms(1) that by (cases "b = a"; cases "channel_heap p a") (auto simp: only_channel_def)
  with assms(2) show ?thesis unfolding distinct_fds_def by metis
qed

text \<open>Connection \<open>i\<close>, and nothing of the world that others rely on, has changed.\<close>

definition moved :: "nat \<Rightarrow> 'x connection_object \<Rightarrow> 'x server_world \<Rightarrow> 'x connection_object \<Rightarrow> 'x server_world \<Rightarrow> bool" where
  "moved i c w c' w' \<longleftrightarrow>
     objects w i = Some c \<and> objects w' = (objects w)(i \<mapsto> c') \<and>
     co_loop c' = co_loop c \<and> co_name c' = co_name c \<and> co_channel c' = co_channel c \<and>
     (\<forall>l. threadId (loops w' l) = threadId (loops w l)) \<and>
     (\<forall>l. l \<noteq> co_loop c \<longrightarrow> poller (loops w' l) = poller (loops w l)) \<and>
     only_channel (co_channel c) (poller (loops w (co_loop c))) (poller (loops w' (co_loop c))) \<and>
     loop_count w' = loop_count w \<and> created w' = created w \<and> srv_alive w' = srv_alive w \<and>
     srv_name w' = srv_name w \<and> nextConnId w' = nextConnId w \<and> pool w' = pool w \<and> acceptor w' = acceptor w"

text \<open>What a channel that does not belong to connection \<open>i\<close> looks like does not change.\<close>

lemma moved_heap:
  assumes "moved i c w c' w'" and "l \<noteq> co_loop c \<or> a \<noteq> co_channel c"
  shows "channel_heap (poller (loops w' l)) a = channel_heap (poller (loops w l)) a"
  using assms by (cases "l = co_loop c") (auto simp: moved_def only_channel_def)

text \<open>Which addresses hold a channel, and of which descriptor.\<close>

definition same_fds :: "'x server_world \<Rightarrow> 'x server_world \<Rightarrow> bool" where
  "same_fds w w' \<longleftrightarrow>
     (\<forall>l a. map_option ch_fd (channel_heap (poller (loops w' l)) a) = map_option ch_fd (channel_heap (poller (loops w l)) a))"

lemma moved_same_fds: "moved i c w c' w' \<Longrightarrow> same_fds w w'"
  unfolding same_fds_def
proof (intro allI)
  fix l a
  assume m: "moved i c w c' w'"
  show "map_option ch_fd (channel_heap (poller (loops w' l)) a) = map_option ch_fd (channel_heap (poller (loops w l)) a)"
  proof (cases "l \<noteq> co_loop c \<or> a \<noteq> co_channel c")
    case False
    with m show ?thesis by (auto simp: moved_def only_channel_def)
  qed (use moved_heap [OF m] in simp)
qed

lemma moved_loops_ok:
  assumes "loops_ok w" and "moved i c w c' w'" and "poller_inv (poller (loops w' (co_loop c)))"
  shows "loops_ok w'"
proof -
  have "poller_inv (poller (loops w' l)) \<and> distinct_fds (poller (loops w' l))" for l
    using assms only_channel_distinct
    by (cases "l = co_loop c") (auto simp: loops_ok_def moved_def)
  with assms(1,2) show ?thesis by (simp add: loops_ok_def moved_def)
qed

text \<open>A connection whose channel and surroundings have not changed.\<close>

lemma object_frame:
  assumes ok: "object_ok j d w" and o: "objects w j = Some d" "objects w' j = Some d"
    and heap: "channel_heap (poller (loops w' (co_loop d))) (co_channel d) =
               channel_heap (poller (loops w (co_loop d))) (co_channel d)"
    and w': "loops_ok w'" "threadId (loops w' (co_loop d)) = threadId (loops w (co_loop d))"
      "loop_count w' = loop_count w" "srv_name w' = srv_name w" "acceptor w' = acceptor w" "created w \<le> created w'"
  shows "object_ok j d w'" and "conn_ch (enter j w') = conn_ch (enter j w)"
proof -
  show "conn_ch (enter j w') = conn_ch (enter j w)" using o heap by (simp add: conn_ch_def)
  have "conn_inv (threadId (loops w (co_loop d))) (enter j w')"
    by (rule conn_inv_frame [where s = "enter j w"])
      (use ok o heap w' in \<open>auto simp: object_ok_def loops_ok_def\<close>)
  with ok w' show "object_ok j d w'" by (simp add: object_ok_def)
qed

lemma in_phase_frame:
  assumes "in_phase j d w" and "about j w' = about j w" and "conn_ch (enter j w') = conn_ch (enter j w)"
    and "connections w' (co_name d) = connections w (co_name d)"
  shows "in_phase j d w'"
  using assms by (cases "co_state d") (simp_all add: in_phase_def Let_def)

lemma moved_object:
  assumes "server_base w" and m: "moved i c w c' w'" and "loops_ok w'"
    and d: "objects w j = Some d" "j \<noteq> i"
  shows "object_ok j d w'" and "conn_ch (enter j w') = conn_ch (enter j w)"
proof -
  have ok: "object_ok j d w" using assms(1) d by (auto simp: server_base_def)
  have "co_loop d \<noteq> co_loop c \<or> co_channel d \<noteq> co_channel c"
    using assms(1) m d unfolding server_base_def moved_def by metis
  note heap = moved_heap [OF m this]
  from object_frame [OF ok d(1) _ heap \<open>loops_ok w'\<close>] m d
  show "object_ok j d w'" "conn_ch (enter j w') = conn_ch (enter j w)" by (simp_all add: moved_def)
qed

lemma moved_base:
  assumes base: "server_base w" and m: "moved i c w c' w'"
    and inv: "conn_inv (threadId (loops w (co_loop c))) (enter i w')"
    and conns: "\<And>n j. connections w' n = Some j \<Longrightarrow> connections w n = Some j"
  shows "server_base w'"
proof -
  have o: "objects w' i = Some c'" "co_loop c' = co_loop c" "objects w i = Some c" using m by (auto simp: moved_def)
  with inv have "poller_inv (poller (loops w' (co_loop c)))" by (simp add: conn_inv_def conn_pre_def)
  then have ok: "loops_ok w'" using moved_loops_ok [OF _ m] base by (simp add: server_base_def)
  have c: "object_ok i c w" using base o(3) by (simp add: server_base_def)
  have "object_ok j d w'" if "objects w' j = Some d" for j d
  proof (cases "j = i")
    case True
    with that o c inv m show ?thesis by (simp add: object_ok_def moved_def)
  next
    case False
    with that m have "objects w j = Some d" by (simp add: moved_def)
    from moved_object(1) [OF base m ok this False] show ?thesis .
  qed
  moreover have "acceptor_ok w'"
  proof -
    have "channel_heap (poller (loops w' 0)) (acc_channel (acceptor w)) =
          channel_heap (poller (loops w 0)) (acc_channel (acceptor w))"
      by (rule moved_heap [OF m]) (use c in \<open>auto simp: object_ok_def\<close>)
    with base m show ?thesis by (simp add: acceptor_ok_def server_base_def moved_def)
  qed
  moreover have "co_channel d \<noteq> co_channel e"
    if "objects w' j = Some d" "objects w' k = Some e" "j \<noteq> k" "co_loop d = co_loop e" for j k d e
  proof -
    have "\<exists>d'. objects w j = Some d' \<and> co_loop d' = co_loop d \<and> co_channel d' = co_channel d"
      "\<exists>e'. objects w k = Some e' \<and> co_loop e' = co_loop e \<and> co_channel e' = co_channel e"
      using that m by (auto simp: moved_def split: if_splits)
    with base that(3,4) show ?thesis unfolding server_base_def by metis
  qed
  moreover have "\<exists>d. objects w' j = Some d \<and> co_name d = n" if "connections w' n = Some j" for n j
    using base conns [OF that] m by (fastforce simp: server_base_def moved_def)
  moreover have "pool_ok w'" "srv_alive w'" "nextConnId w' = int (created w') + 1"
    using base m by (simp_all add: server_base_def moved_def pool_ok_def)
  ultimately show ?thesis using ok unfolding server_base_def by blast
qed

lemma moved_phases:
  assumes base: "server_base w" and m: "moved i c w c' w'" and ph: "phases_but {i} w"
    and inv: "conn_inv (threadId (loops w (co_loop c))) (enter i w')"
    and conns: "connections w' = connections w \<or> connections w' = (connections w)(co_name c := None)"
    and ab: "\<And>j. j \<noteq> i \<Longrightarrow> about j w' = about j w"
  shows "phases_but {i} w'"
  unfolding phases_but_def
proof (intro allI impI)
  fix j
  assume "j \<notin> {i}"
  then have ji: "j \<noteq> i" by simp
  then have o: "objects w' j = objects w j" using m by (simp add: moved_def)
  show "case objects w' j of Some d \<Rightarrow> in_phase j d w' | None \<Rightarrow> about j w' = nothing"
  proof (cases "objects w j")
    case None
    with ph [unfolded phases_but_def, rule_format, of j] ji o ab [OF ji] show ?thesis by simp
  next
    case (Some d)
    have ok: "loops_ok w'"
      using moved_loops_ok [OF _ m] base inv m by (auto simp: server_base_def moved_def conn_inv_def conn_pre_def)
    note ch = moved_object(2) [OF base m ok Some ji]
    have "object_ok j d w" "object_ok i c w" using base Some m by (auto simp: server_base_def moved_def)
    then have "co_name d \<noteq> co_name c"
      using ji connection_name_inj [of "int j + 1" "int i + 1"] by (auto simp: object_ok_def)
    with conns have "connections w' (co_name d) = connections w (co_name d)" by auto
    with ph [unfolded phases_but_def, rule_format, of j] ji o Some in_phase_frame [OF _ ab [OF ji] ch] show ?thesis
      by simp
  qed
qed

subsection \<open>Operations of a connection in the world\<close>

lemma object_loop:
  assumes "server_base w" and "objects w i = Some c"
  shows "co_loop c < loop_count w"
proof -
  have l: "0 < loop_count w" "co_loop c = (if loop_count w = 1 then 0 else 1 + i mod (loop_count w - 1))"
    using assms by (auto simp: server_base_def object_ok_def pool_ok_def home_loop_def)
  show ?thesis
  proof (cases "loop_count w = 1")
    case False
    with l(1) have "i mod (loop_count w - 1) < loop_count w - 1" by (intro mod_less_divisor) simp
    with l(2) False show ?thesis by simp
  qed (use l in simp)
qed

lemma server_base_channels:
  "server_base w \<Longrightarrow> objects w i = Some c \<Longrightarrow> objects w j = Some d \<Longrightarrow> i \<noteq> j \<Longrightarrow> co_loop c = co_loop d \<Longrightarrow>
   co_channel c \<noteq> co_channel d"
  unfolding server_base_def by blast

lemma object_conn_inv:
  "server_base w \<Longrightarrow> objects w i = Some c \<Longrightarrow> conn_inv (threadId (loops w (co_loop c))) (enter i w)"
  by (simp add: server_base_def object_ok_def)

lemma taken_out_enter:
  assumes "server_base w" and "objects w i = Some c"
  shows "taken_out (threadId (loops w (co_loop c))) (co_loop c) i (enter i w)"
proof -
  have "co_loop c < loop_count w" "inj_on (\<lambda>l. threadId (loops w l)) {..<loop_count w}"
    using assms object_loop by (auto simp: server_base_def loops_ok_def)
  then have "threadId (loops w 0) \<noteq> threadId (loops w (co_loop c))" if "co_loop c \<noteq> 0"
    using that by (auto dest: inj_onD)
  with assms(2) show ?thesis by (simp add: taken_out_def)
qed

lemma about_other: "(\<And>l. filter (\<lambda>f. target f = j) (queued w' l) = filter (\<lambda>f. target f = j) (queued w l)) \<Longrightarrow>
    about j w' = about j w"
  by (simp add: about_def)

lemma operated:
  assumes base: "server_base w" and o: "objects w i = Some c"
    and st: "served_step (threadId (loops w (co_loop c))) (co_loop c) i (enter i w) s'"
    and inv: "conn_inv (threadId (loops w (co_loop c))) s'"
  obtains c' where "moved i c w c' (leave (co_loop c) i s')" and "co_state c' = conn_state s'"
    and "enter i (leave (co_loop c) i s') = s'" and "running (leave (co_loop c) i s') = running w"
    and "\<And>j. j \<noteq> i \<Longrightarrow> about j (leave (co_loop c) i s') = about j w"
    and "(conn_state s' = kDisconnected \<longleftrightarrow> co_state c = kDisconnected) \<and>
           connections (leave (co_loop c) i s') = connections w \<and> about i (leave (co_loop c) i s') = about i w \<or>
         co_state c \<noteq> kDisconnected \<and> conn_state s' = kDisconnected \<and>
           (if co_loop c = 0 then
              connections (leave (co_loop c) i s') = (connections w)(co_name c := None) \<and>
              about i (leave (co_loop c) i s') = (about i w)(0 := about i w 0 @ [ConnectDestroyed i])
            else
              connections (leave (co_loop c) i s') = connections w \<and>
              about i (leave (co_loop c) i s') = (about i w)(0 := about i w 0 @ [RemoveConnectionInLoop i]))"
    and "\<And>l. queued (leave (co_loop c) i s') l = queued w l @
           (if l = 0 \<and> conn_state s' = kDisconnected \<and> co_state c \<noteq> kDisconnected
            then [if co_loop c = 0 then ConnectDestroyed i else RemoveConnectionInLoop i] else [])"
proof -
  let ?l = "co_loop c"
  let ?me = "threadId (loops w ?l)"
  let ?s = "enter i w"
  let ?w = "leave ?l i s'"
  have s': "taken_out ?me ?l i s'" "conn_name s' = co_name c" "conn_channel s' = co_channel c"
    "only_channel (co_channel c) (poller (loops w ?l)) (poller s')" "still_there ?s s' \<or> just_closed ?me ?l i ?s s'"
    using st taken_out_enter [OF base o] o by (auto simp: served_step_def)
  have more: "tcp_connection.more ?s = w\<lparr>loops := (loops w)(?l := vacant_loop), objects := (objects w)(i := None)\<rparr>"
    using o by simp
  have tid: "threadId s' = ?me" using s'(1) by (simp add: taken_out_def)
  let ?rest = "tcp_connection.more s'"
  have rest: "loop_count ?rest = loop_count w" "created ?rest = created w" "srv_alive ?rest = srv_alive w"
    "srv_name ?rest = srv_name w" "nextConnId ?rest = nextConnId w" "pool ?rest = pool w"
    "acceptor ?rest = acceptor w" "running ?rest = running w" "objects ?rest = (objects w)(i := None)"
    "\<And>l. l \<noteq> ?l \<Longrightarrow> threadId (loops ?rest l) = threadId (loops w l) \<and> poller (loops ?rest l) = poller (loops w l)"
    using s'(5) more by (auto simp: still_there_def just_closed_def queue_in_def split: if_splits)
  have "moved i c w (the (objects ?w i)) ?w"
  proof -
    have "threadId (loops ?w l) = threadId (loops w l)" for l
      using rest(10) [of l] tid by (cases "l = ?l") simp_all
    moreover have "objects ?w = (objects w)(i \<mapsto> the (objects ?w i))"
      using rest(9) by (auto simp: fun_eq_iff)
    ultimately show ?thesis using o s'(2-4) rest by (simp add: moved_def)
  qed
  moreover have "co_state (the (objects ?w i)) = conn_state s'" by simp
  moreover have "enter i ?w = s'" by (rule enter_leave [OF s'(1)])
  moreover have "running ?w = running w" using rest(8) by simp
  moreover
  have pend: "pendingFunctors (loops ?w l) = pendingFunctors (loops w l) @
      (if still_there ?s s' \<or> l \<noteq> 0 then [] else if ?l = 0 then [ConnectDestroyed i] else [RemoveConnectionInLoop i])"
    if "still_there ?s s' \<or> \<not> still_there ?s s' \<and> just_closed ?me ?l i ?s s'" for l
  proof (cases "l = ?l")
    case True
    with that o show ?thesis by (auto simp: still_there_def just_closed_def split: if_splits)
  next
    case False
    with that o more show ?thesis by (auto simp: still_there_def just_closed_def queue_in_def split: if_splits)
  qed
  have que: "queued ?w l = queued w l @
      (if still_there ?s s' \<or> l \<noteq> 0 then [] else if ?l = 0 then [ConnectDestroyed i] else [RemoveConnectionInLoop i])" for l
    using pend [of l] rest(8) s'(5) by (auto simp: queued_def)
  then have "about j ?w = about j w" if "j \<noteq> i" for j
    using that by (auto simp: about_def fun_eq_iff)
  moreover have "(conn_state s' = kDisconnected \<longleftrightarrow> co_state c = kDisconnected) \<and>
           connections ?w = connections w \<and> about i ?w = about i w \<or>
         co_state c \<noteq> kDisconnected \<and> conn_state s' = kDisconnected \<and>
           (if ?l = 0 then
              connections ?w = (connections w)(co_name c := None) \<and>
              about i ?w = (about i w)(0 := about i w 0 @ [ConnectDestroyed i])
            else
              connections ?w = connections w \<and>
              about i ?w = (about i w)(0 := about i w 0 @ [RemoveConnectionInLoop i]))"
  proof (cases "still_there ?s s'")
    case True
    with que o more show ?thesis by (auto simp: still_there_def about_def fun_eq_iff)
  next
    case False
    with s'(5) have "just_closed ?me ?l i ?s s'" by simp
    with False que o more show ?thesis
      by (auto simp: just_closed_def about_def fun_eq_iff split: if_splits)
  qed
  moreover have "still_there ?s s' \<longleftrightarrow> \<not> (conn_state s' = kDisconnected \<and> co_state c \<noteq> kDisconnected)"
    using s'(5) o by (auto simp: still_there_def just_closed_def)
  then have "queued ?w l = queued w l @
      (if l = 0 \<and> conn_state s' = kDisconnected \<and> co_state c \<noteq> kDisconnected
       then [if ?l = 0 then ConnectDestroyed i else RemoveConnectionInLoop i] else [])" for l
    using que [of l] by auto
  ultimately show ?thesis by (rule that)
qed

lemma operated_queue:
  assumes "server_base w" and "objects w i = Some c"
    and "served_step (threadId (loops w (co_loop c))) (co_loop c) i (enter i w) s'"
    and "conn_inv (threadId (loops w (co_loop c))) s'"
  defines "w' \<equiv> leave (co_loop c) i s'"
  shows "\<exists>c'. moved i c w c' w'"
    and "queued w' l = queued w l @
           (if l = 0 \<and> conn_state s' = kDisconnected \<and> co_state c \<noteq> kDisconnected
            then [if co_loop c = 0 then ConnectDestroyed i else RemoveConnectionInLoop i] else [])"
proof -
  show "\<exists>c'. moved i c w c' w'"
    unfolding w'_def by (rule operated [OF assms(1-4)], rule exI, assumption)
  show "queued w' l = queued w l @
           (if l = 0 \<and> conn_state s' = kDisconnected \<and> co_state c \<noteq> kDisconnected
            then [if co_loop c = 0 then ConnectDestroyed i else RemoveConnectionInLoop i] else [])"
    unfolding w'_def by (rule operated [OF assms(1-4)], simp only:)
qed

lemma phases_all:
  assumes "phases_but {i} w" and "objects w i = Some c" and "in_phase i c w"
  shows "phases_but {} w"
  unfolding phases_but_def
proof (intro allI impI)
  fix j
  show "case objects w j of Some d \<Rightarrow> in_phase j d w | None \<Rightarrow> about j w = nothing"
    using assms(1) [unfolded phases_but_def, rule_format, of j] assms(2,3) by (cases "j = i") simp_all
qed

lemma phases_less: "phases_but {} w \<Longrightarrow> phases_but I w"
  by (simp add: phases_but_def)

lemma in_phaseD: "server_inv w \<Longrightarrow> objects w i = Some c \<Longrightarrow> in_phase i c w"
  by (auto simp: server_inv_def phases_but_def dest!: spec [of _ i])

text \<open>A connection that had no functor queued and was known, and that is not closed or has just closed.\<close>

lemma operated_inv:
  assumes base: "server_base w" and ph: "phases_but {i} w" and o: "objects w i = Some c"
    and st: "served_step (threadId (loops w (co_loop c))) (co_loop c) i (enter i w) s'"
    and inv: "conn_inv (threadId (loops w (co_loop c))) s'"
    and known: "connections w (co_name c) = Some i" "about i w = nothing" "co_state c \<noteq> kDisconnected"
    and s': "conn_state s' \<noteq> kConnecting"
  shows "server_inv (leave (co_loop c) i s')"
proof -
  let ?w = "leave (co_loop c) i s'"
  obtain c' where c': "moved i c w c' ?w" "co_state c' = conn_state s'" "enter i ?w = s'"
    "\<And>j. j \<noteq> i \<Longrightarrow> about j ?w = about j w"
    and cl: "(conn_state s' = kDisconnected \<longleftrightarrow> co_state c = kDisconnected) \<and>
           connections ?w = connections w \<and> about i ?w = about i w \<or>
         co_state c \<noteq> kDisconnected \<and> conn_state s' = kDisconnected \<and>
           (if co_loop c = 0 then
              connections ?w = (connections w)(co_name c := None) \<and>
              about i ?w = (about i w)(0 := about i w 0 @ [ConnectDestroyed i])
            else
              connections ?w = connections w \<and>
              about i ?w = (about i w)(0 := about i w 0 @ [RemoveConnectionInLoop i]))"
    by (rule operated [OF base o st inv]) blast
  have conns: "connections ?w = connections w \<or> connections ?w = (connections w)(co_name c := None)"
    using cl by (auto split: if_splits)
  have "server_base ?w"
    by (rule moved_base [OF base c'(1)])
      (use inv c'(3) conns in \<open>auto split: if_splits\<close>)
  moreover have "phases_but {i} ?w"
    by (rule moved_phases [OF base c'(1) ph _ conns c'(4)]) (use inv c'(3) in simp_all)
  moreover have "in_phase i c' ?w"
    using cl known c'(1,2) s' by (cases "conn_state s'") (auto simp: in_phase_def moved_def fun_eq_iff split: if_splits)
  moreover have "objects ?w i = Some c'" using c'(1) by (simp add: moved_def)
  ultimately show ?thesis unfolding server_inv_def using phases_all by blast
qed

text \<open>A connection whose state and surroundings stay as they are.\<close>

lemma operated_same:
  assumes inv: "server_inv w" and o: "objects w i = Some c"
    and st: "served_step (threadId (loops w (co_loop c))) (co_loop c) i (enter i w) s'"
    and s': "conn_inv (threadId (loops w (co_loop c))) s'" "conn_state s' = co_state c"
      "ch_index (conn_ch (enter i w)) = kNew \<Longrightarrow> ch_index (conn_ch s') = kNew"
  shows "server_inv (leave (co_loop c) i s')"
proof -
  let ?w = "leave (co_loop c) i s'"
  have base: "server_base w" and ph: "phases_but {i} w" using inv phases_less by (auto simp: server_inv_def)
  obtain c' where c': "moved i c w c' ?w" "co_state c' = conn_state s'" "enter i ?w = s'"
    "\<And>j. j \<noteq> i \<Longrightarrow> about j ?w = about j w" "connections ?w = connections w" "about i ?w = about i w"
    by (rule operated [OF base o st s'(1)]) (use s'(2) in auto)
  have "server_base ?w" by (rule moved_base [OF base c'(1)]) (use s'(1) c'(3,5) in auto)
  moreover have "phases_but {i} ?w"
    by (rule moved_phases [OF base c'(1) ph _ disjI1 c'(4)]) (use s'(1) c'(3,5) in simp_all)
  moreover have "in_phase i c' ?w"
    using in_phaseD [OF inv o] c'(1-3,5,6) s'(2,3)
    by (cases "co_state c") (auto simp: in_phase_def moved_def Let_def)
  moreover have "objects ?w i = Some c'" using c'(1) by (simp add: moved_def)
  ultimately show ?thesis unfolding server_inv_def using phases_all by blast
qed

text \<open>Changes of the world that leave its connections and pollers alone.\<close>

definition same_objects :: "'x server_world \<Rightarrow> 'x server_world \<Rightarrow> bool" where
  "same_objects w w' \<longleftrightarrow>
     objects w' = objects w \<and> (\<forall>l. threadId (loops w' l) = threadId (loops w l) \<and> poller (loops w' l) = poller (loops w l)) \<and>
     loop_count w' = loop_count w \<and> created w' = created w \<and> srv_alive w' = srv_alive w \<and>
     srv_name w' = srv_name w \<and> nextConnId w' = nextConnId w \<and> pool w' = pool w \<and> acceptor w' = acceptor w"

lemma same_objects_conn:
  assumes "same_objects w w'" and "conn_inv me (enter i w)" and "loops_ok w"
  shows "conn_inv me (enter i w')" and "conn_ch (enter i w') = conn_ch (enter i w)"
  using assms(1) conn_inv_frame [OF assms(2), of "enter i w'"] assms(2,3)
  by (auto simp: same_objects_def loops_ok_def conn_ch_def conn_inv_def conn_pre_def)

lemma same_objects_base:
  assumes "same_objects w w'" and "server_base w" and "\<And>n j. connections w' n = Some j \<Longrightarrow> connections w n = Some j"
  shows "server_base w'"
proof -
  have "loops_ok w'" "acceptor_ok w'" "pool_ok w'"
    using assms by (auto simp: server_base_def same_objects_def loops_ok_def acceptor_ok_def pool_ok_def)
  moreover have "object_ok i c w'" if "objects w' i = Some c" for i c
  proof -
    have ok: "object_ok i c w" using that assms(1,2) by (simp add: server_base_def same_objects_def)
    then have "conn_inv (threadId (loops w (co_loop c))) (enter i w)" "loops_ok w"
      using assms(2) by (auto simp: object_ok_def server_base_def)
    note same_objects_conn(1) [OF assms(1) this]
    with ok assms(1) show ?thesis by (simp add: object_ok_def same_objects_def)
  qed
  moreover have "\<exists>c. objects w' i = Some c \<and> co_name c = n" if "connections w' n = Some i" for n i
    using assms(1,2) assms(3) [OF that] by (simp add: server_base_def same_objects_def)
  moreover have "srv_alive w'" "nextConnId w' = int (created w') + 1"
    using assms(1,2) by (simp_all add: server_base_def same_objects_def)
  moreover have "\<forall>i j c d. objects w' i = Some c \<and> objects w' j = Some d \<and> i \<noteq> j \<and> co_loop c = co_loop d \<longrightarrow>
        co_channel c \<noteq> co_channel d"
    using assms(1) server_base_channels [OF assms(2)] by (simp add: same_objects_def) blast
  ultimately show ?thesis unfolding server_base_def by blast
qed

lemma same_objects_phases:
  assumes same: "same_objects w w'" and base: "server_base w" and ph: "phases_but I w" and "I \<subseteq> J"
    and ab: "\<And>j. j \<notin> J \<Longrightarrow> about j w' = about j w"
    and conns: "\<And>j d. j \<notin> J \<Longrightarrow> objects w j = Some d \<Longrightarrow> connections w' (co_name d) = connections w (co_name d)"
  shows "phases_but J w'"
  unfolding phases_but_def
proof (intro allI impI)
  fix j
  assume j: "j \<notin> J"
  have o: "objects w' j = objects w j" using same by (simp add: same_objects_def)
  have old: "case objects w j of Some d \<Rightarrow> in_phase j d w | None \<Rightarrow> about j w = nothing"
    using ph j \<open>I \<subseteq> J\<close> by (auto simp: phases_but_def)
  show "case objects w' j of Some d \<Rightarrow> in_phase j d w' | None \<Rightarrow> about j w' = nothing"
  proof (cases "objects w j")
    case None
    with old o ab [OF j] show ?thesis by simp
  next
    case (Some d)
    then have "conn_inv (threadId (loops w (co_loop d))) (enter j w)" "loops_ok w"
      using base object_conn_inv by (simp_all add: server_base_def)
    note ch = same_objects_conn(2) [OF same this]
    from old o Some in_phase_frame [OF _ ab [OF j] ch conns [OF j Some]] show ?thesis by simp
  qed
qed

lemma same_objects_inv:
  assumes "same_objects w w'" and "server_inv w" and "connections w' = connections w"
    and "\<And>l. queued w' l = queued w l"
  shows "server_inv w'"
  using same_objects_base [OF assms(1)] same_objects_phases [OF assms(1), of "{}" "{}"] assms(2-4)
  by (simp add: server_inv_def about_def)

lemma take_functors_inv: "server_inv w \<Longrightarrow> server_inv (take_functors l w)"
  by (rule same_objects_inv [of w]) (auto simp: take_functors_def Let_def same_objects_def queued_def)

subsection \<open>Events of a connection\<close>

lemma calls_not_open:
  assumes "\<not> conn_open s"
  shows "TcpConnection_send me f data s = Inr s" "TcpConnection_shutdown me s = Inr s"
    "TcpConnection_forceClose me cbs s = Inr s"
  using assms by (simp_all add: TcpConnection_send_def TcpConnection_shutdown_def TcpConnection_forceClose_def conn_open_def)

lemma event_not_open:
  assumes "conn_inv me s" and "\<not> conn_open s" and "TcpConnection_event me cbs s ev = Inr s'"
    and "\<And>f. ev \<noteq> Called (Enqueue f)" and "\<And>r. ev \<noteq> Polled r"
  obtains b where "s' = s\<lparr>inputBuffer := b\<rparr>"
proof (cases ev)
  case (Ready r)
  with assms conn_open_interest [OF assms(1)] have "s' = s\<lparr>inputBuffer := inputBuffer s\<rparr>" by simp
  then show ?thesis by (rule that)
next
  case (Polled r)
  with assms(5) show ?thesis by blast
next
  case (Called c)
  have "(\<exists>n. c = TakeInput n) \<or> s' = s\<lparr>inputBuffer := inputBuffer s\<rparr>"
    using assms(3) assms(4) [of "case c of Enqueue f \<Rightarrow> f"] calls_not_open [OF assms(2)]
    unfolding Called by (cases c) simp_all
  then have "\<exists>b. s' = s\<lparr>inputBuffer := b\<rparr>" using assms(3) unfolding Called by fastforce
  then show ?thesis using that by blast
qed

lemma setRevents_step:
  assumes "Channel_setRevents (conn_channel s) r (poller s) = Inr p"
  shows "served_step me l i s (s\<lparr>poller := p\<rparr>)"
  using assms
  by (auto simp: served_step_def taken_out_def still_there_def Channel_setRevents_def channel_at_def
      only_channel_def put_channel_def returned split: option.splits)

context server_user
begin

lemma event_step:
  assumes "TcpConnection_event me (cbs me l i) s ev = Inr s'" and "\<And>f. ev \<noteq> Called (Enqueue f)"
  shows "served_step me l i s s'"
proof (cases ev)
  case (Called c)
  then show ?thesis using assms by (intro rel.call_R [of me l i s c]) auto
next
  case (Polled r)
  with assms(1) obtain p where "Channel_setRevents (conn_channel s) r (poller s) = Inr p"
    "TcpConnection_dispatch me (cbs me l i) (s\<lparr>poller := p\<rparr>) = Inr s'" by (auto simp: returned)
  then show ?thesis using rel.dispatch_R setRevents_step served_step_trans by blast
next
  case (Ready r)
  show ?thesis
  proof (cases "interest (poller s) (ch_fd (conn_ch s)) = None")
    case True
    with assms(1) Ready show ?thesis by (simp add: served.R_refl)
  next
    case False
    with assms(1) Ready obtain p where "Channel_setRevents (conn_channel s) r (poller s) = Inr p"
      "TcpConnection_dispatch me (cbs me l i) (s\<lparr>poller := p\<rparr>) = Inr s'" by (auto simp: returned)
    then show ?thesis using rel.dispatch_R setRevents_step served_step_trans by blast
  qed
qed

text \<open>
  An event of a connection keeps the invariant. It fails only where the user's callbacks do, or when
  it is a report that is dispatched after the connection has closed.
\<close>

lemma event_outcome:
  assumes ci: "conn_inv me s" and plain: "\<And>r. ev = Ready r \<Longrightarrow> plain_events r"
    and late: "\<And>r. ev = Polled r \<Longrightarrow> plain_events r"
  shows "case TcpConnection_event me (cbs me l i) s ev of
           Inl x \<Rightarrow> ok (conn_context s) x \<or> (\<exists>r. ev = Polled r) \<and> \<not> conn_open s \<and> x = AssertionFailed
         | Inr s' \<Rightarrow> conn_inv me s' \<and> state_rank (conn_state s) \<le> state_rank (conn_state s')"
proof (cases "\<exists>r. ev = Polled r \<and> \<not> conn_open s")
  case True
  then obtain r where r: "ev = Polled r" "\<not> conn_open s" by blast
  from user.late_report_ok [OF ci, of l i r] r show ?thesis
    by (auto simp: conn_result_def conn_next_def or_assertion_def split: sum.splits simp del: TcpConnection_event.simps)
next
  case False
  have "conn_result me ok s (TcpConnection_event me (cbs me l i) s ev)"
    by (rule user.event_ok [OF ci plain]) (use False late in auto)
  then show ?thesis by (auto simp: conn_result_def conn_next_def split: sum.splits)
qed

lemma connection_event_inv:
  assumes inv: "server_inv w" and o: "objects w i = Some c"
    and plain: "\<And>r. ev = Ready r \<Longrightarrow> plain_events r" and enq: "\<And>f. ev \<noteq> Called (Enqueue f)"
    and late: "\<And>r. ev = Polled r \<Longrightarrow> plain_events r \<and> ch_index (conn_ch (enter i w)) \<noteq> kNew"
  shows "case connection_event cbs i ev w of
      Inl x \<Rightarrow> ok (co_context c) x \<or> (\<exists>r. ev = Polled r) \<and> co_state c = kDisconnected \<and> x = AssertionFailed
    | Inr w' \<Rightarrow> server_inv w'"
proof -
  let ?l = "co_loop c"
  let ?me = "threadId (loops w ?l)"
  let ?s = "enter i w"
  have base: "server_base w" using inv by (simp add: server_inv_def)
  note ci = object_conn_inv [OF base o]
  have run: "connection_event cbs i ev w =
      map_res (leave ?l i) (TcpConnection_event ?me (cbs ?me ?l i) ?s ev)"
    using o by (simp add: connection_event_def on_connection_def)
  note res = event_outcome [OF ci plain, of ev ?l i] late
  have down: "co_state c = kDisconnected" if "ev = Polled r" "\<not> conn_open ?s" for r
    using ci that(2) late [OF that(1)] o
    by (cases "co_state c") (auto simp: conn_open_def conn_inv_def conn_pre_def conn_registered_def)
  show ?thesis
  proof (cases "TcpConnection_event ?me (cbs ?me ?l i) ?s ev")
    case (Inl x)
    with res run o down show ?thesis by auto
  next
    case (Inr s')
    note st = event_step [OF Inr enq]
    have s': "conn_inv ?me s'" "state_rank (conn_state ?s) \<le> state_rank (conn_state s')"
      using res Inr by auto
    have "server_inv (leave ?l i s')"
    proof (cases "conn_open ?s")
      case True
      then have open': "co_state c = kConnected \<or> co_state c = kDisconnecting" using o by (simp add: conn_open_def)
      then have "connections w (co_name c) = Some i" "about i w = nothing"
        using in_phaseD [OF inv o] by (auto simp: in_phase_def)
      moreover have "conn_state s' \<noteq> kConnecting" using s'(2) open' o by auto
      moreover have "phases_but {i} w" using inv by (auto simp: server_inv_def intro: phases_less)
      ultimately show ?thesis using operated_inv [OF base _ o st s'(1)] open' by auto
    next
      case closed: False
      show ?thesis
      proof (cases "\<exists>r. ev = Polled r")
        case True
        then obtain r where r: "ev = Polled r" by blast
        have "state_rank kDisconnected \<le> state_rank (conn_state s')" using s'(2) down [OF r closed] o by simp
        then have "conn_state s' = co_state c" using down [OF r closed] by (simp only: rank_disconnected)
        then show ?thesis by (rule operated_same [OF inv o st s'(1)]) (use late [OF r] in simp)
      next
        case False
        obtain b where "s' = ?s\<lparr>inputBuffer := b\<rparr>" by (rule event_not_open [OF ci closed Inr enq]) (use False in auto)
        then have "conn_state s' = co_state c" "conn_ch s' = conn_ch ?s" using o by simp_all
        then show ?thesis by (intro operated_same [OF inv o st s'(1)]) simp_all
      qed
    qed
    with Inr run show ?thesis by simp
  qed
qed

end

end
