(* ===== verification/Server_Steps.thy ===== *)
theory Server_Steps
  imports Server_Life
begin

text \<open>
  Every step of a server's threads keeps the invariant \<open>server_inv\<close>: the functors of a loop, deleting a
  connection, and the accept loop with \<open>newConnection\<close>.
\<close>

subsection \<open>Functors\<close>

lemma destroyed_state:
  assumes inv: "conn_inv me s" and st: "conn_state s = kDisconnected"
  obtains s' where "TcpConnection_connectDestroyed me cbs s = Inr s'" and "conn_inv me s'"
    and "conn_state s' = kDisconnected" and "ch_index (conn_ch s') = kNew" and "served_step me l i s s'"
proof -
  let ?c = "conn_ch s"
  let ?a = "conn_channel s"
  have c: "poller_inv (poller s)" "channel_heap (poller s) ?a = Some ?c" "sole_user ?a (ch_fd ?c) (poller s)"
    "threadId s = me" "ch_events ?c = kNoneEvent"
    using inv st by (auto simp: conn_inv_def conn_pre_def conn_registered_def)
  let ?s = "s\<lparr>poller := removed ?a ?c (poller s)\<rparr>"
  have run: "TcpConnection_connectDestroyed me cbs s = Inr ?s"
    using c(4) st removeChannel_eq [OF c(1-3)]
    by (simp add: TcpConnection_connectDestroyed_def EventLoop_removeChannel_def
        EventLoop_assertInLoopThread_def EventLoop_isInLoopThread_def)
  have ch: "conn_ch ?s = ?c\<lparr>ch_index := kNew\<rparr>" by (simp add: conn_ch_def removed_def)
  have "sole_user ?a (ch_fd ?c) (removed ?a ?c (poller s))" by (simp add: sole_user_def removed_def)
  then have "conn_inv me ?s"
    using inv st removed_inv [OF c(1-3)] ch c(5)
    by (simp add: conn_inv_def conn_pre_def conn_registered_def fin_due_def removed_def)
  moreover have "served_step me l i s ?s"
    using c(2) by (simp add: served_step_def taken_out_def still_there_def only_channel_def removed_def)
  ultimately show ?thesis using run st ch by (intro that [of ?s]) simp_all
qed

text \<open>What is known when a functor is taken from the queue to be called.\<close>

lemma about_pop:
  assumes "running w l = f # fs" and "about (target f) w = nothing(k := [g])"
  shows "f = g" and "l = k" and "about (target f) (w\<lparr>running := (running w)(l := fs)\<rparr>) = nothing"
proof -
  have l: "about (target f) w l = f # filter (\<lambda>h. target h = target f) (fs @ pendingFunctors (loops w l))"
    using assms(1) by (simp add: about_def queued_def)
  with assms(2) show "l = k" by (auto split: if_splits)
  with l assms(2) have "f = g" "filter (\<lambda>h. target h = target f) (fs @ pendingFunctors (loops w l)) = []" by auto
  then show "f = g" by simp
  have "about (target f) (w\<lparr>running := (running w)(l := fs)\<rparr>) m = []" for m
  proof (cases "m = l")
    case True
    with \<open>filter _ _ = []\<close> show ?thesis by (simp add: about_def queued_def)
  next
    case False
    with assms(2) \<open>l = k\<close> have "about (target f) w m = []" by simp
    with False show ?thesis by (simp add: about_def queued_def)
  qed
  then show "about (target f) (w\<lparr>running := (running w)(l := fs)\<rparr>) = nothing" by (simp add: fun_eq_iff)
qed

lemma popped:
  assumes inv: "server_inv w" and r: "running w l = f # fs"
  defines "w' \<equiv> w\<lparr>running := (running w)(l := fs)\<rparr>" and "i \<equiv> target f"
  obtains c where "objects w' i = Some c" and "server_base w'" and "phases_but {i} w'" and "about i w' = nothing"
    and "f = ConnectEstablished i \<and> l = co_loop c \<and> co_state c = kConnecting \<and> connections w' (co_name c) = Some i \<or>
         f = RemoveConnectionInLoop i \<and> l = 0 \<and> co_state c = kDisconnected \<and> connections w' (co_name c) = Some i \<or>
         f = ConnectDestroyed i \<and> l = co_loop c \<and> co_state c = kDisconnected \<and> connections w' (co_name c) \<noteq> Some i"
proof -
  have some: "about i w l \<noteq> []" using r by (simp add: about_def queued_def i_def)
  then have "about i w \<noteq> nothing" by auto
  then obtain c where o: "objects w i = Some c"
    using inv by (auto simp: server_inv_def phases_but_def dest!: spec [of _ i] split: option.splits)
  have ph: "in_phase i c w" by (rule in_phaseD [OF inv o])
  have same: "same_objects w w'" by (simp add: same_objects_def w'_def)
  have base: "server_base w'"
    by (rule same_objects_base [OF same]) (use inv in \<open>auto simp: server_inv_def w'_def\<close>)
  have "about j w' = about j w" if "j \<noteq> i" for j
    using that r by (auto simp: about_def queued_def w'_def i_def fun_eq_iff)
  then have others: "phases_but {i} w'"
    by (intro same_objects_phases [OF same, where I = "{}"]) (use inv in \<open>auto simp: server_inv_def w'_def\<close>)
  from ph some consider
      (established) "co_state c = kConnecting" "connections w (co_name c) = Some i"
        "about i w = nothing(co_loop c := [ConnectEstablished i])"
    | (remove) "co_state c = kDisconnected" "connections w (co_name c) = Some i"
        "about i w = nothing(0 := [RemoveConnectionInLoop i])"
    | (destroyed) "co_state c = kDisconnected" "connections w (co_name c) \<noteq> Some i"
        "about i w = nothing(co_loop c := [ConnectDestroyed i])"
    by (cases "co_state c") (auto simp: in_phase_def Let_def)
  then show ?thesis
  proof cases
    case established
    with about_pop [OF r, folded i_def w'_def, OF established(3)] o base others show ?thesis
      by (intro that [of c]) (auto simp: w'_def)
  next
    case remove
    with about_pop [OF r, folded i_def w'_def, OF remove(3)] o base others show ?thesis
      by (intro that [of c]) (auto simp: w'_def)
  next
    case destroyed
    with about_pop [OF r, folded i_def w'_def, OF destroyed(3)] o base others show ?thesis
      by (intro that [of c]) (auto simp: w'_def)
  qed
qed

text \<open>\<open>removeConnectionInLoop\<close> of a connection that has closed.\<close>

lemma removeConnectionInLoop_inv:
  assumes base: "server_base w" and ph: "phases_but {i} w" and o: "objects w i = Some c"
    and st: "co_state c = kDisconnected" "about i w = nothing"
    and me: "threadId (loops w 0) = me"
  obtains w' where "TcpServer_removeConnectionInLoop me i w = Inr w'" and "server_inv w'"
proof -
  let ?w = "queue_in me (co_loop c) (ConnectDestroyed i) (w\<lparr>connections := (connections w)(co_name c := None)\<rparr>)"
  have run: "TcpServer_removeConnectionInLoop me i w = Inr ?w"
    using me o by (simp add: TcpServer_removeConnectionInLoop_def EventLoop_assertInLoopThread_def
        EventLoop_isInLoopThread_def)
  have same: "same_objects w ?w" by (simp add: same_objects_def queue_in_def)
  have "server_base ?w"
    by (rule same_objects_base [OF same base]) (simp split: if_splits)
  moreover
  have q: "queued ?w l = queued w l @ (if l = co_loop c then [ConnectDestroyed i] else [])" for l
    by (simp add: queued_def queue_in_def)
  have "phases_but {i} ?w"
  proof (rule same_objects_phases [OF same base ph subset_refl])
    fix j
    assume "j \<notin> {i}"
    then show "about j ?w = about j w" using q by (auto simp: about_def fun_eq_iff)
  next
    fix j d
    assume j: "j \<notin> {i}" "objects w j = Some d"
    then have "object_ok j d w" "object_ok i c w" using base o by (simp_all add: server_base_def)
    then have "co_name d \<noteq> co_name c"
      using j(1) connection_name_inj [of "int j + 1" "int i + 1"] by (auto simp: object_ok_def)
    then show "connections ?w (co_name d) = connections w (co_name d)" by simp
  qed
  moreover have "in_phase i c ?w"
    using st q by (auto simp: in_phase_def about_def fun_eq_iff)
  ultimately show ?thesis using run o phases_all [of i ?w c] by (intro that [of ?w]) (simp_all add: server_inv_def)
qed

lemma destroyed_inv:
  assumes base: "server_base w" and ph: "phases_but {i} w" and o: "objects w i = Some c"
    and st: "co_state c = kDisconnected" "about i w = nothing" "connections w (co_name c) \<noteq> Some i"
    and s': "conn_inv (threadId (loops w (co_loop c))) s'" "conn_state s' = kDisconnected" "ch_index (conn_ch s') = kNew"
      "served_step (threadId (loops w (co_loop c))) (co_loop c) i (enter i w) s'"
  shows "server_inv (leave (co_loop c) i s')"
proof -
  let ?w = "leave (co_loop c) i s'"
  obtain c' where c': "moved i c w c' ?w" "co_state c' = conn_state s'" "enter i ?w = s'"
    "\<And>j. j \<noteq> i \<Longrightarrow> about j ?w = about j w" "connections ?w = connections w" "about i ?w = about i w"
    by (rule operated [OF base o s'(4) s'(1)]) (use s'(2) st(1) in auto)
  have "server_base ?w" by (rule moved_base [OF base c'(1)]) (use s'(1) c'(3,5) in auto)
  moreover have "phases_but {i} ?w"
    by (rule moved_phases [OF base c'(1) ph _ disjI1 c'(4)]) (use s'(1) c'(3,5) in simp_all)
  moreover have "in_phase i c' ?w"
    using c'(1-3,5,6) s'(2,3) st by (simp add: in_phase_def moved_def)
  moreover have "objects ?w i = Some c'" using c'(1) by (simp add: moved_def)
  ultimately show ?thesis unfolding server_inv_def using phases_all by blast
qed

context server_user
begin

lemma establish_step:
  assumes "TcpConnection_connectEstablished me (cbs me l i) s = Inr s'"
  shows "served_step me l i s s'"
proof -
  from assms obtain s1 where st: "conn_state s = kConnecting"
    and s1: "Channel_change me EnableReading (conn_channel s) (s\<lparr>conn_state := kConnected\<rparr>) = Inr s1"
    and cb: "call_if_set (connectionCallback (cbs me l i)) s1 = Inr s'"
    by (auto simp: TcpConnection_connectEstablished_def returned)
  have "served_step me l i s (s\<lparr>conn_state := kConnected\<rparr>)"
    using st by (simp add: served_step_def taken_out_def still_there_def)
  moreover have "served_step me l i (s\<lparr>conn_state := kConnected\<rparr>) s1"
    using served.R_change [of me EnableReading "s\<lparr>conn_state := kConnected\<rparr>"] s1 by simp
  ultimately show ?thesis using step_connection [OF cb] served_step_trans by blast
qed

lemma established_inv:
  assumes base: "server_base w" and ph: "phases_but {i} w" and o: "objects w i = Some c"
    and st: "co_state c = kConnecting" "about i w = nothing" "connections w (co_name c) = Some i"
    and me: "me = threadId (loops w (co_loop c))"
  shows "case server_exec cbs me (ConnectEstablished i) w of
           Inl x \<Rightarrow> ok (co_context c) x | Inr w' \<Rightarrow> server_inv w' \<and> same_fds w w' \<and> created w' = created w \<and>
             threadId (loops w' 0) = threadId (loops w 0)"
proof -
  let ?l = "co_loop c"
  let ?s = "enter i w"
  have ci: "conn_inv me ?s" using object_conn_inv [OF base o] me by simp
  have run: "server_exec cbs me (ConnectEstablished i) w =
      map_res (leave ?l i) (TcpConnection_connectEstablished me (cbs me ?l i) ?s)"
    using o by (simp add: server_exec_def on_connection_def)
  have "conn_state ?s = kConnecting" using o st(1) by simp
  note res = user.connectEstablished_ok [OF ci this, of ?l i]
  show ?thesis
  proof (cases "TcpConnection_connectEstablished me (cbs me ?l i) ?s")
    case (Inl x)
    with res run o show ?thesis by simp
  next
    case (Inr s')
    with res have s': "conn_inv me s'" "conn_state s' \<noteq> kConnecting" by auto
    have "server_inv (leave ?l i s')"
      using operated_inv [OF base ph o _ _ st(3,2) _ s'(2)] establish_step [OF Inr] s'(1) st(1) me by simp
    moreover obtain c' where m: "moved i c w c' (leave ?l i s')"
      by (rule operated [OF base o]) (use establish_step [OF Inr] s'(1) me in simp_all)
    ultimately show ?thesis using Inr run moved_same_fds [OF m] m by (simp add: moved_def)
  qed
qed

lemma run_functor_inv:
  assumes inv: "server_inv w"
  shows "case run_functor_of cbs l w of Inl x \<Rightarrow> \<exists>ctx. ok ctx x | Inr w' \<Rightarrow> server_inv w'"
proof (cases "running w l")
  case Nil
  have "server_inv (w\<lparr>loops := (loops w)(l := (loops w l)\<lparr>callingPendingFunctors := False\<rparr>)\<rparr>)"
    by (rule same_objects_inv [OF _ inv]) (simp_all add: same_objects_def queued_def)
  with Nil show ?thesis by (simp add: run_functor_of_def)
next
  case (Cons f fs)
  let ?w = "w\<lparr>running := (running w)(l := fs)\<rparr>"
  let ?i = "target f"
  let ?me = "threadId (loops w l)"
  have run: "run_functor_of cbs l w = server_exec cbs ?me f ?w" using Cons by (simp add: run_functor_of_def)
  obtain c where o: "objects ?w ?i = Some c" and base: "server_base ?w" and ph: "phases_but {?i} ?w"
    and ab: "about ?i ?w = nothing"
    and "f = ConnectEstablished ?i \<and> l = co_loop c \<and> co_state c = kConnecting \<and> connections ?w (co_name c) = Some ?i \<or>
         f = RemoveConnectionInLoop ?i \<and> l = 0 \<and> co_state c = kDisconnected \<and> connections ?w (co_name c) = Some ?i \<or>
         f = ConnectDestroyed ?i \<and> l = co_loop c \<and> co_state c = kDisconnected \<and> connections ?w (co_name c) \<noteq> Some ?i"
    by (rule popped [OF inv Cons])
  then consider
      (established) "f = ConnectEstablished ?i" "l = co_loop c" "co_state c = kConnecting" "connections ?w (co_name c) = Some ?i"
    | (remove) "f = RemoveConnectionInLoop ?i" "l = 0" "co_state c = kDisconnected"
    | (destroyed) "f = ConnectDestroyed ?i" "l = co_loop c" "co_state c = kDisconnected" "connections ?w (co_name c) \<noteq> Some ?i"
    by blast
  then show ?thesis
  proof cases
    case established
    from established_inv [OF base ph o established(3) ab established(4), of ?me] established(1,2) run
    show ?thesis by (auto split: sum.splits)
  next
    case remove
    obtain w' where "TcpServer_removeConnectionInLoop ?me ?i ?w = Inr w'" "server_inv w'"
      by (rule removeConnectionInLoop_inv [OF base ph o remove(3) ab, of ?me]) (use remove(2) in simp_all)
    moreover have "server_exec cbs ?me f ?w = TcpServer_removeConnectionInLoop ?me ?i ?w"
      by (subst remove(1)) (use base in \<open>simp add: server_exec_def server_base_def\<close>)
    ultimately show ?thesis using run by simp
  next
    case destroyed
    let ?s = "enter ?i ?w"
    have ci: "conn_inv ?me ?s" using object_conn_inv [OF base o] destroyed(2) by simp
    have "conn_state ?s = kDisconnected" using o destroyed(3) by simp
    then obtain s' where s': "TcpConnection_connectDestroyed ?me (cbs ?me l ?i) ?s = Inr s'" "conn_inv ?me s'"
      "conn_state s' = kDisconnected" "ch_index (conn_ch s') = kNew" "served_step ?me l ?i ?s s'"
      by (rule destroyed_state [OF ci, where cbs = "cbs ?me l ?i"])
    have "server_exec cbs ?me f ?w = Inr (leave l ?i s')"
      by (subst destroyed(1)) (use o s'(1) destroyed(2) in \<open>simp add: server_exec_def on_connection_def\<close>)
    moreover have "server_inv (leave l ?i s')"
      using destroyed_inv [OF base ph o destroyed(3) ab destroyed(4), of s'] s' destroyed(2) by simp
    ultimately show ?thesis using run by simp
  qed
qed

end

subsection \<open>Deleting and making connections\<close>

lemma deleted_object_channel_inv:
  assumes p: "poller_inv p" "distinct_fds p" and c: "channel_heap p a = Some c" "ch_index c = kNew"
  defines "p' \<equiv> p\<lparr>channel_heap := (channel_heap p)(a := None), interest := (interest p)(ch_fd c := None)\<rparr>"
  shows "poller_inv p'" and "distinct_fds p'"
proof -
  have "interest p (ch_fd c) = None"
    using poller_inv_interest [OF p(1) c(1) distinct_fds_sole_user [OF p c(1)]] c(2) by simp
  then have i: "interest p' = interest p" by (auto simp: p'_def)
  have "(\<exists>d. channel_heap p' b = Some d \<and> ch_fd d = fd \<and> ch_index d = kAdded \<and> ch_events d = ev) \<longleftrightarrow>
      (\<exists>d. channel_heap p b = Some d \<and> ch_fd d = fd \<and> ch_index d = kAdded \<and> ch_events d = ev)" for b fd ev
    using c by (auto simp: p'_def)
  moreover have "(\<exists>d. channel_heap p' b = Some d \<and> ch_fd d = fd \<and> ch_index d \<noteq> kNew) \<longleftrightarrow>
      (\<exists>d. channel_heap p b = Some d \<and> ch_fd d = fd \<and> ch_index d \<noteq> kNew)" for b fd
    using c by (auto simp: p'_def)
  moreover have "channels p' = channels p" "ctl_failures p' = ctl_failures p" by (simp_all add: p'_def)
  ultimately show "poller_inv p'" using p(1) i by (simp add: poller_inv_def)
  show "distinct_fds p'" using p(2) by (auto simp: distinct_fds_def p'_def split: if_splits)
qed

lemma delete_inv:
  assumes inv: "server_inv w" and o: "objects w i = Some c"
    and gone: "\<And>n. connections w n \<noteq> Some i" "about i w = nothing"
  obtains w' where "TcpConnection_delete i w = Inr w'" and "server_inv w'"
proof -
  let ?l = "co_loop c"
  let ?p = "poller (loops w ?l)"
  let ?ch = "conn_ch (enter i w)"
  have base: "server_base w" and ph: "phases_but {} w" using inv by (simp_all add: server_inv_def)
  have new: "ch_index ?ch = kNew"
    using in_phaseD [OF inv o] gone by (cases "co_state c") (auto simp: in_phase_def Let_def fun_eq_iff split: if_splits)
  have heap: "channel_heap ?p (co_channel c) = Some ?ch"
    using object_conn_inv [OF base o] o by (simp add: conn_inv_def conn_pre_def conn_registered_def)
  have p: "poller_inv ?p" "distinct_fds ?p" using base by (simp_all add: server_base_def loops_ok_def)
  define p' where "p' = ?p\<lparr>channel_heap := (channel_heap ?p)(co_channel c := None), interest := (interest ?p)(ch_fd ?ch := None)\<rparr>"
  have p': "poller_inv p'" "distinct_fds p'" using deleted_object_channel_inv [OF p heap new] by (simp_all add: p'_def)
  have p'_heap: "channel_heap p' b = (if b = co_channel c then None else channel_heap ?p b)" for b by (simp add: p'_def)
  let ?w = "w\<lparr>objects := (objects w)(i := None), loops := (loops w)(?l := (loops w ?l)\<lparr>poller := p'\<rparr>)\<rparr>"
  have run: "TcpConnection_delete i w = Inr ?w"
    using o heap by (simp add: TcpConnection_delete_def channel_at_def Let_def p'_def)
  have tids: "threadId (loops ?w l) = threadId (loops w l)" for l by simp
  have pollers: "poller (loops ?w l) = (if l = ?l then p' else poller (loops w l))" for l by simp
  have lo: "loops_ok ?w"
    using base p' unfolding server_base_def loops_ok_def tids pollers by simp
  have kept: "object_ok j d ?w" "conn_ch (enter j ?w) = conn_ch (enter j w)"
    if d: "objects w j = Some d" "j \<noteq> i" for j d
  proof -
    have "object_ok j d w" using base d by (simp add: server_base_def)
    moreover have "co_loop d \<noteq> ?l \<or> co_channel d \<noteq> co_channel c"
      using server_base_channels [OF base d(1) o d(2)] by auto
    ultimately show "object_ok j d ?w" "conn_ch (enter j ?w) = conn_ch (enter j w)"
      using object_frame [of j d w ?w] d lo p'_heap by auto
  qed
  have "object_ok i c w" using base o by (simp add: server_base_def)
  then have "acceptor_ok ?w"
    using base p'_heap by (auto simp: server_base_def acceptor_ok_def object_ok_def)
  moreover have "pool_ok ?w" using base by (simp add: server_base_def pool_ok_def)
  moreover have "\<exists>d. objects ?w j = Some d \<and> co_name d = n" if "connections ?w n = Some j" for n j
    using base gone(1) [of n] that by (auto simp: server_base_def)
  moreover have "object_ok j d ?w" if "objects ?w j = Some d" for j d
    using kept(1) that by (auto split: if_splits)
  moreover have "co_channel d \<noteq> co_channel e"
    if "objects ?w j = Some d" "objects ?w k = Some e" "j \<noteq> k" "co_loop d = co_loop e" for j k d e
    using server_base_channels [OF base] that by (auto split: if_splits)
  moreover have "srv_alive ?w" "nextConnId ?w = int (created ?w) + 1" using base by (simp_all add: server_base_def)
  ultimately have "server_base ?w" using lo unfolding server_base_def by blast
  moreover have "phases_but {} ?w"
    unfolding phases_but_def
  proof (intro allI impI)
    fix j
    have ab: "about j ?w = about j w" by (auto simp: about_def queued_def fun_eq_iff)
    note old = ph [unfolded phases_but_def, rule_format, of j]
    show "case objects ?w j of Some d \<Rightarrow> in_phase j d ?w | None \<Rightarrow> about j ?w = nothing"
    proof (cases "j = i \<or> objects w j = None")
      case True
      with old ab gone(2) show ?thesis by auto
    next
      case False
      then obtain d where d: "objects w j = Some d" "j \<noteq> i" by auto
      with old in_phase_frame [OF _ ab kept(2) [OF d]] show ?thesis by simp
    qed
  qed
  ultimately show ?thesis using run by (intro that) (simp_all add: server_inv_def)
qed

lemma getNextLoop_eq:
  assumes "pool_started (pool w)" and "pool_next (pool w) < length (pool_loops (pool w))"
  shows "EventLoopThreadPool_getNextLoop (threadId (loops w 0)) w =
     Inr (pool_loops (pool w) ! pool_next (pool w), w\<lparr>pool := (pool w)\<lparr>pool_next :=
       (if length (pool_loops (pool w)) \<le> pool_next (pool w) + 1 then 0 else pool_next (pool w) + 1)\<rparr>\<rparr>)"
  using assms by (auto simp: EventLoopThreadPool_getNextLoop_def EventLoop_assertInLoopThread_def
      EventLoop_isInLoopThread_def Let_def)

lemma getNextLoop_alone:
  assumes "pool_started (pool w)" and "pool_loops (pool w) = []"
  shows "EventLoopThreadPool_getNextLoop (threadId (loops w 0)) w = Inr (0, w)"
  using assms by (simp add: EventLoopThreadPool_getNextLoop_def EventLoop_assertInLoopThread_def
      EventLoop_isInLoopThread_def)

lemma nextLoop:
  assumes base: "server_base w"
  obtains p where "EventLoopThreadPool_getNextLoop (threadId (loops w 0)) w =
      Inr (home_loop (loop_count w) (created w), w\<lparr>pool := p\<rparr>)"
    and "pool_started p" and "pool_loops p = [1..<loop_count w]"
    and "pool_next p = (if loop_count w = 1 then 0 else (created w + 1) mod (loop_count w - 1))"
proof -
  have ok: "pool_ok w" using base by (simp add: server_base_def)
  show ?thesis
  proof (cases "loop_count w = 1")
    case True
    with ok have p: "pool_started (pool w)" "pool_loops (pool w) = []" "pool_next (pool w) = 0"
      by (simp_all add: pool_ok_def)
    have "EventLoopThreadPool_getNextLoop (threadId (loops w 0)) w =
        Inr (home_loop (loop_count w) (created w), w\<lparr>pool := pool w\<rparr>)"
      using getNextLoop_alone [OF p(1,2)] True by (simp add: home_loop_def)
    then show ?thesis by (rule that) (simp_all add: p True)
  next
    case False
    let ?n = "loop_count w - 1"
    have n: "0 < ?n" "pool_started (pool w)" "pool_loops (pool w) = [1..<loop_count w]"
      "pool_next (pool w) = created w mod ?n" using False ok by (simp_all add: pool_ok_def)
    have len: "length (pool_loops (pool w)) = ?n" by (simp add: n(3))
    have lt: "created w mod ?n < ?n" using n(1) by (rule mod_less_divisor)
    have home: "pool_loops (pool w) ! pool_next (pool w) = home_loop (loop_count w) (created w)"
      unfolding n(3,4) using lt False by (simp add: home_loop_def)
    have step: "(if ?n \<le> created w mod ?n + 1 then 0 else created w mod ?n + 1) = (created w + 1) mod ?n"
      using lt mod_Suc [of "created w" ?n] by (cases "Suc (created w mod ?n) = ?n") simp_all
    have "pool_next (pool w) < length (pool_loops (pool w))" unfolding len n(4) by (rule lt)
    from getNextLoop_eq [OF n(2) this, unfolded home len]
    have "EventLoopThreadPool_getNextLoop (threadId (loops w 0)) w =
        Inr (home_loop (loop_count w) (created w), w\<lparr>pool := (pool w)\<lparr>pool_next := (created w + 1) mod ?n\<rparr>\<rparr>)"
      unfolding n(4) step .
    then show ?thesis by (rule that) (use n(2,3) False in simp_all)
  qed
qed

text \<open>The world after \<open>newConnection\<close> has made the connection and before it is established.\<close>

lemma created_base:
  assumes inv: "server_inv w" and fresh: "fresh_accept w a"
    and p: "pool_started p" "pool_loops p = [1..<loop_count w]"
      "pool_next p = (if loop_count w = 1 then 0 else (created w + 1) mod (loop_count w - 1))"
  defines "l \<equiv> home_loop (loop_count w) (created w)" and "i \<equiv> created w"
    and "nm \<equiv> connection_name (srv_name w) (nextConnId w)"
  defines "c \<equiv> new_object l nm (acc_address a) (acc_reads a) (acc_writes a)"
  defines "w' \<equiv> w\<lparr>pool := p, nextConnId := nextConnId w + 1, created := created w + 1,
      loops := (loops w)(l := (loops w l)\<lparr>poller := put_channel (acc_address a) (Channel_new (acc_fd a)) (poller (loops w l))\<rparr>),
      objects := (objects w)(i \<mapsto> c), connections := (connections w)(nm \<mapsto> i)\<rparr>"
  shows "server_base w'" and "phases_but {i} w'" and "about i w' = nothing"
    and "objects w' i = Some c" and "connections w' (co_name c) = Some i"
    and "fresh_accept w b \<Longrightarrow> acc_fd b \<noteq> acc_fd a \<Longrightarrow> acc_address b \<noteq> acc_address a \<Longrightarrow> fresh_accept w' b"
proof -
  have base: "server_base w" and ph: "phases_but {} w" using inv by (simp_all add: server_inv_def)
  let ?new = "put_channel (acc_address a) (Channel_new (acc_fd a)) (poller (loops w l))"
  have pollers: "poller (loops w' k) = (if k = l then ?new else poller (loops w k))"
    and tids: "threadId (loops w' k) = threadId (loops w k)" for k by (simp_all add: w'_def)
  have heap: "channel_heap (poller (loops w' k)) b =
      (if k = l \<and> b = acc_address a then Some (Channel_new (acc_fd a)) else channel_heap (poller (loops w k)) b)" for k b
    by (simp add: pollers put_channel_def)
  have free: "channel_heap (poller (loops w k)) (acc_address a) = None"
    "channel_heap (poller (loops w k)) b = Some d \<Longrightarrow> ch_fd d \<noteq> acc_fd a" for k b d
    using fresh by (auto simp: fresh_accept_def)
  have old: "poller_inv (poller (loops w k))" "distinct_fds (poller (loops w k))" for k
    using base by (simp_all add: server_base_def loops_ok_def)
  have "distinct_fds (poller (loops w' k))" for k
    using old(2) [of k] free(2) [of k] unfolding distinct_fds_def heap
    by (auto simp: Channel_new_def split: if_splits) metis+
  moreover have "poller_inv (poller (loops w' k))" for k
    using old(1) put_new_channel_inv [OF old(1) free(1)] by (simp add: pollers)
  moreover have "inj_on (\<lambda>l. threadId (loops w' l)) {..<loop_count w'}"
    using base unfolding tids by (simp add: server_base_def loops_ok_def w'_def)
  ultimately have lo: "loops_ok w'" by (simp add: loops_ok_def)
  have i: "objects w i = None" "about i w = nothing"
    using base ph by (auto simp: server_base_def object_ok_def i_def phases_but_def
        dest!: spec [of _ "created w"] split: option.splits)
  have oi: "objects w' i = Some c" and oj: "j \<noteq> i \<Longrightarrow> objects w' j = objects w j" for j by (simp_all add: w'_def)
  have kept: "object_ok j d w'" "conn_ch (enter j w') = conn_ch (enter j w)"
    and apart: "co_loop d = l \<Longrightarrow> co_channel d \<noteq> acc_address a" and names: "co_name d \<noteq> nm"
    if d: "objects w j = Some d" for j d
  proof -
    have ok: "object_ok j d w" using base d by (simp add: server_base_def)
    have ji: "j \<noteq> i" using i(1) d by auto
    have "channel_heap (poller (loops w (co_loop d))) (co_channel d) \<noteq> None"
      using object_conn_inv [OF base d] d by (simp add: conn_inv_def conn_pre_def conn_registered_def)
    then have ne: "co_channel d \<noteq> acc_address a" using free(1) by auto
    then show "co_loop d = l \<Longrightarrow> co_channel d \<noteq> acc_address a" by simp
    from ne object_frame [OF ok d, of w'] oj [OF ji] d lo heap tids
    show "object_ok j d w'" "conn_ch (enter j w') = conn_ch (enter j w)" by (auto simp: w'_def)
    show "co_name d \<noteq> nm"
      using ok ji base connection_name_inj [of "int j + 1" "nextConnId w"]
      by (auto simp: object_ok_def nm_def server_base_def i_def)
  qed
  have "fresh_connection (threadId (loops w l)) (enter i w')"
  proof -
    have "channels (poller (loops w l)) (acc_fd a) = None"
    proof (rule ccontr)
      assume "channels (poller (loops w l)) (acc_fd a) \<noteq> None"
      with old(1) [of l] obtain b d where "channel_heap (poller (loops w l)) b = Some d" "ch_fd d = acc_fd a"
        by (auto simp: poller_inv_def)
      with free(2) show False by blast
    qed
    then show ?thesis using oi old(1) [of l] put_new_channel_inv [OF old(1) [of l] free(1) [of l]]
      by (simp add: fresh_connection_def c_def new_object_def pollers tids conn_ch_def put_channel_def Channel_new_def)
  qed
  then have ci: "conn_inv (threadId (loops w l)) (enter i w')" by (rule fresh_connection_inv)
  have acc: "channel_heap (poller (loops w' 0)) (acc_channel (acceptor w)) =
      channel_heap (poller (loops w 0)) (acc_channel (acceptor w))" "acc_address a \<noteq> acc_channel (acceptor w)"
    using base free(1) [of 0] by (auto simp: server_base_def acceptor_ok_def heap)
  have "object_ok i c w'"
    using ci acc(2) base by (simp add: object_ok_def c_def new_object_def w'_def l_def i_def nm_def server_base_def)
  then have all: "object_ok j d w'" if "objects w' j = Some d" for j d
    using kept(1) oi oj that by (cases "j = i") auto
  have "acceptor_ok w'" using base acc(1) by (simp add: server_base_def acceptor_ok_def w'_def)
  moreover have "pool_ok w'" using base p by (simp add: server_base_def pool_ok_def w'_def)
  moreover have "\<exists>d. objects w' j = Some d \<and> co_name d = n" if "connections w' n = Some j" for n j
  proof (cases "n = nm")
    case True
    with that oi show ?thesis by (simp add: w'_def c_def new_object_def)
  next
    case False
    with that have "connections w n = Some j" by (simp add: w'_def)
    with base obtain d where "objects w j = Some d" "co_name d = n" unfolding server_base_def by blast
    with i(1) oj [of j] show ?thesis by (cases "j = i") auto
  qed
  moreover have "co_channel d \<noteq> co_channel e"
    if "objects w' j = Some d" "objects w' k = Some e" "j \<noteq> k" "co_loop d = co_loop e" for j k d e
  proof -
    have c: "co_loop c = l" "co_channel c = acc_address a" by (simp_all add: c_def new_object_def)
    consider "j = i" "k \<noteq> i" | "k = i" "j \<noteq> i" | "j \<noteq> i" "k \<noteq> i" using \<open>j \<noteq> k\<close> by blast
    then show ?thesis
    proof cases
      case 1
      then have "d = c" "objects w k = Some e" using that(1,2) oi oj [of k] by simp_all
      with apart [of k e] c that(4) show ?thesis by auto
    next
      case 2
      then have "e = c" "objects w j = Some d" using that(1,2) oi oj [of j] by simp_all
      with apart [of j d] c that(4) show ?thesis by auto
    next
      case 3
      then have "objects w j = Some d" "objects w k = Some e" using that(1,2) oj [of j] oj [of k] by simp_all
      from server_base_channels [OF base this that(3,4)] show ?thesis .
    qed
  qed
  moreover have "srv_alive w'" "nextConnId w' = int (created w') + 1" using base by (simp_all add: server_base_def w'_def)
  ultimately show "server_base w'" using lo all unfolding server_base_def by blast
  have ab: "about j w' = about j w" for j by (auto simp: about_def queued_def fun_eq_iff w'_def)
  show "about i w' = nothing" using ab i(2) by simp
  show "objects w' i = Some c" by (rule oi)
  show "connections w' (co_name c) = Some i" by (simp add: w'_def c_def new_object_def)
  show "phases_but {i} w'"
    unfolding phases_but_def
  proof (intro allI impI)
    fix j
    assume "j \<notin> {i}"
    note old = ph [unfolded phases_but_def, rule_format, of j]
    show "case objects w' j of Some d \<Rightarrow> in_phase j d w' | None \<Rightarrow> about j w' = nothing"
    proof (cases "objects w j")
      case None
      with old ab oj [of j] \<open>j \<notin> {i}\<close> show ?thesis by simp
    next
      case (Some d)
      have "connections w' (co_name d) = connections w (co_name d)" using names [OF Some] by (simp add: w'_def)
      with old Some oj [of j] \<open>j \<notin> {i}\<close> in_phase_frame [OF _ ab kept(2) [OF Some]] show ?thesis by simp
    qed
  qed
  show "fresh_accept w' b" if "fresh_accept w b" "acc_fd b \<noteq> acc_fd a" "acc_address b \<noteq> acc_address a"
    using that unfolding fresh_accept_def heap by (auto simp: Channel_new_def)
qed

lemma same_objects_refl [simp]: "same_objects w w"
  by (simp add: same_objects_def)

lemma fresh_accept_same_fds:
  assumes "same_fds w w'" and "fresh_accept w b"
  shows "fresh_accept w' b"
  unfolding fresh_accept_def
proof (intro allI conjI impI)
  fix l
  from assms(1) have eq: "map_option ch_fd (channel_heap (poller (loops w' l)) a) =
      map_option ch_fd (channel_heap (poller (loops w l)) a)" for a by (simp add: same_fds_def)
  from assms(2) eq [of "acc_address b"] show "channel_heap (poller (loops w' l)) (acc_address b) = None"
    by (simp add: fresh_accept_def)
  fix a c
  assume "channel_heap (poller (loops w' l)) a = Some c"
  with eq [of a] obtain d where "channel_heap (poller (loops w l)) a = Some d" "ch_fd d = ch_fd c"
    by (cases "channel_heap (poller (loops w l)) a") auto
  with assms(2) show "ch_fd c \<noteq> acc_fd b" unfolding fresh_accept_def by metis
qed

text \<open>The functor that establishes a new connection in another thread is queued.\<close>

lemma queued_established:
  assumes base: "server_base w" and ph: "phases_but {i} w" and o: "objects w i = Some c"
    and st: "co_state c = kConnecting" "about i w = nothing" "connections w (co_name c) = Some i"
  shows "server_inv (queue_in me (co_loop c) (ConnectEstablished i) w)"
proof -
  let ?w = "queue_in me (co_loop c) (ConnectEstablished i) w"
  have same: "same_objects w ?w" by (simp add: same_objects_def queue_in_def)
  have q: "queued ?w l = queued w l @ (if l = co_loop c then [ConnectEstablished i] else [])" for l
    by (simp add: queued_def queue_in_def)
  have "server_base ?w" by (rule same_objects_base [OF same base]) simp
  moreover have "phases_but {i} ?w"
    by (rule same_objects_phases [OF same base ph subset_refl])
      (use q in \<open>auto simp: about_def fun_eq_iff\<close>)
  moreover have "in_phase i c ?w"
    using st q by (auto simp: in_phase_def about_def fun_eq_iff)
  ultimately show ?thesis using o phases_all [of i ?w c] by (simp add: server_inv_def)
qed

context server_user
begin

lemma newConnection_inv:
  assumes inv: "server_inv w" and fresh: "fresh_accept w a"
  shows "case TcpServer_newConnection cbs (threadId (loops w 0)) a w of
           Inl x \<Rightarrow> x = SignedOverflow \<and> created w = 2 ^ 31 - 2 \<or> ok None x
         | Inr w' \<Rightarrow> server_inv w' \<and> created w' = created w + 1 \<and>
             threadId (loops w' 0) = threadId (loops w 0) \<and>
             (\<forall>b. fresh_accept w b \<and> acc_fd b \<noteq> acc_fd a \<and> acc_address b \<noteq> acc_address a \<longrightarrow> fresh_accept w' b)"
proof -
  let ?me = "threadId (loops w 0)"
  let ?l = "home_loop (loop_count w) (created w)"
  let ?nm = "connection_name (srv_name w) (nextConnId w)"
  let ?c = "new_object ?l ?nm (acc_address a) (acc_reads a) (acc_writes a) :: 'x connection_object"
  have base: "server_base w" using inv by (simp add: server_inv_def)
  obtain p where p: "EventLoopThreadPool_getNextLoop ?me w = Inr (?l, w\<lparr>pool := p\<rparr>)"
    "pool_started p" "pool_loops p = [1..<loop_count w]"
    "pool_next p = (if loop_count w = 1 then 0 else (created w + 1) mod (loop_count w - 1))"
    by (rule nextLoop [OF base])
  let ?w = "w\<lparr>pool := p, nextConnId := nextConnId w + 1, created := created w + 1,
      loops := (loops w)(?l := (loops w ?l)\<lparr>poller := put_channel (acc_address a) (Channel_new (acc_fd a)) (poller (loops w ?l))\<rparr>),
      objects := (objects w)(created w \<mapsto> ?c), connections := (connections w)(?nm \<mapsto> created w)\<rparr>"
  define v where "v = ?w"
  note cr = created_base [OF inv fresh p(2-4), folded v_def]
  have v: "created v = created w + 1" "threadId (loops v 0) = ?me" by (simp_all add: v_def)
  show ?thesis
  proof (cases "nextConnId w = 2 ^ 31 - 1")
    case True
    then have "TcpServer_newConnection cbs ?me a w = Inl SignedOverflow"
      using p(1) by (simp add: TcpServer_newConnection_def EventLoop_assertInLoopThread_def EventLoop_isInLoopThread_def)
    moreover have "int (created w) = 2 ^ 31 - 2" using True base by (simp add: server_base_def)
    then have "created w = 2 ^ 31 - 2" by simp
    ultimately show ?thesis by simp
  next
    case False
    have run: "TcpServer_newConnection cbs ?me a w =
        run_in ?me ?l (server_exec cbs ?me (ConnectEstablished (created w))) (ConnectEstablished (created w)) v"
      unfolding v_def using p(1) False by (simp add: TcpServer_newConnection_def EventLoop_assertInLoopThread_def
          EventLoop_isInLoopThread_def Let_def)
    have c: "co_loop ?c = ?l" "co_state ?c = kConnecting" "co_context ?c = None" by (simp_all add: new_object_def)
    show ?thesis
    proof (cases "EventLoop_isInLoopThread ?me (loops v ?l)")
      case True
      then have "?me = threadId (loops v (co_loop ?c))" by (simp add: EventLoop_isInLoopThread_def c(1))
      note est = established_inv [OF cr(1,2,4) c(2) cr(3,5) this]
      show ?thesis
      proof (cases "server_exec cbs ?me (ConnectEstablished (created w)) v")
        case (Inl x)
        with est run True c(3) show ?thesis by (simp add: run_in_def)
      next
        case (Inr w')
        with est have w': "server_inv w'" "same_fds v w'" "created w' = created w + 1"
          "threadId (loops w' 0) = ?me" using v by simp_all
        with Inr run True cr(6) fresh_accept_same_fds [OF w'(2)] show ?thesis by (simp add: run_in_def)
      qed
    next
      case False
      have "server_inv (queue_in ?me ?l (ConnectEstablished (created w)) v)"
        using queued_established [OF cr(1,2,4) c(2) cr(3,5)] unfolding c(1) .
      moreover have "same_fds v (queue_in ?me ?l (ConnectEstablished (created w)) v)"
        by (simp add: same_fds_def queue_in_def)
      note fresh_accept_same_fds [OF this]
      moreover have "created (queue_in ?me ?l (ConnectEstablished (created w)) v) = created w + 1"
        "threadId (loops (queue_in ?me ?l (ConnectEstablished (created w)) v) 0) = ?me"
        using v by (simp_all add: queue_in_def)
      ultimately show ?thesis using run False cr(6) by (simp add: run_in_def)
    qed
  qed
qed

end

end
