(* ===== verification/Server_Runs.thy ===== *)
theory Server_Runs
  imports Server_Steps
begin

text \<open>
  Runs of a server: the accept loop, every step of every thread from the start of the server on, and
  what the server guarantees in all of them.
\<close>

section \<open>The accept loop\<close>

lemma accept_loop_stops: "Acceptor_accept_loop cb (AcceptErr e # rs) w =
    (if e \<in> expected_accept_errors then Inr w else Inl Aborted)"
  by (simp add: sockets_accept_def)

lemma accept_loop_goes_on:
  "Acceptor_accept_loop (Some f) (Accepted a # rs) w = and_then (f a w) (Acceptor_accept_loop (Some f) rs)"
  by (simp add: sockets_accept_def)

text \<open>
  \<open>Acceptor::handleRead\<close> hands the connections that \<open>accept\<close> delivers to the callback one after the
  other until \<open>accept\<close> fails for the first time; it then returns when the error is one of those listed
  in \<open>sockets::accept\<close>, and ends the process on any other. What comes after the error waits.
\<close>

lemma accept_loop_exact:
  assumes "threadId (loops w 0) = me"
  shows "Acceptor_handleRead me (Some f) (map Accepted as @ AcceptErr e # rs) w =
           and_then (for_each (\<lambda>w a. f a w) w as)
             (\<lambda>w. if e \<in> expected_accept_errors then Inr w else Inl Aborted)"
proof -
  have "Acceptor_accept_loop (Some f) (map Accepted as @ AcceptErr e # rs) w =
      and_then (for_each (\<lambda>w a. f a w) w as) (\<lambda>w. if e \<in> expected_accept_errors then Inr w else Inl Aborted)" for w
  proof (induction as arbitrary: w)
    case (Cons a as)
    have "Acceptor_accept_loop (Some f) (map Accepted as @ AcceptErr e # rs) =
        (\<lambda>w. and_then (for_each (\<lambda>w a. f a w) w as) (\<lambda>w. if e \<in> expected_accept_errors then Inr w else Inl Aborted))"
      using Cons.IH by blast
    then show ?case
      by (simp add: accept_loop_goes_on and_then_assoc del: Acceptor_accept_loop.simps)
  qed (simp add: accept_loop_stops del: Acceptor_accept_loop.simps)
  with assms show ?thesis
    by (simp add: Acceptor_handleRead_def EventLoop_assertInLoopThread_def EventLoop_isInLoopThread_def
        del: Acceptor_accept_loop.simps)
qed

lemma accept_loop_exact_witness:
  "Acceptor_handleRead 7 (Some (\<lambda>a w. Inr (w\<lparr>created := created w + 1\<rparr>)))
     (map Accepted [\<lparr>acc_fd = 9, acc_address = 200, acc_reads = [], acc_writes = []\<rparr>] @ AcceptErr 24 # [AcceptErr 23])
     (TcpServer_new (vacant_loop\<lparr>threadId := 7\<rparr>) ''web'' 5 64) =
   Inr ((TcpServer_new (vacant_loop\<lparr>threadId := 7\<rparr>) ''web'' 5 64)\<lparr>created := 1\<rparr>)"
proof -
  have me: "threadId (loops (TcpServer_new (vacant_loop\<lparr>threadId := 7\<rparr>) ''web'' 5 64) 0) = 7"
    by (simp add: TcpServer_new_def)
  show ?thesis
    unfolding accept_loop_exact [OF me]
    by (simp add: expected_accept_errors_def TcpServer_new_def)
qed

section \<open>Every step keeps the invariant\<close>

lemma accepted_of_simps [simp]:
  "accepted_of [] = []" "accepted_of (Accepted a # rs) = a # accepted_of rs"
  "accepted_of (AcceptErr e # rs) = accepted_of rs"
  by (simp_all add: accepted_of_def)

text \<open>The faults of a step that do not come from the user's callbacks.\<close>

definition accept_fault :: "'x server_world \<Rightarrow> accept_result list \<Rightarrow> fault \<Rightarrow> bool" where
  "accept_fault w rs x \<longleftrightarrow>
     x = SignedOverflow \<and> 2 ^ 31 - 2 < created w + length (accepted_of rs) \<or>
     x = Aborted \<and> (\<exists>e. AcceptErr e \<in> set rs \<and> e \<notin> expected_accept_errors)"

definition fault_of_step :: "('x option \<Rightarrow> fault \<Rightarrow> bool) \<Rightarrow> 'x server_world \<Rightarrow> server_label \<Rightarrow> fault \<Rightarrow> bool" where
  "fault_of_step ok w lab x \<longleftrightarrow>
     (\<exists>ctx. ok ctx x) \<or>
     (case lab of
        AcceptReady rs \<Rightarrow> accept_fault w rs x
      | ConnPolled i r \<Rightarrow> x = AssertionFailed \<and> (\<exists>c. objects w i = Some c \<and> co_state c = kDisconnected)
      | _ \<Rightarrow> False)"

context server_user
begin

lemma accept_loop_inv:
  assumes "server_inv w" and "me = threadId (loops w 0)" and "\<And>a. a \<in> set (accepted_of rs) \<Longrightarrow> fresh_accept w a"
    and "distinct (map acc_fd (accepted_of rs))" and "distinct (map acc_address (accepted_of rs))"
  shows "case Acceptor_accept_loop (Some (TcpServer_newConnection cbs me)) rs w of
           Inl x \<Rightarrow> (\<exists>ctx. ok ctx x) \<or> accept_fault w rs x | Inr w' \<Rightarrow> server_inv w'"
  using assms
proof (induction rs arbitrary: w)
  case Nil
  then show ?case by simp
next
  case (Cons r rs)
  show ?case
  proof (cases r)
    case (AcceptErr e)
    with Cons.prems(1) show ?thesis
      by (auto simp: accept_loop_stops accept_fault_def simp del: Acceptor_accept_loop.simps)
  next
    case (Accepted a)
    note goes = accept_loop_goes_on [of "TcpServer_newConnection cbs me" a rs w]
    have "fresh_accept w a" using Cons.prems(3) Accepted by simp
    note one = newConnection_inv [OF Cons.prems(1) this, folded Cons.prems(2)]
    show ?thesis
    proof (cases "TcpServer_newConnection cbs me a w")
      case (Inl x)
      with one goes Accepted show ?thesis
        by (auto simp: accept_fault_def simp del: Acceptor_accept_loop.simps)
    next
      case (Inr w1)
      with one have w1: "server_inv w1" "created w1 = created w + 1" "me = threadId (loops w1 0)"
        "\<And>b. fresh_accept w b \<Longrightarrow> acc_fd b \<noteq> acc_fd a \<Longrightarrow> acc_address b \<noteq> acc_address a \<Longrightarrow> fresh_accept w1 b"
        using Cons.prems(2) by simp_all
      have "case Acceptor_accept_loop (Some (TcpServer_newConnection cbs me)) rs w1 of
           Inl x \<Rightarrow> (\<exists>ctx. ok ctx x) \<or> accept_fault w1 rs x | Inr w' \<Rightarrow> server_inv w'"
      proof (rule Cons.IH [OF w1(1,3)])
        fix b
        assume b: "b \<in> set (accepted_of rs)"
        have "acc_fd a \<notin> acc_fd ` set (accepted_of rs)" "acc_address a \<notin> acc_address ` set (accepted_of rs)"
          using Cons.prems(4,5) Accepted by simp_all
        with b have "acc_fd b \<noteq> acc_fd a" "acc_address b \<noteq> acc_address a" by (metis imageI)+
        moreover have "fresh_accept w b" using b Cons.prems(3) Accepted by simp
        ultimately show "fresh_accept w1 b" using w1(4) by blast
      qed (use Cons.prems(4,5) Accepted in simp_all)
      moreover have "accept_fault w1 rs x \<Longrightarrow> accept_fault w (r # rs) x" for x
        using w1(2) Accepted by (auto simp: accept_fault_def)
      moreover have "Acceptor_accept_loop (Some (TcpServer_newConnection cbs me)) (r # rs) w =
          Acceptor_accept_loop (Some (TcpServer_newConnection cbs me)) rs w1"
        unfolding Accepted goes Inr by simp
      ultimately show ?thesis
        by (cases "Acceptor_accept_loop (Some (TcpServer_newConnection cbs me)) rs w1")
          (auto simp del: Acceptor_accept_loop.simps)
    qed
  qed
qed

lemma server_step_ok:
  assumes inv: "server_inv w" and lab: "sound_label w lab"
  shows "case server_step cbs w lab of Inl x \<Rightarrow> fault_of_step ok w lab x | Inr w' \<Rightarrow> server_inv w'"
proof (cases lab)
  case (AcceptReady rs)
  let ?me = "threadId (loops w 0)"
  have "case Acceptor_accept_loop (Some (TcpServer_newConnection cbs ?me)) rs w of
           Inl x \<Rightarrow> (\<exists>ctx. ok ctx x) \<or> accept_fault w rs x | Inr w' \<Rightarrow> server_inv w'"
    by (rule accept_loop_inv [OF inv refl]) (use lab AcceptReady in auto)
  with inv AcceptReady show ?thesis
    by (auto simp: fault_of_step_def Acceptor_handleRead_def EventLoop_assertInLoopThread_def
        EventLoop_isInLoopThread_def Let_def split: sum.splits)
next
  case (TakeFunctors l)
  with take_functors_inv [OF inv] show ?thesis by simp
next
  case (RunFunctor l)
  with run_functor_inv [OF inv, of l] show ?thesis by (auto simp: fault_of_step_def split: sum.splits)
next
  case (ConnReady i r)
  then obtain c where o: "objects w i = Some c" and "plain_events r" using lab by auto
  from connection_event_inv [OF inv o, of "Ready r"] \<open>plain_events r\<close> ConnReady
  show ?thesis by (auto simp: fault_of_step_def split: sum.splits)
next
  case (ConnPolled i r)
  then obtain c where o: "objects w i = Some c" and "plain_events r" "ch_index (conn_ch (enter i w)) \<noteq> kNew"
    using lab by auto
  with connection_event_inv [OF inv o, of "Polled r"] ConnPolled
  show ?thesis by (auto simp: fault_of_step_def split: sum.splits)
next
  case (UserCall i u)
  then obtain c where o: "objects w i = Some c" using lab by auto
  from connection_event_inv [OF inv o, of "Called (conn_call_of u)"] UserCall show ?thesis by (auto simp: fault_of_step_def split: sum.splits)
next
  case (Release i)
  then obtain c where o: "objects w i = Some c" "\<And>n. connections w n \<noteq> Some i" "about i w = nothing"
    using lab by auto
  obtain w' where "TcpConnection_delete i w = Inr w'" "server_inv w'"
    by (rule delete_inv [OF inv o])
  with Release show ?thesis by simp
qed

end

text \<open>The states that a server can get into.\<close>

inductive server_run :: "'x served_callbacks \<Rightarrow> 'x server_world \<Rightarrow> 'x server_world \<Rightarrow> bool"
  for cbs :: "'x served_callbacks" and w0 :: "'x server_world" where
  begin_run: "server_run cbs w0 w0"
| step_run: "server_run cbs w0 w \<Longrightarrow> sound_label w lab \<Longrightarrow> server_step cbs w lab = Inr w' \<Longrightarrow> server_run cbs w0 w'"

context server_user
begin

lemma run_inv: "server_run cbs w0 w \<Longrightarrow> server_inv w0 \<Longrightarrow> server_inv w"
proof (induction rule: server_run.induct)
  case (step_run w lab w')
  with server_step_ok [of w lab] show ?case by simp
qed

end

section \<open>The start of a server\<close>

definition sound_resources :: "tid \<Rightarrow> (nat \<Rightarrow> thread_resources) \<Rightarrow> nat \<Rightarrow> bool" where
  "sound_resources me resources n \<longleftrightarrow>
     distinct (me # map (\<lambda>i. new_tid (resources i)) [0..<n]) \<and>
     (\<forall>i \<in> set [0..<n]. new_wakeupChannel (resources i) \<noteq> new_timerfdChannel (resources i) \<and>
        new_wakeupFd (resources i) \<noteq> new_timerfd (resources i))"

text \<open>A new loop, and in it a new server that is given \<open>n\<close> threads and started.\<close>

definition server_started ::
    "tid \<Rightarrow> timestamp \<Rightarrow> (int \<times> addr) \<Rightarrow> (int \<times> addr) \<Rightarrow> string \<Rightarrow> (int \<times> addr) \<Rightarrow> nat \<Rightarrow>
     (nat \<Rightarrow> thread_resources) \<Rightarrow> 'x server_world res" where
  "server_started me now wakeup timer name listen n resources =
     and_then (EventLoop_new me now (fst wakeup) (snd wakeup) (fst timer) (snd timer)) (\<lambda>base.
     and_then (TcpServer_setThreadNum (int n) (TcpServer_new base name (fst listen) (snd listen)))
       (TcpServer_start me None resources now))"

lemma new_loop_fields [simp]:
  "threadId (new_loop_state me now wfd wa tfd ta) = me"
  "pendingFunctors (new_loop_state me now wfd wa tfd ta) = []"
  by (simp_all add: new_loop_state_def)

lemma new_loop_distinct: "wfd \<noteq> tfd \<Longrightarrow> distinct_fds (poller (new_loop_state me now wfd wa tfd ta))"
  by (auto simp: distinct_fds_def new_loop_state_def split: if_splits)

lemma vacant_loop_ok [simp]:
  "poller_inv (poller vacant_loop)" "distinct_fds (poller vacant_loop)" "pendingFunctors vacant_loop = []"
  using EPollPoller_new_inv by (auto simp: vacant_loop_def distinct_fds_def EPollPoller_new_def)

text \<open>The loop of thread \<open>i\<close> of the pool.\<close>

definition pool_loop :: "timestamp \<Rightarrow> thread_resources \<Rightarrow> server_loop" where
  "pool_loop now r = new_loop_state (new_tid r) now (new_wakeupFd r) (new_wakeupChannel r) (new_timerfd r)
     (new_timerfdChannel r)"

lemma pool_threads:
  assumes "sound_resources me resources n" and "k \<le> n" and "loop_count w = 1" and "pool_loops (pool w) = []"
  shows "for_each (\<lambda>w i.
         and_then (EventLoopThread_startLoop None (resources i) now w) (\<lambda>(l, w).
         Inr (w\<lparr>pool := (pool w)\<lparr>pool_loops := pool_loops (pool w) @ [l]\<rparr>\<rparr>))) w [0..<k] =
       Inr (w\<lparr>loops := (\<lambda>l. if 1 \<le> l \<and> l \<le> k then pool_loop now (resources (l - 1)) else loops w l),
              loop_count := k + 1, pool := (pool w)\<lparr>pool_loops := [1..<k + 1]\<rparr>\<rparr>)"
  using assms(2)
proof (induction k)
  case 0
  have "(\<lambda>l. if 1 \<le> l \<and> l \<le> 0 then pool_loop now (resources (l - 1)) else loops w l) = loops w" by auto
  with assms(3,4) show ?case by simp
next
  case (Suc k)
  let ?w = "w\<lparr>loops := (\<lambda>l. if 1 \<le> l \<and> l \<le> k then pool_loop now (resources (l - 1)) else loops w l),
              loop_count := k + 1, pool := (pool w)\<lparr>pool_loops := [1..<k + 1]\<rparr>\<rparr>"
  have "new_wakeupChannel (resources k) \<noteq> new_timerfdChannel (resources k)"
    "new_wakeupFd (resources k) \<noteq> new_timerfd (resources k)"
    using assms(1) Suc.prems by (simp_all add: sound_resources_def)
  then have "EventLoopThread_startLoop None (resources k) now ?w =
      Inr (k + 1, ?w\<lparr>loops := (loops ?w)(k + 1 := pool_loop now (resources k)), loop_count := k + 2\<rparr>)"
    by (simp add: EventLoopThread_startLoop_def EventLoop_new_eq pool_loop_def)
  moreover have "(loops ?w)(k + 1 := pool_loop now (resources k)) =
      (\<lambda>l. if 1 \<le> l \<and> l \<le> Suc k then pool_loop now (resources (l - 1)) else loops w l)"
    by (auto simp: fun_eq_iff le_Suc_eq)
  ultimately show ?case using Suc by (simp add: for_each_append)
qed

definition just_started ::
    "tid \<Rightarrow> timestamp \<Rightarrow> (int \<times> addr) \<Rightarrow> (int \<times> addr) \<Rightarrow> string \<Rightarrow> (int \<times> addr) \<Rightarrow> nat \<Rightarrow>
     (nat \<Rightarrow> thread_resources) \<Rightarrow> epoll_poller \<Rightarrow> 'x server_world \<Rightarrow> bool" where
  "just_started me now wakeup timer name listen n resources p w \<longleftrightarrow>
     loops w = (\<lambda>l. if l = 0 then (new_loop_state me now (fst wakeup) (snd wakeup) (fst timer) (snd timer))\<lparr>poller := p\<rparr>
                    else if l \<le> n then pool_loop now (resources (l - 1)) else vacant_loop) \<and>
     poller_inv p \<and> distinct_fds p \<and>
     (\<forall>b c. channel_heap p b = Some c \<longrightarrow> (ch_fd c, b) \<in> {wakeup, timer, listen}) \<and>
     channel_heap p (snd listen) = Some \<lparr>ch_fd = fst listen, ch_events = kReadEvent, ch_revents = 0, ch_index = kAdded\<rparr> \<and>
     running w = (\<lambda>l. []) \<and> loop_count w = n + 1 \<and> objects w = Map.empty \<and> created w = 0 \<and>
     srv_alive w \<and> srv_name w = name \<and> nextConnId w = 1 \<and> connections w = Map.empty \<and>
     pool w = \<lparr>pool_started = True, numThreads = int n, pool_loops = [1..<n + 1], pool_next = 0\<rparr> \<and>
     acceptor w = \<lparr>acc_channel = snd listen, listening = True\<rparr>"

lemma started_state:
  fixes me :: tid
  assumes "sound_resources me resources n" and "distinct [snd wakeup, snd timer, snd listen]"
    and "distinct [fst wakeup, fst timer, fst listen]"
  obtains w :: "'x server_world" and p
  where "server_started me now wakeup timer name listen n resources = Inr w"
    and "just_started me now wakeup timer name listen n resources p w"
proof -
  let ?s = "new_loop_state me now (fst wakeup) (snd wakeup) (fst timer) (snd timer) :: server_loop"
  let ?c = "Channel_new (fst listen)"
  let ?p = "put_channel (snd listen) ?c (poller ?s)"
  have s: "poller_inv (poller ?s)" "distinct_fds (poller ?s)" "channel_heap (poller ?s) (snd listen) = None"
    "\<And>b d. channel_heap (poller ?s) b = Some d \<Longrightarrow> ch_fd d \<noteq> fst listen"
    using assms(2,3) new_loop_state_inv new_loop_distinct
    by (auto simp: new_loop_state_def split: if_splits)
  have p: "poller_inv ?p" "channel_heap ?p (snd listen) = Some ?c"
    using put_new_channel_inv [OF s(1,3)] by (simp_all add: put_channel_def)
  have d: "distinct_fds ?p"
    using s(2,4) unfolding distinct_fds_def put_channel_def
    by (auto simp: Channel_new_def split: if_splits) metis+
  have sole: "sole_user (snd listen) (ch_fd ?c) ?p" by (rule distinct_fds_sole_user [OF p(1) d p(2)])
  let ?q = "updated (snd listen) ?c kReadEvent ?p"
  have q: "poller_inv ?q" by (rule updated_inv [OF p sole])
  have "only_channel (snd listen) ?p ?q"
    using p(2) by (simp add: only_channel_def updated_def)
  then have qd: "distinct_fds ?q" by (rule only_channel_distinct [OF _ d])
  have change: "Channel_change me EnableReading (snd listen) (?s\<lparr>poller := ?p\<rparr>) = Inr (?s\<lparr>poller := ?q\<rparr>)"
    using Channel_change_ok [of "?s\<lparr>poller := ?p\<rparr>" me "snd listen" ?c EnableReading] p sole
    by (simp add: Channel_new_def kNoneEvent_def)
  define w0 :: "'x server_world" where "w0 = (TcpServer_new ?s name (fst listen) (snd listen))\<lparr>pool :=
      \<lparr>pool_started = True, numThreads = int n, pool_loops = [], pool_next = 0\<rparr>, srv_started := True\<rparr>"
  have w0: "loops w0 = (\<lambda>_. vacant_loop)(0 := ?s\<lparr>poller := ?p\<rparr>)" "loop_count w0 = 1" "pool_loops (pool w0) = []"
    "pool w0 = \<lparr>pool_started = True, numThreads = int n, pool_loops = [], pool_next = 0\<rparr>"
    by (simp_all add: w0_def TcpServer_new_def)
  define w1 where "w1 = w0\<lparr>loops := (\<lambda>l. if 1 \<le> l \<and> l \<le> n then pool_loop now (resources (l - 1)) else loops w0 l),
              loop_count := n + 1, pool := (pool w0)\<lparr>pool_loops := [1..<n + 1]\<rparr>\<rparr>"
  note threads = pool_threads [OF assms(1) order_refl w0(2,3), of now, folded w1_def]
  have "server_started me now wakeup timer name listen n resources = Acceptor_listen me w1"
  proof -
    have "TcpServer_setThreadNum (int n) (TcpServer_new ?s name (fst listen) (snd listen)) =
        Inr (w0\<lparr>pool := (pool w0)\<lparr>pool_started := False\<rparr>, srv_started := False\<rparr>)"
      by (simp add: TcpServer_setThreadNum_def EventLoopThreadPool_setThreadNum_def EventLoopThreadPool_new_def
          TcpServer_new_def w0_def)
    moreover have "w0\<lparr>srv_started := True, pool := pool w0\<rparr> = w0" "threadId (loops w0 0) = me"
      by (simp_all add: w0_def TcpServer_new_def)
    ultimately show ?thesis
      using assms(2,3) threads
      by (simp add: server_started_def EventLoop_new_eq TcpServer_start_def EventLoopThreadPool_start_def
          EventLoop_assertInLoopThread_def EventLoop_isInLoopThread_def w0(4))
  qed
  also have "\<dots> = Inr (w1\<lparr>loops := (loops w1)(0 := ?s\<lparr>poller := ?q\<rparr>), acceptor := \<lparr>acc_channel = snd listen, listening = True\<rparr>\<rparr>)"
    using change by (simp add: Acceptor_listen_def EventLoop_assertInLoopThread_def EventLoop_isInLoopThread_def
        w1_def w0_def TcpServer_new_def)
  finally have run: "server_started me now wakeup timer name listen n resources =
      Inr (w1\<lparr>loops := (loops w1)(0 := ?s\<lparr>poller := ?q\<rparr>), acceptor := \<lparr>acc_channel = snd listen, listening = True\<rparr>\<rparr>)" .
  have "(loops w1)(0 := ?s\<lparr>poller := ?q\<rparr>) =
      (\<lambda>l. if l = 0 then ?s\<lparr>poller := ?q\<rparr> else if l \<le> n then pool_loop now (resources (l - 1)) else vacant_loop)"
    by (auto simp: fun_eq_iff w1_def w0)
  moreover have "channel_heap ?q (snd listen) =
      Some \<lparr>ch_fd = fst listen, ch_events = kReadEvent, ch_revents = 0, ch_index = kAdded\<rparr>"
    by (simp add: updated_def Channel_new_def index_after_update_def)
  moreover have "(ch_fd c, b) \<in> {wakeup, timer, listen}" if "channel_heap ?q b = Some c" for b c
    using that assms(2) by (auto simp: updated_def put_channel_def Channel_new_def new_loop_state_def
        prod_eq_iff split: if_splits)
  ultimately show ?thesis using q qd
    by (intro that [OF run, of ?q]) (simp add: just_started_def w1_def w0_def TcpServer_new_def)
qed

text \<open>A descriptor and an address that no loop has are fresh.\<close>

lemma started_fresh:
  fixes w :: "'x server_world"
  assumes "just_started me now wakeup timer name listen n resources p w"
    and "acc_fd a \<notin> fst ` {wakeup, timer, listen}" and "acc_address a \<notin> snd ` {wakeup, timer, listen}"
    and "\<And>i. i < n \<Longrightarrow> acc_fd a \<notin> {new_wakeupFd (resources i), new_timerfd (resources i)}"
    and "\<And>i. i < n \<Longrightarrow> acc_address a \<notin> {new_wakeupChannel (resources i), new_timerfdChannel (resources i)}"
  shows "fresh_accept w a"
proof -
  have "(ch_fd c, b) \<in> {wakeup, timer, listen}" if "channel_heap p b = Some c" for b c
    using assms(1) that by (simp add: just_started_def)
  then have p: "ch_fd c \<noteq> acc_fd a" "b \<noteq> acc_address a" if "channel_heap p b = Some c" for b c
    using assms(2,3) that by force+
  have q: "ch_fd c \<noteq> acc_fd a" "b \<noteq> acc_address a"
    if "channel_heap (poller (pool_loop now (resources i))) b = Some c" "i < n" for i b c
    using assms(4,5) [OF that(2)] that(1) by (auto simp: pool_loop_def new_loop_state_def split: if_splits)
  have "ch_fd c \<noteq> acc_fd a \<and> b \<noteq> acc_address a" if "channel_heap (poller (loops w l)) b = Some c" for l b c
    using that p [of b c] q [of "l - 1" b c] assms(1)
    by (auto simp: just_started_def vacant_loop_def EPollPoller_new_def split: if_splits)
  then show ?thesis unfolding fresh_accept_def by (metis option.exhaust)
qed

lemma started_inv:
  fixes w :: "'x server_world"
  assumes "sound_resources me resources n" and "distinct [snd wakeup, snd timer, snd listen]"
    and "distinct [fst wakeup, fst timer, fst listen]"
    and start: "server_started me now wakeup timer name listen n resources = Inr w"
  shows "server_inv w" and "loop_count w = n + 1" and "srv_name w = name" and "listening (acceptor w)"
proof -
  obtain w1 :: "'x server_world" and p where "server_started me now wakeup timer name listen n resources = Inr w1"
    "just_started me now wakeup timer name listen n resources p w1"
    by (rule started_state [OF assms(1-3)])
  with start have "just_started me now wakeup timer name listen n resources p w" by simp
  note w = this [unfolded just_started_def, THEN conjunct1]
    this [unfolded just_started_def, THEN conjunct2]
  have lc: "loop_count w = n + 1" using w(2) by simp
  have one: "poller_inv (poller (pool_loop now (resources i)))" "distinct_fds (poller (pool_loop now (resources i)))"
    if "i < n" for i
    using assms(1) that
    by (auto simp: sound_resources_def pool_loop_def intro!: new_loop_state_inv new_loop_distinct)
  have "poller_inv (poller (loops w l)) \<and> distinct_fds (poller (loops w l))" for l
    using one [of "l - 1"] w(2) by (auto simp: w(1))
  moreover
  have tid: "threadId (loops w l) = (if l = 0 then me else new_tid (resources (l - 1)))" if "l \<le> n" for l
    using that by (simp add: w(1) pool_loop_def)
  have tids: "me \<noteq> new_tid (resources i)" "new_tid (resources i) = new_tid (resources j) \<Longrightarrow> i = j"
    if "i < n" "j < n" for i j
    using assms(1) that by (auto simp: sound_resources_def distinct_map inj_on_def)
  have "inj_on (\<lambda>l. threadId (loops w l)) {..<loop_count w}"
  proof (rule inj_onI)
    fix k l
    assume kl: "k \<in> {..<loop_count w}" "l \<in> {..<loop_count w}" "threadId (loops w k) = threadId (loops w l)"
    then have le: "k \<le> n" "l \<le> n" by (simp_all add: lc)
    show "k = l"
    proof (cases "k = 0 \<or> l = 0")
      case True
      with kl(3) tid [OF le(1)] tid [OF le(2)] tids(1) [of "k - 1" "k - 1"] tids(1) [of "l - 1" "l - 1"] le
      show ?thesis by (cases k; cases l) auto
    next
      case False
      then have "k - 1 < n" "l - 1 < n" using le by auto
      from tids(2) [OF this] False kl(3) tid [OF le(1)] tid [OF le(2)] have "k - 1 = l - 1" by simp
      with False show ?thesis by auto
    qed
  qed
  ultimately have "loops_ok w" by (simp add: loops_ok_def)
  moreover have "pool_ok w" "acceptor_ok w" using w by (simp_all add: pool_ok_def acceptor_ok_def)
  moreover have "queued w l = []" for l
    using w(2) by (simp add: queued_def w(1) pool_loop_def)
  ultimately show "server_inv w"
    using w by (simp add: server_inv_def server_base_def phases_but_def about_def)
  show "loop_count w = n + 1" "srv_name w = name" "listening (acceptor w)" using w(2) by simp_all
qed

section \<open>The functors of a server run out\<close>

text \<open>
  Running a functor can queue another one: establishing a connection can close it, which queues its
  removal, which queues its destruction. The weights make every such chain go down.
\<close>

fun functor_weight :: "server_functor \<Rightarrow> nat" where
  "functor_weight (ConnectEstablished i) = 3"
| "functor_weight (RemoveConnectionInLoop i) = 2"
| "functor_weight (ConnectDestroyed i) = 1"

definition functor_work :: "'x server_world \<Rightarrow> nat" where
  "functor_work w = (\<Sum>l<loop_count w. sum_list (map functor_weight (queued w l)))"

lemma functor_work_same:
  "loop_count w' = loop_count w \<Longrightarrow> (\<And>l. queued w' l = queued w l) \<Longrightarrow> functor_work w' = functor_work w"
  by (simp add: functor_work_def)

lemma functor_work_more:
  assumes "loop_count w' = loop_count w" and "k < loop_count w"
    and "\<And>l. queued w' l = queued w l @ (if l = k then fs else [])"
  shows "functor_work w' = functor_work w + sum_list (map functor_weight fs)"
proof -
  have "functor_work w' =
      (\<Sum>l<loop_count w. sum_list (map functor_weight (queued w l)) + (if l = k then sum_list (map functor_weight fs) else 0))"
    unfolding functor_work_def assms(1) by (rule sum.cong) (auto simp: assms(3))
  also have "\<dots> = functor_work w + sum_list (map functor_weight fs)"
    using assms(2) by (simp add: functor_work_def sum.distrib)
  finally show ?thesis .
qed

lemma functor_work_pop:
  assumes "running w l = f # fs" and "l < loop_count w"
  shows "functor_work w = functor_weight f + functor_work (w\<lparr>running := (running w)(l := fs)\<rparr>)"
proof -
  let ?w = "w\<lparr>running := (running w)(l := fs)\<rparr>"
  have "functor_work w =
      (\<Sum>k<loop_count w. sum_list (map functor_weight (queued ?w k)) + (if k = l then functor_weight f else 0))"
    unfolding functor_work_def by (rule sum.cong) (use assms(1) in \<open>auto simp: queued_def\<close>)
  also have "\<dots> = functor_weight f + functor_work ?w"
    using assms(2) by (simp add: functor_work_def sum.distrib)
  finally show ?thesis .
qed

lemma functor_work_0: "functor_work w = 0 \<longleftrightarrow> (\<forall>l<loop_count w. queued w l = [])"
proof -
  have "functor_weight f \<noteq> 0" for f by (cases f) simp_all
  then have "sum_list (map functor_weight fs) = 0 \<longleftrightarrow> fs = []" for fs by (cases fs) auto
  then show ?thesis by (auto simp: functor_work_def)
qed

context server_user
begin

lemma established_work:
  assumes base: "server_base w" and o: "objects w i = Some c" and me: "me = threadId (loops w (co_loop c))"
    and st: "co_state c = kConnecting"
    and run: "server_exec cbs me (ConnectEstablished i) w = Inr w'"
  shows "loop_count w' = loop_count w" and "functor_work w' \<le> functor_work w + 2"
proof -
  let ?l = "co_loop c"
  have ci: "conn_inv me (enter i w)" using object_conn_inv [OF base o] me by simp
  obtain s' where s': "TcpConnection_connectEstablished me (cbs me ?l i) (enter i w) = Inr s'" "w' = leave ?l i s'"
    using run o by (auto simp: server_exec_def on_connection_def returned)
  have "conn_state (enter i w) = kConnecting" using o st by simp
  from user.connectEstablished_ok [OF ci this, of ?l i] s'(1) have inv: "conn_inv me s'" by simp
  note q = operated_queue [OF base o establish_step [OF s'(1), unfolded me] inv [unfolded me], folded s'(2)]
  obtain c' where m: "moved i c w c' w'" using q(1) by blast
  show lc: "loop_count w' = loop_count w" using m by (simp add: moved_def)
  have "0 < loop_count w" using base by (simp add: server_base_def pool_ok_def)
  from functor_work_more [OF lc this, of "if conn_state s' = kDisconnected \<and> co_state c \<noteq> kDisconnected
            then [if co_loop c = 0 then ConnectDestroyed i else RemoveConnectionInLoop i] else []"] q(2)
  show "functor_work w' \<le> functor_work w + 2" by (auto split: if_splits)
qed

lemma run_functor_work:
  assumes inv: "server_inv w" and r: "running w l = f # fs" and run: "run_functor_of cbs l w = Inr w'"
  shows "functor_work w' < functor_work w" and "loop_count w' = loop_count w"
proof -
  let ?w = "w\<lparr>running := (running w)(l := fs)\<rparr>"
  let ?i = "target f"
  let ?me = "threadId (loops w l)"
  have exec: "server_exec cbs ?me f ?w = Inr w'" using r run by (simp add: run_functor_of_def)
  obtain c where o: "objects ?w ?i = Some c" and base: "server_base ?w"
    and f: "f = ConnectEstablished ?i \<and> l = co_loop c \<and> co_state c = kConnecting \<and> connections ?w (co_name c) = Some ?i \<or>
         f = RemoveConnectionInLoop ?i \<and> l = 0 \<and> co_state c = kDisconnected \<and> connections ?w (co_name c) = Some ?i \<or>
         f = ConnectDestroyed ?i \<and> l = co_loop c \<and> co_state c = kDisconnected \<and> connections ?w (co_name c) \<noteq> Some ?i"
    by (rule popped [OF inv r])
  have "0 < loop_count ?w" using base by (simp add: server_base_def pool_ok_def)
  then have l: "l < loop_count w" using f object_loop [OF base o] by auto
  note pop = functor_work_pop [OF r l]
  from f consider
      (established) "f = ConnectEstablished ?i" "l = co_loop c" "co_state c = kConnecting"
    | (remove) "f = RemoveConnectionInLoop ?i" "l = 0"
    | (destroyed) "f = ConnectDestroyed ?i" "l = co_loop c" "co_state c = kDisconnected" by blast
  then have "functor_work w' < functor_work w \<and> loop_count w' = loop_count w"
  proof cases
    case established
    then have "server_exec cbs ?me (ConnectEstablished ?i) ?w = Inr w'" using exec by simp
    moreover have "?me = threadId (loops ?w (co_loop c))" using established(2) by simp
    ultimately have "loop_count w' = loop_count ?w" "functor_work w' \<le> functor_work ?w + 2"
      using established_work [OF base o _ established(3)] by blast+
    moreover have "functor_weight f = 3" by (subst established(1)) simp
    ultimately show ?thesis using pop by simp
  next
    case remove
    let ?v = "queue_in ?me (co_loop c) (ConnectDestroyed ?i) (?w\<lparr>connections := (connections ?w)(co_name c := None)\<rparr>)"
    have "server_exec cbs ?me (RemoveConnectionInLoop ?i) ?w = Inr ?v"
      using base o remove(2) by (simp add: server_exec_def server_base_def TcpServer_removeConnectionInLoop_def
          EventLoop_assertInLoopThread_def EventLoop_isInLoopThread_def)
    then have w': "w' = ?v" using exec remove(1) by simp
    have "functor_work ?v = functor_work ?w + sum_list (map functor_weight [ConnectDestroyed ?i])"
      by (rule functor_work_more [where k = "co_loop c"])
        (use object_loop [OF base o] in \<open>simp_all add: queue_in_def queued_def\<close>)
    moreover have "functor_weight f = 2" by (subst remove(1)) simp
    ultimately show ?thesis using pop w' by simp
  next
    case destroyed
    let ?s = "enter ?i ?w"
    have ci: "conn_inv ?me ?s" using object_conn_inv [OF base o] destroyed(2) by simp
    have st: "conn_state ?s = kDisconnected" using o destroyed(3) by simp
    obtain s' where s': "TcpConnection_connectDestroyed ?me (cbs ?me l ?i) ?s = Inr s'" "conn_inv ?me s'"
      "conn_state s' = kDisconnected" "served_step ?me l ?i ?s s'"
      by (rule destroyed_state [OF ci st, where cbs = "cbs ?me l ?i"])
    have "server_exec cbs ?me f ?w = Inr (leave l ?i s')"
      by (subst destroyed(1)) (use o s'(1) destroyed(2) in \<open>simp add: server_exec_def on_connection_def\<close>)
    then have w': "w' = leave l ?i s'" using exec by simp
    have "served_step (threadId (loops ?w (co_loop c))) (co_loop c) ?i ?s s'"
      "conn_inv (threadId (loops ?w (co_loop c))) s'" "leave (co_loop c) ?i s' = w'"
      using s'(2,4) destroyed(2) w' by simp_all
    note q = operated_queue [OF base o this(1,2), unfolded this(3)]
    have "queued w' k = queued ?w k" for k using q(2) [of k] destroyed(3) by simp
    moreover have "loop_count w' = loop_count ?w" using q(1) by (auto simp: moved_def)
    ultimately have "functor_work w' = functor_work ?w" "loop_count w' = loop_count ?w"
      by (simp_all add: functor_work_same)
    moreover have "functor_weight f = 1" by (subst destroyed(1)) simp
    ultimately show ?thesis using pop by simp
  qed
  then show "functor_work w' < functor_work w" "loop_count w' = loop_count w" by simp_all
qed

end

end
