(* ===== verification/Server_Sound.thy ===== *)
theory Server_Sound
  imports Server_Runs
begin

text \<open>
  What a server guarantees from its start on, whatever its connections do and whichever thread
  moves: the properties of TcpServer with its acceptor, its pool of loops and its connections.
\<close>

section \<open>The server and its connections agree\<close>

text \<open>What the state of the server says about a connection that exists.\<close>

definition connection_sound_in :: "'x server_world \<Rightarrow> string \<Rightarrow> nat \<Rightarrow> nat \<Rightarrow> 'x connection_object \<Rightarrow> bool" where
  "connection_sound_in w name n i c \<longleftrightarrow>
     co_loop c = (if n = 0 then 0 else 1 + i mod n) \<and>
     co_name c = name @ ''#'' @ nat_to_string (i + 1) \<and>
     co_handed_over c = co_wire c @ Buffer_content (co_output c) \<and>
     (connections w (co_name c) = Some i \<longleftrightarrow>
        co_state c \<noteq> kDisconnected \<or> RemoveConnectionInLoop i \<in> set (queued w 0)) \<and>
     (\<exists>ch. channel_heap (poller (loops w (co_loop c))) (co_channel c) = Some ch \<and>
        interest (poller (loops w (co_loop c))) (ch_fd ch) =
          (if co_state c = kConnected \<or> co_state c = kDisconnecting
           then Some (ch_events ch, co_channel c) else None))"

lemma sound_object:
  assumes inv: "server_inv w" and o: "objects w i = Some c"
    and w: "loop_count w = n + 1" "srv_name w = name"
  shows "connection_sound_in w name n i c"
proof -
  let ?s = "enter i w"
  have base: "server_base w" using inv by (simp add: server_inv_def)
  have ok: "object_ok i c w" using base o by (auto simp: server_base_def)
  have ci: "conn_inv (threadId (loops w (co_loop c))) ?s" by (rule object_conn_inv [OF base o])
  have "co_loop c = (if n = 0 then 0 else 1 + i mod n)" "co_name c = name @ ''#'' @ nat_to_string (i + 1)"
    using ok w by (auto simp: object_ok_def home_loop_def connection_name_def nat_add_distrib)
  moreover have "co_handed_over c = co_wire c @ Buffer_content (co_output c)"
    using conn_summary [OF ci] o by simp
  moreover have "connections w (co_name c) = Some i \<longleftrightarrow>
      co_state c \<noteq> kDisconnected \<or> RemoveConnectionInLoop i \<in> set (queued w 0)"
  proof -
    have "RemoveConnectionInLoop i \<in> set (queued w 0) \<longleftrightarrow> RemoveConnectionInLoop i \<in> set (about i w 0)"
      by (simp add: about_def)
    with in_phaseD [OF inv o] show ?thesis
      by (cases "co_state c") (auto simp: in_phase_def Let_def)
  qed
  moreover have "channel_heap (poller (loops w (co_loop c))) (co_channel c) = Some (conn_ch ?s)"
    using ci o by (simp add: conn_inv_def conn_pre_def conn_registered_def)
  moreover have "interest (poller (loops w (co_loop c))) (ch_fd (conn_ch ?s)) =
      (if co_state c = kConnected \<or> co_state c = kDisconnecting
       then Some (ch_events (conn_ch ?s), co_channel c) else None)"
    using conn_open_interest [OF ci] o by (simp add: conn_open_def)
  ultimately show ?thesis unfolding connection_sound_in_def by blast
qed

text \<open>The connections that the accept loop takes: those before the first error.\<close>

fun accepted_first :: "accept_result list \<Rightarrow> accepted list" where
  "accepted_first (Accepted a # rs) = a # accepted_first rs"
| "accepted_first _ = []"

subsection \<open>What never changes\<close>

text \<open>The number of loops, the server's name and its acceptor stay as they are when the server runs.\<close>

definition server_id :: "'x server_world \<Rightarrow> nat \<times> string \<times> acceptor" where
  "server_id w = (loop_count w, srv_name w, acceptor w)"

lemma server_id_simps [simp]:
  "server_id (leave l i s) = server_id (tcp_connection.more s)"
  "server_id (queue_in me l f w) = server_id w"
  by (simp_all add: server_id_def queue_in_def)

lemma served_step_id:
  assumes "server_base w" and "objects w i = Some c"
    and "served_step (threadId (loops w (co_loop c))) (co_loop c) i (enter i w) s'"
  shows "server_id (leave (co_loop c) i s') = server_id w"
proof -
  have "server_id (tcp_connection.more s') = server_id (tcp_connection.more (enter i w))"
    using taken_out_enter [OF assms(1,2)] assms(3)
    by (auto simp: served_step_def still_there_def just_closed_def server_id_def queue_in_def split: if_splits)
  then show ?thesis by (simp add: server_id_def)
qed

text \<open>The object of a connection that is taken out of the world, and after its channel was removed.\<close>

lemma object_of_enter:
  "objects w i = Some c \<Longrightarrow> object_of (co_loop c) (enter i w) = c"
  by (cases c) (simp add: enter_def Let_def)

lemma connectDestroyed_object:
  assumes "TcpConnection_connectDestroyed me cbs s = Inr s'" and "conn_state s \<noteq> kConnected"
  shows "object_of l s' = object_of l s"
  using assms by (auto simp: TcpConnection_connectDestroyed_def EventLoop_removeChannel_def returned)

context server_user
begin

lemma event_id:
  assumes "server_base w" and "connection_event cbs i ev w = Inr w'" and "\<And>f. ev \<noteq> Called (Enqueue f)"
  shows "server_id w' = server_id w"
proof -
  obtain c where o: "objects w i = Some c"
    using assms(2) by (auto simp: connection_event_def on_connection_def split: option.splits)
  let ?me = "threadId (loops w (co_loop c))"
  obtain s' where s': "TcpConnection_event ?me (cbs ?me (co_loop c) i) (enter i w) ev = Inr s'"
    "w' = leave (co_loop c) i s'"
    using assms(2) o by (auto simp: connection_event_def on_connection_def returned)
  from served_step_id [OF assms(1) o event_step [OF s'(1) assms(3)]] s'(2) show ?thesis by simp
qed

lemma established_id:
  assumes "server_base w" and o: "objects w i = Some c" and me: "me = threadId (loops w (co_loop c))"
    and run: "server_exec cbs me (ConnectEstablished i) w = Inr w'"
  shows "server_id w' = server_id w"
proof -
  obtain s' where s': "TcpConnection_connectEstablished me (cbs me (co_loop c) i) (enter i w) = Inr s'"
    "w' = leave (co_loop c) i s'"
    using run o by (auto simp: server_exec_def on_connection_def returned)
  from served_step_id [OF assms(1) o, of s'] establish_step [OF s'(1)] s'(2) me show ?thesis by simp
qed

text \<open>
  What running a functor does: nothing to the connections, or one of them is established or has its
  channel removed.
\<close>

lemma run_functor_cases:
  assumes inv: "server_inv w" and run: "run_functor_of cbs l w = Inr w'"
  obtains (quiet) "same_objects w w'"
  | (operated) v i c s' where "same_objects w v" and "server_base v" and "objects v i = Some c" and "l = co_loop c"
      and "w' = leave l i s'" and "served_step (threadId (loops v l)) l i (enter i v) s'"
      and "conn_inv (threadId (loops v l)) s'"
      and "TcpConnection_connectEstablished (threadId (loops v l)) (cbs (threadId (loops v l)) l i) (enter i v) = Inr s' \<and>
             co_state c = kConnecting \<or> object_of l s' = c"
proof (cases "running w l")
  case Nil
  with run show ?thesis by (intro quiet) (auto simp: run_functor_of_def same_objects_def)
next
  case (Cons f fs)
  let ?w = "w\<lparr>running := (running w)(l := fs)\<rparr>"
  let ?i = "target f"
  let ?me = "threadId (loops w l)"
  have exec: "server_exec cbs ?me f ?w = Inr w'" using Cons run by (simp add: run_functor_of_def)
  have same: "same_objects w ?w" by (simp add: same_objects_def)
  obtain c where o: "objects ?w ?i = Some c" and base: "server_base ?w"
    and f: "f = ConnectEstablished ?i \<and> l = co_loop c \<and> co_state c = kConnecting \<and> connections ?w (co_name c) = Some ?i \<or>
         f = RemoveConnectionInLoop ?i \<and> l = 0 \<and> co_state c = kDisconnected \<and> connections ?w (co_name c) = Some ?i \<or>
         f = ConnectDestroyed ?i \<and> l = co_loop c \<and> co_state c = kDisconnected \<and> connections ?w (co_name c) \<noteq> Some ?i"
    by (rule popped [OF inv Cons])
  have ci: "conn_inv (threadId (loops w (co_loop c))) (enter ?i ?w)" using object_conn_inv [OF base o] by simp
  from f consider
      (established) "f = ConnectEstablished ?i" "l = co_loop c" "co_state c = kConnecting"
    | (remove) "f = RemoveConnectionInLoop ?i" "l = 0"
    | (destroyed) "f = ConnectDestroyed ?i" "l = co_loop c" "co_state c = kDisconnected" by blast
  then show ?thesis
  proof cases
    case established
    then have "server_exec cbs ?me (ConnectEstablished ?i) ?w = Inr w'" using exec by simp
    then obtain s' where s': "TcpConnection_connectEstablished ?me (cbs ?me l ?i) (enter ?i ?w) = Inr s'"
      "w' = leave l ?i s'"
      using o established(2) by (auto simp: server_exec_def on_connection_def returned)
    have "conn_state (enter ?i ?w) = kConnecting" using o established(3) by simp
    from user.connectEstablished_ok [OF ci this, of l ?i] s'(1) established(2)
    have "conn_inv ?me s'" by simp
    with s' show ?thesis
      using operated [OF same base o established(2) s'(2)] establish_step [OF s'(1)] established(3) by simp
  next
    case remove
    then have "server_exec cbs ?me (RemoveConnectionInLoop ?i) ?w = Inr w'" using exec by simp
    then have "TcpServer_removeConnectionInLoop ?me ?i ?w = Inr w'"
      by (simp add: server_exec_def split: if_splits)
    with o show ?thesis
      by (intro quiet) (auto simp: TcpServer_removeConnectionInLoop_def returned same_objects_def queue_in_def)
  next
    case destroyed
    have st: "conn_state (enter ?i ?w) = kDisconnected" using o destroyed(3) by simp
    obtain s' where s': "TcpConnection_connectDestroyed ?me (cbs ?me l ?i) (enter ?i ?w) = Inr s'"
      "conn_inv ?me s'" "served_step ?me l ?i (enter ?i ?w) s'"
      by (rule destroyed_state [OF ci [folded destroyed(2)] st, where cbs = "cbs ?me l ?i"])
    have "server_exec cbs ?me (ConnectDestroyed ?i) ?w = Inr (leave l ?i s')"
      using o s'(1) destroyed(2) by (simp add: server_exec_def on_connection_def)
    moreover have "server_exec cbs ?me (ConnectDestroyed ?i) ?w = Inr w'" using exec destroyed(1) by simp
    ultimately have w': "w' = leave l ?i s'" by simp
    have "object_of l s' = object_of l (enter ?i ?w)" using connectDestroyed_object [OF s'(1)] st by simp
    with object_of_enter [OF o] destroyed(2) s'(2,3) show ?thesis
      using operated [OF same base o destroyed(2) w'] by simp
  qed
qed

lemma run_functor_id:
  assumes "server_inv w" and "run_functor_of cbs l w = Inr w'"
  shows "server_id w' = server_id w"
  using assms
proof (cases rule: run_functor_cases)
  case (operated v i c s')
  with served_step_id [OF operated(2,3), of s'] show ?thesis by (simp add: same_objects_def server_id_def)
qed (simp add: same_objects_def server_id_def)

lemma newConnection_id:
  assumes inv: "server_inv w" and fresh: "fresh_accept w a"
    and run: "TcpServer_newConnection cbs (threadId (loops w 0)) a w = Inr w'"
  shows "server_id w' = server_id w"
proof -
  let ?me = "threadId (loops w 0)"
  let ?l = "home_loop (loop_count w) (created w)"
  let ?nm = "connection_name (srv_name w) (nextConnId w)"
  let ?c = "new_object ?l ?nm (acc_address a) (acc_reads a) (acc_writes a) :: 'x connection_object"
  have base: "server_base w" using inv by (simp add: server_inv_def)
  obtain p where p: "EventLoopThreadPool_getNextLoop ?me w = Inr (?l, w\<lparr>pool := p\<rparr>)"
    "pool_started p" "pool_loops p = [1..<loop_count w]"
    "pool_next p = (if loop_count w = 1 then 0 else (created w + 1) mod (loop_count w - 1))"
    by (rule nextLoop [OF base])
  define v where "v = w\<lparr>pool := p, nextConnId := nextConnId w + 1, created := created w + 1,
      loops := (loops w)(?l := (loops w ?l)\<lparr>poller := put_channel (acc_address a) (Channel_new (acc_fd a)) (poller (loops w ?l))\<rparr>),
      objects := (objects w)(created w \<mapsto> ?c), connections := (connections w)(?nm \<mapsto> created w)\<rparr>"
  note cr = created_base [OF inv fresh p(2-4), folded v_def]
  have id: "server_id v = server_id w" by (simp add: v_def server_id_def)
  have "run_in ?me ?l (server_exec cbs ?me (ConnectEstablished (created w))) (ConnectEstablished (created w)) v = Inr w'"
    unfolding v_def using p(1) run
    by (auto simp: TcpServer_newConnection_def EventLoop_assertInLoopThread_def EventLoop_isInLoopThread_def
        Let_def split: if_splits)
  then consider "EventLoop_isInLoopThread ?me (loops v ?l)"
      "server_exec cbs ?me (ConnectEstablished (created w)) v = Inr w'"
    | "w' = queue_in ?me ?l (ConnectEstablished (created w)) v"
    by (auto simp: run_in_def split: if_splits)
  then show ?thesis
  proof cases
    case 1
    then show ?thesis
      using established_id [OF cr(1,4) _ 1(2)] id by (simp add: EventLoop_isInLoopThread_def new_object_def)
  qed (simp add: id)
qed

text \<open>
  What holds of the accepted connections and the world, and goes on to hold when \<open>newConnection\<close> takes
  one more, holds after the accept loop, which takes those before the first error.
\<close>

lemma accept_loop_induct:
  assumes "server_inv w" and "me = threadId (loops w 0)" and "\<And>a. a \<in> set (accepted_of rs) \<Longrightarrow> fresh_accept w a"
    and "distinct (map acc_fd (accepted_of rs))" and "distinct (map acc_address (accepted_of rs))"
    and run: "Acceptor_accept_loop (Some (TcpServer_newConnection cbs me)) rs w = Inr w'"
    and start: "P as w"
    and step: "\<And>w w' a as. server_inv w \<Longrightarrow> fresh_accept w a \<Longrightarrow>
      TcpServer_newConnection cbs (threadId (loops w 0)) a w = Inr w' \<Longrightarrow> P as w \<Longrightarrow> P (as @ [a]) w'"
  shows "P (as @ accepted_first rs) w'"
  using assms(1-7)
proof (induction rs arbitrary: w as)
  case (Cons r rs)
  show ?case
  proof (cases r)
    case (AcceptErr e)
    with Cons.prems(6,7) show ?thesis
      by (auto simp: accept_loop_stops split: if_splits simp del: Acceptor_accept_loop.simps)
  next
    case (Accepted a)
    obtain w1 where w1: "TcpServer_newConnection cbs me a w = Inr w1"
      "Acceptor_accept_loop (Some (TcpServer_newConnection cbs me)) rs w1 = Inr w'"
      using Cons.prems(6) unfolding Accepted accept_loop_goes_on by (auto simp: returned)
    have fresh: "fresh_accept w a" using Cons.prems(3) Accepted by simp
    have next_inv: "server_inv w1" "me = threadId (loops w1 0)"
      "\<And>b. fresh_accept w b \<Longrightarrow> acc_fd b \<noteq> acc_fd a \<Longrightarrow> acc_address b \<noteq> acc_address a \<Longrightarrow> fresh_accept w1 b"
      using newConnection_inv [OF Cons.prems(1) fresh, folded Cons.prems(2)] w1(1) Cons.prems(2) by simp_all
    have "P (as @ [a]) w1" using step [OF Cons.prems(1) fresh _ Cons.prems(7)] w1(1) Cons.prems(2) by simp
    then have "P ((as @ [a]) @ accepted_first rs) w'"
    proof (rule Cons.IH [OF next_inv(1,2), rotated -1])
      fix b
      assume b: "b \<in> set (accepted_of rs)"
      then have "acc_fd b \<noteq> acc_fd a" "acc_address b \<noteq> acc_address a"
        using Cons.prems(4,5) Accepted by (auto simp: image_iff)
      with b show "fresh_accept w1 b" using next_inv(3) Cons.prems(3) Accepted by simp
    qed (use Cons.prems(4,5) Accepted w1(2) in simp_all)
    with Accepted show ?thesis by simp
  qed
qed simp

lemma accept_loop_id:
  assumes "server_inv w" and "me = threadId (loops w 0)" and "\<And>a. a \<in> set (accepted_of rs) \<Longrightarrow> fresh_accept w a"
    and "distinct (map acc_fd (accepted_of rs))" and "distinct (map acc_address (accepted_of rs))"
    and "Acceptor_accept_loop (Some (TcpServer_newConnection cbs me)) rs w = Inr w'"
  shows "server_id w' = server_id w"
  by (rule accept_loop_induct [OF assms, where P = "\<lambda>as v. server_id v = server_id w" and as = "[]"])
    (use newConnection_id in simp_all)

lemma server_step_id:
  assumes inv: "server_inv w" and lab: "sound_label w lab" and run: "server_step cbs w lab = Inr w'"
  shows "server_id w' = server_id w"
proof -
  have base: "server_base w" using inv by (simp add: server_inv_def)
  show ?thesis
  proof (cases lab)
    case (AcceptReady rs)
    with run lab accept_loop_id [OF inv refl, of rs w'] show ?thesis
      by (auto simp: Acceptor_handleRead_def EventLoop_assertInLoopThread_def EventLoop_isInLoopThread_def
          Let_def split: if_splits)
  next
    case (TakeFunctors l)
    with run show ?thesis by (auto simp: take_functors_def server_id_def Let_def)
  next
    case (RunFunctor l)
    with run run_functor_id [OF inv] show ?thesis by simp
  next
    case (ConnReady i r)
    with run event_id [OF base] show ?thesis by simp
  next
    case (ConnPolled i r)
    with run event_id [OF base] show ?thesis by simp
  next
    case (UserCall i u)
    with run event_id [OF base] show ?thesis by simp
  next
    case (Release i)
    with run show ?thesis
      by (auto simp: TcpConnection_delete_def server_id_def returned Let_def split: option.splits)
  qed
qed

lemma run_id: "server_run cbs w0 w \<Longrightarrow> server_inv w0 \<Longrightarrow> server_id w = server_id w0"
proof (induction rule: server_run.induct)
  case (step_run w lab w')
  then have "server_inv w" using run_inv by blast
  from server_step_id [OF this step_run.hyps(2,3)] step_run show ?case by simp
qed simp

end

section \<open>Soundness of a server\<close>

lemma acceptor_interest:
  assumes base: "server_base w" and "listening (acceptor w)"
  shows "\<exists>ch. channel_heap (poller (loops w 0)) (acc_channel (acceptor w)) = Some ch \<and>
      interest (poller (loops w 0)) (ch_fd ch) = Some (kReadEvent, acc_channel (acceptor w))"
proof -
  obtain ch where ch: "channel_heap (poller (loops w 0)) (acc_channel (acceptor w)) = Some ch"
    "ch_index ch = kAdded" "ch_events ch = kReadEvent"
    using assms by (auto simp: server_base_def acceptor_ok_def)
  have p: "poller_inv (poller (loops w 0))" "distinct_fds (poller (loops w 0))"
    using base by (simp_all add: server_base_def loops_ok_def)
  from poller_inv_interest [OF p(1) ch(1) distinct_fds_sole_user [OF p ch(1)]] ch show ?thesis by simp
qed

text \<open>
  C2: From its start with \<open>n\<close> threads on, whatever the user's program does in its callbacks and in
  whatever order the threads handle events, functors and reports on the listening descriptor: a step
  fails only because the stack runs out, or, in the acceptor, because \<open>nextConnId_\<close> overflows or
  \<open>accept\<close> has an unexpected error, or, by an assertion, when a report that was polled earlier in the
  turn is dispatched to a connection that has been closed since. Every connection that exists is in
  its loop by round robin, has the name made of the server's and its number, has put on the wire or
  buffers exactly what was handed over, is in the server's map until it has closed and its removal has
  run, and is watched exactly while it is open. The map holds no pointer to a deleted connection, and
  the listening descriptor is watched for reading.
\<close>

theorem server_sound:
  assumes "sound_resources me resources n" and "distinct [snd wakeup, snd timer, snd listen]"
    and "distinct [fst wakeup, fst timer, fst listen]"
    and start: "server_started me now wakeup timer name listen n resources = Inr w0"
    and run: "server_run (program_callbacks prog depth) w0 w"
  shows "(\<forall>lab x. sound_label w lab \<and> server_step (program_callbacks prog depth) w lab = Inl x \<longrightarrow>
            x = StackOverflow \<or> (\<exists>rs. lab = AcceptReady rs \<and> accept_fault w rs x) \<or>
            (\<exists>i r c. lab = ConnPolled i r \<and> objects w i = Some c \<and> co_state c = kDisconnected \<and> x = AssertionFailed)) \<and>
         (\<forall>i c. objects w i = Some c \<longrightarrow> connection_sound_in w name n i c) \<and>
         (\<forall>nm i. connections w nm = Some i \<longrightarrow> (\<exists>c. objects w i = Some c \<and> co_name c = nm)) \<and>
         (\<exists>ch. channel_heap (poller (loops w 0)) (acc_channel (acceptor w)) = Some ch \<and>
            interest (poller (loops w 0)) (ch_fd ch) = Some (kReadEvent, acc_channel (acceptor w)))"
proof -
  note w0 = started_inv [OF assms(1-4)]
  have inv: "server_inv w" by (rule programs.run_inv [OF run w0(1)])
  then have base: "server_base w" by (simp add: server_inv_def)
  have "server_id w = server_id w0" by (rule programs.run_id [OF run w0(1)])
  then have id: "loop_count w = n + 1" "srv_name w = name" "listening (acceptor w)"
    using w0(2-4) by (simp_all add: server_id_def)
  have "x = StackOverflow \<or> (\<exists>rs. lab = AcceptReady rs \<and> accept_fault w rs x) \<or>
      (\<exists>i r c. lab = ConnPolled i r \<and> objects w i = Some c \<and> co_state c = kDisconnected \<and> x = AssertionFailed)"
    if "sound_label w lab" "server_step (program_callbacks prog depth) w lab = Inl x" for lab x
    using programs.server_step_ok [OF inv that(1), of prog depth] that(2)
    by (auto simp: fault_of_step_def stack_fault_def split: server_label.splits)
  moreover have "\<exists>c. objects w i = Some c \<and> co_name c = nm" if "connections w nm = Some i" for nm i
    using base that by (simp add: server_base_def)
  ultimately show ?thesis
    using sound_object [OF inv _ id(1,2)] acceptor_interest [OF base id(3)] by blast
qed

text \<open>A server with one thread, and its first step: a connection is accepted.\<close>

abbreviation demo_resources :: "nat \<Rightarrow> thread_resources" where
  "demo_resources \<equiv> (\<lambda>i. \<lparr>new_tid = 2, new_wakeupFd = 6, new_wakeupChannel = 88, new_timerfd = 7, new_timerfdChannel = 96\<rparr>)"

abbreviation demo_program :: "unit served server_program" where
  "demo_program \<equiv> \<lparr>prog_connection = (\<lambda>s. [CallSend ''hi'']), prog_message = (\<lambda>s. [CallShutdown]), prog_complete = (\<lambda>s. [])\<rparr>"

abbreviation closing_program :: "unit served server_program" where
  "closing_program \<equiv> \<lparr>prog_connection = (\<lambda>s. [CallForceClose]), prog_message = (\<lambda>s. []), prog_complete = (\<lambda>s. [])\<rparr>"

abbreviation demo_accepted :: accepted where
  "demo_accepted \<equiv> \<lparr>acc_fd = 9, acc_address = 200, acc_reads = [], acc_writes = []\<rparr>"

lemma demo_run:
  obtains w0 w :: "unit server_world" and c
  where "sound_resources 1 demo_resources 1"
    and "server_started 1 (Timestamp 0) (3, 64) (4, 72) ''web'' (5, 80) 1 demo_resources = Inr w0"
    and "server_run (program_callbacks demo_program 2) w0 w" and "objects w 0 = Some c"
    and "pendingFunctors (loops w 1) = [ConnectEstablished 0]"
proof -
  have res: "sound_resources 1 demo_resources 1" by (simp add: sound_resources_def)
  obtain w0 :: "unit server_world" and p
    where w0: "server_started 1 (Timestamp 0) (3, 64) (4, 72) ''web'' (5, 80) 1 demo_resources = Inr w0"
      and just: "just_started 1 (Timestamp 0) (3, 64) (4, 72) ''web'' (5, 80) 1 demo_resources p w0"
    by (rule started_state [OF res, of "(3, 64)" "(4, 72)" "(5, 80)"]) simp_all
  have lab: "sound_label w0 (AcceptReady [Accepted demo_accepted])"
    using started_fresh [OF just, of demo_accepted] by simp
  have "\<exists>w c. server_step (program_callbacks demo_program 2) w0 (AcceptReady [Accepted demo_accepted]) = Inr w \<and>
      objects w 0 = Some c \<and> pendingFunctors (loops w 1) = [ConnectEstablished 0]"
    using just
    by (simp add: just_started_def Acceptor_handleRead_def sockets_accept_def TcpServer_newConnection_def
        EventLoopThreadPool_getNextLoop_def EventLoop_assertInLoopThread_def EventLoop_isInLoopThread_def
        run_in_def pool_loop_def queue_in_def Let_def)
  then obtain w c where w: "server_step (program_callbacks demo_program 2) w0 (AcceptReady [Accepted demo_accepted]) = Inr w"
    "objects w 0 = Some c" "pendingFunctors (loops w 1) = [ConnectEstablished 0]" by blast
  show ?thesis by (rule that [OF res w0 step_run [OF begin_run lab w(1)] w(2,3)])
qed

lemma server_sound_witness:
  "\<exists>w0 w :: unit server_world. \<exists>c.
     server_started 1 (Timestamp 0) (3, 64) (4, 72) ''web'' (5, 80) 1 demo_resources = Inr w0 \<and>
     server_run (program_callbacks demo_program 2) w0 w \<and>
     objects w 0 = Some c \<and> connection_sound_in w ''web'' 1 0 c"
proof -
  obtain w0 w :: "unit server_world" and c where w: "sound_resources 1 demo_resources 1"
    "server_started 1 (Timestamp 0) (3, 64) (4, 72) ''web'' (5, 80) 1 demo_resources = Inr w0"
    "server_run (program_callbacks demo_program 2) w0 w" "objects w 0 = Some c"
    by (rule demo_run)
  have "connection_sound_in w ''web'' 1 0 c" using server_sound [OF w(1) _ _ w(2,3)] w(4) by simp
  with w(2-4) show ?thesis by blast
qed

section \<open>The functors of a server run out\<close>

text \<open>The steps of \<open>doPendingFunctors\<close>, and how many functors a sequence of steps calls.\<close>

fun is_functor_step :: "server_label \<Rightarrow> bool" where
  "is_functor_step (TakeFunctors l) = True"
| "is_functor_step (RunFunctor l) = True"
| "is_functor_step lab = False"

fun functor_calls :: "'x served_callbacks \<Rightarrow> 'x server_world \<Rightarrow> server_label list \<Rightarrow> nat" where
  "functor_calls cbs w [] = 0"
| "functor_calls cbs w (lab # labs) =
     (case lab of RunFunctor l \<Rightarrow> if running w l = [] then 0 else 1 | _ \<Rightarrow> 0) +
     (case server_step cbs w lab of Inl x \<Rightarrow> 0 | Inr w' \<Rightarrow> functor_calls cbs w' labs)"

lemma idle_run_functor:
  assumes "running w l = []" and "run_functor_of cbs l w = Inr w'"
  shows "functor_work w' = functor_work w" and "loop_count w' = loop_count w"
    and "running w' = running w" and "pendingFunctors (loops w' l) = pendingFunctors (loops w l)"
    and "\<not> callingPendingFunctors (loops w' l)"
  using assms by (auto simp: run_functor_of_def queued_def intro!: functor_work_same)

lemma take_functors_work:
  "functor_work (take_functors l w) = functor_work w" "loop_count (take_functors l w) = loop_count w"
  by (auto simp: take_functors_def Let_def queued_def intro!: functor_work_same)

context server_user
begin

lemma functor_step_work:
  assumes "server_inv w" and "is_functor_step lab" and "server_step cbs w lab = Inr w'"
  shows "functor_calls cbs w [lab] + functor_work w' \<le> functor_work w" and "server_inv w'"
    and "loop_count w' = loop_count w"
proof -
  consider l where "lab = TakeFunctors l" | l where "lab = RunFunctor l" using assms(2) by (cases lab) auto
  then have "functor_calls cbs w [lab] + functor_work w' \<le> functor_work w \<and> loop_count w' = loop_count w"
  proof cases
    case 1
    with assms(3) show ?thesis by (auto simp: take_functors_work)
  next
    case (2 l)
    then have run: "run_functor_of cbs l w = Inr w'" using assms(3) by simp
    show ?thesis
    proof (cases "running w l")
      case Nil
      with idle_run_functor [OF Nil run] 2 assms(3) show ?thesis by simp
    next
      case (Cons f fs)
      with run_functor_work [OF assms(1) Cons run] 2 assms(3) show ?thesis by simp
    qed
  qed
  then show "functor_calls cbs w [lab] + functor_work w' \<le> functor_work w" "loop_count w' = loop_count w" by auto
  have "sound_label w lab" using assms(2) by (cases lab) auto
  from server_step_ok [OF assms(1) this] assms(3) show "server_inv w'" by simp
qed

lemma functor_steps_work:
  assumes "server_inv w" and "\<forall>lab \<in> set labs. is_functor_step lab" and "for_each (server_step cbs) w labs = Inr w'"
  shows "functor_calls cbs w labs + functor_work w' \<le> functor_work w"
  using assms
proof (induction labs arbitrary: w)
  case (Cons lab labs)
  obtain w1 where w1: "server_step cbs w lab = Inr w1" "for_each (server_step cbs) w1 labs = Inr w'"
    using Cons.prems(3) by (auto simp: returned)
  have lab: "is_functor_step lab" using Cons.prems(2) by simp
  note step = functor_step_work [OF Cons.prems(1) lab w1(1)]
  have "functor_calls cbs w1 labs + functor_work w' \<le> functor_work w1"
    using Cons.IH [OF step(2)] Cons.prems(2) w1(2) by simp
  moreover have "functor_calls cbs w (lab # labs) = functor_calls cbs w [lab] + functor_calls cbs w1 labs"
    using w1(1) by simp
  ultimately show ?case using step(1) by linarith
qed simp

text \<open>A loop with functors: it calls the next one in at most three steps of its own.\<close>

lemma functor_called:
  assumes inv: "server_inv w" and q: "queued w l \<noteq> []"
  obtains labs where "\<forall>lab \<in> set labs. is_functor_step lab"
    and "case for_each (server_step cbs) w labs of
           Inl x \<Rightarrow> \<exists>ctx. ok ctx x
         | Inr w' \<Rightarrow> server_inv w' \<and> functor_work w' < functor_work w"
proof (cases "running w l")
  case (Cons f fs)
  have "case run_functor_of cbs l w of Inl x \<Rightarrow> \<exists>ctx. ok ctx x | Inr w' \<Rightarrow> server_inv w'"
    by (rule run_functor_inv [OF inv])
  with run_functor_work(1) [OF inv Cons] show ?thesis
    by (intro that [of "[RunFunctor l]"]) (auto split: sum.splits)
next
  case Nil
  then obtain w1 where w1: "run_functor_of cbs l w = Inr w1" by (simp add: run_functor_of_def)
  note idle = idle_run_functor [OF Nil w1]
  let ?w2 = "take_functors l w1"
  have inv1: "server_inv w1" using run_functor_inv [OF inv, of l] w1 by simp
  have inv2: "server_inv ?w2" by (rule take_functors_inv [OF inv1])
  obtain f fs where r: "running ?w2 l = f # fs"
    using q Nil idle(3-5) by (cases "pendingFunctors (loops w l)") (auto simp: take_functors_def Let_def queued_def)
  have work: "functor_work ?w2 = functor_work w" using idle(1) by (simp add: take_functors_work)
  have "case run_functor_of cbs l ?w2 of Inl x \<Rightarrow> \<exists>ctx. ok ctx x | Inr w' \<Rightarrow> server_inv w'"
    by (rule run_functor_inv [OF inv2])
  with run_functor_work(1) [OF inv2 r] work w1 show ?thesis
    by (intro that [of "[RunFunctor l, TakeFunctors l, RunFunctor l]"]) (auto split: sum.splits)
qed

lemma functors_drain:
  assumes "server_inv w"
  shows "\<exists>labs. (\<forall>lab \<in> set labs. is_functor_step lab) \<and>
           (case for_each (server_step cbs) w labs of
              Inl x \<Rightarrow> \<exists>ctx. ok ctx x
            | Inr w' \<Rightarrow> server_inv w' \<and> functor_work w' = 0)"
  using assms
proof (induction "functor_work w" arbitrary: w rule: less_induct)
  case less
  show ?case
  proof (cases "functor_work w = 0")
    case True
    with less.prems show ?thesis by (intro exI [of _ "[]"]) simp
  next
    case False
    then obtain l where "queued w l \<noteq> []" by (auto simp: functor_work_0)
    then obtain labs where labs: "\<forall>lab \<in> set labs. is_functor_step lab"
      "case for_each (server_step cbs) w labs of
         Inl x \<Rightarrow> \<exists>ctx. ok ctx x | Inr w' \<Rightarrow> server_inv w' \<and> functor_work w' < functor_work w"
      by (rule functor_called [OF less.prems])
    show ?thesis
    proof (cases "for_each (server_step cbs) w labs")
      case (Inl x)
      with labs show ?thesis by (intro exI [of _ labs]) simp
    next
      case (Inr w1)
      with labs(2) less.hyps [of w1] obtain more where more: "\<forall>lab \<in> set more. is_functor_step lab"
        "case for_each (server_step cbs) w1 more of
           Inl x \<Rightarrow> \<exists>ctx. ok ctx x | Inr w' \<Rightarrow> server_inv w' \<and> functor_work w' = 0" by auto
      then show ?thesis using labs(1) Inr by (intro exI [of _ "labs @ more"]) (auto simp: for_each_append)
    qed
  qed
qed

end

text \<open>A connection of a server with nothing left to call.\<close>

definition settled :: "'x server_world \<Rightarrow> nat \<Rightarrow> 'x connection_object \<Rightarrow> bool" where
  "settled w i c \<longleftrightarrow>
     (if connections w (co_name c) = Some i then co_state c = kConnected \<or> co_state c = kDisconnecting
      else co_state c = kDisconnected \<and>
        (\<exists>ch. channel_heap (poller (loops w (co_loop c))) (co_channel c) = Some ch \<and> ch_index ch = kNew \<and>
           interest (poller (loops w (co_loop c))) (ch_fd ch) = None))"

lemma settled_object:
  assumes inv: "server_inv w" and "\<forall>l<loop_count w. queued w l = []" and o: "objects w i = Some c"
  shows "settled w i c"
proof -
  have base: "server_base w" using inv by (simp add: server_inv_def)
  have l: "co_loop c < loop_count w" "0 < loop_count w"
    using object_loop [OF base o] base by (simp_all add: server_base_def pool_ok_def)
  then have none: "about i w \<noteq> nothing(co_loop c := [f])" "about i w \<noteq> nothing(0 := [f])" for f
    using assms(2) by (auto simp: about_def fun_eq_iff)
  note ph = in_phaseD [OF inv o, unfolded in_phase_def Let_def]
  have ci: "conn_inv (threadId (loops w (co_loop c))) (enter i w)" by (rule object_conn_inv [OF base o])
  have heap: "channel_heap (poller (loops w (co_loop c))) (co_channel c) = Some (conn_ch (enter i w))"
    using ci o by (simp add: conn_inv_def conn_pre_def conn_registered_def)
  have int: "co_state c = kDisconnected \<Longrightarrow> interest (poller (loops w (co_loop c))) (ch_fd (conn_ch (enter i w))) = None"
    using conn_open_interest [OF ci] o by (simp add: conn_open_def)
  show ?thesis
    unfolding settled_def using ph none heap int by (cases "co_state c") auto
qed

text \<open>
  C10: However the threads take turns, the functors queued in the loops of a running server run out:
  the functors that a sequence of steps of \<open>doPendingFunctors\<close> calls are at most \<open>functor_work\<close>,
  although they queue others (3 for a connection to establish, 2 for one to remove, 1 for one to
  destroy). And the threads can always go on: there is a sequence of such steps that ends with every
  queue empty (unless a callback exhausts the stack), and then each connection is open and known to
  the server, or closed, forgotten, and out of the poller.
\<close>

theorem functors_run_out:
  assumes "sound_resources me resources n" and "distinct [snd wakeup, snd timer, snd listen]"
    and "distinct [fst wakeup, fst timer, fst listen]"
    and "server_started me now wakeup timer name listen n resources = Inr w0"
    and run: "server_run (program_callbacks prog depth) w0 w"
  shows "(\<forall>labs w'. (\<forall>lab \<in> set labs. is_functor_step lab) \<and>
            for_each (server_step (program_callbacks prog depth)) w labs = Inr w' \<longrightarrow>
            functor_calls (program_callbacks prog depth) w labs + functor_work w' \<le> functor_work w) \<and>
         (\<exists>labs. (\<forall>lab \<in> set labs. is_functor_step lab) \<and>
            (case for_each (server_step (program_callbacks prog depth)) w labs of
               Inl x \<Rightarrow> x = StackOverflow
             | Inr w' \<Rightarrow> (\<forall>l<loop_count w'. queued w' l = []) \<and>
                 (\<forall>i c. objects w' i = Some c \<longrightarrow> settled w' i c)))"
proof -
  note w0 = started_inv [OF assms(1-4)]
  have inv: "server_inv w" by (rule programs.run_inv [OF run w0(1)])
  obtain labs where labs: "\<forall>lab \<in> set labs. is_functor_step lab"
    "case for_each (server_step (program_callbacks prog depth)) w labs of
       Inl x \<Rightarrow> \<exists>ctx :: 'a option. stack_fault ctx x
     | Inr w' \<Rightarrow> server_inv w' \<and> functor_work w' = 0"
    using programs.functors_drain [OF inv, of prog depth] by blast
  have "case for_each (server_step (program_callbacks prog depth)) w labs of
      Inl x \<Rightarrow> x = StackOverflow
    | Inr w' \<Rightarrow> (\<forall>l<loop_count w'. queued w' l = []) \<and> (\<forall>i c. objects w' i = Some c \<longrightarrow> settled w' i c)"
    using labs(2) settled_object by (auto simp: stack_fault_def functor_work_0 split: sum.splits)
  with labs(1) show ?thesis using programs.functor_steps_work [OF inv] by blast
qed

lemma functors_run_out_witness:
  "\<exists>w0 w :: unit server_world. server_run (program_callbacks demo_program 2) w0 w \<and>
     pendingFunctors (loops w 1) = [ConnectEstablished 0] \<and>
     (\<exists>labs. case for_each (server_step (program_callbacks demo_program 2)) w labs of
         Inl x \<Rightarrow> x = StackOverflow | Inr w' \<Rightarrow> (\<forall>l<loop_count w'. queued w' l = []))"
proof -
  obtain w0 w :: "unit server_world" and c where w: "sound_resources 1 demo_resources 1"
    "server_started 1 (Timestamp 0) (3, 64) (4, 72) ''web'' (5, 80) 1 demo_resources = Inr w0"
    "server_run (program_callbacks demo_program 2) w0 w" "objects w 0 = Some c"
    "pendingFunctors (loops w 1) = [ConnectEstablished 0]"
    by (rule demo_run)
  have fds: "distinct [snd (3, 64), snd (4, 72), snd (5, 80 :: addr)]" "distinct [fst (3, 64), fst (4, 72), fst (5 :: int, 80)]"
    by simp_all
  obtain labs where "case for_each (server_step (program_callbacks demo_program 2)) w labs of
         Inl x \<Rightarrow> x = StackOverflow
       | Inr w' \<Rightarrow> (\<forall>l<loop_count w'. queued w' l = []) \<and> (\<forall>i c. objects w' i = Some c \<longrightarrow> settled w' i c)"
    using conjunct2 [OF functors_run_out [OF w(1) fds w(2,3)]] by blast
  then have "case for_each (server_step (program_callbacks demo_program 2)) w labs of
         Inl x \<Rightarrow> x = StackOverflow | Inr w' \<Rightarrow> (\<forall>l<loop_count w'. queued w' l = [])"
    by (simp split: sum.splits)
  with w(3,5) show ?thesis by blast
qed

section \<open>The end of a server\<close>

lemma quit_fields [simp]:
  "pendingFunctors (EventLoop_quit me s) = pendingFunctors s" "quit (EventLoop_quit me s)"
  by (simp_all add: EventLoop_quit_def Let_def EventLoop_wakeup_def)

lemma threads_destroyed:
  "pendingFunctors (loops (fold (EventLoopThread_destroy me) ls w) l) = pendingFunctors (loops w l)"
  "running (fold (EventLoopThread_destroy me) ls w) = running w"
  "acceptor (fold (EventLoopThread_destroy me) ls w) = acceptor w"
  by (induction ls arbitrary: w) (simp_all add: EventLoopThread_destroy_def)

lemma threads_not_destroyed: "l \<notin> set ls \<Longrightarrow> loops (fold (EventLoopThread_destroy me) ls w) l = loops w l"
  by (induction ls arbitrary: w) (simp_all add: EventLoopThread_destroy_def)

lemma threads_quit: "quit (loops w l) \<or> l \<in> set ls \<Longrightarrow> quit (loops (fold (EventLoopThread_destroy me) ls w) l)"
  by (induction ls arbitrary: w) (auto simp: EventLoopThread_destroy_def)

text \<open>The destructor takes down connections of other threads by queueing \<open>connectDestroyed\<close> there.\<close>

definition destroy_there :: "tid \<Rightarrow> nat list \<Rightarrow> 'x server_world \<Rightarrow> 'x server_world" where
  "destroy_there me order w =
     fold (\<lambda>i w. queue_in me (co_loop (the (objects w i))) (ConnectDestroyed i) w) order w"

lemma destroy_there_simps [simp]:
  "destroy_there me [] w = w"
  "destroy_there me (i # is) w =
     destroy_there me is (queue_in me (co_loop (the (objects w i))) (ConnectDestroyed i) w)"
  by (simp_all add: destroy_there_def)

lemma destroy_there_fields:
  "objects (destroy_there me order w) = objects w" "running (destroy_there me order w) = running w"
  "acceptor (destroy_there me order w) = acceptor w" "pool (destroy_there me order w) = pool w"
  "threadId (loops (destroy_there me order w) l) = threadId (loops w l)"
  "poller (loops (destroy_there me order w) l) = poller (loops w l)"
  "callingPendingFunctors (loops (destroy_there me order w) l) = callingPendingFunctors (loops w l)"
  "pendingFunctors (loops (destroy_there me order w) l) = pendingFunctors (loops w l) @
     map ConnectDestroyed (filter (\<lambda>i. co_loop (the (objects w i)) = l) order)"
  by (induction order arbitrary: w) (simp_all add: queue_in_def)

lemma destroyed_elsewhere:
  assumes "threadId (loops w 0) = me" and "\<forall>i \<in> set order. \<exists>c. objects w i = Some c \<and> threadId (loops w (co_loop c)) \<noteq> me"
  shows "for_each (\<lambda>w i.
            case objects w i of
              None \<Rightarrow> Inl UseAfterFree
            | Some c \<Rightarrow> run_in me (co_loop c) (server_exec cbs me (ConnectDestroyed i)) (ConnectDestroyed i) w)
          w order = Inr (destroy_there me order w)"
  using assms
proof (induction order arbitrary: w)
  case (Cons i order)
  obtain c where c: "objects w i = Some c" "threadId (loops w (co_loop c)) \<noteq> me" using Cons.prems(2) by auto
  let ?w = "queue_in me (co_loop c) (ConnectDestroyed i) w"
  have "for_each (\<lambda>w i.
            case objects w i of
              None \<Rightarrow> Inl UseAfterFree
            | Some c \<Rightarrow> run_in me (co_loop c) (server_exec cbs me (ConnectDestroyed i)) (ConnectDestroyed i) w)
          ?w order = Inr (destroy_there me order ?w)"
  proof (rule Cons.IH)
    show "threadId (loops ?w 0) = me" using Cons.prems(1) by (simp add: queue_in_def)
    have "objects ?w j = objects w j" "threadId (loops ?w l) = threadId (loops w l)" for j l
      by (simp_all add: queue_in_def)
    then show "\<forall>j \<in> set order. \<exists>c. objects ?w j = Some c \<and> threadId (loops ?w (co_loop c)) \<noteq> me"
      using Cons.prems(2) by simp
  qed
  with c show ?case by (simp add: run_in_def EventLoop_isInLoopThread_def)
qed simp

lemma destructor_outcome:
  assumes inv: "server_inv w" and n: "1 < loop_count w" and order: "set order = ran (connections w)"
  obtains w' where "TcpServer_destroy cbs (threadId (loops w 0)) order w = Inr w'"
    and "\<not> srv_alive w'" and "connections w' = Map.empty" and "running w' = running w"
    and "\<And>l. pendingFunctors (loops w' l) = pendingFunctors (loops w l) @
           map ConnectDestroyed (filter (\<lambda>i. co_loop (the (objects w i)) = l) order)"
    and "\<And>l. 0 < l \<Longrightarrow> l < loop_count w \<Longrightarrow> quit (loops w' l)"
    and "callingPendingFunctors (loops w' 0) = callingPendingFunctors (loops w 0)"
    and "interest (poller (loops w' 0)) = (interest (poller (loops w 0)))
           (ch_fd (the (channel_heap (poller (loops w 0)) (acc_channel (acceptor w)))) := None)"
    and "channel_heap (poller (loops w' 0)) (acc_channel (acceptor w)) = None"
    and "channels (poller (loops w' 0)) = channels (poller (loops w 0))"
proof -
  let ?me = "threadId (loops w 0)"
  have base: "server_base w" using inv by (simp add: server_inv_def)
  have "\<exists>c. objects w i = Some c \<and> threadId (loops w (co_loop c)) \<noteq> ?me" if "i \<in> set order" for i
  proof -
    from that order obtain nm where "connections w nm = Some i" by (auto simp: ran_def)
    with base obtain c where c: "objects w i = Some c" unfolding server_base_def by blast
    then have ok: "object_ok i c w" using base by (simp add: server_base_def)
    have "co_loop c \<noteq> 0" using ok n by (auto simp: object_ok_def home_loop_def)
    then have "threadId (loops w (co_loop c)) \<noteq> ?me"
      using base object_loop [OF base c] n by (auto simp: server_base_def loops_ok_def dest: inj_onD)
    with c show ?thesis by blast
  qed
  then have gone: "for_each (\<lambda>w i.
            case objects w i of
              None \<Rightarrow> Inl UseAfterFree
            | Some c \<Rightarrow> run_in ?me (co_loop c) (server_exec cbs ?me (ConnectDestroyed i)) (ConnectDestroyed i) w)
          w order = Inr (destroy_there ?me order w)"
    by (intro destroyed_elsewhere) simp_all
  define v where "v = destroy_there ?me order w"
  define u where "u = fold (EventLoopThread_destroy ?me) [1..<loop_count w] (v\<lparr>connections := Map.empty\<rparr>)"
  have pl: "pool_loops (pool v) = [1..<loop_count w]"
    using base by (simp add: v_def server_base_def pool_ok_def destroy_there_fields)
  have u0: "loops u 0 = loops v 0" unfolding u_def by (subst threads_not_destroyed) simp_all
  have p: "poller (loops v 0) = poller (loops w 0)" and acc: "acceptor u = acceptor w"
    by (simp_all add: u_def v_def threads_destroyed destroy_there_fields)
  obtain ch where ch: "channel_heap (poller (loops w 0)) (acc_channel (acceptor w)) = Some ch"
    using base by (auto simp: server_base_def acceptor_ok_def)
  let ?w' = "u\<lparr>loops := (loops u)(0 := (loops v 0)\<lparr>poller := (poller (loops w 0))
      \<lparr>channel_heap := (channel_heap (poller (loops w 0)))(acc_channel (acceptor w) := None),
       interest := (interest (poller (loops w 0)))(ch_fd ch := None)\<rparr>\<rparr>), srv_alive := False\<rparr>"
  have "Acceptor_destroy u = Inr (u\<lparr>loops := loops ?w'\<rparr>)"
    using ch by (simp add: Acceptor_destroy_def u0 p acc channel_at_def Let_def)
  moreover have "TcpServer_destroy cbs ?me order w = map_res (\<lambda>w. w\<lparr>srv_alive := False\<rparr>) (Acceptor_destroy u)"
    by (simp only: TcpServer_destroy_def EventLoop_assertInLoopThread_def EventLoop_isInLoopThread_def
        gone [folded v_def] and_then_Inr pl u_def [symmetric] refl if_True)
  ultimately have "TcpServer_destroy cbs ?me order w = Inr ?w'" by simp
  then show ?thesis
  proof (rule that)
    have "connections (fold (EventLoopThread_destroy ?me) ls x) = connections x" for ls and x :: "'a server_world"
      by (induction ls arbitrary: x) (simp_all add: EventLoopThread_destroy_def)
    then show "connections ?w' = Map.empty" by (simp add: u_def)
    show "pendingFunctors (loops ?w' l) = pendingFunctors (loops w l) @
           map ConnectDestroyed (filter (\<lambda>i. co_loop (the (objects w i)) = l) order)" for l
      by (simp add: u_def v_def threads_destroyed destroy_there_fields)
    show "quit (loops ?w' l)" if "0 < l" "l < loop_count w" for l
      using threads_quit [of _ l "[1..<loop_count w]"] that by (simp add: u_def)
  qed (use ch in \<open>simp_all add: u_def v_def threads_destroyed destroy_there_fields\<close>)
qed

text \<open>
  C21: The removal of a closed connection that waits in the queue of the server's loop holds a raw
  pointer to the server. A server with threads of its own that is destroyed in its loop before the
  removal has run always gets through its destructor, which queues \<open>connectDestroyed\<close> of every
  connection in its loop and tells those loops to quit; the loop of the server then calls a member
  function of the freed server.
\<close>

theorem server_destroyed_too_early:
  assumes "sound_resources me resources n" and "0 < n" and "distinct [snd wakeup, snd timer, snd listen]"
    and "distinct [fst wakeup, fst timer, fst listen]"
    and "server_started me now wakeup timer name listen n resources = Inr w0"
    and run: "server_run (program_callbacks prog depth) w0 w"
    and q: "pendingFunctors (loops w 0) = RemoveConnectionInLoop i # fs"
    and idle: "running w 0 = []" "\<not> callingPendingFunctors (loops w 0)"
    and order: "set order = ran (connections w)"
  shows "\<exists>w'. TcpServer_destroy (program_callbacks prog depth) (threadId (loops w 0)) order w = Inr w' \<and>
           (\<forall>j \<in> set order. ConnectDestroyed j \<in> set (pendingFunctors (loops w' (co_loop (the (objects w j)))))) \<and>
           (\<forall>l. 0 < l \<and> l \<le> n \<longrightarrow> quit (loops w' l)) \<and>
           for_each (server_step (program_callbacks prog depth)) w' [TakeFunctors 0, RunFunctor 0] = Inl UseAfterFree"
proof -
  note w0 = started_inv [OF assms(1,3-5)]
  have inv: "server_inv w" by (rule programs.run_inv [OF run w0(1)])
  have n: "loop_count w = n + 1" using programs.run_id [OF run w0(1)] w0(2) by (simp add: server_id_def)
  then have n1: "1 < loop_count w" using assms(2) by simp
  obtain w' where
    w': "TcpServer_destroy (program_callbacks prog depth) (threadId (loops w 0)) order w = Inr w'"
      "\<not> srv_alive w'" "connections w' = Map.empty" "running w' = running w"
      "\<And>l. pendingFunctors (loops w' l) = pendingFunctors (loops w l) @
           map ConnectDestroyed (filter (\<lambda>i. co_loop (the (objects w i)) = l) order)"
      "\<And>l. 0 < l \<Longrightarrow> l < loop_count w \<Longrightarrow> quit (loops w' l)"
      "callingPendingFunctors (loops w' 0) = callingPendingFunctors (loops w 0)"
    by (rule destructor_outcome [OF inv n1 order, of "program_callbacks prog depth"]) (rule that; assumption)
  have "for_each (server_step (program_callbacks prog depth)) w' [TakeFunctors 0, RunFunctor 0] = Inl UseAfterFree"
    using w'(2,4,7) w'(5) [of 0] q idle
    by (simp add: take_functors_def run_functor_of_def server_exec_def Let_def)
  with w'(1,5,6) n show ?thesis by auto
qed

lemma server_destroyed_too_early_witness:
  "\<exists>w w' :: unit server_world. pendingFunctors (loops w 0) = [RemoveConnectionInLoop 0] \<and>
     TcpServer_destroy (program_callbacks closing_program 3) (threadId (loops w 0)) [0] w = Inr w' \<and>
     for_each (server_step (program_callbacks closing_program 3)) w' [TakeFunctors 0, RunFunctor 0] = Inl UseAfterFree"
proof -
  let ?cbs = "program_callbacks closing_program 3"
  have res: "sound_resources 1 demo_resources 1" by (simp add: sound_resources_def)
  obtain w0 :: "unit server_world" and p
    where w0: "server_started 1 (Timestamp 0) (3, 64) (4, 72) ''web'' (5, 80) 1 demo_resources = Inr w0"
      and just: "just_started 1 (Timestamp 0) (3, 64) (4, 72) ''web'' (5, 80) 1 demo_resources p w0"
    by (rule started_state [OF res, of "(3, 64)" "(4, 72)" "(5, 80)"]) simp_all
  have lab: "sound_label w0 (AcceptReady [Accepted demo_accepted])"
    using started_fresh [OF just, of demo_accepted] by simp
  have "case and_then (server_started 1 (Timestamp 0) (3, 64) (4, 72) ''web'' (5, 80) 1 demo_resources)
          (\<lambda>w. for_each (server_step ?cbs) w [AcceptReady [Accepted demo_accepted], TakeFunctors 1, RunFunctor 1]) of
        Inl x \<Rightarrow> False
      | Inr w \<Rightarrow> pendingFunctors (loops w 0) = [RemoveConnectionInLoop 0] \<and> running w 0 = [] \<and>
          \<not> callingPendingFunctors (loops w 0) \<and> connections w ''web#1'' = Some 0 \<and> created w = 1"
    by code_simp
  with w0 obtain w1 w2 w where
    steps: "server_step ?cbs w0 (AcceptReady [Accepted demo_accepted]) = Inr w1"
      "server_step ?cbs w1 (TakeFunctors 1) = Inr w2" "server_step ?cbs w2 (RunFunctor 1) = Inr w"
    and w: "pendingFunctors (loops w 0) = [RemoveConnectionInLoop 0]" "running w 0 = []"
      "\<not> callingPendingFunctors (loops w 0)" "connections w ''web#1'' = Some 0" "created w = 1"
    by (auto split: sum.splits simp: returned)
  have run: "server_run ?cbs w0 w"
    by (rule step_run [OF step_run [OF step_run [OF begin_run lab steps(1)] _ steps(2)] _ steps(3)]) simp_all
  have "server_base w"
    using programs.run_inv [OF run started_inv(1) [OF res _ _ w0]] by (simp add: server_inv_def)
  then have "i < created w" if "connections w nm = Some i" for nm i
    using that unfolding server_base_def object_ok_def by blast
  then have "i = 0" if "connections w nm = Some i" for nm i using that w(5) by fastforce
  with w(4) have "ran (connections w) = set [0]" by (auto simp: ran_def)
  with server_destroyed_too_early [OF res _ _ _ w0 run w(1-3), of "[0]"] w(1) show ?thesis by auto
qed

end
