(* ===== verification/Server_Traces.thy ===== *)
theory Server_Traces
  imports Server_Sound
begin

text \<open>
  Runs of a server with the steps they take, and what happens to a connection in them: the locale
  \<open>server_story\<close> turns a relation between the states of one connection before and after each operation
  into one between the connection as it was accepted and as it is, anywhere in a run.
\<close>

section \<open>Traces\<close>

inductive server_trace ::
    "'x served_callbacks \<Rightarrow> 'x server_world \<Rightarrow> server_label list \<Rightarrow> 'x server_world \<Rightarrow> bool"
  for cbs :: "'x served_callbacks" and w0 :: "'x server_world" where
  begin_trace: "server_trace cbs w0 [] w0"
| step_trace: "server_trace cbs w0 labs w \<Longrightarrow> sound_label w lab \<Longrightarrow> server_step cbs w lab = Inr w' \<Longrightarrow>
    server_trace cbs w0 (labs @ [lab]) w'"

lemma trace_run: "server_trace cbs w0 labs w \<Longrightarrow> server_run cbs w0 w"
  by (induction rule: server_trace.induct) (auto intro: server_run.intros)

lemma trace_runs: "server_trace cbs w0 labs w \<Longrightarrow> for_each (server_step cbs) w0 labs = Inr w"
  by (induction rule: server_trace.induct) (simp_all add: for_each_append)

text \<open>The connections that were accepted in a trace, in the order of their numbers.\<close>

fun arrivals_of :: "server_label \<Rightarrow> accepted list" where
  "arrivals_of (AcceptReady rs) = accepted_first rs"
| "arrivals_of _ = []"

definition arrivals :: "server_label list \<Rightarrow> accepted list" where
  "arrivals labs = concat (map arrivals_of labs)"

lemma arrivals_simps [simp]:
  "arrivals [] = []" "arrivals (lab # labs) = arrivals_of lab @ arrivals labs"
  "arrivals (labs @ labs') = arrivals labs @ arrivals labs'"
  by (simp_all add: arrivals_def)

text \<open>The \<open>i\<close>-th connection of a server with \<open>n\<close> loops when it has just been made.\<close>

definition newborn :: "nat \<Rightarrow> string \<Rightarrow> nat \<Rightarrow> accepted \<Rightarrow> 'x connection_object" where
  "newborn n name i a =
     new_object (home_loop n i) (connection_name name (int i + 1)) (acc_address a) (acc_reads a) (acc_writes a)"

section \<open>The story of a connection\<close>

text \<open>
  \<open>story\<close> holds between the states of a connection before and after it is established, before and
  after every event, and around the user's calls that \<open>calls\<close> admits.
\<close>

locale server_story = server_user ok cbs
  for ok :: "'x option \<Rightarrow> fault \<Rightarrow> bool" and cbs :: "'x served_callbacks" +
  fixes calls :: "user_call \<Rightarrow> bool"
    and story :: "'x connection_object \<Rightarrow> 'x connection_object \<Rightarrow> bool"
  assumes story_refl: "story c c"
    and story_trans: "story c d \<Longrightarrow> story d e \<Longrightarrow> story c e"
    and story_established: "conn_inv me s \<Longrightarrow> conn_state s = kConnecting \<Longrightarrow>
      TcpConnection_connectEstablished me (cbs me l i) s = Inr s' \<Longrightarrow> story (object_of l s) (object_of l s')"
    and story_ready: "conn_inv me s \<Longrightarrow> plain_events r \<Longrightarrow>
      TcpConnection_event me (cbs me l i) s (Ready r) = Inr s' \<Longrightarrow> story (object_of l s) (object_of l s')"
    and story_call: "conn_inv me s \<Longrightarrow> calls u \<Longrightarrow>
      TcpConnection_event me (cbs me l i) s (Called (conn_call_of u)) = Inr s' \<Longrightarrow>
      story (object_of l s) (object_of l s')"
begin

text \<open>The connections of the world have moved on, and there is no new one.\<close>

definition told :: "'x server_world \<Rightarrow> 'x server_world \<Rightarrow> bool" where
  "told w w' \<longleftrightarrow> created w' = created w \<and>
     (\<forall>i c'. objects w' i = Some c' \<longrightarrow> (\<exists>c. objects w i = Some c \<and> story c c'))"

lemma told_refl: "told w w"
  by (auto simp: told_def intro: story_refl)

lemma told_same: "same_objects w w' \<Longrightarrow> told w w'"
  by (auto simp: told_def same_objects_def intro: story_refl)

lemma told_trans: "told v w \<Longrightarrow> told w x \<Longrightarrow> told v x"
  unfolding told_def using story_trans by fastforce

lemma left_told:
  assumes "server_base w" and o: "objects w i = Some c"
    and "served_step (threadId (loops w (co_loop c))) (co_loop c) i (enter i w) s'"
    and "conn_inv (threadId (loops w (co_loop c))) s'" and st: "story c (object_of (co_loop c) s')"
  shows "told w (leave (co_loop c) i s')"
proof -
  obtain c' where m: "moved i c w c' (leave (co_loop c) i s')" by (rule operated [OF assms(1-4)])
  then have "c' = object_of (co_loop c) s'"
    using leave_object [of "co_loop c" i s'] unfolding moved_def object_of_simp by (metis fun_upd_same option.inject)
  with m st have "created (leave (co_loop c) i s') = created w" "story c c'"
    "objects (leave (co_loop c) i s') = (objects w)(i \<mapsto> c')" by (simp_all only: moved_def)
  with o show ?thesis unfolding told_def by (metis fun_upd_other fun_upd_same option.inject story_refl)
qed

lemma established_told:
  assumes base: "server_base w" and o: "objects w i = Some c" and st: "co_state c = kConnecting"
    and me: "me = threadId (loops w (co_loop c))"
    and run: "server_exec cbs me (ConnectEstablished i) w = Inr w'"
  shows "told w w'"
proof -
  obtain s' where s': "TcpConnection_connectEstablished me (cbs me (co_loop c) i) (enter i w) = Inr s'"
    "w' = leave (co_loop c) i s'"
    using run o by (auto simp: server_exec_def on_connection_def returned)
  have ci: "conn_inv me (enter i w)" using object_conn_inv [OF base o] me by simp
  have "conn_state (enter i w) = kConnecting" using o st by simp
  with user.connectEstablished_ok [OF ci this, of "co_loop c" i] story_established [OF ci this s'(1)]
    object_of_enter [OF o] establish_step [OF s'(1)] s' me
  show ?thesis by (auto intro: left_told [OF base o])
qed

lemma event_told:
  assumes base: "server_base w" and run: "connection_event cbs i ev w = Inr w'"
    and ev: "(\<exists>r. ev = Ready r \<and> plain_events r) \<or> (\<exists>u. ev = Called (conn_call_of u) \<and> calls u)"
  shows "told w w'"
proof -
  obtain c where o: "objects w i = Some c"
    using run by (auto simp: connection_event_def on_connection_def split: option.splits)
  let ?me = "threadId (loops w (co_loop c))"
  obtain s' where s': "TcpConnection_event ?me (cbs ?me (co_loop c) i) (enter i w) ev = Inr s'"
    "w' = leave (co_loop c) i s'"
    using run o by (auto simp: connection_event_def on_connection_def returned)
  have ci: "conn_inv ?me (enter i w)" by (rule object_conn_inv [OF base o])
  have "conn_inv ?me s'"
    using user.event_ok [OF ci, of ev "co_loop c" i] s'(1) ev by (auto simp: conn_result_def)
  moreover have "story (object_of (co_loop c) (enter i w)) (object_of (co_loop c) s')"
    using ev story_ready [OF ci] story_call [OF ci] s'(1) by blast
  moreover have "served_step ?me (co_loop c) i (enter i w) s'" using event_step [OF s'(1)] ev by auto
  ultimately show ?thesis unfolding s'(2) object_of_enter [OF o] by (intro left_told [OF base o])
qed

lemma run_functor_told:
  assumes "server_inv w" and "run_functor_of cbs l w = Inr w'"
  shows "told w w'"
  using assms
proof (cases rule: run_functor_cases)
  case quiet
  then show ?thesis by (rule told_same)
next
  case (operated v i c s')
  have "conn_inv (threadId (loops v l)) (enter i v)" using object_conn_inv [OF operated(2,3)] operated(4) by simp
  then have "story c (object_of l s')"
    using operated(8) story_established [of _ "enter i v" l i s'] object_of_enter [OF operated(3)] operated(3,4)
      story_refl by auto
  then have "told v w'"
    using left_told [OF operated(2,3), of s'] operated(4-7) by simp
  with told_same [OF operated(1)] show ?thesis by (rule told_trans)
qed

text \<open>Every connection has come from the one accepted under its number.\<close>

definition storied :: "nat \<Rightarrow> string \<Rightarrow> accepted list \<Rightarrow> 'x server_world \<Rightarrow> bool" where
  "storied n name as w \<longleftrightarrow>
     loop_count w = n \<and> srv_name w = name \<and> listening (acceptor w) \<and> created w = length as \<and>
     (\<forall>i c. objects w i = Some c \<longrightarrow> story (newborn n name i (as ! i)) c)"

lemma told_storied:
  "told w w' \<Longrightarrow> server_id w' = server_id w \<Longrightarrow> storied n name as w \<Longrightarrow> storied n name as w'"
  unfolding told_def storied_def server_id_def using story_trans by simp blast

lemma newConnection_storied:
  assumes inv: "server_inv w" and fresh: "fresh_accept w a"
    and run: "TcpServer_newConnection cbs (threadId (loops w 0)) a w = Inr w'"
    and st: "storied n name as w"
  shows "storied n name (as @ [a]) w'"
proof -
  let ?me = "threadId (loops w 0)"
  let ?l = "home_loop (loop_count w) (created w)"
  let ?nm = "connection_name (srv_name w) (nextConnId w)"
  let ?c = "new_object ?l ?nm (acc_address a) (acc_reads a) (acc_writes a) :: 'x connection_object"
  have base: "server_base w" using inv by (simp add: server_inv_def)
  obtain p where p: "EventLoopThreadPool_getNextLoop ?me w = Inr (?l, w\<lparr>pool := p\<rparr>)"
    "pool_started p" "pool_loops p = [1..<loop_count w]"
    "pool_next p = (if loop_count w = 1 then 0 else (created w + 1) mod (loop_count w - 1))"
    by (rule nextLoop [OF base])
  define v where "v = w\<lparr>pool := p, nextConnId := nextConnId w + 1, created := created w + 1,
      loops := (loops w)(?l := (loops w ?l)\<lparr>poller := put_channel (acc_address a) (Channel_new (acc_fd a)) (poller (loops w ?l))\<rparr>),
      objects := (objects w)(created w \<mapsto> ?c), connections := (connections w)(?nm \<mapsto> created w)\<rparr>"
  note cr = created_base [OF inv fresh p(2-4), folded v_def]
  have "i < length as" if "objects w i = Some c" for i c
    using base st that by (auto simp: server_base_def object_ok_def storied_def)
  then have v: "storied n name (as @ [a]) v"
    using st base story_refl
    by (auto simp: storied_def v_def newborn_def server_base_def nth_append)
  have "run_in ?me ?l (server_exec cbs ?me (ConnectEstablished (created w))) (ConnectEstablished (created w)) v = Inr w'"
    unfolding v_def using p(1) run
    by (auto simp: TcpServer_newConnection_def EventLoop_assertInLoopThread_def EventLoop_isInLoopThread_def
        Let_def split: if_splits)
  then consider "?me = threadId (loops v ?l)" "server_exec cbs ?me (ConnectEstablished (created w)) v = Inr w'"
    | "w' = queue_in ?me ?l (ConnectEstablished (created w)) v"
    by (auto simp: run_in_def EventLoop_isInLoopThread_def split: if_splits)
  then have "told v w' \<and> server_id w' = server_id v"
  proof cases
    case 1
    then show ?thesis
      using established_told [OF cr(1,4) _ _ 1(2)] established_id [OF cr(1,4) _ 1(2)] by (simp add: new_object_def)
  qed (auto intro: told_same simp: same_objects_def queue_in_def server_id_def)
  then show ?thesis using told_storied v by blast
qed

lemma step_storied:
  assumes inv: "server_inv w" and lab: "sound_label w lab" and run: "server_step cbs w lab = Inr w'"
    and st: "storied n name as w" and calls: "\<And>i u. lab = UserCall i u \<Longrightarrow> calls u"
    and prompt: "\<And>i r. lab \<noteq> ConnPolled i r"
  shows "storied n name (as @ arrivals_of lab) w'"
proof (cases lab)
  case (AcceptReady rs)
  let ?me = "threadId (loops w 0)"
  have "Acceptor_accept_loop (Some (TcpServer_newConnection cbs ?me)) rs w = Inr w'"
    using run AcceptReady st
    by (auto simp: storied_def Acceptor_handleRead_def EventLoop_assertInLoopThread_def EventLoop_isInLoopThread_def Let_def)
  from accept_loop_induct [OF inv refl _ _ _ this, of "storied n name" as] lab AcceptReady st newConnection_storied
  show ?thesis by simp
next
  case (TakeFunctors l)
  then have w': "w' = take_functors l w" using run by simp
  have "same_objects w w'" by (simp add: w' take_functors_def same_objects_def Let_def)
  from told_storied [OF told_same [OF this] server_step_id [OF inv lab run] st] TakeFunctors show ?thesis by simp
next
  case (RunFunctor l)
  then have "told w w'" using run_functor_told [OF inv] run by simp
  from told_storied [OF this server_step_id [OF inv lab run] st] RunFunctor show ?thesis by simp
next
  case (ConnReady i r)
  then have "told w w'" using event_told [of w i "Ready r" w'] inv run lab by (simp add: server_inv_def)
  from told_storied [OF this server_step_id [OF inv lab run] st] ConnReady show ?thesis by simp
next
  case (ConnPolled i r)
  with prompt show ?thesis by blast
next
  case (UserCall i u)
  then have "told w w'"
    using event_told [of w i "Called (conn_call_of u)" w'] inv run calls by (auto simp: server_inv_def)
  from told_storied [OF this server_step_id [OF inv lab run] st] UserCall show ?thesis by simp
next
  case (Release i)
  then have "told w w'"
    using run by (auto simp: TcpConnection_delete_def returned Let_def told_def story_refl split: option.splits if_splits)
  from told_storied [OF this server_step_id [OF inv lab run] st] Release show ?thesis by simp
qed

lemma trace_storied:
  assumes "server_trace cbs w0 labs w" and "server_inv w0" and "storied n name [] w0"
    and "\<And>i u. UserCall i u \<in> set labs \<Longrightarrow> calls u" and "\<And>i r. ConnPolled i r \<notin> set labs"
  shows "storied n name (arrivals labs) w"
  using assms
proof (induction rule: server_trace.induct)
  case (step_trace labs w lab w')
  have "server_inv w" by (rule run_inv [OF trace_run [OF step_trace.hyps(1)] step_trace.prems(1)])
  moreover have "storied n name (arrivals labs) w"
    by (rule step_trace.IH [OF step_trace.prems(1,2)]) (use step_trace.prems(3,4) in auto)
  ultimately have "storied n name (arrivals labs @ arrivals_of lab) w'"
    using step_trace.prems(3,4) by (intro step_storied [OF _ step_trace.hyps(2,3)]) auto
  then show ?case by simp
qed simp

text \<open>From the start of a server on.\<close>

lemma started_story:
  assumes "sound_resources me resources n" and "distinct [snd wakeup, snd timer, snd listen]"
    and "distinct [fst wakeup, fst timer, fst listen]"
    and start: "server_started me now wakeup timer name listen n resources = Inr w0"
    and trace: "server_trace cbs w0 labs w" and calls: "\<And>i u. UserCall i u \<in> set labs \<Longrightarrow> calls u"
    and prompt: "\<And>i r. ConnPolled i r \<notin> set labs"
  shows "server_inv w" and "loop_count w = n + 1" and "srv_name w = name" and "created w = length (arrivals labs)"
    and "objects w i = Some c \<Longrightarrow> i < length (arrivals labs) \<and> story (newborn (n + 1) name i (arrivals labs ! i)) c"
proof -
  note w0 = started_inv [OF assms(1-4)]
  obtain w1 :: "'x server_world" and p where "server_started me now wakeup timer name listen n resources = Inr w1"
    "just_started me now wakeup timer name listen n resources p w1"
    by (rule started_state [OF assms(1-3)])
  with start have "just_started me now wakeup timer name listen n resources p w0" by simp
  then have "storied (n + 1) name [] w0" using w0(2-4) by (simp add: storied_def just_started_def)
  from trace_storied [OF trace w0(1) this calls prompt] have st: "storied (n + 1) name (arrivals labs) w" .
  show inv: "server_inv w" by (rule run_inv [OF trace_run [OF trace] w0(1)])
  then have "i < created w" if "objects w i = Some c" for i c
    using that by (simp add: server_inv_def server_base_def object_ok_def)
  with st show "loop_count w = n + 1" "srv_name w = name" "created w = length (arrivals labs)"
    "objects w i = Some c \<Longrightarrow> i < length (arrivals labs) \<and> story (newborn (n + 1) name i (arrivals labs ! i)) c"
    by (auto simp: storied_def)
qed

end

end
