(* ===== verification/Served_Apps.thy ===== *)
theory Served_Apps
  imports Server_Traces Http_Serve
begin

text \<open>
  Applications on a server: what a TcpServer with any number of threads does when its connection and
  message callbacks are those of a stream application (the locale \<open>served_app\<close>), and its instances, the
  echo server of examples/echo/echo_server.cpp, HttpServer with the handler of src/main.cpp, and the
  static file server of examples/http/static_file_server.cpp.
\<close>

unbundle bit_operations_syntax

section \<open>What a report of the poller comes to\<close>

lemma handleError_same: "TcpConnection_handleError s = Inr s' \<Longrightarrow> s' = s"
  by (auto simp: TcpConnection_handleError_def returned)

text \<open>Either the connection closes, or its input is read; output may then be written.\<close>

lemma dispatch_cases:
  assumes inv: "conn_inv me s" and plain: "plain_events (ch_revents (conn_ch s))"
    and rev: "callbacks_keep_revents cbs" and run: "TcpConnection_dispatch me cbs s = Inr s'"
  obtains (closed) s1 where "TcpConnection_handleClose me cbs s = Inr s1"
      and "s' = s1 \<or> TcpConnection_handleWrite me cbs s1 = Inr s'"
  | (on) s1 where "s1 = s \<or> TcpConnection_handleRead me cbs s = Inr s1"
      and "s' = s1 \<or> TcpConnection_handleWrite me cbs s1 = Inr s'"
proof -
  define r where "r = ch_revents (conn_ch s)"
  have r0: "revents_of (conn_channel s) s = Inr r"
    using conn_channel_at [of me "[]" s] inv
    by (simp add: conn_inv_def revents_of_def r_def TcpConnection_channel_def)
  let ?hup = "r AND EPOLLHUP \<noteq> 0 \<and> r AND EPOLLIN = 0"
  obtain s1 where s1: "call_when ?hup (Some (TcpConnection_handleClose me cbs)) s = Inr s1"
    using run r0 by (auto simp: TcpConnection_dispatch_def Channel_handleEvent_def TcpConnection_events_def returned)
  have same1: "same_revents s s1" using keeps_reventsD [OF call_when_revents [OF handleClose_revents [OF rev]] s1] .
  note r1 = revents_same [OF same1 r0]
  obtain s2 where s2: "call_when (r AND EPOLLERR \<noteq> 0) (Some TcpConnection_handleError) s1 = Inr s2"
    using run r0 r1 s1
    by (auto simp: TcpConnection_dispatch_def Channel_handleEvent_def TcpConnection_events_def returned)
  have "s2 = s1" using s2 handleError_same by (auto simp: call_when_def split: if_splits)
  then have s12: "call_when (r AND EPOLLERR \<noteq> 0) (Some TcpConnection_handleError) s1 = Inr s1" using s2 by simp
  obtain s3 where s3: "call_when (r AND kReadEvent \<noteq> 0) (Some (TcpConnection_handleRead me cbs)) s1 = Inr s3"
    using run r0 r1 s1 s12
    by (auto simp: TcpConnection_dispatch_def Channel_handleEvent_def TcpConnection_events_def returned)
  have "same_revents s1 s3" using keeps_reventsD [OF call_when_revents [OF handleRead_revents [OF rev]] s3] .
  from revents_same [OF same_revents_trans [OF same1 this] r0]
  have s4: "call_when (r AND kWriteEvent \<noteq> 0) (Some (TcpConnection_handleWrite me cbs)) s3 = Inr s'"
    using run r0 r1 s1 s12 s3
    by (simp add: TcpConnection_dispatch_def Channel_handleEvent_def TcpConnection_events_def)
  show ?thesis
  proof (cases ?hup)
    case True
    then have "r AND kReadEvent = 0" using plain_events_no_read plain by (simp add: r_def)
    with True s1 s3 s4 show ?thesis by (intro closed [of s1]) (auto simp: call_when_def split: if_splits)
  next
    case False
    with s1 have "s1 = s" by (simp only: call_when_def if_False sum.inject)
    with s3 s4 show ?thesis by (intro on [of s3]) (auto simp: call_when_def split: if_splits)
  qed
qed

section \<open>Input and output of a connection object\<close>

definition input_stream :: "readv_result list \<Rightarrow> char list" where
  "input_stream rs = concat (map (\<lambda>r. case r of ReadData d \<Rightarrow> d | ReadErr e \<Rightarrow> []) rs)"

lemma input_stream_simps [simp]:
  "input_stream [] = []" "input_stream (ReadData d # rs) = d @ input_stream rs"
  "input_stream (ReadErr e # rs) = input_stream rs"
  by (simp_all add: input_stream_def)

definition object_view :: "'x connection_object \<Rightarrow> 'x app_view" where
  "object_view c = \<lparr>v_state = co_state c, v_input = Buffer_content (co_input c), v_context = co_context c,
     v_output = co_handed_over c\<rparr>"

lemma object_view_of [simp]: "object_view (object_of l s) = view_of s"
  by (simp add: object_view_def view_of_def)

lemma view_state: "object_view c = v \<Longrightarrow> co_state c = v_state v"
  by (auto simp: object_view_def)

lemma object_view_simps [simp]:
  "v_state (object_view c) = co_state c" "v_input (object_view c) = Buffer_content (co_input c)"
  "v_context (object_view c) = co_context c" "v_output (object_view c) = co_handed_over c"
  by (simp_all add: object_view_def)

text \<open>
  What an application that answers input by \<open>react\<close> makes of a connection between two moments: the
  input taken in the meantime, cut into some pieces, has been reacted to, and then the connection may
  have closed.
\<close>

definition reacted ::
    "('x app_view \<Rightarrow> 'x app_view) \<Rightarrow> ('x app_view \<Rightarrow> 'x app_view res) \<Rightarrow>
     'x app_view \<Rightarrow> char list \<Rightarrow> 'x app_view \<Rightarrow> char list \<Rightarrow> bool" where
  "reacted greet react v i v' i' \<longleftrightarrow>
     v_state v \<noteq> kDisconnected \<and>
     (\<exists>ps u. [] \<notin> set ps \<and> i = concat ps @ i' \<and>
        react_pieces react (if v_state v = kConnecting then greet (v\<lparr>v_state := kConnected\<rparr>) else v) ps = Inr u \<and>
        v_open u \<and> (v' = u \<or> v' = u\<lparr>v_state := kDisconnected\<rparr>))"

definition served_as ::
    "('x app_view \<Rightarrow> 'x app_view) \<Rightarrow> ('x app_view \<Rightarrow> 'x app_view res) \<Rightarrow>
     'x connection_object \<Rightarrow> 'x connection_object \<Rightarrow> bool" where
  "served_as greet react c c' \<longleftrightarrow>
     object_view c' = object_view c \<and> input_stream (co_reads c') = input_stream (co_reads c) \<or>
     reacted greet react (object_view c) (input_stream (co_reads c)) (object_view c') (input_stream (co_reads c'))"

lemma served_as_refl: "served_as greet react c c"
  by (simp add: served_as_def)

lemma react_pieces_append:
  "react_pieces react v (ps @ qs) = and_then (react_pieces react v ps) (\<lambda>v. react_pieces react v qs)"
  by (induction ps arbitrary: v) (simp_all add: and_then_assoc)

lemma reacted_nothing:
  "v_open v \<Longrightarrow> reacted greet react v i v i"
  "v_open v \<Longrightarrow> reacted greet react v i (v\<lparr>v_state := kDisconnected\<rparr>) i"
  by (auto simp: reacted_def v_open_def intro!: exI [of _ "[]"])

lemma v_open_view [simp]: "v_open (view_of s) \<longleftrightarrow> conn_open s"
  by (simp add: v_open_def conn_open_def)

lemma reacted_trans:
  assumes "reacted greet react v i v' i'" and "reacted greet react v' i' v'' i''"
  shows "reacted greet react v i v'' i''"
proof -
  let ?v = "if v_state v = kConnecting then greet (v\<lparr>v_state := kConnected\<rparr>) else v"
  obtain ps u where v: "v_state v \<noteq> kDisconnected" "[] \<notin> set ps" "i = concat ps @ i'"
    "react_pieces react ?v ps = Inr u" "v_open u" "v' = u \<or> v' = u\<lparr>v_state := kDisconnected\<rparr>"
    using assms(1) by (auto simp: reacted_def)
  obtain qs w where v': "v_state v' \<noteq> kDisconnected" "[] \<notin> set qs" "i' = concat qs @ i''"
    "react_pieces react (if v_state v' = kConnecting then greet (v'\<lparr>v_state := kConnected\<rparr>) else v') qs = Inr w"
    "v_open w" "v'' = w \<or> v'' = w\<lparr>v_state := kDisconnected\<rparr>"
    using assms(2) unfolding reacted_def by blast
  have u: "v' = u" using v(6) v'(1) by auto
  then have "v_state v' \<noteq> kConnecting" using v(5) by (auto simp: v_open_def)
  then have "react_pieces react ?v (ps @ qs) = Inr w" using v(4) v'(4) u by (simp add: react_pieces_append)
  moreover have "i = concat (ps @ qs) @ i''" "[] \<notin> set (ps @ qs)" using v(2,3) v'(2,3) by simp_all
  ultimately show ?thesis unfolding reacted_def using v(1) v'(5,6) by blast
qed

lemma served_as_trans: "served_as greet react c d \<Longrightarrow> served_as greet react d e \<Longrightarrow> served_as greet react c e"
  unfolding served_as_def using reacted_trans by (elim disjE) (simp, simp, simp, blast)

section \<open>Applications in a server\<close>

text \<open>
  The callbacks of a server whose user has set the connection and the message callback, as
  \<open>newConnection\<close> gives them to connection \<open>i\<close>.
\<close>

definition site_callbacks ::
    "('x served \<Rightarrow> 'x served res) \<Rightarrow> (tid \<Rightarrow> 'x served \<Rightarrow> 'x served res) \<Rightarrow> 'x served_callbacks" where
  "site_callbacks onConnection onMessage me l i =
     \<lparr>connectionCallback = Some onConnection, messageCallback = Some (onMessage me), writeCompleteCallback = None,
      connectionClosed = Some (server_close_callback me l i)\<rparr>"

lemma site_callbacks_simps [simp]:
  "connectionCallback (site_callbacks onC onM me l i) = Some onC"
  "messageCallback (site_callbacks onC onM me l i) = Some (onM me)"
  "writeCompleteCallback (site_callbacks onC onM me l i) = None"
  "connectionClosed (site_callbacks onC onM me l i) = Some (server_close_callback me l i)"
  by (simp_all add: site_callbacks_def)

text \<open>Only an event of an open connection calls the message callback.\<close>

lemma site_exec_same:
  "server_exec (site_callbacks onC onM) me f w = server_exec (site_callbacks onC onM') me f w"
proof -
  have "TcpConnection_connectEstablished me (site_callbacks onC onM m l i) =
      TcpConnection_connectEstablished me (site_callbacks onC onM' m l i)"
    "TcpConnection_connectDestroyed me (site_callbacks onC onM m l i) =
      TcpConnection_connectDestroyed me (site_callbacks onC onM' m l i)" for m l i
    by (simp_all add: fun_eq_iff TcpConnection_connectEstablished_def TcpConnection_connectDestroyed_def)
  then show ?thesis by (simp only: server_exec_def)
qed

lemma site_step_same:
  assumes "\<And>i r. lab \<noteq> ConnReady i r" and "\<And>i u. lab \<noteq> UserCall i u" and "\<And>i r. lab \<noteq> ConnPolled i r"
  shows "server_step (site_callbacks onC onM) w lab = server_step (site_callbacks onC onM') w lab"
proof -
  have exec: "server_exec (site_callbacks onC onM) = server_exec (site_callbacks onC onM')"
    by (intro ext) (rule site_exec_same)
  have "TcpServer_newConnection (site_callbacks onC onM) = TcpServer_newConnection (site_callbacks onC onM')"
    by (intro ext) (simp only: TcpServer_newConnection_def exec)
  with exec show ?thesis
    by (cases lab) (use assms in \<open>auto simp: run_functor_of_def Let_def split: list.split\<close>)
qed

lemma close_callback_object:
  assumes "server_close_callback me l i s = Inr s'"
  shows "object_of l s' = object_of l s"
proof -
  obtain w where w: "TcpServer_removeConnection me i (leave l i s) = Inr w" "s' = enter i w"
    using assms by (cases "TcpServer_removeConnection me i (leave l i s)") (simp_all add: server_close_callback_def)
  then have "objects w i = objects (leave l i s) i"
    by (auto simp: TcpServer_removeConnection_def run_in_def TcpServer_removeConnectionInLoop_def returned
        split: if_splits)
  then have "objects w i = Some (object_of l s)" by simp
  from object_of_enter [OF this] w(2) show ?thesis by simp
qed

lemma object_same_view: "object_of l s' = object_of l s \<Longrightarrow> same_view s s'"
  by (simp add: same_view_def view_of_def)

text \<open>
  The contract: on one connection the callbacks are a stream application, the connection callback does
  not fail and leaves a closed connection as it is, and neither reaches outside the connection.
\<close>

locale served_app =
  fixes ok :: "'x option \<Rightarrow> fault \<Rightarrow> bool"
    and onC :: "'x served \<Rightarrow> 'x served res" and onM :: "tid \<Rightarrow> 'x served \<Rightarrow> 'x served res"
    and greet :: "'x app_view \<Rightarrow> 'x app_view" and react :: "'x app_view \<Rightarrow> 'x app_view res"
  assumes app: "stream_app me ok (server_callbacks me onC (onM me) destroyed) greet react"
    and up_total: "keeps_conn me (\<lambda>_ _. False) onC"
    and down_same: "conn_state s = kDisconnected \<Longrightarrow> onC s = Inr s' \<Longrightarrow> same_view s s'"
    and step_up: "onC s = Inr s' \<Longrightarrow> served_step me l i s s'"
    and step_input: "onM me s = Inr s' \<Longrightarrow> served_step me l i s s'"

lemma site_user:
  fixes onC :: "'x served \<Rightarrow> 'x served res"
  assumes "\<And>me. keeps_conn me ok onC" and "\<And>me. keeps_conn me ok (onM me)"
    and "keeps_revents onC" and "\<And>me. keeps_revents (onM me)"
    and "\<And>me l i s s'. onC s = Inr s' \<Longrightarrow> served_step me l i s s'"
    and "\<And>me l i s s'. onM me s = Inr s' \<Longrightarrow> served_step me l i s s'"
  shows "server_user ok (site_callbacks onC onM)"
proof (unfold_locales, goal_cases)
  case (2 me l i)
  show ?case using assms(1,2) by (simp add: keeps_conn_callbacks_def close_callback_keeps)
next
  case (3 me l i)
  have "keeps_revents (call_if_set (None :: ('a served \<Rightarrow> 'a served res) option))" by (simp add: keeps_revents_def)
  with assms(3,4) show ?case by (simp add: callbacks_keep_revents_def close_callback_revents)
qed (use assms(5,6) in \<open>auto simp: served.R_refl\<close>)

sublocale served_app \<subseteq> app: stream_app me ok "server_callbacks me onC (onM me) destroyed" greet react
  for me destroyed
  by (rule app)

lemma received_as_is [simp]: "received [] v = v"
  by (simp add: received_def)

context served_app
begin

lemma user_facts:
  "keeps_conn me ok onC" "keeps_conn me ok (onM me)" "keeps_revents onC" "keeps_revents (onM me)"
  using app.keeps [of me] app.revents [of me]
  by (simp_all add: keeps_conn_callbacks_def callbacks_keep_revents_def keeps_conn_if_set_def)

lemma handleClose_view:
  assumes op: "conn_open s" and run: "TcpConnection_handleClose me (site_callbacks onC onM me l i) s = Inr s'"
  shows "view_of s' = (view_of s)\<lparr>v_state := kDisconnected\<rparr> \<and> socket_reads s' = socket_reads s"
proof -
  obtain s1 s2 where s1: "Channel_change me DisableAll (conn_channel s) (s\<lparr>conn_state := kDisconnected\<rparr>) = Inr s1"
    and s2: "onC s1 = Inr s2" and s': "server_close_callback me l i s2 = Inr s'"
    using run by (auto simp: TcpConnection_handleClose_def returned)
  have v1: "same_view (s\<lparr>conn_state := kDisconnected\<rparr>) s1" by (rule Channel_change_view [OF s1])
  then have "conn_state s1 = kDisconnected" by (drule_tac same_viewD) simp
  from down_same [OF this s2] have "same_view s1 s2" .
  moreover have "same_view s2 s'" by (rule object_same_view [OF close_callback_object [OF s']])
  ultimately have "same_view (s\<lparr>conn_state := kDisconnected\<rparr>) s'" using v1 same_view_trans by blast
  then show ?thesis by (simp add: same_view_def view_of_def)
qed

lemma handleRead_view:
  assumes inv: "conn_inv me s" and op: "conn_open s"
    and run: "TcpConnection_handleRead me (site_callbacks onC onM me l i) s = Inr s'"
  shows "reacted greet react (view_of s) (input_stream (socket_reads s)) (view_of s') (input_stream (socket_reads s'))"
proof -
  have b: "Buffer_inv (inputBuffer s)" using inv by (simp add: conn_inv_def conn_pre_def)
  obtain n e b' where read: "Buffer_readFd (inputBuffer s) (next_read s) = Inr (n, e, b')" "Buffer_inv b'"
    "n < 0 \<longrightarrow> (\<exists>errno. next_read s = ReadErr errno \<and> e = Some errno \<and> b' = inputBuffer s)"
    "0 \<le> n \<longrightarrow> (\<exists>avail. next_read s = ReadData avail \<and> nat n \<le> length avail \<and>
           Buffer_content b' = Buffer_content (inputBuffer s) @ take (nat n) avail)"
    by (rule readFd_ok [OF b])
  let ?s = "s\<lparr>inputBuffer := b', socket_reads := reads_after n (socket_reads s)\<rparr>"
  have rest: "(if 0 < n then onM me ?s
      else if n = 0 then TcpConnection_handleClose me (site_callbacks onC onM me l i) ?s
      else if e \<noteq> Some EAGAIN then TcpConnection_handleError ?s else Inr ?s) = Inr s'"
    using run read(1) inv by (simp add: TcpConnection_handleRead_def EventLoop_assertInLoopThread_def
        EventLoop_isInLoopThread_def conn_inv_def conn_pre_def Let_def split del: if_split cong: if_cong)
  have s: "conn_inv me ?s" "conn_open ?s" using inv op read(2) by (simp_all add: conn_open_def)
  show ?thesis
  proof (cases "0 \<le> n")
    case False
    then have "s' = ?s" using rest handleError_same by (auto split: if_splits)
    moreover have "input_stream (reads_after n (socket_reads s)) = input_stream (socket_reads s)" "b' = inputBuffer s"
      using False read(3) by (auto simp: next_read_def reads_after_def split: list.splits readv_result.splits)
    ultimately have "view_of s' = view_of s" "input_stream (socket_reads s') = input_stream (socket_reads s)"
      by (simp_all add: view_of_def)
    then show ?thesis using op by (simp add: reacted_nothing)
  next
    case True
    then obtain avail rs where avail: "socket_reads s = ReadData avail # rs" "nat n \<le> length avail"
      "Buffer_content b' = Buffer_content (inputBuffer s) @ take (nat n) avail"
      using read(4) by (auto simp: next_read_def split: list.splits)
    then have stream: "input_stream (socket_reads s) = take (nat n) avail @ input_stream (socket_reads ?s)"
      by (auto simp: reads_after_def append_assoc [symmetric] simp del: append_assoc)
    have view: "view_of ?s = received (take (nat n) avail) (view_of s)"
      using avail(3) by (simp add: view_of_def received_def)
    show ?thesis
    proof (cases "n = 0")
      case True
      with rest have "TcpConnection_handleClose me (site_callbacks onC onM me l i) ?s = Inr s'" by simp
      from handleClose_view [OF s(2) this] show ?thesis
        using stream view True op by (simp add: received_as_is reacted_nothing)
    next
      case False
      with True rest have msg: "call_if_set (messageCallback (server_callbacks me onC (onM me) undefined)) ?s = Inr s'"
        by simp
      then obtain v where v: "react (view_of ?s) = Inr v" "view_of s' = v" "socket_reads s' = socket_reads ?s" "v_open v"
        using app.message [OF s, of undefined] by (cases "react (view_of ?s)") auto
      have "take (nat n) avail \<noteq> []" using True False avail(2) by auto
      then have "reacted greet react (view_of s) (input_stream (socket_reads s)) v (input_stream (socket_reads ?s))"
        using v(1,4) op stream unfolding view reacted_def
        by (intro conjI exI [of _ "[take (nat n) avail]"] exI [of _ v]) (auto simp: conn_open_def)
      with v(2,3) show ?thesis by simp
    qed
  qed
qed

lemma event_view:
  assumes inv: "conn_inv me s" and plain: "plain_events r"
    and run: "TcpConnection_event me (site_callbacks onC onM me l i) s (Ready r) = Inr s'"
  shows "served_as greet react (object_of l s) (object_of l s')"
proof (cases "conn_open s")
  case False
  with run conn_open_interest [OF inv] show ?thesis by (simp add: served_as_refl)
next
  case True
  let ?cbs = "site_callbacks onC onM me l i"
  let ?served = "\<lambda>s'. reacted greet react (view_of s) (input_stream (socket_reads s)) (view_of s') (input_stream (socket_reads s'))"
  obtain p where p: "Channel_setRevents (conn_channel s) r (poller s) = Inr p"
    "conn_inv me (s\<lparr>poller := p\<rparr>)" "ch_revents (conn_ch (s\<lparr>poller := p\<rparr>)) = r"
    by (rule setRevents_inv [OF inv])
  let ?s = "s\<lparr>poller := p\<rparr>"
  have disp: "TcpConnection_dispatch me ?cbs ?s = Inr s'"
    using run p(1) True conn_open_interest [OF inv] by simp
  have s: "conn_open ?s" "view_of ?s = view_of s" "socket_reads ?s = socket_reads s"
    using True by (simp_all add: conn_open_def view_of_def)
  have after: "?served s'" if "?served s1" "s' = s1 \<or> TcpConnection_handleWrite me ?cbs s1 = Inr s'" for s1
  proof -
    have "same_view s1 s'" using that(2) handleWrite_view [of ?cbs me s1 s'] by auto
    with that(1) show ?thesis by (simp add: same_view_def)
  qed
  have rev: "callbacks_keep_revents ?cbs"
    using user_facts by (simp add: callbacks_keep_revents_def close_callback_revents) (simp add: keeps_revents_def)
  have "plain_events (ch_revents (conn_ch ?s))" using plain p(3) by simp
  from p(2) this rev disp have "?served s'"
  proof (cases rule: dispatch_cases)
    case (closed s1)
    have "?served s1" using handleClose_view [OF s(1) closed(1)] s True by (simp add: reacted_nothing)
    with closed(2) show ?thesis by (rule after [rotated])
  next
    case (on s1)
    from on(1) have "?served s1"
    proof
      assume "s1 = ?s"
      then show ?thesis unfolding \<open>s1 = ?s\<close> s(2,3) using True by (simp add: reacted_nothing)
    next
      assume "TcpConnection_handleRead me ?cbs ?s = Inr s1"
      from handleRead_view [OF p(2) s(1) this] show ?thesis unfolding s(2,3) .
    qed
    with on(2) show ?thesis by (rule after [rotated])
  qed
  then show ?thesis by (simp add: served_as_def del: object_of_simp) simp
qed

lemma established_view:
  assumes inv: "conn_inv me s" and st: "conn_state s = kConnecting"
    and run: "TcpConnection_connectEstablished me (site_callbacks onC onM me l i) s = Inr s'"
  shows "served_as greet react (object_of l s) (object_of l s')"
proof -
  obtain p where p: "TcpConnection_connectEstablished me (site_callbacks onC onM me l i) s =
      call_if_set (connectionCallback (site_callbacks onC onM me l i)) (s\<lparr>conn_state := kConnected, poller := p\<rparr>)"
    "conn_inv me (s\<lparr>conn_state := kConnected, poller := p\<rparr>)"
    by (rule establish [OF inv st])
  let ?s = "s\<lparr>conn_state := kConnected, poller := p\<rparr>"
  have view: "view_of ?s = (view_of s)\<lparr>v_state := kConnected\<rparr>" by (simp add: view_of_def)
  obtain s1 where "call_if_set (connectionCallback (server_callbacks me onC (onM me) undefined)) ?s = Inr s1"
    "view_of s1 = greet (view_of ?s)" "socket_reads s1 = socket_reads ?s" "v_open (greet (view_of ?s))"
    using app.connected [OF p(2), of undefined] by auto
  with p(1) run have "view_of s' = greet ((view_of s)\<lparr>v_state := kConnected\<rparr>)" "socket_reads s' = socket_reads s"
    "v_open (view_of s')" by (simp_all add: view)
  then have "reacted greet react (view_of s) (input_stream (socket_reads s)) (view_of s') (input_stream (socket_reads s'))"
    using st by (auto simp: reacted_def intro!: exI [of _ "[]"])
  then show ?thesis by (simp add: served_as_def del: object_of_simp) simp
qed

end

sublocale served_app \<subseteq> site: server_story ok "site_callbacks onC onM" "\<lambda>_. False" "served_as greet react"
  by (intro server_story.intro server_story_axioms.intro site_user)
    (fact user_facts step_up step_input served_as_refl | erule (1) served_as_trans
     | erule (2) established_view event_view | erule FalseE)+

subsection \<open>Faults and states of a run\<close>

text \<open>
  Nobody but the callbacks calls the connections. Then no report comes late either: in a turn epoll
  reports a descriptor at most once, and without a call from outside nothing but its own report
  changes a connection before the functors of the turn run.
\<close>

definition unattended :: "server_label list \<Rightarrow> bool" where
  "unattended labs \<longleftrightarrow> (\<forall>i u. UserCall i u \<notin> set labs) \<and> (\<forall>i r. ConnPolled i r \<notin> set labs)"

lemma unattended_simps [simp]:
  "unattended []"
  "unattended (lab # labs) \<longleftrightarrow> (\<forall>i u. lab \<noteq> UserCall i u) \<and> (\<forall>i r. lab \<noteq> ConnPolled i r) \<and> unattended labs"
  by (auto simp: unattended_def)

text \<open>A connection that has just been accepted and established, as its callbacks see it.\<close>

definition fresh_view :: "'x app_view" where
  "fresh_view = \<lparr>v_state = kConnected, v_input = [], v_context = None, v_output = []\<rparr>"

text \<open>
  A connection that was accepted as \<open>a\<close>: it has not been established yet, or it is what the
  application makes of some cut of the input it has taken, and may then have closed.
\<close>

definition answers ::
    "('x app_view \<Rightarrow> 'x app_view) \<Rightarrow> ('x app_view \<Rightarrow> 'x app_view res) \<Rightarrow> accepted \<Rightarrow> 'x connection_object \<Rightarrow> bool" where
  "answers greet react a c \<longleftrightarrow>
     co_state c = kConnecting \<and> co_handed_over c = [] \<and> input_stream (co_reads c) = input_stream (acc_reads a) \<or>
     co_state c \<noteq> kConnecting \<and>
     (\<exists>ps v. [] \<notin> set ps \<and> input_stream (acc_reads a) = concat ps @ input_stream (co_reads c) \<and>
        react_pieces react (greet fresh_view) ps = Inr v \<and>
        (object_view c = v \<or> object_view c = v\<lparr>v_state := kDisconnected\<rparr>))"

lemma answers_cases:
  assumes "answers greet react a c"
  obtains (waiting) "co_state c = kConnecting" and "co_handed_over c = []"
      and "input_stream (co_reads c) = input_stream (acc_reads a)"
  | (served) ps v where "co_state c \<noteq> kConnecting" and "[] \<notin> set ps"
      and "input_stream (acc_reads a) = concat ps @ input_stream (co_reads c)"
      and "react_pieces react (greet fresh_view) ps = Inr v"
      and "co_handed_over c = v_output v" and "co_context c = v_context v" and "Buffer_content (co_input c) = v_input v"
      and "co_state c = v_state v \<or> co_state c = kDisconnected"
proof -
  have fields: "co_handed_over c = v_output v \<and> co_context c = v_context v \<and>
      Buffer_content (co_input c) = v_input v \<and> (co_state c = v_state v \<or> co_state c = kDisconnected)"
    if "object_view c = v \<or> object_view c = v\<lparr>v_state := kDisconnected\<rparr>" for v
    using that object_view_simps [of c] by (elim disjE) simp_all
  from assms consider
      "co_state c = kConnecting" "co_handed_over c = []" "input_stream (co_reads c) = input_stream (acc_reads a)"
    | ps v where "co_state c \<noteq> kConnecting" "[] \<notin> set ps"
        "input_stream (acc_reads a) = concat ps @ input_stream (co_reads c)"
        "react_pieces react (greet fresh_view) ps = Inr v"
        "object_view c = v \<or> object_view c = v\<lparr>v_state := kDisconnected\<rparr>"
    unfolding answers_def by blast
  then show ?thesis
  proof cases
    case 1
    then show ?thesis by (rule waiting)
  next
    case (2 ps v)
    with fields [OF 2(5)] show ?thesis by (intro served [of ps v]) blast+
  qed
qed

lemma served_newborn:
  assumes "served_as greet react (newborn n name i a) c"
  shows "answers greet react a c"
proof -
  have born: "object_view (newborn n name i a) = fresh_view\<lparr>v_state := kConnecting\<rparr>"
    "co_reads (newborn n name i a) = acc_reads a"
    by (simp_all add: newborn_def new_object_def object_view_def fresh_view_def)
  have up: "(fresh_view\<lparr>v_state := kConnecting\<rparr>)\<lparr>v_state := kConnected\<rparr> = fresh_view"
    by (simp add: fresh_view_def)
  from assms consider
      (new) "object_view c = fresh_view\<lparr>v_state := kConnecting\<rparr>" "input_stream (co_reads c) = input_stream (acc_reads a)"
    | (on) ps v where "[] \<notin> set ps" "input_stream (acc_reads a) = concat ps @ input_stream (co_reads c)"
        "react_pieces react (greet fresh_view) ps = Inr v" "v_open v"
        "object_view c = v \<or> object_view c = v\<lparr>v_state := kDisconnected\<rparr>"
    by (auto simp: served_as_def reacted_def born up)
  then show ?thesis
  proof cases
    case new
    have "co_state c = kConnecting" using view_state [OF new(1)] by simp
    moreover have "co_handed_over c = []" using arg_cong [OF new(1), of v_output] by (simp add: fresh_view_def)
    ultimately show ?thesis using new(2) by (simp add: answers_def)
  next
    case (on ps v)
    have "co_state c \<noteq> kConnecting"
      using on(5)
    proof
      assume "object_view c = v"
      from view_state [OF this] on(4) show ?thesis by (auto simp: v_open_def)
    next
      assume "object_view c = v\<lparr>v_state := kDisconnected\<rparr>"
      from view_state [OF this] show ?thesis by simp
    qed
    moreover have "\<exists>ps v. [] \<notin> set ps \<and> input_stream (acc_reads a) = concat ps @ input_stream (co_reads c) \<and>
        react_pieces react (greet fresh_view) ps = Inr v \<and>
        (object_view c = v \<or> object_view c = v\<lparr>v_state := kDisconnected\<rparr>)"
      by (intro exI [of _ ps] exI [of _ v] conjI) (fact on)+
    ultimately show ?thesis by (simp only: answers_def simp_thms)
  qed
qed

context served_app
begin

text \<open>A piece of input that the kernel has for an open connection is taken and reacted to by its next report.\<close>

lemma input_progress:
  assumes inv: "server_inv w" and o: "objects w i = Some c" and st: "co_state c = kConnected \<or> co_state c = kDisconnecting"
    and input: "co_reads c = ReadData piece # rs" and piece: "piece \<noteq> []" "length piece \<le> kExtrabufSize"
  shows "case react (received piece (object_view c)) of
      Inl x \<Rightarrow> server_step (site_callbacks onC onM) w (ConnReady i EPOLLIN) = Inl x
    | Inr v \<Rightarrow> \<exists>w' c'. server_step (site_callbacks onC onM) w (ConnReady i EPOLLIN) = Inr w' \<and>
        objects w' i = Some c' \<and> object_view c' = v \<and> co_reads c' = rs \<and>
        co_handed_over c' = co_wire c' @ Buffer_content (co_output c')"
proof -
  let ?l = "co_loop c"
  let ?me = "threadId (loops w ?l)"
  let ?s = "enter i w"
  let ?cbs = "site_callbacks onC onM ?me ?l i"
  let ?app = "server_callbacks ?me onC (onM ?me) undefined"
  have ci: "conn_inv ?me ?s" using inv o by (auto simp: server_inv_def intro: object_conn_inv)
  have s: "conn_open ?s" "socket_reads ?s = ReadData piece # rs" "view_of ?s = object_view c"
    using st input o by (auto simp: conn_open_def enter_def Let_def view_of_def object_view_def)
  obtain s1 where s1: "TcpConnection_event ?me ?cbs ?s (Ready EPOLLIN) = call_if_set (messageCallback ?cbs) s1"
    "conn_inv ?me s1" "conn_open s1" "view_of s1 = received piece (view_of ?s)" "socket_reads s1 = rs"
    by (rule read_event [OF ci s(1,2) piece site.revents_all])
  have call: "call_if_set (messageCallback ?cbs) s1 = call_if_set (messageCallback ?app) s1" by simp
  have step: "server_step (site_callbacks onC onM) w (ConnReady i EPOLLIN) =
      map_res (leave ?l i) (TcpConnection_event ?me ?cbs ?s (Ready EPOLLIN))"
    using o by (simp add: connection_event_def on_connection_def del: TcpConnection_event.simps)
  show ?thesis
  proof (cases "react (received piece (object_view c))")
    case (Inl x)
    with app.message [OF s1(2,3), of undefined] s1(4) s(3) show ?thesis unfolding step s1(1) call by simp
  next
    case (Inr v)
    with app.message [OF s1(2,3), of undefined] s1(4,5) s(3) obtain s2 where
      s2: "call_if_set (messageCallback ?app) s1 = Inr s2" "view_of s2 = v" "socket_reads s2 = rs" by auto
    have "conn_result ?me ok ?s (TcpConnection_event ?me ?cbs ?s (Ready EPOLLIN))"
      by (rule site.user.event_ok [OF ci]) (simp_all add: plain_events_def event_masks)
    then have "conn_inv ?me s2" unfolding s1(1) call s2(1) by (simp add: conn_result_def)
    from conn_inv_output [OF this] s2 show ?thesis
      unfolding Inr step s1(1) call
      by (auto intro!: exI [of _ "leave ?l i s2"] simp: object_view_def view_of_def)
  qed
qed

lemma quiet_user: "server_user (\<lambda>_ _. False) (site_callbacks onC (\<lambda>me s. Inr s))"
  by (rule site_user)
    (use up_total user_facts(3) step_up in \<open>auto simp: served.R_refl keeps_revents_def keeps_conn_Inr\<close>)

lemma step_fault:
  assumes inv: "server_inv w" and lab: "sound_label w lab" and alone: "unattended [lab]"
    and run: "server_step (site_callbacks onC onM) w lab = Inl x"
  shows "(\<exists>rs. lab = AcceptReady rs \<and> accept_fault w rs x) \<or>
    (\<exists>i r c. lab = ConnReady i r \<and> objects w i = Some c \<and> co_state c \<noteq> kConnecting \<and> ok (co_context c) x)"
proof (cases "\<exists>i r. lab = ConnReady i r")
  case True
  then obtain i r where l: "lab = ConnReady i r" by blast
  with lab obtain c where o: "objects w i = Some c" and plain: "plain_events r" by auto
  have fails: "connection_event (site_callbacks onC onM) i (Ready r) w = Inl x" using run l by simp
  have "ok (co_context c) x"
    using site.connection_event_inv [OF inv o, of "Ready r"] plain fails by simp
  moreover have "co_state c \<noteq> kConnecting"
  proof
    assume st: "co_state c = kConnecting"
    have "conn_inv (threadId (loops w (co_loop c))) (enter i w)"
      using inv o by (auto simp: server_inv_def intro: object_conn_inv)
    note conn_open_interest [OF this]
    then have "interest (poller (enter i w)) (ch_fd (conn_ch (enter i w))) = None"
      using st o by (simp add: conn_open_def)
    with fails o show False by (simp add: connection_event_def on_connection_def)
  qed
  ultimately show ?thesis using l o by blast
next
  case False
  have "server_step (site_callbacks onC (\<lambda>me s. Inr s)) w lab = Inl x"
    using run alone False site_step_same [of lab onC onM w "\<lambda>me s. Inr s"] by auto
  with server_user.server_step_ok [OF quiet_user inv lab] False alone show ?thesis
    by (auto simp: fault_of_step_def split: server_label.splits)
qed

lemma site_run:
  assumes "sound_resources me resources n" and "distinct [snd wakeup, snd timer, snd listen]"
    and "distinct [fst wakeup, fst timer, fst listen]"
    and start: "server_started me now wakeup timer name listen n resources = Inr w0"
    and trace: "server_trace (site_callbacks onC onM) w0 labs w" and alone: "unattended labs"
  shows "server_inv w" and "created w = length (arrivals labs)"
    and "objects w i = Some c \<Longrightarrow> connection_sound_in w name n i c \<and> i < length (arrivals labs) \<and>
           answers greet react (arrivals labs ! i) c"
proof -
  have no: "\<And>i u. UserCall i u \<in> set labs \<Longrightarrow> False" and prompt: "\<And>i r. ConnPolled i r \<notin> set labs"
    using alone by (simp_all add: unattended_def)
  have run: "server_inv w" "loop_count w = n + 1" "srv_name w = name" "created w = length (arrivals labs)"
    by (rule site.started_story [OF assms(1-5) _ prompt], erule no)+
  have "i < length (arrivals labs) \<and> served_as greet react (newborn (n + 1) name i (arrivals labs ! i)) c"
    if "objects w i = Some c"
    by (rule site.started_story(5) [OF assms(1-5) _ prompt that], erule no)
  then show "connection_sound_in w name n i c \<and> i < length (arrivals labs) \<and> answers greet react (arrivals labs ! i) c"
    if "objects w i = Some c"
    using sound_object [OF run(1) that run(2,3)] that served_newborn by blast
  show "server_inv w" "created w = length (arrivals labs)" by (rule run(1), rule run(4))
qed

end

lemma sound_output: "connection_sound_in w name n i c \<Longrightarrow> co_handed_over c = co_wire c @ Buffer_content (co_output c)"
  by (simp add: connection_sound_in_def)

section \<open>The echo server\<close>

definition EchoServer_callbacks :: "'x served_callbacks" where
  "EchoServer_callbacks = site_callbacks EchoServer_onConnection EchoServer_onMessage"

text \<open>\<open>main\<close> of echo_server.cpp up to \<open>loop\<close>, on the socket that its listener has bound to port 8888.\<close>

definition EchoServer_main ::
    "tid \<Rightarrow> timestamp \<Rightarrow> (int \<times> addr) \<Rightarrow> (int \<times> addr) \<Rightarrow> (int \<times> addr) \<Rightarrow> (nat \<Rightarrow> thread_resources) \<Rightarrow>
     'x server_world res" where
  "EchoServer_main me now wakeup timer listen resources =
     server_started me now wakeup timer ''EchoServer'' listen 4 resources"

lemma echo_step:
  assumes "EchoServer_onMessage me s = Inr s'"
  shows "served_step me l i s s'"
proof -
  obtain msg buf where "TcpConnection_send me None msg (s\<lparr>inputBuffer := buf\<rparr>) = Inr s'"
    using assms by (auto simp: EchoServer_onMessage_def returned)
  then have "served_step me l i (s\<lparr>inputBuffer := buf\<rparr>) s'"
    by (rule served.send_R [rotated]) (simp add: served.R_refl)
  with served.R_data(1) show ?thesis by (rule served_step_trans)
qed

interpretation echo_site: served_app "\<lambda>_ _. False" EchoServer_onConnection EchoServer_onMessage "\<lambda>v. v" echo_react
  by unfold_locales
    (rule echo_up, simp add: EchoServer_onConnection_def,
     simp add: EchoServer_onConnection_def served.R_refl, rule echo_step)

lemma echo_answers:
  fixes c :: "'x connection_object"
  assumes "answers (\<lambda>v. v) echo_react a c"
  shows "co_handed_over c @ input_stream (co_reads c) = input_stream (acc_reads a) \<and>
    (co_state c = kConnected \<longrightarrow> Buffer_content (co_input c) = [])"
proof -
  have "react_pieces echo_react (fresh_view :: 'x app_view) ps = Inr (fresh_view\<lparr>v_output := concat ps\<rparr>)" for ps
    using echo_pieces [of "fresh_view :: 'x app_view" ps] by (simp add: fresh_view_def)
  with assms show ?thesis by (cases rule: answers_cases) (auto simp: fresh_view_def)
qed

lemma echo_progress:
  assumes inv: "server_inv w" and o: "objects w i = Some c" and st: "co_state c = kConnected"
    and input: "co_reads c = ReadData piece # rs" and piece: "piece \<noteq> []" "length piece \<le> kExtrabufSize"
    and c: "Buffer_content (co_input c) = []" "co_handed_over c = co_wire c @ Buffer_content (co_output c)"
  shows "\<exists>w' c'. server_step EchoServer_callbacks w (ConnReady i EPOLLIN) = Inr w' \<and> objects w' i = Some c' \<and>
    co_state c' = kConnected \<and> co_reads c' = rs \<and>
    co_wire c' @ Buffer_content (co_output c') = co_wire c @ Buffer_content (co_output c) @ piece"
proof -
  let ?v = "\<lparr>v_state = kConnected, v_input = [], v_context = co_context c, v_output = co_handed_over c @ piece\<rparr>"
  have "echo_react (received piece (object_view c)) = Inr ?v"
    using st c(1) by (simp add: echo_react_def received_def object_view_def)
  with echo_site.input_progress [OF inv o disjI1 [OF st] input piece] obtain w' c' where
    "server_step EchoServer_callbacks w (ConnReady i EPOLLIN) = Inr w'" "objects w' i = Some c'"
    "object_view c' = ?v" "co_reads c' = rs" "co_handed_over c' = co_wire c' @ Buffer_content (co_output c')"
    by (auto simp: EchoServer_callbacks_def)
  moreover from this(3) have "co_state c' = kConnected" "co_handed_over c' = co_handed_over c @ piece"
    by (simp_all add: object_view_def)
  ultimately show ?thesis using c(2) by auto
qed

text \<open>
  C4: The echo server of echo_server.cpp, from its start with four threads on, whatever its peers send
  and the kernel does and in whatever order its threads move: no step fails but in the acceptor, every
  connection is served in the thread that its number says, and what is on its wire, what waits in its
  output buffer and what it has not read yet are together, in this order, the bytes that its peer
  sends. Input that the kernel has for an open connection is echoed by the next report of it.
\<close>

theorem echo_site_echoes:
  assumes "sound_resources me resources 4" and "distinct [snd wakeup, snd timer, snd listen]"
    and "distinct [fst wakeup, fst timer, fst listen]"
    and start: "EchoServer_main me now wakeup timer listen resources = Inr w0"
    and trace: "server_trace EchoServer_callbacks w0 labs w" and alone: "unattended labs"
  shows "created w = length (arrivals labs) \<and>
    (\<forall>lab x. sound_label w lab \<and> unattended [lab] \<and> server_step EchoServer_callbacks w lab = Inl x \<longrightarrow>
       (\<exists>rs. lab = AcceptReady rs \<and> accept_fault w rs x)) \<and>
    (\<forall>i c. objects w i = Some c \<longrightarrow>
       i < length (arrivals labs) \<and> connection_sound_in w ''EchoServer'' 4 i c \<and>
       co_wire c @ Buffer_content (co_output c) @ input_stream (co_reads c) =
         input_stream (acc_reads (arrivals labs ! i)) \<and>
       (\<forall>piece rs. co_state c = kConnected \<and> co_reads c = ReadData piece # rs \<and> piece \<noteq> [] \<and>
          length piece \<le> kExtrabufSize \<longrightarrow>
          (\<exists>w' c'. server_step EchoServer_callbacks w (ConnReady i EPOLLIN) = Inr w' \<and> objects w' i = Some c' \<and>
             co_state c' = kConnected \<and> co_reads c' = rs \<and>
             co_wire c' @ Buffer_content (co_output c') = co_wire c @ Buffer_content (co_output c) @ piece)))"
proof -
  note run = echo_site.site_run [OF assms(1-3) start [unfolded EchoServer_main_def]
      trace [unfolded EchoServer_callbacks_def] alone]
  have "\<exists>rs. lab = AcceptReady rs \<and> accept_fault w rs x"
    if "sound_label w lab" "unattended [lab]" "server_step EchoServer_callbacks w lab = Inl x" for lab x
    using echo_site.step_fault [OF run(1) that(1,2)] that(3) by (simp add: EchoServer_callbacks_def)
  moreover
  have "i < length (arrivals labs) \<and> connection_sound_in w ''EchoServer'' 4 i c \<and>
      co_wire c @ Buffer_content (co_output c) @ input_stream (co_reads c) = input_stream (acc_reads (arrivals labs ! i)) \<and>
      (co_state c = kConnected \<longrightarrow> Buffer_content (co_input c) = [])" if "objects w i = Some c" for i c
  proof -
    have c: "connection_sound_in w ''EchoServer'' 4 i c" "i < length (arrivals labs)"
      "answers (\<lambda>v. v) echo_react (arrivals labs ! i) c" using run(3) [OF that] by blast+
    from echo_answers [OF c(3)] c(1,2) show ?thesis unfolding sound_output [OF c(1)] by simp
  qed
  moreover have "co_handed_over c = co_wire c @ Buffer_content (co_output c)" if "objects w i = Some c" for i c
    using run(3) [OF that] sound_output by blast
  ultimately show ?thesis using run(2) echo_progress [OF run(1)] by blast
qed

text \<open>A run in which one connection is accepted and established in the thread of its loop.\<close>

abbreviation site_resources :: "nat \<Rightarrow> thread_resources" where
  "site_resources \<equiv> (\<lambda>i. \<lparr>new_tid = 2 + i, new_wakeupFd = 20 + 2 * int i, new_wakeupChannel = 400 + 16 * int i,
     new_timerfd = 21 + 2 * int i, new_timerfdChannel = 408 + 16 * int i\<rparr>)"

definition one_peer :: "readv_result list \<Rightarrow> write_result list \<Rightarrow> server_label list" where
  "one_peer reads writes =
     [AcceptReady [Accepted \<lparr>acc_fd = 9, acc_address = 200, acc_reads = reads, acc_writes = writes\<rparr>],
      TakeFunctors 1, RunFunctor 1]"

lemma one_peer_trace:
  assumes start: "server_started 1 now (3, 64) (4, 72) name (5, 80) 4 site_resources = Inr w0"
    and run: "for_each (server_step cbs) w0 (one_peer reads writes) = Inr w"
  shows "sound_resources 1 site_resources 4" and "server_trace cbs w0 (one_peer reads writes) w"
    and "unattended (one_peer reads writes)"
    and "arrivals (one_peer reads writes) =
      [\<lparr>acc_fd = 9, acc_address = 200, acc_reads = reads, acc_writes = writes\<rparr>]"
proof -
  let ?a = "\<lparr>acc_fd = 9, acc_address = 200, acc_reads = reads, acc_writes = writes\<rparr>"
  show res: "sound_resources 1 site_resources 4" by (simp add: sound_resources_def numeral_eq_Suc)
  show "unattended (one_peer reads writes)" "arrivals (one_peer reads writes) = [?a]"
    by (simp_all add: one_peer_def)
  obtain w0' :: "'a server_world" and p where "server_started 1 now (3, 64) (4, 72) name (5, 80) 4 site_resources = Inr w0'"
    and just: "just_started 1 now (3, 64) (4, 72) name (5, 80) 4 site_resources p w0'"
    by (rule started_state [OF res, of "(3, 64)" "(4, 72)" "(5, 80)"]) simp_all
  with start have "fresh_accept w0 ?a" using started_fresh [OF just, of ?a] by simp
  then have lab: "sound_label w0 (AcceptReady [Accepted ?a])" by simp
  obtain w1 w2 where steps: "server_step cbs w0 (AcceptReady [Accepted ?a]) = Inr w1"
    "server_step cbs w1 (TakeFunctors 1) = Inr w2" "server_step cbs w2 (RunFunctor 1) = Inr w"
    using run by (auto simp: one_peer_def returned simp del: server_step.simps)
  from step_trace [OF step_trace [OF step_trace [OF begin_trace lab steps(1)] _ steps(2)] _ steps(3)]
  show "server_trace cbs w0 (one_peer reads writes) w" by (simp add: one_peer_def)
qed

theorem echo_site_echoes_witness:
  "\<exists>w0 w w' :: unit server_world. \<exists>c.
     EchoServer_main 1 (Timestamp 0) (3, 64) (4, 72) (5, 80) site_resources = Inr w0 \<and>
     server_trace EchoServer_callbacks w0 (one_peer [ReadData ''abc''] [Wrote 2]) w \<and>
     server_step EchoServer_callbacks w (ConnReady 0 EPOLLIN) = Inr w' \<and>
     objects w' 0 = Some c \<and> co_wire c @ Buffer_content (co_output c) = ''abc''"
proof -
  have "case and_then (EchoServer_main 1 (Timestamp 0) (3, 64) (4, 72) (5, 80) site_resources)
          (\<lambda>w. for_each (server_step EchoServer_callbacks) w (one_peer [ReadData ''abc''] [Wrote 2])) of
        Inl x \<Rightarrow> False
      | Inr w \<Rightarrow> (case objects (w :: unit server_world) 0 of
          None \<Rightarrow> False | Some c \<Rightarrow> co_state c = kConnected \<and> co_reads c = [ReadData ''abc''])"
    by code_simp
  then obtain w0 w :: "unit server_world" and c where
    w: "EchoServer_main 1 (Timestamp 0) (3, 64) (4, 72) (5, 80) site_resources = Inr w0"
      "for_each (server_step EchoServer_callbacks) w0 (one_peer [ReadData ''abc''] [Wrote 2]) = Inr w"
      "objects w 0 = Some c" "co_state c = kConnected" "co_reads c = [ReadData ''abc'']"
    by (auto split: sum.splits option.splits simp: returned)
  note tr = one_peer_trace [OF w(1) [unfolded EchoServer_main_def] w(2)]
  note echoes = echo_site_echoes [OF tr(1) _ _ w(1) tr(2,3), unfolded tr(4)]
  note obj = echoes [simplified, THEN conjunct2, THEN conjunct2, rule_format, OF w(3)]
  then have "co_wire c @ Buffer_content (co_output c) @ ''abc'' = ''abc''" using w(5) by simp
  moreover have "\<exists>w' c'. server_step EchoServer_callbacks w (ConnReady 0 EPOLLIN) = Inr w' \<and> objects w' 0 = Some c' \<and>
      co_wire c' @ Buffer_content (co_output c') = co_wire c @ Buffer_content (co_output c) @ ''abc''"
    using obj w(4,5) by (auto simp: kExtrabufSize_def)
  ultimately show ?thesis using w(1) tr(2) by auto
qed

section \<open>HttpServer\<close>

text \<open>The callbacks that the constructor of HttpServer sets on its TcpServer.\<close>

definition HttpServer_callbacks :: "header_order \<Rightarrow> http_callback option \<Rightarrow> http_context served_callbacks" where
  "HttpServer_callbacks order httpCallback =
     site_callbacks HttpServer_onConnection (\<lambda>me. HttpServer_onMessage me order httpCallback)"

lemma served_context: "served_step me l i s (s\<lparr>conn_context := c\<rparr>)"
  by (simp add: served_step_def taken_out_def still_there_def)

interpretation http_site: served_app "http_fault cb" HttpServer_onConnection
    "\<lambda>me. HttpServer_onMessage me order cb" "\<lambda>v. v\<lparr>v_context := Some HttpContext_new\<rparr>" "http_react order cb"
  for cb order
proof (intro served_app.intro, goal_cases)
  case (1 me destroyed)
  show ?case by (rule http.stream_app_axioms [unfolded http_callbacks_def])
next
  case (2 me)
  show ?case by (simp add: keeps_conn_def HttpServer_onConnection_def conn_next_def)
next
  case (3 s s')
  then show ?case by (simp add: HttpServer_onConnection_def)
next
  case (4 s s' me l i)
  then show ?case by (auto simp: HttpServer_onConnection_def served_context served.R_refl split: if_splits)
next
  case (5 me s s' l i)
  then show ?case by (rule http_message_R [OF served.conn_steps_axioms served_context])
qed

lemma http_answers_context:
  assumes "answers (\<lambda>v. v\<lparr>v_context := Some HttpContext_new\<rparr>) (http_react order cb) a c" and "co_state c \<noteq> kConnecting"
  shows "co_context c \<noteq> None"
  using assms by (cases rule: answers_cases) (use http_react_context in fastforce)+

lemma http_answers_request:
  assumes ans: "answers (\<lambda>v. v\<lparr>v_context := Some HttpContext_new\<rparr>) (http_react order cb) a c"
    and req: "clean_request r" and input: "input_stream (acc_reads a) = render_request r"
    and resp: "HttpServer_response cb (request_of r) = Inr resp"
  shows "co_handed_over c = (if input_stream (co_reads c) = [] then response_bytes order resp else [])"
    and "input_stream (co_reads c) = [] \<Longrightarrow> closeConnection resp \<Longrightarrow> co_state c = kDisconnecting \<or> co_state c = kDisconnected"
proof -
  let ?v = "fresh_view\<lparr>v_context := Some HttpContext_new\<rparr>"
  let ?c = "\<lparr>ctx_state = kGotAll, ctx_request = request_of r\<rparr>"
  have some: "render_request r \<noteq> []" by (simp add: render_request_def kCRLF_def)
  have not_yet: "\<not> HttpContext_gotAll HttpContext_new" by (simp add: HttpContext_gotAll_def HttpContext_new_def)
  have v: "v_context ?v = Some HttpContext_new" "v_input ?v = []" "v_output ?v = []" "v_state ?v = kConnected"
    by (simp_all add: fresh_view_def)
  have parse: "parse_bytes HttpContext_new (v_input ?v @ render_request r) = (True, ?c, [])"
    using parse_render_request [OF req, of "[]"] v(2) by simp
  have idle: "parse_bytes HttpContext_new (v_input ?v) = (True, HttpContext_new, v_input ?v)"
    unfolding v(2) by (rule new_context_idle)
  have "co_handed_over c = (if input_stream (co_reads c) = [] then response_bytes order resp else []) \<and>
    (input_stream (co_reads c) = [] \<and> closeConnection resp \<longrightarrow> co_state c = kDisconnecting \<or> co_state c = kDisconnected)"
    using ans
  proof (cases rule: answers_cases)
    case waiting
    with some input show ?thesis by simp
  next
    case (served ps u)
    have cut: "render_request r = concat ps @ input_stream (co_reads c)" using served(3) input by simp
    show ?thesis
    proof (cases "input_stream (co_reads c) = []")
      case True
      have "\<forall>p \<in> set ps. p \<noteq> []" using served(2) by auto
      from react_request [OF v(1) idle not_yet this, of ?c order cb] cut parse True served(4)
      have "answer_view order cb ?c (?v\<lparr>v_context := Some ?c, v_input := []\<rparr>) = Inr u"
        by (simp add: HttpContext_gotAll_def)
      then have "v_output u = response_bytes order resp" "closeConnection resp \<Longrightarrow> v_state u = kDisconnecting"
        using resp v by (auto simp: answer_view_def v_send_def v_shutdown_def split: if_splits)
      with served(5,8) True show ?thesis by auto
    next
      case False
      obtain c1 r1 where "react_pieces (http_react order cb) ?v ps = Inr (?v\<lparr>v_context := Some c1, v_input := r1\<rparr>)"
        by (rule react_waits [OF v(1) idle not_yet _ False, of ps ?c]) (use parse cut in simp)
      with served(4) have "u = ?v\<lparr>v_context := Some c1, v_input := r1\<rparr>" by simp
      with served(5) v(3) False show ?thesis by simp
    qed
  qed
  then show "co_handed_over c = (if input_stream (co_reads c) = [] then response_bytes order resp else [])"
    "input_stream (co_reads c) = [] \<Longrightarrow> closeConnection resp \<Longrightarrow> co_state c = kDisconnecting \<or> co_state c = kDisconnected"
    by blast+
qed

text \<open>What holds of the connections of an HttpServer in a run.\<close>

lemma http_run:
  assumes "sound_resources me resources n" and "distinct [snd wakeup, snd timer, snd listen]"
    and "distinct [fst wakeup, fst timer, fst listen]"
    and start: "server_started me now wakeup timer name listen n resources = Inr w0"
    and trace: "server_trace (HttpServer_callbacks order cb) w0 labs w" and alone: "unattended labs"
  shows "sound_label w lab \<Longrightarrow> unattended [lab] \<Longrightarrow> server_step (HttpServer_callbacks order cb) w lab = Inl x \<Longrightarrow>
      (\<exists>rs. lab = AcceptReady rs \<and> accept_fault w rs x) \<or>
      (\<exists>i r request. lab = ConnReady i r \<and> HttpServer_response cb request = Inl x)"
    and "created w = length (arrivals labs)"
    and "objects w i = Some c \<Longrightarrow> connection_sound_in w name n i c \<and> i < length (arrivals labs)"
    and "objects w i = Some c \<Longrightarrow> clean_request r \<Longrightarrow>
      input_stream (acc_reads (arrivals labs ! i)) = render_request r \<Longrightarrow>
      HttpServer_response cb (request_of r) = Inr resp \<Longrightarrow>
      co_wire c @ Buffer_content (co_output c) =
        (if input_stream (co_reads c) = [] then response_bytes order resp else []) \<and>
      (input_stream (co_reads c) = [] \<and> closeConnection resp \<longrightarrow> co_state c = kDisconnecting \<or> co_state c = kDisconnected)"
proof -
  note run = http_site.site_run [OF assms(1-4) trace [unfolded HttpServer_callbacks_def] alone]
  show "(\<exists>rs. lab = AcceptReady rs \<and> accept_fault w rs x) \<or>
      (\<exists>i r request. lab = ConnReady i r \<and> HttpServer_response cb request = Inl x)"
    if "sound_label w lab" "unattended [lab]" "server_step (HttpServer_callbacks order cb) w lab = Inl x"
    using http_site.step_fault [OF run(1) that [unfolded HttpServer_callbacks_def]]
      run(3) http_answers_context unfolding http_fault_def by blast
  show "created w = length (arrivals labs)" by (rule run(2))
  show "objects w i = Some c \<Longrightarrow> connection_sound_in w name n i c \<and> i < length (arrivals labs)"
    using run(3) by blast
  show "co_wire c @ Buffer_content (co_output c) =
        (if input_stream (co_reads c) = [] then response_bytes order resp else []) \<and>
      (input_stream (co_reads c) = [] \<and> closeConnection resp \<longrightarrow> co_state c = kDisconnecting \<or> co_state c = kDisconnected)"
    if "objects w i = Some c" "clean_request r" "input_stream (acc_reads (arrivals labs ! i)) = render_request r"
      "HttpServer_response cb (request_of r) = Inr resp"
    using run(3) [OF that(1)] http_answers_request [OF _ that(2-4), of order c] sound_output by metis
qed

text \<open>A request that waits as a whole in the kernel is read and answered by one report.\<close>

lemma http_step_serves:
  assumes "sound_resources me resources n" and "distinct [snd wakeup, snd timer, snd listen]"
    and "distinct [fst wakeup, fst timer, fst listen]"
    and start: "server_started me now wakeup timer name listen n resources = Inr w0"
    and trace: "server_trace (HttpServer_callbacks order cb) w0 labs w" and alone: "unattended labs"
    and o: "objects w i = Some c" and st: "co_state c = kConnected"
    and input: "co_reads c = [ReadData (render_request r)]" "acc_reads (arrivals labs ! i) = [ReadData (render_request r)]"
    and req: "clean_request r" "length (render_request r) \<le> kExtrabufSize"
    and resp: "HttpServer_response cb (request_of r) = Inr resp"
  obtains w' c' where "server_trace (HttpServer_callbacks order cb) w0 (labs @ [ConnReady i EPOLLIN]) w'"
    and "server_step (HttpServer_callbacks order cb) w (ConnReady i EPOLLIN) = Inr w'"
    and "objects w' i = Some c'" and "co_reads c' = []" and "unattended (labs @ [ConnReady i EPOLLIN])"
proof -
  note run = http_site.site_run [OF assms(1-4) trace [unfolded HttpServer_callbacks_def] alone]
  let ?v = "fresh_view\<lparr>v_context := Some HttpContext_new\<rparr>"
  let ?c = "\<lparr>ctx_state = kGotAll, ctx_request = request_of r\<rparr>"
  have "answers (\<lambda>v. v\<lparr>v_context := Some HttpContext_new\<rparr>) (http_react order cb) (arrivals labs ! i) c"
    using run(3) [OF o] by blast
  then have view: "object_view c = ?v"
  proof (cases rule: answers_cases)
    case waiting
    with st show ?thesis by simp
  next
    case (served ps v)
    have "concat ps = []" using served(3) input by simp
    then have "ps = []" using served(2) by (cases ps) auto
    then have "v = ?v" using served(4) by simp
    with served(5-8) st show ?thesis by (simp add: object_view_def)
  qed
  have some: "render_request r \<noteq> []" by (simp add: render_request_def kCRLF_def)
  have parse: "parse_bytes HttpContext_new (render_request r) = (True, ?c, [])"
    using parse_render_request [OF req(1), of "[]"] by simp
  then have "http_react order cb (received (render_request r) ?v) =
      answer_view order cb ?c (?v\<lparr>v_context := Some ?c, v_input := []\<rparr>)"
    by (simp add: http_react_eq received_def fresh_view_def HttpContext_gotAll_def)
  also have "\<dots> \<noteq> Inl x" for x using resp by (simp add: answer_view_def)
  finally have "http_react order cb (received (render_request r) ?v) \<noteq> Inl x" for x .
  with http_site.input_progress [OF run(1) o disjI1 [OF st] input(1) some req(2), of order cb, unfolded view]
  obtain w' c' where w': "server_step (HttpServer_callbacks order cb) w (ConnReady i EPOLLIN) = Inr w'"
    "objects w' i = Some c'" "co_reads c' = []"
    by (auto simp: HttpServer_callbacks_def split: sum.splits)
  have "sound_label w (ConnReady i EPOLLIN)" using o by (simp add: plain_events_def event_masks)
  note step_trace [OF trace this w'(1)]
  moreover have "unattended (labs @ [ConnReady i EPOLLIN])" using alone by (simp add: unattended_def)
  ultimately show ?thesis using w' by (intro that)
qed

text \<open>\<open>main\<close> of src/main.cpp up to \<open>loop\<close>, on the socket that its listener has bound to port 8080.\<close>

definition HttpServer_main ::
    "tid \<Rightarrow> timestamp \<Rightarrow> (int \<times> addr) \<Rightarrow> (int \<times> addr) \<Rightarrow> (int \<times> addr) \<Rightarrow> (nat \<Rightarrow> thread_resources) \<Rightarrow>
     http_context server_world res" where
  "HttpServer_main me now wakeup timer listen resources =
     server_started me now wakeup timer ''HttpServer'' listen 4 resources"

definition HttpServer_main_callbacks :: "header_order \<Rightarrow> http_context served_callbacks" where
  "HttpServer_main_callbacks order = HttpServer_callbacks order (Some (\<lambda>req resp. Inr (main_handler req resp)))"

text \<open>
  C3: An HttpServer with any number of threads, in every order of its threads' steps and whatever its
  peers send: a step fails only in the acceptor or with a fault of the user's handler. Input that the
  kernel has for an open connection is taken by the next report of it. What a peer gets that sends one
  well-formed request, however the kernel cuts it, is nothing until all of it has been read and then
  exactly the response of the handler to it, once; if the response closes, the connection is on its
  way down by then.
\<close>

theorem http_site_serves:
  assumes "sound_resources me resources n" and "distinct [snd wakeup, snd timer, snd listen]"
    and "distinct [fst wakeup, fst timer, fst listen]"
    and start: "server_started me now wakeup timer name listen n resources = Inr w0"
    and trace: "server_trace (HttpServer_callbacks order cb) w0 labs w" and alone: "unattended labs"
  shows "created w = length (arrivals labs) \<and>
    (\<forall>lab x. sound_label w lab \<and> unattended [lab] \<and> server_step (HttpServer_callbacks order cb) w lab = Inl x \<longrightarrow>
       (\<exists>rs. lab = AcceptReady rs \<and> accept_fault w rs x) \<or>
       (\<exists>i ev request. lab = ConnReady i ev \<and> HttpServer_response cb request = Inl x)) \<and>
    (\<forall>i c. objects w i = Some c \<longrightarrow>
       i < length (arrivals labs) \<and> connection_sound_in w name n i c \<and>
       (\<forall>piece rs w'. (co_state c = kConnected \<or> co_state c = kDisconnecting) \<and> co_reads c = ReadData piece # rs \<and>
          piece \<noteq> [] \<and> length piece \<le> kExtrabufSize \<and>
          server_step (HttpServer_callbacks order cb) w (ConnReady i EPOLLIN) = Inr w' \<longrightarrow>
          (\<exists>c'. objects w' i = Some c' \<and> co_reads c' = rs)) \<and>
       (\<forall>r resp. clean_request r \<and> input_stream (acc_reads (arrivals labs ! i)) = render_request r \<and>
          HttpServer_response cb (request_of r) = Inr resp \<longrightarrow>
          co_wire c @ Buffer_content (co_output c) =
            (if input_stream (co_reads c) = [] then response_bytes order resp else []) \<and>
          (input_stream (co_reads c) = [] \<and> closeConnection resp \<longrightarrow>
             co_state c = kDisconnecting \<or> co_state c = kDisconnected)))"
proof -
  note run = http_run [OF assms]
  have inv: "server_inv w" by (rule http_site.site_run [OF assms(1-4) trace [unfolded HttpServer_callbacks_def] alone])
  have "\<exists>c'. objects w' i = Some c' \<and> co_reads c' = rs"
    if "objects w i = Some c" "co_state c = kConnected \<or> co_state c = kDisconnecting" "co_reads c = ReadData piece # rs"
      "piece \<noteq> []" "length piece \<le> kExtrabufSize"
      "server_step (HttpServer_callbacks order cb) w (ConnReady i EPOLLIN) = Inr w'" for i c piece rs w'
    using http_site.input_progress [OF inv that(1-5), of order cb] that(6)
    by (auto simp: HttpServer_callbacks_def split: sum.splits)
  with run show ?thesis by blast
qed

theorem http_site_serves_witness:
  "\<exists>w0 w w' c. HttpServer_main 1 (Timestamp 0) (3, 64) (4, 72) (5, 80) site_resources = Inr w0 \<and>
     server_trace (HttpServer_main_callbacks example_order) w0
       (one_peer [ReadData (render_request example_request)] []) w \<and>
     server_step (HttpServer_main_callbacks example_order) w (ConnReady 0 EPOLLIN) = Inr w' \<and> objects w' 0 = Some c \<and>
     co_wire c @ Buffer_content (co_output c) =
       response_bytes example_order (main_handler (request_of example_request) (HttpResponse_new True)) \<and>
     (co_state c = kDisconnecting \<or> co_state c = kDisconnected)"
proof -
  let ?cb = "Some (\<lambda>req resp. Inr (main_handler req resp)) :: http_callback option"
  let ?cbs = "HttpServer_main_callbacks example_order"
  let ?in = "[ReadData (render_request example_request)]"
  let ?resp = "main_handler (request_of example_request) (HttpResponse_new True)"
  have "case and_then (HttpServer_main 1 (Timestamp 0) (3, 64) (4, 72) (5, 80) site_resources)
          (\<lambda>w. for_each (server_step ?cbs) w (one_peer ?in [])) of
        Inl x \<Rightarrow> False
      | Inr w \<Rightarrow> (case objects w 0 of None \<Rightarrow> False
          | Some c \<Rightarrow> co_state c = kConnected \<and> co_reads c = [ReadData (render_request example_request)])"
    by code_simp
  then obtain w0 w c where
    w: "HttpServer_main 1 (Timestamp 0) (3, 64) (4, 72) (5, 80) site_resources = Inr w0"
      "for_each (server_step ?cbs) w0 (one_peer ?in []) = Inr w" "objects w 0 = Some c" "co_state c = kConnected"
      "co_reads c = ReadData (render_request example_request) # []"
    by (auto split: sum.splits option.splits simp: returned)
  note tr = one_peer_trace [OF w(1) [unfolded HttpServer_main_def] w(2)]
  have disjoint: "distinct [snd (3 :: int, 64), snd (4 :: int, 72), snd (5 :: int, 80 :: addr)]"
    "distinct [fst (3 :: int, 64 :: addr), fst (4, 72 :: addr), fst (5, 80 :: addr)]" by simp_all
  note serves = http_site_serves [OF tr(1) disjoint w(1) [unfolded HttpServer_main_def],
      where cb = ?cb and order = example_order, folded HttpServer_main_callbacks_def]
  have resp: "HttpServer_response ?cb (request_of example_request) = Inr ?resp" by (simp add: HttpServer_response_def)
  have close: "closeConnection ?resp"
    by (simp add: main_handler_def request_of_def example_request_def HttpResponse_new_def
        HttpResponse_setContentType_def HttpResponse_addHeader_def)
  have fit: "length (render_request example_request) \<le> kExtrabufSize"
    by (simp add: example_request_bytes kExtrabufSize_def kCRLF_def)
  obtain w' c' where after: "server_trace ?cbs w0 (one_peer ?in [] @ [ConnReady 0 EPOLLIN]) w'"
    "server_step ?cbs w (ConnReady 0 EPOLLIN) = Inr w'" "objects w' 0 = Some c'" "co_reads c' = []"
    "unattended (one_peer ?in [] @ [ConnReady 0 EPOLLIN])"
    by (rule http_step_serves [OF tr(1) disjoint w(1) [unfolded HttpServer_main_def]
          tr(2) [unfolded HttpServer_main_callbacks_def] tr(3) w(3-5) _ example_request_bytes(2) fit resp,
          folded HttpServer_main_callbacks_def]) (simp_all add: tr(4))
  have arr: "arrivals (one_peer ?in [] @ [ConnReady 0 EPOLLIN]) =
      [\<lparr>acc_fd = 9, acc_address = 200, acc_reads = ?in, acc_writes = []\<rparr>]" using tr(4) by simp
  have "co_wire c' @ Buffer_content (co_output c') = response_bytes example_order ?resp \<and>
      (co_state c' = kDisconnecting \<or> co_state c' = kDisconnected)"
    using serves [OF after(1,5), THEN conjunct2, THEN conjunct2, rule_format, OF after(3), THEN conjunct2, THEN conjunct2,
        THEN conjunct2, rule_format, of example_request ?resp] after(4) example_request_bytes(2) resp close
    unfolding arr by simp
  with w(1) tr(2) after(2,3) show ?thesis by blast
qed

section \<open>The static file server\<close>

text \<open>\<open>main\<close> of examples/http/static_file_server.cpp up to \<open>loop\<close>, on the socket bound to port 8000.\<close>

definition www_root :: string where
  "www_root = ''/home/petrichor/AgoraIM/www''"

definition StaticFileServer_main ::
    "tid \<Rightarrow> timestamp \<Rightarrow> (int \<times> addr) \<Rightarrow> (int \<times> addr) \<Rightarrow> (int \<times> addr) \<Rightarrow> (nat \<Rightarrow> thread_resources) \<Rightarrow>
     http_context server_world res" where
  "StaticFileServer_main me now wakeup timer listen resources =
     server_started me now wakeup timer ''StaticFileServer'' listen 4 resources"

definition StaticFileServer_main_callbacks ::
    "(string \<Rightarrow> opened) \<Rightarrow> header_order \<Rightarrow> http_context served_callbacks" where
  "StaticFileServer_main_callbacks fs order =
     HttpServer_callbacks order (Some (StaticFileServer_onRequest fs www_root))"

end
