(* ===== verification/Clients.thy ===== *)
theory Clients
  imports Servers Connectors Stream_Apps
begin

text \<open>
  TcpClient (src/net/tcp_client.cpp): a connector and at most one connection in one loop. The client
  extends the state of its connector; its connections are objects as those of a server. The functors
  that the connector gives to the loop hold a raw pointer to it, so the state tells whether it is
  still alive. The lemmas show how a descriptor passes from the connector to a connection, what a
  client does when its connection closes, and how its destruction ends.
\<close>

unbundle bit_operations_syntax

section \<open>TcpClient\<close>

datatype client_functor = DestroyConnection nat

text \<open>
  \<open>client_sockets\<close> is what the sockets of the coming connections deliver and accept.
\<close>

record 'x tcp_client = "client_functor connector" +
  client_name :: string
  client_retry :: bool
  client_connect :: bool
  connection_ptr :: "nat option"
  client_objects :: "nat \<Rightarrow> 'x connection_object option"
  client_created :: nat
  client_sockets :: "(readv_result list \<times> write_result list) list"
  connector_alive :: bool

type_synonym 'x client_conn = "(client_functor connector_functor, 'x, 'x tcp_client) tcp_connection_scheme"

text \<open>
  Whether the close callback is set, the thread and the connection decide on the callbacks.
\<close>

type_synonym 'x client_callbacks = "bool \<Rightarrow> tid \<Rightarrow> nat \<Rightarrow> 'x client_conn connection_callbacks"

subsection \<open>A connection of the client\<close>

definition enter_object :: "nat \<Rightarrow> 'x tcp_client \<Rightarrow> 'x client_conn" where
  "enter_object i s =
     (let c = the (client_objects s i)
      in \<lparr>threadId = threadId s, looping = looping s, quit = quit s, poller = poller s,
          pendingFunctors = pendingFunctors s, callingPendingFunctors = callingPendingFunctors s,
          wakeupChannel = wakeupChannel s, wakeups = wakeups s, timerfdChannel = timerfdChannel s,
          timerQueue = timerQueue s,
          conn_name = co_name c, conn_state = co_state c, conn_channel = co_channel c,
          inputBuffer = co_input c, outputBuffer = co_output c, conn_context = co_context c,
          socket_reads = co_reads c, socket_writes = co_writes c, wire = co_wire c,
          fin_sent = co_fin_sent c, handed_over = co_handed_over c, \<dots> = s\<rparr>)"

definition leave_object :: "nat \<Rightarrow> 'x client_conn \<Rightarrow> 'x tcp_client" where
  "leave_object i t =
     (let s = tcp_connection.more t
      in s\<lparr>threadId := threadId t, looping := looping t, quit := quit t, poller := poller t,
           pendingFunctors := pendingFunctors t, callingPendingFunctors := callingPendingFunctors t,
           wakeupChannel := wakeupChannel t, wakeups := wakeups t, timerfdChannel := timerfdChannel t,
           timerQueue := timerQueue t, client_objects := (client_objects s)(i \<mapsto> object_of 0 t)\<rparr>)"

definition on_object ::
    "nat \<Rightarrow> ('x client_conn \<Rightarrow> 'x client_conn res) \<Rightarrow> 'x tcp_client \<Rightarrow> 'x tcp_client res" where
  "on_object i f s =
     (case client_objects s i of
        None \<Rightarrow> Inl UseAfterFree
      | Some c \<Rightarrow> map_res (leave_object i) (f (enter_object i s)))"

text \<open>The last pointer to a connection goes: its channel is deleted and its descriptor closed.\<close>

definition delete_object :: "nat \<Rightarrow> 'x tcp_client \<Rightarrow> 'x tcp_client res" where
  "delete_object i s =
     (case client_objects s i of
        None \<Rightarrow> Inl UseAfterFree
      | Some c \<Rightarrow>
          map_res (\<lambda>ch. s\<lparr>client_objects := (client_objects s)(i := None),
              poller := (delete_channel (co_channel c) (poller s))
                \<lparr>interest := (interest (poller s))(ch_fd ch := None)\<rparr>\<rparr>)
            (channel_at (poller s) (co_channel c)))"

subsection \<open>Operations\<close>

definition TcpClient_new ::
    "client_functor connector_functor event_loop \<Rightarrow> string \<Rightarrow> (int \<times> nat) list \<Rightarrow> nat list \<Rightarrow> addr list \<Rightarrow>
     (readv_result list \<times> write_result list) list \<Rightarrow> 'x tcp_client" where
  "TcpClient_new l name socks errs as conns =
     connector.extend (Connector_new l socks errs as)
       \<lparr>client_name = name, client_retry = False, client_connect = False, connection_ptr = None,
        client_objects = Map.empty, client_created = 0, client_sockets = conns, connector_alive = True\<rparr>"

definition TcpClient_enableRetry :: "'x tcp_client \<Rightarrow> 'x tcp_client" where
  "TcpClient_enableRetry s = s\<lparr>client_retry := True\<rparr>"

definition TcpClient_disableRetry :: "'x tcp_client \<Rightarrow> 'x tcp_client" where
  "TcpClient_disableRetry s = s\<lparr>client_retry := False\<rparr>"

definition TcpClient_removeConnection :: "tid \<Rightarrow> nat \<Rightarrow> 'x tcp_client \<Rightarrow> 'x tcp_client res" where
  "TcpClient_removeConnection me i s =
     and_then (EventLoop_assertInLoopThread me s) (\<lambda>_.
     and_then (assert_that (connection_ptr s = Some i)) (\<lambda>_.
     (let s = EventLoop_queueInLoop me (Other (DestroyConnection i)) (s\<lparr>connection_ptr := None\<rparr>)
      in if client_retry s \<and> client_connect s then Connector_restart me s else Inr s)))"

text \<open>The close callback that \<open>newConnection\<close> sets.\<close>

definition client_close_callback :: "tid \<Rightarrow> nat \<Rightarrow> 'x client_conn \<Rightarrow> 'x client_conn res" where
  "client_close_callback me i t = map_res (enter_object i) (TcpClient_removeConnection me i (leave_object i t))"

text \<open>
  The functor of a connection's destruction, which holds the last pointer to it. The close callback
  of a connection is set as long as the client is there.
\<close>

definition client_exec :: "'x client_callbacks \<Rightarrow> tid \<Rightarrow> client_functor \<Rightarrow> 'x tcp_client \<Rightarrow> 'x tcp_client res" where
  "client_exec cbs me g s =
     (case g of
        DestroyConnection i \<Rightarrow>
          and_then (on_object i (TcpConnection_connectDestroyed me (cbs (connector_alive s) me i)) s)
            (delete_object i))"

text \<open>Assigning the new connection to \<open>connection_\<close> drops the pointer to an earlier one.\<close>

definition TcpClient_newConnection ::
    "'x client_callbacks \<Rightarrow> tid \<Rightarrow> int \<Rightarrow> 'x tcp_client \<Rightarrow> 'x tcp_client res" where
  "TcpClient_newConnection cbs me sockfd s =
     and_then (EventLoop_assertInLoopThread me s) (\<lambda>_.
     and_then (new_Channel sockfd s) (\<lambda>(a, s).
     (let i = client_created s;
          (reads, writes) = (case client_sockets s of [] \<Rightarrow> ([], []) | r # _ \<Rightarrow> r)
      in and_then (case connection_ptr s of None \<Rightarrow> Inr s | Some j \<Rightarrow> delete_object j s) (\<lambda>s.
         on_object i (TcpConnection_connectEstablished me (cbs True me i))
           (s\<lparr>client_created := i + 1, connection_ptr := Some i, client_sockets := tl (client_sockets s),
              client_objects := (client_objects s)(i \<mapsto> new_object 0 (client_name s) a reads writes)\<rparr>)))))"

definition TcpClient_connect :: "'x client_callbacks \<Rightarrow> tid \<Rightarrow> 'x tcp_client \<Rightarrow> 'x tcp_client res" where
  "TcpClient_connect cbs me s = Connector_start me (client_exec cbs me) (s\<lparr>client_connect := True\<rparr>)"

definition TcpClient_disconnect :: "tid \<Rightarrow> 'x tcp_client \<Rightarrow> 'x tcp_client res" where
  "TcpClient_disconnect me s =
     (let s = s\<lparr>client_connect := False\<rparr>
      in case connection_ptr s of None \<Rightarrow> Inr s | Some i \<Rightarrow> on_object i (TcpConnection_shutdown me) s)"

definition TcpClient_stop :: "tid \<Rightarrow> 'x tcp_client \<Rightarrow> 'x tcp_client" where
  "TcpClient_stop me s = Connector_stop me (s\<lparr>client_connect := False\<rparr>)"

text \<open>The destructor; the connector goes with the client, which holds the only counted pointer to it.\<close>

definition TcpClient_destroy :: "tid \<Rightarrow> 'x tcp_client \<Rightarrow> 'x tcp_client res" where
  "TcpClient_destroy me s =
     and_then
       (let s = Connector_stop me s
        in case connection_ptr s of
             None \<Rightarrow> Inr s
           | Some i \<Rightarrow>
               and_then (assert_that (EventLoop_isInLoopThread me s)) (\<lambda>_.
               Inr (EventLoop_queueInLoop me (Other (DestroyConnection i)) (s\<lparr>connection_ptr := None\<rparr>)))) (\<lambda>s.
     map_res (\<lambda>s. s\<lparr>connector_alive := False\<rparr>) (Connector_destroy s))"

subsection \<open>What happens to a client\<close>

text \<open>A functor of the connector is called on the connector behind its raw pointer.\<close>

definition client_functor_call ::
    "'x client_callbacks \<Rightarrow> tid \<Rightarrow> client_functor connector_functor \<Rightarrow> 'x tcp_client \<Rightarrow> 'x tcp_client res" where
  "client_functor_call cbs me f s =
     (case f of
        Other g \<Rightarrow> client_exec cbs me g s
      | _ \<Rightarrow> if connector_alive s then Connector_exec me (client_exec cbs me) f s else Inl UseAfterFree)"

datatype client_label =
    ConnectorReady events
  | ConnectorTimer
  | ConnectionReady nat events
  | ConnectionPolled nat events
  | FunctorTurn
  | ClientConnect
  | ClientDisconnect
  | ClientStop
  | ClientCall nat "client_functor connector_functor conn_call"

fun client_event :: "'x client_callbacks \<Rightarrow> tid \<Rightarrow> 'x tcp_client \<Rightarrow> client_label \<Rightarrow> 'x tcp_client res" where
  "client_event cbs me s (ConnectorReady r) = Connector_dispatch me (Some (TcpClient_newConnection cbs me)) r s"
| "client_event cbs me s ConnectorTimer =
     (if connector_alive s then Connector_startInLoop me s else Inl UseAfterFree)"
| "client_event cbs me s (ConnectionReady i r) =
     on_object i (\<lambda>t. TcpConnection_event me (cbs (connector_alive s) me i) t (Ready r)) s"
| "client_event cbs me s (ConnectionPolled i r) =
     on_object i (\<lambda>t. TcpConnection_event me (cbs (connector_alive s) me i) t (Polled r)) s"
| "client_event cbs me s FunctorTurn = EventLoop_doPendingFunctors (client_functor_call cbs me) s"
| "client_event cbs me s ClientConnect = TcpClient_connect cbs me s"
| "client_event cbs me s ClientDisconnect = TcpClient_disconnect me s"
| "client_event cbs me s ClientStop = Inr (TcpClient_stop me s)"
| "client_event cbs me s (ClientCall i c) = on_object i (\<lambda>t. TcpConnection_call me (cbs (connector_alive s) me i) t c) s"

section \<open>Lemmas\<close>

lemma enter_object_fields [simp]:
  "threadId (enter_object i s) = threadId s" "poller (enter_object i s) = poller s"
  "pendingFunctors (enter_object i s) = pendingFunctors s"
  "conn_name (enter_object i s) = co_name (the (client_objects s i))"
  "conn_state (enter_object i s) = co_state (the (client_objects s i))"
  "conn_channel (enter_object i s) = co_channel (the (client_objects s i))"
  "inputBuffer (enter_object i s) = co_input (the (client_objects s i))"
  "outputBuffer (enter_object i s) = co_output (the (client_objects s i))"
  "conn_context (enter_object i s) = co_context (the (client_objects s i))"
  "socket_reads (enter_object i s) = co_reads (the (client_objects s i))"
  "wire (enter_object i s) = co_wire (the (client_objects s i))"
  "fin_sent (enter_object i s) = co_fin_sent (the (client_objects s i))"
  "handed_over (enter_object i s) = co_handed_over (the (client_objects s i))"
  "tcp_connection.more (enter_object i s) = s"
  by (simp_all add: enter_object_def Let_def)

lemma leave_object_fields [simp]:
  "threadId (leave_object i t) = threadId t" "poller (leave_object i t) = poller t"
  "pendingFunctors (leave_object i t) = pendingFunctors t"
  "client_objects (leave_object i t) = (client_objects (tcp_connection.more t))(i \<mapsto> object_of 0 t)"
  "connection_ptr (leave_object i t) = connection_ptr (tcp_connection.more t)"
  "client_retry (leave_object i t) = client_retry (tcp_connection.more t)"
  "client_connect (leave_object i t) = client_connect (tcp_connection.more t)"
  "connector_alive (leave_object i t) = connector_alive (tcp_connection.more t)"
  "connector_state (leave_object i t) = connector_state (tcp_connection.more t)"
  "connector_channel (leave_object i t) = connector_channel (tcp_connection.more t)"
  "connect_wanted (leave_object i t) = connect_wanted (tcp_connection.more t)"
  by (simp_all add: leave_object_def Let_def)

lemma conn_more_simps [simp]:
  "tcp_connection.more (t\<lparr>poller := p\<rparr>) = tcp_connection.more t"
  "tcp_connection.more (t\<lparr>conn_state := st\<rparr>) = tcp_connection.more t"
  "tcp_connection.more (t\<lparr>inputBuffer := b\<rparr>) = tcp_connection.more t"
  "tcp_connection.more (t\<lparr>socket_reads := rs\<rparr>) = tcp_connection.more t"
  by (cases t; simp)+

text \<open>
  What starting an attempt leaves alone: channels other than the connector's, the queue, and the
  fields of the client.
\<close>

definition conn_frame :: "('g, 'z) connector_scheme \<Rightarrow> ('g, 'z) connector_scheme \<Rightarrow> bool" where
  "conn_frame s s' \<longleftrightarrow>
     connector.more s' = connector.more s \<and> pendingFunctors s' = pendingFunctors s \<and>
     (\<forall>a c. channel_heap (poller s) a = Some c \<longrightarrow> channel_heap (poller s') a = Some c)"

lemma conn_frame_refl [simp]: "conn_frame s s"
  by (simp add: conn_frame_def)

lemma conn_frame_same:
  "poller s' = poller s \<Longrightarrow> pendingFunctors s' = pendingFunctors s \<Longrightarrow> connector.more s' = connector.more s \<Longrightarrow>
   conn_frame s s'"
  by (simp add: conn_frame_def)

text \<open>A timer is pending that starts the connector.\<close>

definition retry_pending :: "('g, 'z) connector_scheme \<Rightarrow> bool" where
  "retry_pending s \<longleftrightarrow>
     (\<exists>p t w. tq_heap (timerQueue s) p = Some t \<and> callback t = StartInLoop \<and>
        (w, p) \<in> set (tq_timers (timerQueue s)))"

lemma retry_outcome:
  assumes "Connector_retry me s = Inr s'" and want: "connect_wanted s"
  obtains as q d where "s' = s\<lparr>connector_state := Connector_kDisconnected, allocations := as, timerQueue := q, retryDelayMs := d\<rparr>"
    and "timers_ok me (timerQueue s) \<Longrightarrow> retry_pending s'"
proof -
  let ?s = "s\<lparr>connector_state := Connector_kDisconnected\<rparr>"
  obtain p s1 where s1: "allocate ?s = Inr (p, s1)"
    using assms by (cases "allocate ?s") (auto simp: Connector_retry_def)
  then obtain as where as: "s1 = ?s\<lparr>allocations := as\<rparr>" by (auto simp: allocate_def split: list.splits)
  obtain i s2 where s2: "EventLoop_runAfter me p (int_div_double (retryDelayMs s1) 1000) StartInLoop s1 = Inr (i, s2)"
    using assms s1
    by (cases "EventLoop_runAfter me p (int_div_double (retryDelayMs s1) 1000) StartInLoop s1") (auto simp: Connector_retry_def)
  then obtain w q where q: "s2 = s1\<lparr>timerQueue := q\<rparr>"
    "TimerQueue_addTimer me (timerQueue s1) p StartInLoop w (double_of_int 0) = Inr (i, q)"
    by (auto simp: EventLoop_runAfter_def with_timers_def returned)
  have s': "s' = s2\<lparr>retryDelayMs := next_delay (retryDelayMs s2)\<rparr>"
    using assms s1 s2 by (auto simp: Connector_retry_def next_delay_def Let_def split: if_splits)
  have "retry_pending s'" if ok: "timers_ok me (timerQueue s)"
  proof -
    obtain E where E: "tq_inv E (timerQueue s1)" "tq_owner (timerQueue s1) = me"
      using ok as by (auto simp: timers_ok_def)
    from addTimer_ok [OF E, of p StartInLoop w "double_of_int 0"] q(2) show ?thesis
      by (fastforce simp: retry_pending_def s' q(1))
  qed
  then show ?thesis using s' q(1) as by (intro that [where as = as and q = q and d = "next_delay (retryDelayMs s2)"]) simp_all
qed

lemma retry_frame:
  assumes "Connector_retry me s = Inr s'"
  shows "conn_frame s s'"
proof (cases "connect_wanted s")
  case True
  show ?thesis by (rule retry_outcome [OF assms True]) (simp add: conn_frame_same)
next
  case False
  then have "s\<lparr>connector_state := Connector_kDisconnected\<rparr> = s'" using assms by (simp add: Connector_retry_def)
  then show ?thesis by (intro conn_frame_same) auto
qed

lemma connecting_frame:
  assumes "Connector_connecting me fd s = Inr s'"
  shows "conn_frame s s'"
proof -
  let ?s = "s\<lparr>connector_state := Connector_kConnecting\<rparr>"
  have none: "connector_channel s = None"
    using assms by (cases "connector_channel s") (auto simp: Connector_connecting_def Let_def)
  obtain a s1 where s1: "new_Channel fd ?s = Inr (a, s1)"
    using assms none by (cases "new_Channel fd ?s") (auto simp: Connector_connecting_def Let_def)
  have "Channel_change me EnableWriting a (s1\<lparr>connector_channel := Some a\<rparr>) = Inr s'"
    using assms none s1 by (simp add: Connector_connecting_def Let_def)
  then obtain p where p: "s' = s1\<lparr>connector_channel := Some a, poller := p\<rparr>" "only_channel a (poller s1) p"
    by (rule Channel_change_only) simp
  have a: "channel_heap (poller s) a = None" "poller s1 = put_channel a (Channel_new fd) (poller s)"
    "pendingFunctors s1 = pendingFunctors s" "connector.more s1 = connector.more s"
    using s1 by (auto simp: new_Channel_def allocate_def split: list.splits if_splits)
  have "channel_heap p b = Some c" if "channel_heap (poller s) b = Some c" for b c
  proof -
    have "b \<noteq> a" using a(1) that by auto
    with that p(2) a(2) show ?thesis by (simp add: only_channel_def put_channel_def)
  qed
  with p(1) a(3,4) show ?thesis by (simp add: conn_frame_def)
qed

text \<open>An attempt is under way, or a timer will start the next one.\<close>

definition attempting :: "('g, 'z) connector_scheme \<Rightarrow> bool" where
  "attempting s \<longleftrightarrow>
     connector_state s = Connector_kConnecting \<or> connector_state s = Connector_kDisconnected \<and> retry_pending s"

lemma connecting_state:
  assumes "Connector_connecting me fd s = Inr s'"
  shows "connector_state s' = Connector_kConnecting"
proof -
  let ?s = "s\<lparr>connector_state := Connector_kConnecting\<rparr>"
  have none: "connector_channel s = None"
    using assms by (cases "connector_channel s") (auto simp: Connector_connecting_def Let_def)
  obtain a s1 where s1: "new_Channel fd ?s = Inr (a, s1)"
    using assms none by (cases "new_Channel fd ?s") (auto simp: Connector_connecting_def Let_def)
  have "Channel_change me EnableWriting a (s1\<lparr>connector_channel := Some a\<rparr>) = Inr s'"
    using assms none s1 by (simp add: Connector_connecting_def Let_def)
  then obtain p where "s' = s1\<lparr>connector_channel := Some a, poller := p\<rparr>"
    by (rule Channel_change_only) simp
  with s1 show ?thesis by (auto simp: new_Channel_def allocate_def split: list.splits if_splits)
qed

lemma connect_outcome:
  assumes none: "connector_channel s = None" and run: "Connector_connect me s = Inr s'"
  shows "conn_frame s s'" and "connect_wanted s \<Longrightarrow> timers_ok me (timerQueue s) \<Longrightarrow> attempting s'"
proof -
  obtain fd err s1 where s1: "createNonblockingOrDie s = Inr (fd, err, s1)"
    using run none by (cases "createNonblockingOrDie s") (auto simp: Connector_connect_def)
  let ?c = "sockets_close fd s1"
  have f1: "poller s1 = poller s" "pendingFunctors s1 = pendingFunctors s" "connector.more s1 = connector.more s"
    using s1 by (auto simp: createNonblockingOrDie_def split: list.splits if_splits)
  have same: "conn_frame s s'"
    if "conn_frame t s'" "poller t = poller s" "pendingFunctors t = pendingFunctors s" "connector.more t = connector.more s" for t
    using that by (simp add: conn_frame_def)
  have cl: "poller ?c = poller s" "pendingFunctors ?c = pendingFunctors s" "connector.more ?c = connector.more s"
    using f1 by (simp_all add: sockets_close_def)
  have eq: "Connector_connect me s =
      (if err = 0 then Connector_connecting me fd (s1\<lparr>retryDelayMs := kInitRetryDelayMs\<rparr>)
       else if isInProgress err then Connector_connecting me fd s1
       else if connect_wanted ?c then Connector_retry me ?c else Inr ?c)"
    using none s1 by (simp add: Connector_connect_def Let_def)
  have more: "connect_wanted ?c = connect_wanted s" "timerQueue ?c = timerQueue s"
    using s1 by (auto simp: createNonblockingOrDie_def sockets_close_def split: list.splits if_splits)
  have "conn_frame s s' \<and> (connect_wanted s \<and> timers_ok me (timerQueue s) \<longrightarrow> attempting s')"
  proof (cases "err = 0 \<or> isInProgress err")
    case True
    then have go: "Connector_connecting me fd (if err = 0 then s1\<lparr>retryDelayMs := kInitRetryDelayMs\<rparr> else s1) = Inr s'"
      using run unfolding eq by (cases "err = 0") simp_all
    have "conn_frame s s'" using same [OF connecting_frame [OF go]] f1 by (cases "err = 0") simp_all
    with connecting_state [OF go] show ?thesis by (simp add: attempting_def)
  next
    case False
    then have end': "(if connect_wanted ?c then Connector_retry me ?c else Inr ?c) = Inr s'"
      using run unfolding eq by simp
    show ?thesis
    proof (cases "connect_wanted ?c")
      case True
      then have go: "Connector_retry me ?c = Inr s'" using end' by simp
      have "timers_ok me (timerQueue s) \<longrightarrow> attempting s'"
        by (rule retry_outcome [OF go True]) (simp add: attempting_def more)
      with same [OF retry_frame [OF go] cl] show ?thesis by simp
    next
      case False
      then have "?c = s'" using end' by simp
      with cl False more(1) show ?thesis by (auto intro!: conn_frame_same)
    qed
  qed
  then show "conn_frame s s'" "connect_wanted s \<Longrightarrow> timers_ok me (timerQueue s) \<Longrightarrow> attempting s'" by simp_all
qed

lemma startInLoop_outcome:
  assumes "connector_channel s = None" and "Connector_startInLoop me s = Inr s'"
  shows "conn_frame s s'"
    and "connector_state s = Connector_kDisconnected \<Longrightarrow> connect_wanted s \<Longrightarrow> timers_ok me (timerQueue s) \<Longrightarrow> attempting s'"
proof -
  have "EventLoop_isInLoopThread me s"
    using assms(2) by (cases "EventLoop_isInLoopThread me s") (simp_all add: Connector_startInLoop_def EventLoop_assertInLoopThread_def)
  then have run: "Connector_startInLoop me s =
      (if connector_state s = Connector_kDisconnected \<and> connect_wanted s then Connector_connect me s else Inr s)"
    by (simp add: Connector_startInLoop_def EventLoop_assertInLoopThread_def)
  have "conn_frame s s' \<and> (connector_state s = Connector_kDisconnected \<and> connect_wanted s \<and>
      timers_ok me (timerQueue s) \<longrightarrow> attempting s')"
  proof (cases "connector_state s = Connector_kDisconnected \<and> connect_wanted s")
    case True
    then have "Connector_connect me s = Inr s'" using assms(2) run by simp
    from connect_outcome [OF assms(1) this] True show ?thesis by simp
  next
    case False
    then have "s = s'" using assms(2) run by auto
    with False show ?thesis by auto
  qed
  then show "conn_frame s s'" "connector_state s = Connector_kDisconnected \<Longrightarrow> connect_wanted s \<Longrightarrow>
      timers_ok me (timerQueue s) \<Longrightarrow> attempting s'" by simp_all
qed

lemma client_fields_more:
  fixes s s' :: "'x tcp_client"
  assumes "connector.more s' = connector.more s"
  shows "connection_ptr s' = connection_ptr s" and "client_objects s' = client_objects s"
    and "connector_alive s' = connector_alive s" and "client_retry s' = client_retry s"
    and "client_connect s' = client_connect s" and "client_created s' = client_created s"
  using assms by (cases s; cases s'; simp)+

section \<open>When the connection closes\<close>

lemma removeConnection_ok:
  assumes inv: "connector_inv me todo s" and st: "connector_state s = Connector_kConnected"
    and ch: "connector_channel s = None" and ptr: "connection_ptr s = Some i"
  shows "case TcpClient_removeConnection me i s of
           Inl x \<Rightarrow> client_retry s \<and> client_connect s \<and> resource_fault x
         | Inr s' \<Rightarrow> connector_inv me todo s' \<and> connection_ptr s' = None \<and>
             client_objects s' = client_objects s \<and> connector_alive s' = connector_alive s \<and>
             pendingFunctors s' = pendingFunctors s @ [Other (DestroyConnection i)] \<and>
             (\<forall>a c. channel_heap (poller s) a = Some c \<longrightarrow> channel_heap (poller s') a = Some c) \<and>
             (if client_retry s \<and> client_connect s then attempting s'
              else connector_state s' = Connector_kConnected \<and> connector_channel s' = None)"
proof -
  let ?q = "EventLoop_queueInLoop me (Other (DestroyConnection i)) (s\<lparr>connection_ptr := None\<rparr>)"
  have me: "threadId s = me" using inv by (simp add: connector_inv_def loop_ok_def)
  have fields: "connector_state ?q = connector_state s" "connector_channel ?q = None" "poller ?q = poller s"
    "pendingFunctors ?q = pendingFunctors s @ [Other (DestroyConnection i)]"
    "client_retry ?q = client_retry s" "client_connect ?q = client_connect s"
    "connection_ptr ?q = None" "client_objects ?q = client_objects s" "connector_alive ?q = connector_alive s"
    using ch by (simp_all add: loop_thread_ops)
  have run: "TcpClient_removeConnection me i s =
      (if client_retry s \<and> client_connect s then Connector_restart me ?q else Inr ?q)"
    using me ptr fields(5,6)
    by (simp add: TcpClient_removeConnection_def EventLoop_assertInLoopThread_def EventLoop_isInLoopThread_def Let_def)
  have "connector_inv me todo (s\<lparr>connection_ptr := None\<rparr>)"
    using connector_inv_cong [of todo "s\<lparr>connection_ptr := None\<rparr>" todo s me] inv
    by (simp add: resets_due_def loop_ok_def)
  then have q: "connector_inv me todo ?q" by (simp add: queue_inv)
  show ?thesis
  proof (cases "client_retry s \<and> client_connect s")
    case False
    with run q fields st show ?thesis by auto
  next
    case True
    let ?r = "?q\<lparr>connector_state := Connector_kDisconnected, retryDelayMs := kInitRetryDelayMs, connect_wanted := True\<rparr>"
    have r: "connector_inv me todo ?r"
      using q st fields(1) by (simp add: connector_inv_def loop_ok_def retry_delays_def kInitRetryDelayMs_def)
    have rc: "connector_channel ?r = None" using fields(2) by simp
    then have ok: "connector_result me todo (Connector_startInLoop me ?r)"
      by (intro startInLoop_ok [OF r]) (simp add: startable_def)
    have restart: "TcpClient_removeConnection me i s = Connector_startInLoop me ?r"
      using True run me by (simp add: Connector_restart_def EventLoop_assertInLoopThread_def EventLoop_isInLoopThread_def loop_thread_ops)
    have timers: "timers_ok me (timerQueue ?r)" using r by (simp add: connector_inv_def loop_ok_def)
    show ?thesis
    proof (cases "Connector_startInLoop me ?r")
      case (Inl x)
      with ok restart True show ?thesis by simp
    next
      case (Inr s')
      note out = startInLoop_outcome [OF rc Inr]
      have "attempting s'" using out(2) timers by simp
      moreover have "connection_ptr s' = None" "client_objects s' = client_objects s"
        "connector_alive s' = connector_alive s"
        using client_fields_more [of s' ?r] out(1) fields by (simp_all add: conn_frame_def)
      ultimately show ?thesis using ok restart True Inr out(1) fields by (simp add: conn_frame_def)
    qed
  qed
qed

lemma leave_enter:
  assumes "client_objects s i = Some c" and "co_loop c = 0"
  shows "leave_object i (enter_object i s) = s"
  using assms by (cases s; cases c) (auto simp: leave_object_def enter_object_def Let_def fun_upd_idem_iff)

text \<open>The end of file is read: the connection closes, and the client is told.\<close>

lemma eof_event:
  assumes inv: "conn_inv me t" and op: "conn_open t" and eof: "socket_reads t = ReadData [] # rs"
    and quiet: "\<And>u. conn_state u = kDisconnected \<Longrightarrow> call_if_set (connectionCallback cbs) u = Inr u"
  obtains u where "(\<forall>v. call_if_set (connectionClosed cbs) u = Inr v \<longrightarrow>
        channel_heap (poller v) (conn_channel t) = channel_heap (poller u) (conn_channel t)) \<longrightarrow>
      TcpConnection_event me cbs t (Ready EPOLLIN) = call_if_set (connectionClosed cbs) u"
    and "conn_inv me u" and "conn_state u = kDisconnected"
    and "interest (poller u) (ch_fd (conn_ch u)) = None" and "only_channel (conn_channel t) (poller t) (poller u)"
    and "wire u = wire t" and "handed_over u = handed_over t"
    and "ch_index (conn_ch u) = kDeleted"
    and "\<exists>p b. u = t\<lparr>inputBuffer := b, socket_reads := rs, conn_state := kDisconnected, poller := p\<rparr>"
proof -
  obtain p where p: "conn_inv me (t\<lparr>poller := p\<rparr>)" "ch_revents (conn_ch (t\<lparr>poller := p\<rparr>)) = EPOLLIN"
    "only_channel (conn_channel t) (poller t) p"
    and event: "(\<forall>v. TcpConnection_handleRead me cbs (t\<lparr>poller := p\<rparr>) = Inr v \<longrightarrow>
            revents_of (conn_channel t) v = Inr EPOLLIN) \<longrightarrow>
         TcpConnection_event me cbs t (Ready EPOLLIN) = TcpConnection_handleRead me cbs (t\<lparr>poller := p\<rparr>)"
    by (rule read_dispatch [OF inv op, of cbs])
  let ?t = "t\<lparr>poller := p\<rparr>"
  have b: "Buffer_inv (inputBuffer t)" "threadId t = me" using inv by (simp_all add: conn_inv_def conn_pre_def)
  obtain b' where read: "Buffer_readFd (inputBuffer t) (ReadData []) = Inr (0, None, b')" "Buffer_inv b'"
    using Buffer_readFd_data [OF b(1), of "[]"] by auto
  let ?t1 = "?t\<lparr>inputBuffer := b', socket_reads := rs\<rparr>"
  have t1: "conn_inv me ?t1" by (rule conn_inv_input [OF read(2) p(1)])
  then have wf: "conn_wf me ?t1" by (simp add: conn_inv_def)
  have st: "conn_state ?t1 = kConnected \<or> conn_state ?t1 = kDisconnecting" using op by (simp add: conn_open_def)
  obtain u where u: "Channel_change me DisableAll (conn_channel ?t1) (?t1\<lparr>conn_state := kDisconnected\<rparr>) = Inr u"
    "conn_wf me u" "conn_state u = kDisconnected" "interest (poller u) (ch_fd (conn_ch u)) = None"
    "wire u = wire ?t1" "handed_over u = handed_over ?t1" by (rule disconnect_wf [OF wf st])
  obtain q where q: "u = ?t1\<lparr>conn_state := kDisconnected, poller := q\<rparr>" "only_channel (conn_channel t) p q"
    by (rule Channel_change_only [OF u(1)]) simp
  have "TcpConnection_handleRead me cbs ?t = TcpConnection_handleClose me cbs ?t1"
    using b(2) read(1) eof
    by (simp add: TcpConnection_handleRead_def EventLoop_assertInLoopThread_def EventLoop_isInLoopThread_def
        next_read_def reads_after_def Let_def)
  also have "\<dots> = call_if_set (connectionClosed cbs) u"
    using b(2) st u(1) quiet [OF u(3)]
    by (simp add: TcpConnection_handleClose_def EventLoop_assertInLoopThread_def EventLoop_isInLoopThread_def)
  finally have read': "TcpConnection_handleRead me cbs ?t = call_if_set (connectionClosed cbs) u" .
  have "revents_of (conn_channel t) ?t1 = Inr EPOLLIN"
    using conn_channel_at [of me "[]" ?t] p(1,2)
    by (simp add: conn_inv_def revents_of_def TcpConnection_channel_def)
  then have rev: "revents_of (conn_channel t) u = Inr EPOLLIN"
    using revents_same [OF Channel_change_revents [OF u(1)], of EPOLLIN] by (simp add: revents_of_def)
  have closes: "(\<forall>v. call_if_set (connectionClosed cbs) u = Inr v \<longrightarrow>
        channel_heap (poller v) (conn_channel t) = channel_heap (poller u) (conn_channel t)) \<longrightarrow>
      TcpConnection_event me cbs t (Ready EPOLLIN) = call_if_set (connectionClosed cbs) u"
    using event rev unfolding read' by (simp add: revents_of_def channel_at_def)
  have c: "poller_inv (poller ?t1)" "channel_heap (poller ?t1) (conn_channel ?t1) = Some (conn_ch ?t1)"
    "sole_user (conn_channel ?t1) (ch_fd (conn_ch ?t1)) (poller ?t1)" "ch_index (conn_ch ?t1) = kAdded"
    using wf st by (auto simp: conn_pre_def conn_registered_def)
  have "u = ?t1\<lparr>conn_state := kDisconnected, poller := updated (conn_channel ?t1) (conn_ch ?t1) kNoneEvent (poller ?t1)\<rparr>"
    using Channel_change_ok [of "?t1\<lparr>conn_state := kDisconnected\<rparr>" me "conn_channel ?t1" "conn_ch ?t1" DisableAll]
      c(1-3) u(1) b(2) by simp
  then have deleted: "ch_index (conn_ch u) = kDeleted"
    using c(4) by (simp add: conn_ch_def updated_def index_after_update_def)
  have "conn_inv me u" using u(2,3) by (simp add: conn_inv_def fin_due_def)
  moreover have "only_channel (conn_channel t) (poller t) (poller u)"
    using only_channel_trans [OF p(3) q(2)] q(1) by simp
  ultimately show ?thesis by (rule that [OF closes _ u(3,4)]) (use u(5,6) q(1) deleted in auto)
qed

text \<open>The turn of the loop that destroys and deletes a closed connection.\<close>

lemma destroy_turn:
  assumes inv: "connector_inv me [] s" and pend: "pendingFunctors s = [Other (DestroyConnection i)]"
    and o: "client_objects s i = Some c" "co_state c = kDisconnected"
    and ch: "channel_heap (poller s) (co_channel c) = Some d" "ch_index d = kDeleted"
    and other: "connector_channel s \<noteq> Some (co_channel c)"
  obtains s' where "client_event cbs me s FunctorTurn = Inr s'" and "connector_inv me [] s'"
    and "client_objects s' = (client_objects s)(i := None)" and "pendingFunctors s' = []"
    and "connection_ptr s' = connection_ptr s" and "connector_state s' = connector_state s"
    and "timerQueue s' = timerQueue s" and "connector_channel s' = connector_channel s"
    and "channel_heap (poller s') (co_channel c) = None" and "channels (poller s') (ch_fd d) = None"
    and "interest (poller s') (ch_fd d) = None" and "connect_wanted s' = connect_wanted s"
proof -
  let ?a = "co_channel c"
  have l: "threadId s = me" "poller_inv (poller s)" using inv by (simp_all add: connector_inv_def loop_ok_def)
  have sole: "sole_user ?a (ch_fd d) (poller s)" by (rule poller_inv_sole_user [OF l(2) ch(1)]) (simp add: ch(2))
  let ?p = "removed ?a d (poller s)"
  let ?q = "(delete_channel ?a ?p)\<lparr>interest := (interest ?p)(ch_fd d := None)\<rparr>"
  have "poller_inv ?p" by (rule removed_inv [OF l(2) ch(1) sole])
  then have "poller_inv (delete_channel ?a ?p)"
    by (rule delete_channel_inv) (simp add: channel_is_def removed_def)
  moreover have "?q = delete_channel ?a ?p" by (simp add: delete_channel_def removed_def)
  ultimately have q: "poller_inv ?q" by simp
  let ?s1 = "s\<lparr>callingPendingFunctors := True, pendingFunctors := []\<rparr>"
  let ?t = "(enter_object i ?s1)\<lparr>poller := ?p\<rparr>"
  have "TcpConnection_connectDestroyed me (cbs b me i) (enter_object i ?s1) = Inr ?t" for b
    using o l ch(1) sole EventLoop_removeChannel_ok [of "enter_object i ?s1" me ?a d]
    by (simp add: TcpConnection_connectDestroyed_def EventLoop_assertInLoopThread_def EventLoop_isInLoopThread_def)
  note destroyed = this
  let ?u = "(leave_object i ?t)\<lparr>client_objects := (client_objects s)(i := None), poller := ?q\<rparr>"
  have del: "delete_object i (leave_object i ?t) = Inr ?u"
  proof -
    have "client_objects (leave_object i ?t) i = Some (object_of 0 ?t)" "co_channel (object_of 0 ?t) = ?a"
      "channel_at (poller (leave_object i ?t)) ?a = Inr (d\<lparr>ch_index := kNew\<rparr>)" "poller (leave_object i ?t) = ?p"
      "(client_objects (leave_object i ?t))(i := None) = (client_objects s)(i := None)"
      using o(1) by (simp_all add: channel_at_def removed_def)
    then show ?thesis unfolding delete_object_def by simp
  qed
  let ?v = "?u\<lparr>callingPendingFunctors := False\<rparr>"
  have run: "client_event cbs me s FunctorTurn = Inr ?v"
    using pend o destroyed
    by (simp add: EventLoop_doPendingFunctors_def client_functor_call_def client_exec_def on_object_def Let_def del)
  have v: "connector_state ?v = connector_state s" "connector_channel ?v = connector_channel s"
    "timerQueue ?v = timerQueue s" "pendingFunctors ?v = []" "connection_ptr ?v = connection_ptr s"
    "poller ?v = ?q" "threadId ?v = threadId s" "retryDelayMs ?v = retryDelayMs s" "double_closes ?v = double_closes s"
    "sockets_owned ?v = sockets_owned s" "connect_wanted ?v = connect_wanted s"
    by (simp_all add: leave_object_def enter_object_def Let_def)
  have heap: "channel_heap ?q b = channel_heap (poller s) b" if "b \<noteq> ?a" for b
    using that by (simp add: delete_channel_def removed_def)
  have "resets_due [] ?v = resets_due [] s" using pend v(4) by (simp add: resets_due_def)
  then have "connector_inv me [] ?v"
    using inv q v heap other
    by (cases "connector_channel s")
      (auto simp: connector_inv_def loop_ok_def busy_connector_def idle_connector_def channel_is_def)
  then show ?thesis
  proof (rule that [rotated])
    show "client_event cbs me s FunctorTurn = Inr ?v" by (rule run)
  qed (use v in \<open>simp_all add: delete_channel_def removed_def\<close>)
qed

text \<open>A channel in the kernel's blind spot (\<open>kDeleted\<close>) is never the connector's.\<close>

lemma not_the_connectors:
  assumes "connector_inv me todo s" and "channel_heap (poller s) a = Some d" and "ch_index d = kDeleted"
  shows "connector_channel s \<noteq> Some a"
  using assms
  by (auto simp: connector_inv_def busy_connector_def idle_connector_def channel_is_def split: if_splits)

lemma connector_inv_closed_object:
  fixes s :: "'x tcp_client"
  assumes inv: "connector_inv me todo s" and st: "connector_state s \<noteq> Connector_kConnecting"
    and ch: "connector_channel s = None" and p: "poller_inv p"
    and u: "u = (enter_object i s)\<lparr>inputBuffer := b, socket_reads := rs, conn_state := k, poller := p\<rparr>"
  shows "connector_inv me todo (leave_object i u)"
proof -
  have v: "connector_state (leave_object i u) = connector_state s" "connector_channel (leave_object i u) = None"
    "timerQueue (leave_object i u) = timerQueue s" "pendingFunctors (leave_object i u) = pendingFunctors s"
    "poller (leave_object i u) = p" "threadId (leave_object i u) = threadId s"
    "retryDelayMs (leave_object i u) = retryDelayMs s" "double_closes (leave_object i u) = double_closes s"
    "sockets_owned (leave_object i u) = sockets_owned s"
    using ch by (simp_all add: u leave_object_def enter_object_def Let_def)
  have "resets_due todo (leave_object i u) = resets_due todo s" using v(4) by (simp add: resets_due_def)
  with inv st ch p v show ?thesis by (simp add: connector_inv_def loop_ok_def idle_connector_def)
qed

text \<open>The end of the stream makes the connection call \<open>removeConnection\<close>, as a dead one.\<close>

lemma client_eof:
  assumes inv: "connector_inv me [] s" and st: "connector_state s = Connector_kConnected"
    and ch: "connector_channel s = None" and alive: "connector_alive s"
    and o: "client_objects s i = Some c" and ci: "conn_inv me (enter_object i s)"
    and op: "co_state c = kConnected \<or> co_state c = kDisconnecting" and eof: "co_reads c = ReadData [] # rs"
    and ptr: "connection_ptr s = Some i"
    and closes: "connectionClosed (cbs True me i) = Some (client_close_callback me i)"
    and quiet: "\<And>u. conn_state u = kDisconnected \<Longrightarrow> call_if_set (connectionCallback (cbs True me i)) u = Inr u"
  obtains w d ch' where
    "client_event cbs me s (ConnectionReady i EPOLLIN) = TcpClient_removeConnection me i w"
    "connector_inv me [] w" "connector_state w = Connector_kConnected" "connector_channel w = None"
    "client_objects w i = Some d" "connection_ptr w = Some i" "pendingFunctors w = pendingFunctors s"
    "client_retry w = client_retry s" "client_connect w = client_connect s"
    "co_state d = kDisconnected" "co_channel d = co_channel c"
    "channel_heap (poller w) (co_channel c) = Some ch'" "ch_index ch' = kDeleted"
    "ch_fd ch' = ch_fd (conn_ch (enter_object i s))"
proof -
  let ?t = "enter_object i s"
  let ?cl = "client_close_callback me i"
  have t: "conn_open ?t" "socket_reads ?t = ReadData [] # rs" using o op eof by (simp_all add: conn_open_def)
  have cl: "call_if_set (connectionClosed (cbs True me i)) = ?cl" by (simp add: closes fun_eq_iff)
  obtain u where event: "(\<forall>v. ?cl u = Inr v \<longrightarrow>
        channel_heap (poller v) (conn_channel ?t) = channel_heap (poller u) (conn_channel ?t)) \<longrightarrow>
      TcpConnection_event me (cbs True me i) ?t (Ready EPOLLIN) = ?cl u"
    and u: "conn_inv me u" "conn_state u = kDisconnected" "interest (poller u) (ch_fd (conn_ch u)) = None"
      "only_channel (conn_channel ?t) (poller ?t) (poller u)" "wire u = wire ?t" "handed_over u = handed_over ?t"
      "ch_index (conn_ch u) = kDeleted"
    and ex: "\<exists>p b. u = ?t\<lparr>inputBuffer := b, socket_reads := rs, conn_state := kDisconnected, poller := p\<rparr>"
    by (rule eof_event [OF ci t, of "cbs True me i", OF quiet, unfolded cl]) blast+
  obtain p b where eq: "u = ?t\<lparr>inputBuffer := b, socket_reads := rs, conn_state := kDisconnected, poller := p\<rparr>"
    using ex by blast
  let ?w = "leave_object i u"
  have wf: "poller_inv (poller u)" "channel_heap (poller u) (conn_channel u) = Some (conn_ch u)"
    using u(1) by (auto simp: conn_inv_def conn_pre_def conn_registered_def)
  have a: "conn_channel u = co_channel c" using eq o by simp
  have fd: "ch_fd (conn_ch u) = ch_fd (conn_ch ?t)"
  proof -
    have "channel_heap (poller s) (co_channel c) = Some (conn_ch ?t)"
      using ci o by (simp add: conn_inv_def conn_pre_def conn_registered_def)
    with u(4) wf(2) a o show ?thesis by (simp add: only_channel_def)
  qed
  have w: "connector_inv me [] ?w"
    by (rule connector_inv_closed_object [OF inv _ ch _ eq]) (use st wf(1) eq in simp_all)
  have wo: "client_objects ?w i = Some (object_of 0 u)" "connection_ptr ?w = Some i"
    "pendingFunctors ?w = pendingFunctors s" "connector_state ?w = Connector_kConnected"
    "connector_channel ?w = None" "poller ?w = poller u" "client_retry ?w = client_retry s"
    "client_connect ?w = client_connect s"
    using eq ptr st ch by simp_all
  note gone = removeConnection_ok [OF w wo(4,5,2)]
  have first: "client_event cbs me s (ConnectionReady i EPOLLIN) = TcpClient_removeConnection me i ?w"
  proof (cases "TcpClient_removeConnection me i ?w")
    case (Inl x)
    then have cl: "?cl u = Inl x" by (simp add: client_close_callback_def)
    then have "TcpConnection_event me (cbs True me i) ?t (Ready EPOLLIN) = Inl x" using event by simp
    with alive o Inl show ?thesis by (simp add: on_object_def del: TcpConnection_event.simps)
  next
    case (Inr s1)
    then have cl: "?cl u = Inr (enter_object i s1)" by (simp add: client_close_callback_def)
    have "channel_heap (poller s1) (co_channel c) = channel_heap (poller u) (co_channel c)"
      using gone Inr wf(2) a wo(6) by simp
    then have "TcpConnection_event me (cbs True me i) ?t (Ready EPOLLIN) = Inr (enter_object i s1)"
      using event cl o by simp
    moreover have "leave_object i (enter_object i s1) = s1"
      by (rule leave_enter [where c = "object_of 0 u"]) (use gone Inr wo(1) in simp_all)
    ultimately show ?thesis using alive o Inr by (simp add: on_object_def del: TcpConnection_event.simps)
  qed
  show ?thesis
    by (rule that [where ch' = "conn_ch u", OF first w wo(4,5,1-3,7,8)]) (use u(2,7) a wf(2) fd wo(6) in simp_all)
qed

text \<open>A connector that has made its connection ignores \<open>connect\<close>.\<close>

lemma connect_ignored:
  assumes "threadId s = me" and "connector_state s = Connector_kConnected"
  shows "client_event cbs me s ClientConnect = Inr (s\<lparr>client_connect := True, connect_wanted := True\<rparr>)"
  using assms by (simp add: TcpClient_connect_def Connector_start_def EventLoop_runInLoop_def
      EventLoop_isInLoopThread_def Connector_exec_def Connector_startInLoop_def EventLoop_assertInLoopThread_def)

text \<open>
  C19: The peer closes the connection of an otherwise quiet client, whose connection callback does
  nothing on the way down. The client forgets the connection, and the next turn of the loop destroys
  it, removes its channel from the poller and deletes both. With \<open>enableRetry\<close> and no \<open>disconnect\<close> or \<open>stop\<close> a new attempt is
  under way, or a timer for it is pending; only exhausted resources make any of this fail. Without
  retry the connector stays in \<open>kConnected\<close> for ever: a later \<open>connect\<close> does nothing at all.
\<close>

theorem client_reconnects:
  assumes inv: "connector_inv me [] s" and pend: "pendingFunctors s = []"
    and st: "connector_state s = Connector_kConnected" and ch: "connector_channel s = None"
    and alive: "connector_alive s" and ptr: "connection_ptr s = Some i"
    and o: "client_objects s i = Some c" and ci: "conn_inv me (enter_object i s)"
    and op: "co_state c = kConnected \<or> co_state c = kDisconnecting" and eof: "co_reads c = ReadData [] # rs"
    and closes: "connectionClosed (cbs True me i) = Some (client_close_callback me i)"
    and quiet: "\<And>u. conn_state u = kDisconnected \<Longrightarrow> call_if_set (connectionCallback (cbs True me i)) u = Inr u"
  shows "case for_each (client_event cbs me) s [ConnectionReady i EPOLLIN, FunctorTurn] of
           Inl x \<Rightarrow> client_retry s \<and> client_connect s \<and> resource_fault x
         | Inr s' \<Rightarrow> connector_inv me [] s' \<and> connection_ptr s' = None \<and> client_objects s' i = None \<and>
             channel_heap (poller s') (co_channel c) = None \<and>
             interest (poller s') (ch_fd (conn_ch (enter_object i s))) = None \<and>
             (if client_retry s \<and> client_connect s then attempting s'
              else connector_state s' = Connector_kConnected \<and>
                client_event cbs me s' ClientConnect = Inr (s'\<lparr>client_connect := True, connect_wanted := True\<rparr>))"
proof -
  let ?goes_on = "client_retry s \<and> client_connect s"
  obtain w d ch' where first: "client_event cbs me s (ConnectionReady i EPOLLIN) = TcpClient_removeConnection me i w"
    and w: "connector_inv me [] w" "connector_state w = Connector_kConnected" "connector_channel w = None"
      "client_objects w i = Some d" "connection_ptr w = Some i" "pendingFunctors w = pendingFunctors s"
      "client_retry w = client_retry s" "client_connect w = client_connect s"
    and d: "co_state d = kDisconnected" "co_channel d = co_channel c"
      "channel_heap (poller w) (co_channel c) = Some ch'" "ch_index ch' = kDeleted"
      "ch_fd ch' = ch_fd (conn_ch (enter_object i s))"
    by (rule client_eof [where cbs = cbs, OF inv st ch alive o ci op eof ptr closes quiet]) blast+
  note gone = removeConnection_ok [OF w(1-3,5)]
  show ?thesis
  proof (cases "TcpClient_removeConnection me i w")
    case (Inl x)
    with gone first w(7,8) show ?thesis by simp
  next
    case (Inr s1)
    have s1: "connector_inv me [] s1" "connection_ptr s1 = None" "client_objects s1 i = Some d"
      "pendingFunctors s1 = [Other (DestroyConnection i)]" "channel_heap (poller s1) (co_channel c) = Some ch'"
      "if ?goes_on then attempting s1 else connector_state s1 = Connector_kConnected \<and> connector_channel s1 = None"
      using gone Inr w pend d(3) by simp_all
    have other: "connector_channel s1 \<noteq> Some (co_channel c)" using not_the_connectors [OF s1(1,5) d(4)] .
    obtain s' where s': "client_event cbs me s1 FunctorTurn = Inr s'" "connector_inv me [] s'"
      "client_objects s' = (client_objects s1)(i := None)" "pendingFunctors s' = []"
      "connection_ptr s' = connection_ptr s1" "connector_state s' = connector_state s1"
      "timerQueue s' = timerQueue s1" "connector_channel s' = connector_channel s1"
      "channel_heap (poller s') (co_channel c) = None" "channels (poller s') (ch_fd ch') = None"
      "interest (poller s') (ch_fd ch') = None" "connect_wanted s' = connect_wanted s1"
      by (rule destroy_turn [OF s1(1,4,3) d(1) _ d(4), unfolded d(2), OF s1(5) other]) blast
    have "if ?goes_on then attempting s'
        else connector_state s' = Connector_kConnected \<and>
          client_event cbs me s' ClientConnect = Inr (s'\<lparr>client_connect := True, connect_wanted := True\<rparr>)"
      using s1(6) s'(2,6,7) connect_ignored [of s' me cbs]
      by (simp add: attempting_def retry_pending_def connector_inv_def loop_ok_def del: client_event.simps split: if_splits)
    moreover have "for_each (client_event cbs me) s [ConnectionReady i EPOLLIN, FunctorTurn] = Inr s'"
      using first Inr s'(1) by (simp del: client_event.simps)
    ultimately show ?thesis using s'(2,3,5,9,11) s1(2) d(5) by (simp del: client_event.simps)
  qed
qed

text \<open>A client whose connection on descriptor 9 is open and idle.\<close>

definition open_client :: "bool \<Rightarrow> nat tcp_client" where
  "open_client retry =
     (let l = new_loop_state 1 (Timestamp 0) 3 64 4 72;
          p = updated 80 (Channel_new 9) kReadEvent (put_channel 80 (Channel_new 9) (poller l))
      in (TcpClient_new l ''c'' [(10, 115)] [] [88] [])
           \<lparr>poller := p, connector_state := Connector_kConnected, client_retry := retry, client_connect := True,
            connect_wanted := True, connection_ptr := Some 0, client_created := 1,
            client_objects := [0 \<mapsto> (new_object 0 ''c'' 80 [ReadData []] [])\<lparr>co_state := kConnected\<rparr>]\<rparr>)"

definition silent_callbacks :: "nat client_callbacks" where
  "silent_callbacks b me i =
     \<lparr>connectionCallback = None, messageCallback = None, writeCompleteCallback = None,
      connectionClosed = (if b then Some (client_close_callback me i) else None)\<rparr>"

lemma open_client_ok:
  "connector_inv 1 [] (open_client r)" "conn_inv 1 (enter_object 0 (open_client r))"
proof -
  let ?l = "new_loop_state 1 (Timestamp 0) 3 64 4 72 :: client_functor connector_functor event_loop"
  let ?c = "Channel_new 9"
  let ?q = "put_channel 80 ?c (poller ?l)"
  let ?p = "updated 80 ?c kReadEvent ?q"
  have "poller_inv (poller ?l)" by (rule new_loop_state_inv) simp_all
  then have q: "poller_inv ?q" by (rule put_new_channel_inv) (simp add: new_loop_state_def)
  have c: "channel_heap ?q 80 = Some ?c" "sole_user 80 (ch_fd ?c) ?q"
    by (simp_all add: put_channel_def sole_user_def Channel_new_def new_loop_state_def)
  have p: "poller_inv ?p" by (rule updated_inv [OF q c])
  have t: "timers_ok 1 (timerQueue ?l)"
    by (auto simp: timers_ok_def new_loop_state_def TimerQueue_new_def tq_inv_def)
  show "connector_inv 1 [] (open_client r)"
    using p t by (simp add: connector_inv_def loop_ok_def idle_connector_def resets_due_def open_client_def
        TcpClient_new_def Connector_new_def connector.defs event_loop.defs kInitRetryDelayMs_def retry_delays_def
        new_loop_state_def Let_def)
  show "conn_inv 1 (enter_object 0 (open_client r))"
    using p by (simp add: conn_inv_def conn_pre_def conn_registered_def fin_due_def conn_ch_def open_client_def
        TcpClient_new_def Connector_new_def connector.defs event_loop.defs new_loop_state_def
        new_object_def updated_def put_channel_def Channel_new_def index_after_update_def sole_user_def Let_def)
qed

lemma client_reconnects_witness:
  "case for_each (client_event silent_callbacks 1) (open_client True) [ConnectionReady 0 EPOLLIN, FunctorTurn] of
     Inl x \<Rightarrow> resource_fault x
   | Inr s' \<Rightarrow> connection_ptr s' = None \<and> client_objects s' 0 = None \<and> attempting s'"
proof -
  have fields: "pendingFunctors (open_client True) = []" "connector_state (open_client True) = Connector_kConnected"
    "connector_channel (open_client True) = None" "connector_alive (open_client True)"
    "connection_ptr (open_client True) = Some 0" "client_retry (open_client True)" "client_connect (open_client True)"
    "client_objects (open_client True) 0 = Some ((new_object 0 ''c'' 80 [ReadData []] [])\<lparr>co_state := kConnected\<rparr>)"
    by (simp_all add: open_client_def TcpClient_new_def Connector_new_def connector.defs event_loop.defs new_loop_state_def Let_def)
  have cbs: "connectionClosed (silent_callbacks True 1 0) = Some (client_close_callback 1 0)"
    "\<And>u. conn_state u = kDisconnected \<Longrightarrow> call_if_set (connectionCallback (silent_callbacks True 1 0)) u = Inr u"
    by (simp_all add: silent_callbacks_def)
  note ok = open_client_ok [of True]
  from client_reconnects [where cbs = silent_callbacks, OF ok(1) fields(1-5,8) ok(2) _ _ cbs, of "[]"] fields(6,7)
  show ?thesis by (auto simp: new_object_def split: sum.splits simp del: client_event.simps for_each.simps)
qed

section \<open>When the connection is made\<close>

lemma writable_connector:
  fixes s :: "('g, 'z) connector_scheme"
  assumes inv: "connector_inv me [] s" and st: "connector_state s = Connector_kConnecting"
    and want: "connect_wanted s" and err: "next_so_error s = 0"
  obtains fd p b where "sockets_owned s = {fd}" and "connector_channel s = Some b"
    and "interest (poller s) fd = Some (kWriteEvent, b)"
    and "poller_inv p" and "channels p fd = None" and "interest p fd = None"
    and "channel_is kNew kNoneEvent b p"
    and "\<forall>a. a \<noteq> b \<longrightarrow> channel_heap p a = channel_heap (poller s) a"
    and "\<forall>f. Connector_dispatch me (Some f) EPOLLOUT s =
      f fd ((EventLoop_queueInLoop me ResetChannel (s\<lparr>poller := p\<rparr>))
        \<lparr>so_errors := tl (so_errors s), connector_state := Connector_kConnected, retryDelayMs := kInitRetryDelayMs,
         sockets_owned := {}, delivered := delivered s @ [fd]\<rparr>)"
proof -
  have l: "threadId s = me" "poller_inv (poller s)" using inv by (simp_all add: connector_inv_def loop_ok_def)
  obtain b c where b: "connector_channel s = Some b" "channel_heap (poller s) b = Some c" "ch_index c = kAdded"
    "ch_events c = kWriteEvent" "sockets_owned s = {ch_fd c}"
    using inv st by (auto simp: connector_inv_def busy_connector_def)
  let ?c = "c\<lparr>ch_revents := EPOLLOUT\<rparr>"
  let ?s = "s\<lparr>poller := put_channel b ?c (poller s)\<rparr>"
  have inv': "connector_inv me [] ?s" by (rule setRevents_connector [OF inv b(1,2)])
  have l': "threadId ?s = me" "poller_inv (poller ?s)" using inv' by (simp_all add: connector_inv_def loop_ok_def)
  have c': "channel_heap (poller ?s) b = Some ?c" by (simp add: put_channel_def)
  have sole: "sole_user b (ch_fd ?c) (poller ?s)" by (rule poller_inv_sole_user [OF l'(2) c']) (simp add: b(3))
  obtain p where p: "and_then (Channel_change me DisableAll b ?s) (EventLoop_removeChannel me b) = Inr (?s\<lparr>poller := p\<rparr>)"
    "poller_inv p" "channel_heap p b = Some (?c\<lparr>ch_events := kNoneEvent, ch_index := kNew\<rparr>)"
    "interest p (ch_fd ?c) = None" "channels p (ch_fd ?c) = None"
    "\<forall>a. a \<noteq> b \<longrightarrow> channel_heap p a = channel_heap (poller ?s) a"
    by (rule unregister_ok [OF l' c' sole]) blast
  let ?q = "EventLoop_queueInLoop me ResetChannel (s\<lparr>poller := p\<rparr>)"
  have "Connector_removeAndResetChannel me ?s =
      and_then (and_then (Channel_change me DisableAll b ?s) (EventLoop_removeChannel me b)) (\<lambda>s.
      and_then (channel_at (poller s) b) (\<lambda>c. Inr (ch_fd c, EventLoop_queueInLoop me ResetChannel s)))"
    by (simp add: Connector_removeAndResetChannel_def b(1) and_then_assoc)
  then have rem: "Connector_removeAndResetChannel me ?s = Inr (ch_fd c, ?q)"
    by (simp add: p(1,3) channel_at_def)
  have so: "getSocketError ?q = (0, ?q\<lparr>so_errors := tl (so_errors s)\<rparr>)"
    using err getSocketError_eq [of ?q] next_so_error_cong [of ?q s] by (simp add: next_so_error_def)
  have rev: "revents_of b ?s = Inr EPOLLOUT" by (simp add: revents_of_def channel_at_def put_channel_def)
  have masks: "EPOLLOUT AND EPOLLHUP = 0" "EPOLLOUT AND EPOLLERR = 0" "EPOLLOUT AND kWriteEvent \<noteq> 0"
    by (simp_all add: event_masks)
  have "Connector_dispatch me (Some f) EPOLLOUT s = Connector_handleWrite me (Some f) ?s" for f
    using b(1-3) rev masks
    by (simp add: Connector_dispatch_def channel_at_def Channel_setRevents_def Channel_handleEvent_def
        Connector_events_def call_when_def)
  moreover have "Connector_handleWrite me (Some f) ?s =
      f (ch_fd c) (?q\<lparr>so_errors := tl (so_errors s), connector_state := Connector_kConnected,
        retryDelayMs := kInitRetryDelayMs, sockets_owned := {}, delivered := delivered s @ [ch_fd c]\<rparr>)" for f
    using st want rem so b(5) by (simp add: Connector_handleWrite_def Let_def)
  moreover have "interest (poller s) (ch_fd c) = Some (kWriteEvent, b)"
    using l(2) b(2-4) by (auto simp: poller_inv_def)
  moreover have "\<forall>a. a \<noteq> b \<longrightarrow> channel_heap p a = channel_heap (poller s) a"
    using p(6) by (simp add: put_channel_def)
  ultimately show ?thesis using b p(2-5)
    by (intro that [of "ch_fd c" b p]) (simp_all add: channel_is_def)
qed

text \<open>
  \<open>newConnection\<close> on a descriptor that no channel has yet makes an open and empty connection that
  watches it for reading, and leaves the connector as it is.
\<close>

lemma newConnection_open:
  assumes me: "threadId s = me" and inv: "poller_inv (poller s)" and fd: "channels (poller s) fd = None"
    and mem: "allocations s = a # as" "channel_heap (poller s) a = None" and ptr: "connection_ptr s = None"
  obtains t where
    "TcpClient_newConnection cbs me fd s =
       map_res (leave_object (client_created s)) (call_if_set (connectionCallback (cbs True me (client_created s))) t)"
    "conn_inv me t" "conn_state t = kConnected" "handed_over t = []" "conn_name t = client_name s"
    "conn_channel t = a" "interest (poller t) fd = Some (kReadEvent, a)" "pendingFunctors t = pendingFunctors s"
    "\<And>b. b \<noteq> a \<Longrightarrow> channel_heap (poller t) b = channel_heap (poller s) b"
    "threadId t = me" "connection_ptr (leave_object (client_created s) t) = Some (client_created s)"
    "connector_state (leave_object (client_created s) t) = connector_state s"
    "connector_channel (leave_object (client_created s) t) = connector_channel s"
    "timerQueue (leave_object (client_created s) t) = timerQueue s"
    "retryDelayMs (leave_object (client_created s) t) = retryDelayMs s"
    "double_closes (leave_object (client_created s) t) = double_closes s"
    "sockets_owned (leave_object (client_created s) t) = sockets_owned s"
    "delivered (leave_object (client_created s) t) = delivered s"
proof -
  let ?i = "client_created s" and ?c = "Channel_new fd"
  let ?q = "put_channel a ?c (poller s)"
  have q: "poller_inv ?q" by (rule put_new_channel_inv [OF inv mem(2)])
  have c: "channel_heap ?q a = Some ?c" "sole_user a (ch_fd ?c) ?q" "ch_events ?c = kNoneEvent"
    using fd by (simp_all add: put_channel_def sole_user_def Channel_new_def)
  let ?p = "updated a ?c kReadEvent ?q"
  have up: "poller_inv ?p" by (rule updated_inv [OF q c(1,2)])
  obtain rd wr where socks: "(case client_sockets s of [] \<Rightarrow> ([], []) | r # _ \<Rightarrow> r) = (rd, wr)" by fastforce
  define s2 where "s2 = s\<lparr>allocations := as, poller := ?q, client_created := ?i + 1, connection_ptr := Some ?i,
      client_sockets := tl (client_sockets s),
      client_objects := (client_objects s)(?i \<mapsto> new_object 0 (client_name s) a rd wr)\<rparr>"
  let ?t = "(enter_object ?i s2)\<lparr>conn_state := kConnected, poller := ?p\<rparr>"
  have e: "threadId (enter_object ?i s2) = me" "poller (enter_object ?i s2) = ?q"
    "conn_state (enter_object ?i s2) = kConnecting" "conn_channel (enter_object ?i s2) = a"
    using me by (simp_all add: s2_def new_object_def)
  have "Channel_change me EnableReading a ((enter_object ?i s2)\<lparr>conn_state := kConnected\<rparr>) = Inr ?t"
    using Channel_change_ok [of "(enter_object ?i s2)\<lparr>conn_state := kConnected\<rparr>" me a ?c EnableReading] e q c
    by (simp add: event_masks)
  then have "TcpConnection_connectEstablished me (cbs True me ?i) (enter_object ?i s2) =
      call_if_set (connectionCallback (cbs True me ?i)) ?t"
    using e by (simp add: TcpConnection_connectEstablished_def EventLoop_assertInLoopThread_def EventLoop_isInLoopThread_def)
  moreover have "client_objects s2 ?i = Some (new_object 0 (client_name s) a rd wr)" by (simp add: s2_def)
  ultimately have run: "TcpClient_newConnection cbs me fd s =
      map_res (leave_object ?i) (call_if_set (connectionCallback (cbs True me ?i)) ?t)"
    using me mem ptr socks
    by (simp add: TcpClient_newConnection_def EventLoop_assertInLoopThread_def EventLoop_isInLoopThread_def
        new_Channel_def allocate_def on_object_def s2_def Let_def)
  have "conn_inv me ?t"
    using up e(1) c(2)
    by (simp add: conn_inv_def conn_pre_def conn_registered_def fin_due_def conn_ch_def s2_def new_object_def
        updated_def put_channel_def Channel_new_def index_after_update_def sole_user_def)
  moreover have "interest ?p fd = Some (kReadEvent, a)"
    by (simp add: updated_def Channel_new_def index_after_update_def)
  moreover have "channel_heap ?p b = channel_heap (poller s) b" if "b \<noteq> a" for b
    using that by (simp add: updated_def put_channel_def)
  ultimately show ?thesis
    using run e(1) by (intro that [of ?t]) (simp_all add: s2_def new_object_def leave_object_def enter_object_def Let_def)
qed

text \<open>
  C22: The descriptor of a successful attempt goes from the connector, which watched it for writing,
  to a new connection, which watches it for reading; in between no channel is registered for it. The
  connection is then open and empty, the connector owns nothing any more, and its channel, out of
  the poller, waits for its deletion. What the user's connection callback does comes after all that.
\<close>

theorem client_takes_over:
  assumes inv: "connector_inv me [] s" and st: "connector_state s = Connector_kConnecting"
    and want: "connect_wanted s" and err: "next_so_error s = 0" and ptr: "connection_ptr s = None"
    and mem: "allocations s = a # as" "channel_heap (poller s) a = None"
  shows "\<exists>fd t. sockets_owned s = {fd} \<and>
           client_event cbs me s (ConnectorReady EPOLLOUT) =
             map_res (leave_object (client_created s))
               (call_if_set (connectionCallback (cbs True me (client_created s))) t) \<and>
           conn_inv me t \<and> conn_state t = kConnected \<and> handed_over t = [] \<and> conn_name t = client_name s \<and>
           interest (poller t) fd = Some (kReadEvent, a) \<and> conn_channel t = a \<and>
           pendingFunctors t = pendingFunctors s @ [ResetChannel] \<and>
           (let s' = leave_object (client_created s) t
            in connector_inv me [] s' \<and> connection_ptr s' = Some (client_created s) \<and>
               connector_state s' = Connector_kConnected \<and> sockets_owned s' = {} \<and>
               delivered s' = delivered s @ [fd] \<and> retryDelayMs s' = kInitRetryDelayMs)"
proof -
  let ?i = "client_created s"
  obtain fd p b where p: "sockets_owned s = {fd}" "connector_channel s = Some b" "poller_inv p"
    "channels p fd = None" "channel_is kNew kNoneEvent b p"
    "\<forall>a. a \<noteq> b \<longrightarrow> channel_heap p a = channel_heap (poller s) a"
    and run: "\<forall>f. Connector_dispatch me (Some f) EPOLLOUT s =
      f fd ((EventLoop_queueInLoop me ResetChannel (s\<lparr>poller := p\<rparr>))
        \<lparr>so_errors := tl (so_errors s), connector_state := Connector_kConnected, retryDelayMs := kInitRetryDelayMs,
         sockets_owned := {}, delivered := delivered s @ [fd]\<rparr>)"
    using writable_connector [OF inv st want err] by metis
  define s1 where "s1 = (EventLoop_queueInLoop me ResetChannel (s\<lparr>poller := p\<rparr>))
        \<lparr>so_errors := tl (so_errors s), connector_state := Connector_kConnected, retryDelayMs := kInitRetryDelayMs,
         sockets_owned := {}, delivered := delivered s @ [fd]\<rparr>"
  have l: "loop_ok me s" "busy_connector [] s" using inv st by (simp_all add: connector_inv_def)
  have ba: "b \<noteq> a" using l(2) p(2) mem(2) by (auto simp: busy_connector_def)
  have s1: "threadId s1 = me" "poller_inv (poller s1)" "channels (poller s1) fd = None" "allocations s1 = a # as"
    "channel_heap (poller s1) a = None" "connection_ptr s1 = None"
    using l(1) p(3,4,6) ba mem ptr by (simp_all add: s1_def loop_thread_ops loop_ok_def)
  obtain t where new: "TcpClient_newConnection cbs me fd s1 = map_res (leave_object (client_created s1))
      (call_if_set (connectionCallback (cbs True me (client_created s1))) t)"
    and t: "conn_inv me t" "conn_state t = kConnected" "handed_over t = []" "conn_name t = client_name s1"
      "conn_channel t = a" "interest (poller t) fd = Some (kReadEvent, a)" "pendingFunctors t = pendingFunctors s1"
      "\<And>b. b \<noteq> a \<Longrightarrow> channel_heap (poller t) b = channel_heap (poller s1) b" "threadId t = me"
    and w: "connection_ptr (leave_object (client_created s1) t) = Some (client_created s1)"
      "connector_state (leave_object (client_created s1) t) = connector_state s1"
      "connector_channel (leave_object (client_created s1) t) = connector_channel s1"
      "timerQueue (leave_object (client_created s1) t) = timerQueue s1"
      "retryDelayMs (leave_object (client_created s1) t) = retryDelayMs s1"
      "double_closes (leave_object (client_created s1) t) = double_closes s1"
      "sockets_owned (leave_object (client_created s1) t) = sockets_owned s1"
      "delivered (leave_object (client_created s1) t) = delivered s1"
    by (rule newConnection_open [OF s1, of cbs]) blast
  have same: "client_created s1 = ?i" "client_name s1 = client_name s" "connector_state s1 = Connector_kConnected"
    "connector_channel s1 = Some b" "timerQueue s1 = timerQueue s" "pendingFunctors s1 = pendingFunctors s @ [ResetChannel]"
    "retryDelayMs s1 = kInitRetryDelayMs" "double_closes s1 = double_closes s" "sockets_owned s1 = {}"
    "delivered s1 = delivered s @ [fd]" "poller s1 = p"
    using l(1) p(2) by (simp_all add: s1_def loop_thread_ops loop_ok_def)
  let ?w = "leave_object ?i t"
  have "channel_is kNew kNoneEvent b (poller t)" using p(5) t(8) [OF ba] same(11) by (simp add: channel_is_def)
  moreover have "resets_due [] ?w = 1" using l(2) t(7) same(6) by (simp add: busy_connector_def resets_due_def)
  moreover have "poller_inv (poller t)" using t(1) by (simp add: conn_inv_def conn_pre_def)
  ultimately have "connector_inv me [] ?w"
    using l(1) t(9) w same
    by (simp add: connector_inv_def loop_ok_def idle_connector_def kInitRetryDelayMs_def retry_delays_def)
  moreover have "client_event cbs me s (ConnectorReady EPOLLOUT) =
      map_res (leave_object ?i) (call_if_set (connectionCallback (cbs True me ?i)) t)"
    using run new same(1) by (simp add: s1_def [symmetric])
  ultimately show ?thesis using p(1) t(1-7) w same
    by (intro exI [of _ fd] exI [of _ t]) (simp add: Let_def del: client_event.simps)
qed

lemma client_connect_ok:
  assumes inv: "connector_inv me todo s" and ok: "startable (s\<lparr>connect_wanted := True\<rparr>)"
  shows "connector_result me todo (client_event cbs me s ClientConnect)"
proof -
  let ?s = "s\<lparr>client_connect := True, connect_wanted := True\<rparr>"
  have me: "threadId s = me" using inv by (simp add: connector_inv_def loop_ok_def)
  have "connector_inv me todo (s\<lparr>client_connect := True\<rparr>)"
    using connector_inv_cong [of todo "s\<lparr>client_connect := True\<rparr>" todo s me] inv
    by (simp add: resets_due_def loop_ok_def)
  then have "connector_inv me todo ?s" by (simp add: wanted_inv)
  from startInLoop_ok [OF this] ok have "connector_result me todo (Connector_startInLoop me ?s)"
    by (simp add: startable_def)
  then show ?thesis
    using me by (simp add: TcpClient_connect_def Connector_start_def EventLoop_runInLoop_def
        EventLoop_isInLoopThread_def Connector_exec_def)
qed

definition new_client :: "nat tcp_client" where
  "new_client = TcpClient_new (new_loop_state 1 (Timestamp 0) 3 64 4 72) ''c'' [(9, 115), (10, 115)] [] [80, 88, 96] []"

lemma new_client_new: "new_connector 1 new_client"
proof -
  have "poller_inv (poller (new_loop_state 1 (Timestamp 0) 3 64 4 72))" by (rule new_loop_state_inv) simp_all
  then show ?thesis
    by (auto simp: new_connector_def new_client_def TcpClient_new_def Connector_new_def connector.defs event_loop.defs
        new_loop_state_def timers_ok_def TimerQueue_new_def tq_inv_def)
qed

lemma connecting_client:
  obtains s where "client_event silent_callbacks 1 new_client ClientConnect = Inr s" and "connector_inv 1 [] s"
    and "connector_state s = Connector_kConnecting" and "connect_wanted s" and "next_so_error s = 0"
    and "connection_ptr s = None" and "allocations s = [88, 96]" and "channel_heap (poller s) 88 = None"
    and "client_created s = 0" and "pendingFunctors s = []" and "connector_alive s"
proof -
  have "case client_event silent_callbacks 1 new_client ClientConnect of
      Inl x \<Rightarrow> False
    | Inr s \<Rightarrow> connector_state s = Connector_kConnecting \<and> connect_wanted s \<and> next_so_error s = 0 \<and>
        connection_ptr s = None \<and> allocations s = [88, 96] \<and> channel_heap (poller s) 88 = None \<and>
        client_created s = 0 \<and> pendingFunctors s = [] \<and> connector_alive s"
    by code_simp
  moreover have "connector_result 1 [] (client_event silent_callbacks 1 new_client ClientConnect)"
    by (rule client_connect_ok [OF new_connector_inv [OF new_client_new]])
      (use new_client_new in \<open>simp add: startable_def new_connector_def\<close>)
  ultimately show ?thesis using that by (cases "client_event silent_callbacks 1 new_client ClientConnect") auto
qed

lemma client_takes_over_witness:
  "\<exists>s s' fd. client_event silent_callbacks 1 new_client ClientConnect = Inr s \<and> sockets_owned s = {fd} \<and>
     client_event silent_callbacks 1 s (ConnectorReady EPOLLOUT) = Inr s' \<and> connection_ptr s' = Some 0 \<and>
     interest (poller s') fd = Some (kReadEvent, 88)"
proof -
  obtain s where s: "client_event silent_callbacks 1 new_client ClientConnect = Inr s" "connector_inv 1 [] s"
    "connector_state s = Connector_kConnecting" "connect_wanted s" "next_so_error s = 0" "connection_ptr s = None"
    "allocations s = [88, 96]" "channel_heap (poller s) 88 = None" "client_created s = 0"
    by (rule connecting_client)
  obtain fd t where t: "sockets_owned s = {fd}"
    "client_event silent_callbacks 1 s (ConnectorReady EPOLLOUT) =
       map_res (leave_object 0) (call_if_set (connectionCallback (silent_callbacks True 1 0)) t)"
    "interest (poller t) fd = Some (kReadEvent, 88)" "connection_ptr (leave_object 0 t) = Some 0"
    using client_takes_over [OF s(2-8), of silent_callbacks] unfolding s(9) Let_def by blast
  have "client_event silent_callbacks 1 s (ConnectorReady EPOLLOUT) = Inr (leave_object 0 t)"
    unfolding t(2) by (simp add: silent_callbacks_def)
  with s(1) t(1,3,4) show ?thesis by (intro exI [of _ s] exI [of _ "leave_object 0 t"] exI [of _ fd]) simp
qed

section \<open>The end of a client\<close>

text \<open>
  C20: Destroying a client never ends well while its loop goes on. While it is connecting, the
  destructor of the connector fails its assertion, because the channel still wants events. Otherwise
  the destructor returns, but it has queued \<open>stopInLoop\<close> with a raw pointer to the connector that it
  then deletes: the next turn of the loop uses the freed connector, as a pending retry timer would.
\<close>

theorem client_destruction:
  assumes inv: "connector_inv me [] s" and pend: "pendingFunctors s = []"
  shows "if connector_state s = Connector_kConnecting then TcpClient_destroy me s = Inl AssertionFailed
         else \<exists>s'. TcpClient_destroy me s = Inr s' \<and> client_event cbs me s' FunctorTurn = Inl UseAfterFree \<and>
                client_event cbs me s' ConnectorTimer = Inl UseAfterFree"
proof -
  have me: "threadId s = me" using inv by (simp add: connector_inv_def loop_ok_def)
  define s1 where "s1 = Connector_stop me s"
  define s2 where "s2 = (case connection_ptr s of None \<Rightarrow> s1
      | Some i \<Rightarrow> EventLoop_queueInLoop me (Other (DestroyConnection i)) (s1\<lparr>connection_ptr := None\<rparr>))"
  have s1: "threadId s1 = me" "connection_ptr s1 = connection_ptr s" "pendingFunctors s1 = [StopInLoop]"
    "connector_channel s1 = connector_channel s" "poller s1 = poller s"
    using me pend by (simp_all add: s1_def Connector_stop_def loop_thread_ops)
  obtain fs where s2: "pendingFunctors s2 = StopInLoop # fs" "connector_channel s2 = connector_channel s" "poller s2 = poller s"
    using s1 by (cases "connection_ptr s") (simp_all add: s2_def loop_thread_ops)
  have run: "TcpClient_destroy me s = map_res (\<lambda>s. s\<lparr>connector_alive := False\<rparr>) (Connector_destroy s2)"
    using s1(1,2) by (cases "connection_ptr s")
      (simp_all add: TcpClient_destroy_def s1_def [symmetric] s2_def EventLoop_isInLoopThread_def Let_def)
  show ?thesis
  proof (cases "connector_state s = Connector_kConnecting")
    case True
    then obtain a c where "connector_channel s = Some a" "channel_heap (poller s) a = Some c" "ch_events c = kWriteEvent"
      using inv by (auto simp: connector_inv_def busy_connector_def)
    then have "Connector_destroy s2 = Inl AssertionFailed"
      using s2(2,3) by (simp add: Connector_destroy_def channel_at_def Channel_isNoneEvent_def event_masks)
    with True run show ?thesis by simp
  next
    case False
    then have "\<exists>s3. Connector_destroy s2 = Inr s3 \<and> pendingFunctors s3 = StopInLoop # fs"
      using inv s2 by (auto simp: connector_inv_def idle_connector_def channel_is_def Connector_destroy_def
          channel_at_def Channel_isNoneEvent_def Connector_resetChannel_def split: option.splits)
    then obtain s3 where s3: "Connector_destroy s2 = Inr s3" "pendingFunctors s3 = StopInLoop # fs" by blast
    let ?s = "s3\<lparr>connector_alive := False\<rparr>"
    have "client_event cbs me ?s FunctorTurn = Inl UseAfterFree"
      using s3(2) by (simp add: EventLoop_doPendingFunctors_def client_functor_call_def)
    with False run s3(1) show ?thesis by simp
  qed
qed

lemma client_destruction_witness:
  "(\<exists>s. client_event silent_callbacks 1 new_client ClientConnect = Inr s \<and> TcpClient_destroy 1 s = Inl AssertionFailed) \<and>
   (\<exists>s'. TcpClient_destroy 1 new_client = Inr s' \<and> client_event silent_callbacks 1 s' FunctorTurn = Inl UseAfterFree)"
proof
  obtain s where s: "client_event silent_callbacks 1 new_client ClientConnect = Inr s" "connector_inv 1 [] s"
    "connector_state s = Connector_kConnecting" "pendingFunctors s = []"
    by (rule connecting_client)
  from client_destruction [OF s(2,4)] s(1,3)
  show "\<exists>s. client_event silent_callbacks 1 new_client ClientConnect = Inr s \<and> TcpClient_destroy 1 s = Inl AssertionFailed"
    by auto
  have "pendingFunctors new_client = []" "connector_state new_client = Connector_kDisconnected"
    by (simp_all add: new_client_def TcpClient_new_def Connector_new_def connector.defs event_loop.defs new_loop_state_def)
  then show "\<exists>s'. TcpClient_destroy 1 new_client = Inr s' \<and> client_event silent_callbacks 1 s' FunctorTurn = Inl UseAfterFree"
    using client_destruction [OF new_connector_inv [OF new_client_new], of silent_callbacks] by auto
qed

end
