(* ===== verification/Loop_Threads.thy ===== *)
theory Loop_Threads
  imports Prelude
begin

text \<open>
  EventLoopThread (src/net/event_loop_thread.cpp) under interleaving: the thread that owns the object
  and the one that it starts, statement by statement where they share data. Each critical section on
  \<open>mutex_\<close> is one step. Of the loop only its existence and \<open>quit_\<close> matter here. Other code that has
  the pointer to the loop may make it quit.
\<close>

section \<open>EventLoopThread\<close>

text \<open>Where the new thread is in \<open>threadFunc\<close>, named after the statement it has just finished.\<close>

datatype worker_pc =
    NoThread
  | Begun
  | LoopMade
  | InitCalled
  | LoopPublished
  | InLoop
  | LoopLeft
  | LoopCleared
  | ThreadEnded

text \<open>Where the owner is: in no member function, in \<open>startLoop\<close>, or in the destructor.\<close>

datatype owner_pc =
    Fresh
  | Waiting
  | LoopReturned
  | Destructing
  | CallingQuit
  | Joining
  | Gone

record loop_thread =
  worker :: worker_pc
  owner :: owner_pc
  loop_set :: bool
  thread_started :: bool
  exiting :: bool
  loop_alive :: bool
  loop_quit :: bool
  thread_fault :: "fault option"

definition EventLoopThread_new :: loop_thread where
  "EventLoopThread_new =
     \<lparr>worker = NoThread, owner = Fresh, loop_set = False, thread_started = False, exiting = False,
      loop_alive = False, loop_quit = False, thread_fault = None\<rparr>"

subsection \<open>Steps\<close>

text \<open>
  The steps of \<open>threadFunc\<close>. Entering \<open>EventLoop::loop\<close> clears \<open>quit_\<close>; the loop goes round until
  it sees \<open>quit_\<close>. The loop is a local variable: it is destroyed when the function returns.
\<close>

inductive worker_step :: "loop_thread \<Rightarrow> loop_thread \<Rightarrow> bool" where
  make_loop: "worker s = Begun \<Longrightarrow> worker_step s (s\<lparr>worker := LoopMade, loop_alive := True, loop_quit := False\<rparr>)"
| call_init: "worker s = LoopMade \<Longrightarrow> worker_step s (s\<lparr>worker := InitCalled\<rparr>)"
| publish_loop: "worker s = InitCalled \<Longrightarrow> worker_step s (s\<lparr>worker := LoopPublished, loop_set := True\<rparr>)"
| enter_loop: "worker s = LoopPublished \<Longrightarrow> worker_step s (s\<lparr>worker := InLoop, loop_quit := False\<rparr>)"
| go_round: "worker s = InLoop \<Longrightarrow> \<not> loop_quit s \<Longrightarrow> worker_step s s"
| leave_loop: "worker s = InLoop \<Longrightarrow> loop_quit s \<Longrightarrow> worker_step s (s\<lparr>worker := LoopLeft\<rparr>)"
| clear_loop: "worker s = LoopLeft \<Longrightarrow> worker_step s (s\<lparr>worker := LoopCleared, loop_set := False\<rparr>)"
| end_thread: "worker s = LoopCleared \<Longrightarrow> worker_step s (s\<lparr>worker := ThreadEnded, loop_alive := False\<rparr>)"

text \<open>
  The steps of the owner: \<open>startLoop\<close> makes the thread and waits for the pointer; the destructor
  reads \<open>loop_\<close> without the lock, then calls \<open>quit\<close> on it, then joins.
\<close>

inductive owner_step :: "loop_thread \<Rightarrow> loop_thread \<Rightarrow> bool" where
  start_thread: "owner s = Fresh \<Longrightarrow>
     owner_step s (s\<lparr>owner := Waiting, thread_started := True, worker := Begun\<rparr>)"
| wait_over: "owner s = Waiting \<Longrightarrow> loop_set s \<Longrightarrow> owner_step s (s\<lparr>owner := LoopReturned\<rparr>)"
| destruct: "owner s = Fresh \<or> owner s = LoopReturned \<Longrightarrow> owner_step s (s\<lparr>owner := Destructing, exiting := True\<rparr>)"
| not_joinable: "owner s = Destructing \<Longrightarrow> worker s = NoThread \<Longrightarrow> owner_step s (s\<lparr>owner := Gone\<rparr>)"
| see_loop: "owner s = Destructing \<Longrightarrow> worker s \<noteq> NoThread \<Longrightarrow> loop_set s \<Longrightarrow> owner_step s (s\<lparr>owner := CallingQuit\<rparr>)"
| see_no_loop: "owner s = Destructing \<Longrightarrow> worker s \<noteq> NoThread \<Longrightarrow> \<not> loop_set s \<Longrightarrow> owner_step s (s\<lparr>owner := Joining\<rparr>)"
| call_quit: "owner s = CallingQuit \<Longrightarrow> loop_alive s \<Longrightarrow> owner_step s (s\<lparr>owner := Joining, loop_quit := True\<rparr>)"
| call_quit_freed: "owner s = CallingQuit \<Longrightarrow> \<not> loop_alive s \<Longrightarrow>
     owner_step s (s\<lparr>owner := Joining, thread_fault := Some UseAfterFree\<rparr>)"
| joined: "owner s = Joining \<Longrightarrow> worker s = ThreadEnded \<Longrightarrow> owner_step s (s\<lparr>owner := Gone\<rparr>)"

text \<open>Other code that got the pointer from the init callback calls \<open>quit\<close> on the loop.\<close>

inductive others_step :: "loop_thread \<Rightarrow> loop_thread \<Rightarrow> bool" where
  others_quit: "loop_alive s \<Longrightarrow> worker s \<noteq> LoopMade \<Longrightarrow> others_step s (s\<lparr>loop_quit := True\<rparr>)"

definition thread_step :: "bool \<Rightarrow> loop_thread \<Rightarrow> loop_thread \<Rightarrow> bool" where
  "thread_step others s s' \<longleftrightarrow> worker_step s s' \<or> owner_step s s' \<or> others \<and> others_step s s'"

inductive thread_reach :: "bool \<Rightarrow> loop_thread \<Rightarrow> loop_thread \<Rightarrow> bool" for others :: bool where
  reach_here: "thread_reach others s s"
| reach_step: "thread_reach others s t \<Longrightarrow> thread_step others t u \<Longrightarrow> thread_reach others s u"

inductive_cases worker_stepE: "worker_step s s'"
inductive_cases owner_stepE: "owner_step s s'"
inductive_cases others_stepE: "others_step s s'"

lemma thread_step_cases:
  assumes "thread_step others s s'"
  obtains "worker_step s s'" | "owner_step s s'" | "others" "others_step s s'"
  using assms by (auto simp: thread_step_def)

lemma reach_trans:
  assumes "thread_reach others t u" and "thread_reach others s t"
  shows "thread_reach others s u"
  using assms by (induction rule: thread_reach.induct) (auto intro: reach_step)

subsection \<open>Invariant\<close>

text \<open>In which parts of \<open>threadFunc\<close> \<open>loop_\<close> is set, and the loop exists.\<close>

fun published :: "worker_pc \<Rightarrow> bool" where
  "published LoopPublished = True"
| "published InLoop = True"
| "published LoopLeft = True"
| "published w = False"

fun has_loop :: "worker_pc \<Rightarrow> bool" where
  "has_loop NoThread = False"
| "has_loop Begun = False"
| "has_loop ThreadEnded = False"
| "has_loop w = True"

text \<open>The loop has been left, or the thread has ended.\<close>

fun past_loop :: "worker_pc \<Rightarrow> bool" where
  "past_loop LoopLeft = True"
| "past_loop LoopCleared = True"
| "past_loop ThreadEnded = True"
| "past_loop w = False"

fun pcs_ok :: "owner_pc \<Rightarrow> worker_pc \<Rightarrow> bool" where
  "pcs_ok Fresh w = (w = NoThread)"
| "pcs_ok Waiting w = (w \<noteq> NoThread)"
| "pcs_ok Gone w = (w = NoThread \<or> w = ThreadEnded)"
| "pcs_ok Destructing w = (w = NoThread \<or> published w \<or> past_loop w)"
| "pcs_ok p w = (published w \<or> past_loop w)"

definition thread_inv :: "loop_thread \<Rightarrow> bool" where
  "thread_inv s \<longleftrightarrow>
     loop_set s = published (worker s) \<and> loop_alive s = has_loop (worker s) \<and>
     pcs_ok (owner s) (worker s) \<and> (thread_fault s = None \<or> thread_fault s = Some UseAfterFree)"

text \<open>Without other code the loop quits only for the destructor.\<close>

definition undisturbed :: "loop_thread \<Rightarrow> bool" where
  "undisturbed s \<longleftrightarrow>
     thread_fault s = None \<and>
     (owner s = Joining \<or> owner s = Gone \<or> \<not> loop_quit s \<and> \<not> past_loop (worker s))"

lemma new_thread_inv: "thread_inv EventLoopThread_new" "undisturbed EventLoopThread_new"
  by (simp_all add: thread_inv_def undisturbed_def EventLoopThread_new_def)

lemma thread_step_inv:
  assumes "thread_step others s s'" and "thread_inv s"
  shows "thread_inv s'"
  using assms(1)
proof (cases rule: thread_step_cases)
  case 1
  then show ?thesis using assms(2)
    by (cases rule: worker_step.cases; cases "owner s"; simp add: thread_inv_def)
next
  case 2
  then show ?thesis using assms(2)
    by (cases rule: owner_step.cases; cases "worker s"; auto simp: thread_inv_def)
next
  case 3
  from 3(2) show ?thesis using assms(2) by (cases rule: others_step.cases) (simp add: thread_inv_def)
qed

lemma thread_step_undisturbed:
  assumes "thread_step False s s'" and "thread_inv s" and "undisturbed s"
  shows "undisturbed s'"
  using assms(1)
proof (cases rule: thread_step_cases)
  case 1
  then show ?thesis using assms(2,3)
    by (cases rule: worker_step.cases; cases "owner s"; simp add: thread_inv_def undisturbed_def)
next
  case 2
  then show ?thesis using assms(2,3)
    by (cases rule: owner_step.cases; cases "worker s"; auto simp: thread_inv_def undisturbed_def)
qed simp

lemma reach_inv: "thread_reach others s s' \<Longrightarrow> thread_inv s \<Longrightarrow> thread_inv s'"
  by (induction rule: thread_reach.induct) (auto intro: thread_step_inv)

lemma reach_undisturbed: "thread_reach False s s' \<Longrightarrow> thread_inv s \<Longrightarrow> undisturbed s \<Longrightarrow> undisturbed s'"
  by (induction rule: thread_reach.induct) (auto intro: thread_step_undisturbed reach_inv)

text \<open>From a state without disturbance \<open>startLoop\<close> comes back with the loop.\<close>

lemma run_step: "worker_step s t \<or> owner_step s t \<or> others \<and> others_step s t \<Longrightarrow> thread_reach others t u \<Longrightarrow> thread_reach others s u"
  by (rule reach_trans, assumption, rule reach_step [OF reach_here]) (auto simp: thread_step_def)

lemmas worker_runs = worker_step.intros [THEN disjI1, THEN run_step]
lemmas owner_runs = owner_step.intros [THEN disjI1, THEN disjI2, THEN run_step]
lemmas others_runs = others_step.intros [THEN conjI [OF TrueI], THEN disjI2, THEN disjI2, THEN run_step]

lemma published_reaches_return:
  assumes "owner s = Waiting" and "loop_set s"
  shows "\<exists>t. thread_reach others s t \<and> owner t = LoopReturned"
proof -
  have "thread_reach others s (s\<lparr>owner := LoopReturned\<rparr>)"
    by (rule owner_runs(2) [OF assms reach_here])
  then show ?thesis by (intro exI [of _ "s\<lparr>owner := LoopReturned\<rparr>"]) simp
qed

lemma init_reaches_return:
  assumes "owner s = Waiting" and "worker s = InitCalled"
  shows "\<exists>t. thread_reach others s t \<and> owner t = LoopReturned"
proof -
  obtain t where "thread_reach others (s\<lparr>worker := LoopPublished, loop_set := True\<rparr>) t"
    and "owner t = LoopReturned"
    using published_reaches_return [of "s\<lparr>worker := LoopPublished, loop_set := True\<rparr>" others] assms(1) by auto
  then show ?thesis using worker_runs(3) [OF assms(2)] by blast
qed

lemma made_reaches_return:
  assumes "owner s = Waiting" and "worker s = LoopMade"
  shows "\<exists>t. thread_reach others s t \<and> owner t = LoopReturned"
proof -
  obtain t where "thread_reach others (s\<lparr>worker := InitCalled\<rparr>) t" and "owner t = LoopReturned"
    using init_reaches_return [of "s\<lparr>worker := InitCalled\<rparr>" others] assms(1) by auto
  then show ?thesis using worker_runs(2) [OF assms(2)] by blast
qed

lemma begun_reaches_return:
  assumes "owner s = Waiting" and "worker s = Begun"
  shows "\<exists>t. thread_reach others s t \<and> owner t = LoopReturned"
proof -
  obtain t where "thread_reach others (s\<lparr>worker := LoopMade, loop_alive := True, loop_quit := False\<rparr>) t"
    and "owner t = LoopReturned"
    using made_reaches_return [of "s\<lparr>worker := LoopMade, loop_alive := True, loop_quit := False\<rparr>" others] assms(1)
    by auto
  then show ?thesis using worker_runs(1) [OF assms(2)] by blast
qed

lemma waiting_reaches_return:
  assumes "thread_inv s" and "undisturbed s" and "owner s = Waiting"
  shows "\<exists>t. thread_reach others s t \<and> owner t = LoopReturned"
proof -
  have "worker s = Begun \<or> worker s = LoopMade \<or> worker s = InitCalled \<or> loop_set s"
    using assms by (cases "worker s") (simp_all add: thread_inv_def undisturbed_def)
  then show ?thesis
    using assms(3) begun_reaches_return made_reaches_return init_reaches_return published_reaches_return by blast
qed

text \<open>
  Once the destructor joins it comes back if the thread has left the loop or is in the loop with
  \<open>quit_\<close> set, and otherwise never.
\<close>

definition will_join :: "loop_thread \<Rightarrow> bool" where
  "will_join s \<longleftrightarrow> past_loop (worker s) \<or> worker s = InLoop \<and> loop_quit s"

lemma ended_reaches_gone:
  assumes "owner s = Joining" and "worker s = ThreadEnded"
  shows "\<exists>t. thread_reach others s t \<and> owner t = Gone"
proof -
  have "thread_reach others s (s\<lparr>owner := Gone\<rparr>)" by (rule owner_runs(9) [OF assms reach_here])
  then show ?thesis by (intro exI [of _ "s\<lparr>owner := Gone\<rparr>"]) simp
qed

lemma cleared_reaches_gone:
  assumes "owner s = Joining" and "worker s = LoopCleared"
  shows "\<exists>t. thread_reach others s t \<and> owner t = Gone"
proof -
  obtain t where "thread_reach others (s\<lparr>worker := ThreadEnded, loop_alive := False\<rparr>) t" and "owner t = Gone"
    using ended_reaches_gone [of "s\<lparr>worker := ThreadEnded, loop_alive := False\<rparr>" others] assms(1) by auto
  then show ?thesis using worker_runs(8) [OF assms(2)] by blast
qed

lemma left_reaches_gone:
  assumes "owner s = Joining" and "worker s = LoopLeft"
  shows "\<exists>t. thread_reach others s t \<and> owner t = Gone"
proof -
  obtain t where "thread_reach others (s\<lparr>worker := LoopCleared, loop_set := False\<rparr>) t" and "owner t = Gone"
    using cleared_reaches_gone [of "s\<lparr>worker := LoopCleared, loop_set := False\<rparr>" others] assms(1) by auto
  then show ?thesis using worker_runs(7) [OF assms(2)] by blast
qed

lemma in_loop_reaches_gone:
  assumes "owner s = Joining" and "worker s = InLoop" and "loop_quit s"
  shows "\<exists>t. thread_reach others s t \<and> owner t = Gone"
proof -
  obtain t where "thread_reach others (s\<lparr>worker := LoopLeft\<rparr>) t" and "owner t = Gone"
    using left_reaches_gone [of "s\<lparr>worker := LoopLeft\<rparr>" others] assms(1) by auto
  then show ?thesis using worker_runs(6) [OF assms(2,3)] by blast
qed

lemma will_join_reaches_gone:
  assumes "owner s = Joining" and "will_join s"
  shows "\<exists>t. thread_reach others s t \<and> owner t = Gone"
proof -
  have "worker s = InLoop \<and> loop_quit s \<or> worker s = LoopLeft \<or> worker s = LoopCleared \<or> worker s = ThreadEnded"
    using assms(2) by (cases "worker s") (simp_all add: will_join_def)
  then show ?thesis
    using assms(1) in_loop_reaches_gone left_reaches_gone cleared_reaches_gone ended_reaches_gone by blast
qed

text \<open>The join that hangs: nobody is left who would make the loop quit.\<close>

definition join_hangs :: "loop_thread \<Rightarrow> bool" where
  "join_hangs s \<longleftrightarrow>
     owner s = Joining \<and> (worker s = LoopPublished \<or> worker s = InLoop \<and> \<not> loop_quit s)"

lemma join_hangs_step: "thread_step False s s' \<Longrightarrow> join_hangs s \<Longrightarrow> join_hangs s'"
proof (erule thread_step_cases)
  assume "worker_step s s'" and "join_hangs s"
  then show "join_hangs s'" by (cases rule: worker_step.cases) (simp_all add: join_hangs_def)
next
  assume "owner_step s s'" and "join_hangs s"
  then show "join_hangs s'" by (cases rule: owner_step.cases) (auto simp: join_hangs_def)
qed simp

lemma join_hangs_reach: "thread_reach False s s' \<Longrightarrow> join_hangs s \<Longrightarrow> join_hangs s'"
  by (induction rule: thread_reach.induct) (auto intro: join_hangs_step)

lemma joining_cases:
  assumes "thread_inv s" and "owner s = Joining"
  shows "will_join s \<or> join_hangs s"
  using assms by (cases "worker s") (auto simp: thread_inv_def will_join_def join_hangs_def)

subsection \<open>Properties\<close>

text \<open>
  C23: if no other code makes the loop quit, \<open>startLoop\<close> can always come back, and then with a loop
  that lives and is published; the destructor never uses a loop that is gone, and its join can come
  back exactly if the thread was already in \<open>loop()\<close> when \<open>quit\<close> was called.
\<close>

theorem loop_thread_starts_and_joins:
  assumes "thread_reach False EventLoopThread_new s"
  shows "thread_fault s = None \<and>
    (owner s = LoopReturned \<or> owner s = CallingQuit \<longrightarrow> loop_alive s \<and> loop_set s) \<and>
    (owner s = Waiting \<longrightarrow> (\<exists>t. thread_reach False s t \<and> owner t = LoopReturned)) \<and>
    (owner s = Joining \<longrightarrow> ((\<exists>t. thread_reach False s t \<and> owner t = Gone) \<longleftrightarrow> will_join s))"
proof (intro conjI impI)
  have inv: "thread_inv s" and calm: "undisturbed s"
    using reach_inv [OF assms new_thread_inv(1)] reach_undisturbed [OF assms new_thread_inv] by auto
  then show "thread_fault s = None" by (simp add: undisturbed_def)
  show "loop_alive s" "loop_set s" if "owner s = LoopReturned \<or> owner s = CallingQuit"
    using that inv calm by (cases "worker s"; auto simp: thread_inv_def undisturbed_def)+
  show "\<exists>t. thread_reach False s t \<and> owner t = LoopReturned" if "owner s = Waiting"
    using waiting_reaches_return [OF inv calm that] .
  show "(\<exists>t. thread_reach False s t \<and> owner t = Gone) \<longleftrightarrow> will_join s" if joining: "owner s = Joining"
  proof
    assume "\<exists>t. thread_reach False s t \<and> owner t = Gone"
    then obtain t where "thread_reach False s t" and "owner t = Gone" by blast
    then have "\<not> join_hangs s" using join_hangs_reach [of s t] by (auto simp: join_hangs_def [of t])
    then show "will_join s" using joining_cases [OF inv joining] by blast
  qed (rule will_join_reaches_gone [OF joining])
qed


text \<open>A run to the call of \<open>quit\<close> while the new thread is between publishing the loop and entering it.\<close>

lemma early_quit_run:
  "thread_reach False EventLoopThread_new
     (EventLoopThread_new\<lparr>worker := LoopPublished, owner := Joining, loop_set := True, thread_started := True,
        exiting := True, loop_alive := True, loop_quit := True\<rparr>)"
proof -
  have "thread_reach False EventLoopThread_new
      (EventLoopThread_new\<lparr>owner := Waiting, thread_started := True, worker := Begun,
        worker := LoopMade, loop_alive := True, loop_quit := False, worker := InitCalled,
        worker := LoopPublished, loop_set := True, owner := LoopReturned, owner := Destructing, exiting := True,
        owner := CallingQuit, owner := Joining, loop_quit := True\<rparr>)"
    by (rule owner_runs(1) worker_runs(1-3) owner_runs(2,3,5,7) reach_here; simp add: EventLoopThread_new_def)+
  then show ?thesis by (simp add: EventLoopThread_new_def)
qed

theorem loop_thread_starts_and_joins_witness:
  "(\<exists>t. thread_reach False
      (EventLoopThread_new\<lparr>worker := LoopPublished, owner := Joining, loop_set := True, thread_started := True,
         exiting := True, loop_alive := True, loop_quit := True\<rparr>) t \<and> owner t = Gone) = False"
  using loop_thread_starts_and_joins [OF early_quit_run] by (simp add: will_join_def)

text \<open>
  Code that gets the loop from the init callback may make it quit. When the thread has then cleared
  \<open>loop_\<close> before \<open>startLoop\<close> looked, nothing sets it again.
\<close>

definition start_hangs :: "loop_thread \<Rightarrow> bool" where
  "start_hangs s \<longleftrightarrow>
     owner s = Waiting \<and> (worker s = LoopCleared \<or> worker s = ThreadEnded) \<and> \<not> loop_set s"

lemma start_hangs_step: "thread_step others s s' \<Longrightarrow> start_hangs s \<Longrightarrow> start_hangs s'"
proof (erule thread_step_cases)
  assume "worker_step s s'" and "start_hangs s"
  then show "start_hangs s'" by (cases rule: worker_step.cases) (auto simp: start_hangs_def)
next
  assume "owner_step s s'" and "start_hangs s"
  then show "start_hangs s'" by (cases rule: owner_step.cases) (auto simp: start_hangs_def)
next
  assume "others_step s s'" and "start_hangs s"
  then show "start_hangs s'" by (cases rule: others_step.cases) (auto simp: start_hangs_def)
qed

lemma start_hangs_reach: "thread_reach others s s' \<Longrightarrow> start_hangs s \<Longrightarrow> start_hangs s'"
  by (induction rule: thread_reach.induct) (auto intro: start_hangs_step)

text \<open>
  C24: when other code may make the loop quit, a \<open>startLoop\<close> that waits can come back exactly as long
  as the new thread has not cleared \<open>loop_\<close>: once it has, which it may do before the waiting thread
  has looked, \<open>startLoop\<close> waits for ever, whatever the threads do.
\<close>

theorem start_loop_returns:
  assumes "thread_reach True EventLoopThread_new s" and "owner s = Waiting"
  shows "(\<exists>t. thread_reach True s t \<and> owner t = LoopReturned) \<longleftrightarrow>
    worker s \<noteq> LoopCleared \<and> worker s \<noteq> ThreadEnded"
proof
  have inv: "thread_inv s" using reach_inv [OF assms(1) new_thread_inv(1)] .
  show "worker s \<noteq> LoopCleared \<and> worker s \<noteq> ThreadEnded"
    if returns: "\<exists>t. thread_reach True s t \<and> owner t = LoopReturned"
  proof -
    obtain t where "thread_reach True s t" and "owner t = LoopReturned" using returns by blast
    then have "\<not> start_hangs s" using start_hangs_reach [of True s t] by (auto simp: start_hangs_def [of t])
    then show ?thesis using inv assms(2) by (auto simp: start_hangs_def thread_inv_def)
  qed
  show "\<exists>t. thread_reach True s t \<and> owner t = LoopReturned"
    if "worker s \<noteq> LoopCleared \<and> worker s \<noteq> ThreadEnded"
  proof -
    have "worker s = Begun \<or> worker s = LoopMade \<or> worker s = InitCalled \<or> loop_set s"
      using that inv assms(2) by (cases "worker s") (simp_all add: thread_inv_def)
    then show ?thesis
      using assms(2) begun_reaches_return made_reaches_return init_reaches_return published_reaches_return by blast
  qed
qed

text \<open>A run in which the loop quits and \<open>loop_\<close> is cleared before the waiting thread looks.\<close>

lemma quit_before_look_run:
  "thread_reach True EventLoopThread_new
     (EventLoopThread_new\<lparr>worker := LoopCleared, owner := Waiting, thread_started := True,
        loop_alive := True, loop_quit := True\<rparr>)"
proof -
  have "thread_reach True EventLoopThread_new
      (EventLoopThread_new\<lparr>owner := Waiting, thread_started := True, worker := Begun,
        worker := LoopMade, loop_alive := True, loop_quit := False, worker := InitCalled,
        worker := LoopPublished, loop_set := True, worker := InLoop, loop_quit := False, loop_quit := True,
        worker := LoopLeft, worker := LoopCleared, loop_set := False\<rparr>)"
    by ((rule owner_runs(1) worker_runs(1-4), (simp add: EventLoopThread_new_def; fail)+)+,
        (rule others_runs, (simp add: EventLoopThread_new_def; fail)+),
        (rule worker_runs(6,7), (simp; fail)+)+, rule reach_here)
  then show ?thesis by (simp add: EventLoopThread_new_def)
qed

theorem start_loop_returns_witness:
  "(\<exists>t. thread_reach True
      (EventLoopThread_new\<lparr>worker := LoopCleared, owner := Waiting, thread_started := True,
         loop_alive := True, loop_quit := True\<rparr>) t \<and> owner t = LoopReturned) = False"
  using start_loop_returns [OF quit_before_look_run] by simp

text \<open>The destructor has read \<open>loop_\<close>, and the loop is gone when it calls \<open>quit\<close> on it.\<close>

lemma quit_on_freed_loop:
  "\<exists>s. thread_reach True EventLoopThread_new s \<and> thread_fault s = Some UseAfterFree"
proof -
  have "thread_reach True EventLoopThread_new
      (EventLoopThread_new\<lparr>owner := Waiting, thread_started := True, worker := Begun,
        worker := LoopMade, loop_alive := True, loop_quit := False, worker := InitCalled,
        worker := LoopPublished, loop_set := True, owner := LoopReturned, owner := Destructing, exiting := True,
        owner := CallingQuit, worker := InLoop, loop_quit := False, loop_quit := True,
        worker := LoopLeft, worker := LoopCleared, loop_set := False, worker := ThreadEnded, loop_alive := False,
        owner := Joining, thread_fault := Some UseAfterFree\<rparr>)"
    by ((rule owner_runs(1) worker_runs(1-3) owner_runs(2,3,5), (simp add: EventLoopThread_new_def; fail)+)+,
        (rule worker_runs(4), simp), (rule others_runs, (simp add: EventLoopThread_new_def; fail)+),
        (rule worker_runs(6-8), (simp; fail)+)+, (rule owner_runs(8), (simp; fail)+), rule reach_here)
  then show ?thesis by - (rule exI, rule conjI, assumption, simp)
qed

end
