(* ===== verification/Logging.thy ===== *)
theory Logging
  imports Timestamps
begin

text \<open>
  LogLevel, LogMessage, Logger and CurrentThread (src/base/log_level.cpp, log_message.cpp, logger.cpp,
  current_thread.cpp), and the formatted time of src/base/timestamp.cpp. What the platform prints
  (local time, thread ids) is a parameter; the clock and the lines printed so far are fields of the
  state. A log call at level FATAL ends the process: the fault \<open>Aborted\<close>.
\<close>

section \<open>Levels\<close>

datatype LogLevel = INFO | WARN | ERROR | FATAL

fun level_value :: "LogLevel \<Rightarrow> nat" where
  "level_value INFO = 0"
| "level_value WARN = 1"
| "level_value ERROR = 2"
| "level_value FATAL = 3"

lemma level_value_inject: "level_value a = level_value b \<longleftrightarrow> a = b"
  by (cases a; cases b; simp)

text \<open>The operators of \<open>enum class\<close> compare the values.\<close>

instantiation LogLevel :: linorder
begin

definition less_LogLevel :: "LogLevel \<Rightarrow> LogLevel \<Rightarrow> bool" where
  "less_LogLevel a b \<longleftrightarrow> level_value a < level_value b"

definition less_eq_LogLevel :: "LogLevel \<Rightarrow> LogLevel \<Rightarrow> bool" where
  "less_eq_LogLevel a b \<longleftrightarrow> level_value a \<le> level_value b"

instance
  by standard (auto simp: less_LogLevel_def less_eq_LogLevel_def level_value_inject)

end

lemma FATAL_top [simp]: "l \<le> FATAL"
  by (cases l) (simp_all add: less_eq_LogLevel_def)

definition logLevelToString :: "LogLevel \<Rightarrow> string" where
  "logLevelToString level = [''INFO'', ''WARN'', ''ERROR'', ''FATAL''] ! level_value level"

section \<open>The formatted time\<close>

text \<open>
  Division and remainder of C++ round towards zero. \<open>std::setw(6)\<close> with fill \<open>0\<close> puts the zeros
  before the text of the number, its sign included. \<open>local_time\<close> is the text of \<open>std::put_time\<close> on
  \<open>std::localtime\<close>.
\<close>

definition quot10 :: "int \<Rightarrow> int \<Rightarrow> int" where
  "quot10 n d = (if n < 0 then - ((- n) div d) else n div d)"

definition setfill0 :: "nat \<Rightarrow> string \<Rightarrow> string" where
  "setfill0 width s = replicate (width - length s) (CHR ''0'') @ s"

definition Timestamp_toFormattedString :: "(int \<Rightarrow> string) \<Rightarrow> bool \<Rightarrow> timestamp \<Rightarrow> string" where
  "Timestamp_toFormattedString local_time showMicroseconds t =
     (let n = microSecondsSinceEpoch t; seconds = quot10 n 1000000;
          microseconds = n - seconds * 1000000
      in local_time seconds @
         (if showMicroseconds then ''.'' @ setfill0 6 (Timestamp_toString (Timestamp microseconds)) else []))"

section \<open>The state of the log\<close>

record log_message =
  msg_level :: LogLevel
  msg_file :: string
  msg_line :: nat
  msg_content :: string
  msg_timestamp :: timestamp

record platform =
  local_time :: "int \<Rightarrow> string"
  show_tid :: "tid \<Rightarrow> string"
  strerror :: "nat \<Rightarrow> string"
  source_file :: string

record log_world =
  log_level :: LogLevel
  clock :: timestamp
  cached_tid :: "tid \<Rightarrow> tid option"
  printed :: "string list"

text \<open>\<open>CurrentThread::tid()\<close>: a cache for each thread, filled on first use.\<close>

definition CurrentThread_tid :: "tid \<Rightarrow> 'z log_world_scheme \<Rightarrow> tid \<times> 'z log_world_scheme" where
  "CurrentThread_tid me w =
     (case cached_tid w me of
        Some t \<Rightarrow> (t, w)
      | None \<Rightarrow> (me, w\<lparr>cached_tid := (cached_tid w)(me \<mapsto> me)\<rparr>))"

definition LogMessage_format :: "platform \<Rightarrow> tid \<Rightarrow> log_message \<Rightarrow> string" where
  "LogMessage_format p t m = concat
     [Timestamp_toFormattedString (local_time p) False (msg_timestamp m), '' '',
      ''['', logLevelToString (msg_level m), ''] '',
      ''['', show_tid p t, ''] '',
      msg_file m, '':'', nat_to_string (msg_line m), '' - '', msg_content m]"

definition Logger_setLogLevel :: "LogLevel \<Rightarrow> 'z log_world_scheme \<Rightarrow> 'z log_world_scheme" where
  "Logger_setLogLevel level w = w\<lparr>log_level := level\<rparr>"

definition Logger_print ::
    "platform \<Rightarrow> tid \<Rightarrow> LogLevel \<Rightarrow> string \<Rightarrow> nat \<Rightarrow> string \<Rightarrow> 'z log_world_scheme \<Rightarrow> 'z log_world_scheme" where
  "Logger_print p me level file line msg w =
     (let m = \<lparr>msg_level = level, msg_file = file, msg_line = line, msg_content = msg,
               msg_timestamp = clock w\<rparr>;
          (t, w) = CurrentThread_tid me w
      in w\<lparr>printed := printed w @ [LogMessage_format p t m]\<rparr>)"

definition Logger_log ::
    "platform \<Rightarrow> tid \<Rightarrow> LogLevel \<Rightarrow> string \<Rightarrow> nat \<Rightarrow> string \<Rightarrow> 'z log_world_scheme \<Rightarrow> 'z log_world_scheme res" where
  "Logger_log p me level file line msg w =
     (if log_level w \<le> level
      then (let w = Logger_print p me level file line msg w
            in if level = FATAL then Inl Aborted else Inr w)
      else Inr w)"

section \<open>What a log call does\<close>

text \<open>The caches only ever hold the thread's own id, so every line names the thread that wrote it.\<close>

definition tids_ok :: "'z log_world_scheme \<Rightarrow> bool" where
  "tids_ok w \<longleftrightarrow> (\<forall>t t'. cached_tid w t = Some t' \<longrightarrow> t' = t)"

lemma tid_own: "tids_ok w \<Longrightarrow> fst (CurrentThread_tid me w) = me"
  by (auto simp: CurrentThread_tid_def tids_ok_def split: option.splits)

lemma Logger_print_fields:
  "log_level (Logger_print p me l f n msg w) = log_level w"
  "clock (Logger_print p me l f n msg w) = clock w"
  "tids_ok w \<Longrightarrow> tids_ok (Logger_print p me l f n msg w)"
  by (auto simp: Logger_print_def CurrentThread_tid_def tids_ok_def Let_def split: option.splits)

definition log_line :: "platform \<Rightarrow> tid \<Rightarrow> LogLevel \<Rightarrow> string \<Rightarrow> nat \<Rightarrow> string \<Rightarrow> timestamp \<Rightarrow> string" where
  "log_line p me level file line msg now =
     LogMessage_format p me \<lparr>msg_level = level, msg_file = file, msg_line = line, msg_content = msg,
       msg_timestamp = now\<rparr>"

lemma Logger_print_line:
  assumes "tids_ok w"
  shows "printed (Logger_print p me l f n msg w) = printed w @ [log_line p me l f n msg (clock w)]"
  using tid_own [OF assms, of me]
  by (auto simp: Logger_print_def log_line_def CurrentThread_tid_def Let_def split: option.splits)

lemma LOG_FATAL_aborts: "Logger_log p me FATAL f n msg w = Inl Aborted"
  by (simp add: Logger_log_def Let_def)

lemma log_returns:
  assumes "l \<noteq> FATAL"
  shows "Logger_log p me l f n msg w =
    Inr (if log_level w \<le> l then Logger_print p me l f n msg w else w)"
  using assms by (simp add: Logger_log_def Let_def)

lemma LOG_ERROR_returns:
  "Logger_log p me ERROR f n msg w =
    Inr (if log_level w \<le> ERROR then Logger_print p me ERROR f n msg w else w)"
  by (rule log_returns) simp

end
