(* ===== verification/Sockets.thy ===== *)
theory Sockets
  imports Logging
begin

text \<open>
  InetAddress (src/net/inet_address.cpp), the wrappers of the socket calls
  (src/net/sockets_ops.cpp) and the Socket class (src/net/socket.cpp), with the socket side of the
  Acceptor's constructor and of \<open>listen\<close> (src/net/acceptor.cpp). What a socket call answers is an
  argument: success or an \<open>errno\<close>; what it does on success is a change of the socket table.
\<close>

unbundle bit_operations_syntax

section \<open>InetAddress\<close>

text \<open>
  A \<open>sockaddr_in\<close> by the bytes that it has in memory: port and address are in network order, the
  most significant byte first, on every host. \<open>htons\<close> and \<open>htonl\<close> turn a number into these bytes.
\<close>

datatype in_addr = InAddr "8 word" "8 word" "8 word" "8 word"

record sockaddr_in =
  sin_family :: nat
  sin_port :: "8 word \<times> 8 word"
  sin_addr :: in_addr

definition AF_INET :: nat where "AF_INET = 2"
definition INADDR_ANY :: "32 word" where "INADDR_ANY = 0"
definition INADDR_LOOPBACK :: "32 word" where "INADDR_LOOPBACK = 0x7f000001"

definition htons :: "16 word \<Rightarrow> 8 word \<times> 8 word" where
  "htons n = (ucast (drop_bit 8 n), ucast n)"

definition ntohs :: "8 word \<times> 8 word \<Rightarrow> 16 word" where
  "ntohs b = push_bit 8 (ucast (fst b)) OR ucast (snd b)"

definition htonl :: "32 word \<Rightarrow> in_addr" where
  "htonl n = InAddr (ucast (drop_bit 24 n)) (ucast (drop_bit 16 n)) (ucast (drop_bit 8 n)) (ucast n)"

definition zero_sockaddr :: sockaddr_in where
  "zero_sockaddr = \<lparr>sin_family = 0, sin_port = (0, 0), sin_addr = InAddr 0 0 0 0\<rparr>"

text \<open>The constructors. They look at the \<open>ipv6\<close> flag nowhere.\<close>

definition InetAddress_port :: "16 word \<Rightarrow> bool \<Rightarrow> bool \<Rightarrow> sockaddr_in" where
  "InetAddress_port port loopbackOnly ipv6 =
     zero_sockaddr\<lparr>sin_family := AF_INET, sin_port := htons port,
       sin_addr := htonl (if loopbackOnly then INADDR_LOOPBACK else INADDR_ANY)\<rparr>"

definition InetAddress_ip :: "(string \<Rightarrow> in_addr option) \<Rightarrow> string \<Rightarrow> 16 word \<Rightarrow> bool \<Rightarrow> sockaddr_in" where
  "InetAddress_ip inet_pton ip port ipv6 =
     zero_sockaddr\<lparr>sin_family := AF_INET, sin_port := htons port,
       sin_addr := (case inet_pton ip of Some a \<Rightarrow> a | None \<Rightarrow> htonl INADDR_ANY)\<rparr>"

definition InetAddress_toIp :: "(in_addr \<Rightarrow> string) \<Rightarrow> sockaddr_in \<Rightarrow> string" where
  "InetAddress_toIp inet_ntop a = inet_ntop (sin_addr a)"

definition InetAddress_Port :: "sockaddr_in \<Rightarrow> 16 word" where
  "InetAddress_Port a = ntohs (sin_port a)"

definition InetAddress_toIpPort :: "(in_addr \<Rightarrow> string) \<Rightarrow> sockaddr_in \<Rightarrow> string" where
  "InetAddress_toIpPort inet_ntop a =
     InetAddress_toIp inet_ntop a @ '':'' @ nat_to_string (unat (InetAddress_Port a))"

lemma ntohs_htons [simp]: "ntohs (htons n) = n"
  unfolding ntohs_def htons_def
  by (rule bit_word_eqI)
    (auto simp: bit_simps)

lemma htons_ntohs [simp]: "htons (ntohs b) = b"
proof (rule prod_eqI)
  show "fst (htons (ntohs b)) = fst b"
    unfolding htons_def ntohs_def fst_conv
    by (rule bit_word_eqI) (auto simp: bit_simps dest: bit_imp_le_length)
  show "snd (htons (ntohs b)) = snd b"
    unfolding htons_def ntohs_def snd_conv
    by (rule bit_word_eqI) (auto simp: bit_simps dest: bit_imp_le_length)
qed

text \<open>
  Dotted decimal notation, a function that meets what is assumed of \<open>inet_ntop\<close> and \<open>inet_pton\<close>.
\<close>

definition dotted_quad :: "in_addr \<Rightarrow> string" where
  "dotted_quad x =
     (case x of InAddr a b c d \<Rightarrow>
        nat_to_string (unat a) @ ''.'' @ nat_to_string (unat b) @ ''.'' @
        nat_to_string (unat c) @ ''.'' @ nat_to_string (unat d))"

fun fields :: "string \<Rightarrow> string list" where
  "fields [] = [[]]"
| "fields (c # s) = (if c = CHR ''.'' then [] # fields s else (c # hd (fields s)) # tl (fields s))"

definition read_quad :: "string \<Rightarrow> in_addr option" where
  "read_quad s =
     (case map string_to_nat (fields s) of
        [a, b, c, d] \<Rightarrow>
          if max (max a b) (max c d) < 256 then Some (InAddr (of_nat a) (of_nat b) (of_nat c) (of_nat d)) else None
      | _ \<Rightarrow> None)"

lemma fields_not_Nil: "fields s \<noteq> []"
  by (cases s) auto

lemma fields_append: "CHR ''.'' \<notin> set xs \<Longrightarrow> fields (xs @ CHR ''.'' # s) = xs # fields s"
  by (induction xs) auto

lemma fields_single: "CHR ''.'' \<notin> set xs \<Longrightarrow> fields xs = [xs]"
  by (induction xs) auto

lemma digits_exclude: "\<not> is_digit c \<Longrightarrow> c \<notin> set (nat_to_string n)"
  using nat_to_string_digits [of n] by (auto simp: list_all_iff)

lemma separators_no_digits: "\<not> is_digit (CHR ''.'')" "\<not> is_digit (CHR '':'')"
  by (simp_all add: is_digit_def)

lemma read_dotted_quad: "read_quad (dotted_quad x) = Some x"
proof (cases x)
  case (InAddr a b c d)
  have byte: "unat w < 256" for w :: "8 word" using unsigned_less [of w] by simp
  show ?thesis
    using byte [of a] byte [of b] byte [of c] byte [of d]
    by (simp add: InAddr dotted_quad_def read_quad_def fields_append fields_single digits_exclude
        separators_no_digits string_to_nat_to_string)
qed

lemma dotted_quad_no_colon: "CHR '':'' \<notin> set (dotted_quad x)"
  by (cases x) (simp add: dotted_quad_def digits_exclude separators_no_digits)

subsection \<open>Round trip\<close>

lemma until_colon:
  assumes "CHR '':'' \<notin> set s" and "CHR '':'' \<notin> set s'" and "s @ '':'' @ n = s' @ '':'' @ n'"
  shows "s = s' \<and> n = n'"
  using assms(3) append_eq_append_conv2 [of s "'':'' @ n" s' "'':'' @ n'"] assms(1,2)
  by (auto simp: append_eq_Cons_conv Cons_eq_append_conv)

text \<open>
  C26: an address given as text and port is the one that \<open>toIp\<close> and \<open>Port\<close> print, the text of
  \<open>toIpPort\<close> tells different addresses apart, and text that is no address stands for every
  interface.
\<close>

theorem inet_address_roundtrip:
  assumes "\<And>x. inet_pton (inet_ntop x) = Some x" and "\<And>x. CHR '':'' \<notin> set (inet_ntop x)"
    and "sin_family a = AF_INET" and "sin_family b = AF_INET"
  shows "InetAddress_ip inet_pton (InetAddress_toIp inet_ntop a) (InetAddress_Port a) v6 = a \<and>
    (InetAddress_toIpPort inet_ntop a = InetAddress_toIpPort inet_ntop b \<longleftrightarrow> a = b) \<and>
    InetAddress_Port (InetAddress_ip inet_pton s n v6) = n \<and>
    (inet_pton s = None \<longrightarrow> InetAddress_ip inet_pton s n v6 = InetAddress_port n False v6)"
proof (intro conjI impI)
  show ip: "InetAddress_ip inet_pton (InetAddress_toIp inet_ntop a) (InetAddress_Port a) v6 = a"
    using assms(1,3) by (simp add: InetAddress_ip_def InetAddress_toIp_def InetAddress_Port_def zero_sockaddr_def)
  have "a = b" if same: "InetAddress_toIpPort inet_ntop a = InetAddress_toIpPort inet_ntop b"
  proof -
    have texts: "inet_ntop (sin_addr a) = inet_ntop (sin_addr b) \<and>
        nat_to_string (unat (InetAddress_Port a)) = nat_to_string (unat (InetAddress_Port b))"
      using same unfolding InetAddress_toIpPort_def InetAddress_toIp_def
      by (rule until_colon [OF assms(2) assms(2)])
    have "Some (sin_addr a) = Some (sin_addr b)"
      unfolding assms(1) [symmetric] using texts by (rule arg_cong [OF conjunct1])
    then have addr: "sin_addr a = sin_addr b" by simp
    have "unat (InetAddress_Port a) = unat (InetAddress_Port b)"
      using texts [THEN conjunct2] by (rule nat_to_string_inj)
    then have "ntohs (sin_port a) = ntohs (sin_port b)"
      unfolding InetAddress_Port_def word_unat_eq_iff .
    then have "htons (ntohs (sin_port a)) = htons (ntohs (sin_port b))" by (rule arg_cong)
    then have "sin_port a = sin_port b" unfolding htons_ntohs .
    then show ?thesis using addr assms(3,4) by (intro sockaddr_in.equality) simp_all
  qed
  then show "InetAddress_toIpPort inet_ntop a = InetAddress_toIpPort inet_ntop b \<longleftrightarrow> a = b" by blast
qed (simp_all add: InetAddress_ip_def InetAddress_port_def InetAddress_Port_def)

theorem inet_address_roundtrip_witness:
  "InetAddress_ip read_quad (InetAddress_toIp dotted_quad (InetAddress_port 8080 True False)) 8080 False =
     InetAddress_port 8080 True False"
  using inet_address_roundtrip [of read_quad dotted_quad "InetAddress_port 8080 True False"
      "InetAddress_port 8080 True False" False, OF read_dotted_quad dotted_quad_no_colon]
  by (simp add: InetAddress_port_def InetAddress_Port_def)

section \<open>The socket calls\<close>

datatype syscall = Success | Failed nat
datatype socket_call = NewSocket int | NoSocket nat
datatype sock_option = SO_REUSEADDR | SO_REUSEPORT | SO_KEEPALIVE

text \<open>The kernel's table of sockets, beside the log.\<close>

record socket_world = log_world +
  open_fds :: "int set"
  options :: "int \<Rightarrow> sock_option set"
  bound_to :: "int \<Rightarrow> sockaddr_in option"
  listening_fds :: "int set"
  write_shut :: "int set"

text \<open>The log calls of sockets_ops.cpp, by their line: the text with the message of \<open>errno\<close>.\<close>

definition report ::
    "platform \<Rightarrow> tid \<Rightarrow> LogLevel \<Rightarrow> nat \<Rightarrow> string \<Rightarrow> nat \<Rightarrow> socket_world \<Rightarrow> socket_world res" where
  "report p me level line what e w =
     Logger_log p me level (source_file p) line (what @ strerror p e) w"

definition sockets_createNonblockingOrDie ::
    "platform \<Rightarrow> tid \<Rightarrow> socket_call \<Rightarrow> socket_world \<Rightarrow> (int \<times> socket_world) res" where
  "sockets_createNonblockingOrDie p me r w =
     (case r of
        NewSocket fd \<Rightarrow>
          Inr (fd, w\<lparr>open_fds := insert fd (open_fds w), options := (options w)(fd := {}),
            bound_to := (bound_to w)(fd := None), listening_fds := listening_fds w - {fd},
            write_shut := write_shut w - {fd}\<rparr>)
      | NoSocket e \<Rightarrow>
          map_res (Pair (- 1)) (report p me FATAL 18 ''Failed to create non-blocking socket: '' e w))"

definition sockets_bindOrDie ::
    "platform \<Rightarrow> tid \<Rightarrow> syscall \<Rightarrow> int \<Rightarrow> sockaddr_in \<Rightarrow> socket_world \<Rightarrow> socket_world res" where
  "sockets_bindOrDie p me r fd a w =
     (case r of
        Success \<Rightarrow> Inr (w\<lparr>bound_to := (bound_to w)(fd \<mapsto> a)\<rparr>)
      | Failed e \<Rightarrow> report p me FATAL 25 ''Failed to bind socket: '' e w)"

definition sockets_listenOrDie ::
    "platform \<Rightarrow> tid \<Rightarrow> syscall \<Rightarrow> int \<Rightarrow> socket_world \<Rightarrow> socket_world res" where
  "sockets_listenOrDie p me r fd w =
     (case r of
        Success \<Rightarrow> Inr (w\<lparr>listening_fds := insert fd (listening_fds w)\<rparr>)
      | Failed e \<Rightarrow> report p me FATAL 31 ''Failed to listen on socket: '' e w)"

definition sockets_closeOrReport ::
    "platform \<Rightarrow> tid \<Rightarrow> syscall \<Rightarrow> int \<Rightarrow> socket_world \<Rightarrow> socket_world res" where
  "sockets_closeOrReport p me r fd w =
     (case r of
        Success \<Rightarrow> Inr (w\<lparr>open_fds := open_fds w - {fd}\<rparr>)
      | Failed e \<Rightarrow> report p me ERROR 63 ''Failed to close socket: '' e w)"

definition sockets_shutdownWrite ::
    "platform \<Rightarrow> tid \<Rightarrow> syscall \<Rightarrow> int \<Rightarrow> socket_world \<Rightarrow> socket_world res" where
  "sockets_shutdownWrite p me r fd w =
     (case r of
        Success \<Rightarrow> Inr (w\<lparr>write_shut := insert fd (write_shut w)\<rparr>)
      | Failed e \<Rightarrow> report p me ERROR 81 ''Failed to shutdown write on socket: '' e w)"

definition put_option :: "sock_option \<Rightarrow> int \<Rightarrow> bool \<Rightarrow> socket_world \<Rightarrow> socket_world" where
  "put_option opt fd on w =
     w\<lparr>options := (options w)(fd := if on then insert opt (options w fd) else options w fd - {opt})\<rparr>"

definition sockets_setReuseAddr ::
    "platform \<Rightarrow> tid \<Rightarrow> syscall \<Rightarrow> int \<Rightarrow> bool \<Rightarrow> socket_world \<Rightarrow> socket_world res" where
  "sockets_setReuseAddr p me r fd on w =
     (case r of
        Success \<Rightarrow> Inr (put_option SO_REUSEADDR fd on w)
      | Failed e \<Rightarrow> report p me ERROR 88 ''Failed to set SO_REUSEADDR: '' e w)"

definition sockets_setReusePort ::
    "platform \<Rightarrow> tid \<Rightarrow> syscall \<Rightarrow> int \<Rightarrow> bool \<Rightarrow> socket_world \<Rightarrow> socket_world res" where
  "sockets_setReusePort p me r fd on w =
     (case r of
        Success \<Rightarrow> Inr (put_option SO_REUSEPORT fd on w)
      | Failed e \<Rightarrow> report p me ERROR 95 ''Failed to set SO_REUSEPORT: '' e w)"

definition sockets_setKeepAlive ::
    "platform \<Rightarrow> tid \<Rightarrow> syscall \<Rightarrow> int \<Rightarrow> bool \<Rightarrow> socket_world \<Rightarrow> socket_world res" where
  "sockets_setKeepAlive p me r fd on w =
     (case r of
        Success \<Rightarrow> Inr (put_option SO_KEEPALIVE fd on w)
      | Failed e \<Rightarrow> report p me ERROR 102 ''Failed to set SO_KEEPALIVE: '' e w)"

text \<open>
  \<open>getsockname\<close> and \<open>getpeername\<close> fill a local variable that is not initialised: on an error the
  result is whatever the variable held, \<open>junk\<close>.
\<close>

datatype name_call = Named sockaddr_in | NameFailed nat

definition sockets_getLocalAddr ::
    "platform \<Rightarrow> tid \<Rightarrow> sockaddr_in \<Rightarrow> name_call \<Rightarrow> socket_world \<Rightarrow> (sockaddr_in \<times> socket_world) res" where
  "sockets_getLocalAddr p me junk r w =
     (case r of
        Named a \<Rightarrow> Inr (a, w)
      | NameFailed e \<Rightarrow>
          map_res (Pair junk) (Logger_log p me ERROR (source_file p) 120 ''sockets::getLocalAddr failed'' w))"

definition sockets_getPeerAddr ::
    "platform \<Rightarrow> tid \<Rightarrow> sockaddr_in \<Rightarrow> name_call \<Rightarrow> socket_world \<Rightarrow> (sockaddr_in \<times> socket_world) res" where
  "sockets_getPeerAddr p me junk r w =
     (case r of
        Named a \<Rightarrow> Inr (a, w)
      | NameFailed e \<Rightarrow>
          map_res (Pair junk) (Logger_log p me ERROR (source_file p) 129 ''sockets::getPeerAddr failed'' w))"

section \<open>Socket\<close>

text \<open>The class owns its descriptor: the destructor closes it. The other members pass it on.\<close>

datatype socket = Socket (sockfd: int)

definition Socket_destroy :: "platform \<Rightarrow> tid \<Rightarrow> syscall \<Rightarrow> socket \<Rightarrow> socket_world \<Rightarrow> socket_world res" where
  "Socket_destroy p me r s w = (if sockfd s \<ge> 0 then sockets_closeOrReport p me r (sockfd s) w else Inr w)"

definition Socket_bindAddress ::
    "platform \<Rightarrow> tid \<Rightarrow> syscall \<Rightarrow> socket \<Rightarrow> sockaddr_in \<Rightarrow> socket_world \<Rightarrow> socket_world res" where
  "Socket_bindAddress p me r s a w = sockets_bindOrDie p me r (sockfd s) a w"

definition Socket_listen :: "platform \<Rightarrow> tid \<Rightarrow> syscall \<Rightarrow> socket \<Rightarrow> socket_world \<Rightarrow> socket_world res" where
  "Socket_listen p me r s w = sockets_listenOrDie p me r (sockfd s) w"

definition Socket_setReuseAddr ::
    "platform \<Rightarrow> tid \<Rightarrow> syscall \<Rightarrow> socket \<Rightarrow> bool \<Rightarrow> socket_world \<Rightarrow> socket_world res" where
  "Socket_setReuseAddr p me r s on w = sockets_setReuseAddr p me r (sockfd s) on w"

definition Socket_setReusePort ::
    "platform \<Rightarrow> tid \<Rightarrow> syscall \<Rightarrow> socket \<Rightarrow> bool \<Rightarrow> socket_world \<Rightarrow> socket_world res" where
  "Socket_setReusePort p me r s on w = sockets_setReusePort p me r (sockfd s) on w"

definition Socket_setKeepAlive ::
    "platform \<Rightarrow> tid \<Rightarrow> syscall \<Rightarrow> socket \<Rightarrow> bool \<Rightarrow> socket_world \<Rightarrow> socket_world res" where
  "Socket_setKeepAlive p me r s on w = sockets_setKeepAlive p me r (sockfd s) on w"

section \<open>The listening socket of an Acceptor\<close>

text \<open>What the calls answer that the constructor and \<open>listen\<close> make.\<close>

record acceptor_calls =
  socket_answer :: socket_call
  reuseaddr_answer :: syscall
  reuseport_answer :: syscall
  bind_answer :: syscall
  listen_answer :: syscall

definition Acceptor_new_socket ::
    "platform \<Rightarrow> tid \<Rightarrow> acceptor_calls \<Rightarrow> sockaddr_in \<Rightarrow> bool \<Rightarrow> socket_world \<Rightarrow> (socket \<times> socket_world) res" where
  "Acceptor_new_socket p me c listenAddr reuseport w =
     and_then (sockets_createNonblockingOrDie p me (socket_answer c) w) (\<lambda>(fd, w).
     let acceptSocket = Socket fd in
     and_then (Socket_setReuseAddr p me (reuseaddr_answer c) acceptSocket True w) (\<lambda>w.
     and_then (Socket_setReusePort p me (reuseport_answer c) acceptSocket reuseport w) (\<lambda>w.
     map_res (Pair acceptSocket) (Socket_bindAddress p me (bind_answer c) acceptSocket listenAddr w))))"

definition Acceptor_listen_socket ::
    "platform \<Rightarrow> tid \<Rightarrow> acceptor_calls \<Rightarrow> socket \<Rightarrow> socket_world \<Rightarrow> socket_world res" where
  "Acceptor_listen_socket p me c s w = Socket_listen p me (listen_answer c) s w"

definition listening_socket ::
    "platform \<Rightarrow> tid \<Rightarrow> acceptor_calls \<Rightarrow> sockaddr_in \<Rightarrow> bool \<Rightarrow> socket_world \<Rightarrow> (socket \<times> socket_world) res" where
  "listening_socket p me c listenAddr reuseport w =
     and_then (Acceptor_new_socket p me c listenAddr reuseport w) (\<lambda>(s, w).
     map_res (Pair s) (Acceptor_listen_socket p me c s w))"

text \<open>A report at level ERROR only prints; one at level FATAL ends the process.\<close>

definition errors_logged :: "platform \<Rightarrow> tid \<Rightarrow> nat \<Rightarrow> string \<Rightarrow> nat \<Rightarrow> socket_world \<Rightarrow> socket_world" where
  "errors_logged p me line what e w =
     (if log_level w \<le> ERROR then Logger_print p me ERROR (source_file p) line (what @ strerror p e) w else w)"

lemma report_error: "report p me ERROR line what e w = Inr (errors_logged p me line what e w)"
  by (simp add: report_def errors_logged_def LOG_ERROR_returns)

lemma report_fatal: "report p me FATAL line what e w = Inl Aborted"
  by (simp add: report_def LOG_FATAL_aborts)

lemma errors_logged_fields [simp]:
  "open_fds (errors_logged p me line what e w) = open_fds w"
  "options (errors_logged p me line what e w) = options w"
  "bound_to (errors_logged p me line what e w) = bound_to w"
  "listening_fds (errors_logged p me line what e w) = listening_fds w"
  "write_shut (errors_logged p me line what e w) = write_shut w"
  by (simp_all add: errors_logged_def Logger_print_def CurrentThread_tid_def Let_def split: option.splits)

lemma put_option_fields [simp]:
  "open_fds (put_option opt fd on w) = open_fds w"
  "bound_to (put_option opt fd on w) = bound_to w"
  "listening_fds (put_option opt fd on w) = listening_fds w"
  "options (put_option opt fd on w) =
    (options w)(fd := if on then insert opt (options w fd) else options w fd - {opt})"
  by (simp_all add: put_option_def)

lemmas acceptor_socket_defs =
  listening_socket_def Acceptor_listen_socket_def Acceptor_new_socket_def Socket_setReuseAddr_def
  Socket_setReusePort_def Socket_bindAddress_def Socket_listen_def sockets_createNonblockingOrDie_def
  sockets_setReuseAddr_def sockets_setReusePort_def sockets_bindOrDie_def sockets_listenOrDie_def
  report_error report_fatal

definition listens_on :: "sockaddr_in \<Rightarrow> sock_option set \<Rightarrow> int \<Rightarrow> socket_world \<Rightarrow> bool" where
  "listens_on a opts fd w \<longleftrightarrow>
     fd \<in> open_fds w \<and> bound_to w fd = Some a \<and> fd \<in> listening_fds w \<and> options w fd = opts"

definition options_set :: "acceptor_calls \<Rightarrow> bool \<Rightarrow> sock_option set" where
  "options_set c reuseport =
     (if reuseaddr_answer c = Success then {SO_REUSEADDR} else {}) \<union>
     (if reuseport \<and> reuseport_answer c = Success then {SO_REUSEPORT} else {})"

text \<open>
  C25: however the socket calls of a new Acceptor end, either the process is aborted, and then
  \<open>socket\<close>, \<open>bind\<close> or \<open>listen\<close> has failed, or the acceptor owns an open socket that is bound to its
  address and listens, with the options whose calls succeeded: failing to set one is only logged.
  No other socket has changed.
\<close>

theorem acceptor_listens_or_aborts:
  "case listening_socket p me c addr reuseport w of
     Inl x \<Rightarrow> x = Aborted \<and>
       ((\<exists>e. socket_answer c = NoSocket e) \<or> (\<exists>e. bind_answer c = Failed e) \<or> (\<exists>e. listen_answer c = Failed e))
   | Inr (s, w') \<Rightarrow>
       socket_answer c = NewSocket (sockfd s) \<and> bind_answer c = Success \<and> listen_answer c = Success \<and>
       listens_on addr (options_set c reuseport) (sockfd s) w' \<and>
       (\<forall>fd. fd = sockfd s \<or> options w' fd = options w fd \<and> bound_to w' fd = bound_to w fd \<and>
          (fd \<in> open_fds w' \<longleftrightarrow> fd \<in> open_fds w) \<and> (fd \<in> listening_fds w' \<longleftrightarrow> fd \<in> listening_fds w))"
proof (cases "socket_answer c")
  case new: (NewSocket fd)
  show ?thesis
    by (cases "reuseaddr_answer c"; cases "reuseport_answer c"; cases "bind_answer c"; cases "listen_answer c";
        cases reuseport; simp add: acceptor_socket_defs new Let_def listens_on_def options_set_def insert_commute)
qed (simp add: acceptor_socket_defs)

text \<open>
  The wrappers whose name does not end in \<open>OrDie\<close> never end the process, whatever the comments in
  sockets_ops.h say: a failing call leaves the sockets as they are and prints one line, if the level
  of the log lets it.
\<close>

definition only_logs :: "platform \<Rightarrow> tid \<Rightarrow> nat \<Rightarrow> socket_world \<Rightarrow> socket_world res \<Rightarrow> bool" where
  "only_logs p me e w r \<longleftrightarrow>
     (case r of
        Inl x \<Rightarrow> False
      | Inr w' \<Rightarrow>
          open_fds w' = open_fds w \<and> options w' = options w \<and> write_shut w' = write_shut w \<and>
          (\<exists>line what. printed w' = printed w @
             (if log_level w \<le> ERROR
              then [log_line p me ERROR (source_file p) line (what @ strerror p e) (clock w)] else [])))"

lemma report_error_only_logs: "tids_ok w \<Longrightarrow> only_logs p me e w (report p me ERROR line what e w)"
  by (auto simp: only_logs_def report_error) (auto simp: errors_logged_def Logger_print_line)

lemma other_wrappers_only_log:
  assumes "tids_ok w"
  shows "only_logs p me e w (sockets_closeOrReport p me (Failed e) fd w)"
    and "only_logs p me e w (sockets_shutdownWrite p me (Failed e) fd w)"
    and "only_logs p me e w (sockets_setReuseAddr p me (Failed e) fd on w)"
    and "only_logs p me e w (sockets_setReusePort p me (Failed e) fd on w)"
    and "only_logs p me e w (sockets_setKeepAlive p me (Failed e) fd on w)"
  by (simp_all add: sockets_closeOrReport_def sockets_shutdownWrite_def sockets_setReuseAddr_def
      sockets_setReusePort_def sockets_setKeepAlive_def report_error_only_logs [OF assms])

end
