(* ===== verification/Echo_Client.thy ===== *)
theory Echo_Client
  imports Clients
begin

text \<open>
  The echo client of examples/echo/echo_client.cpp: its two callbacks, as an application on the
  connection model, and what its main function sets up. \<open>static int count\<close> is kept as the context of the one connection that the client
  makes (it does not use the context otherwise). Its close callback only queues the destruction of
  the connection, like the server's.
\<close>

section \<open>Callbacks\<close>

definition newline :: char where "newline = CHR 0x0A"

definition EchoClient_onConnection ::
    "tid \<Rightarrow> ('f, int, 'z) tcp_connection_scheme \<Rightarrow> ('f, int, 'z) tcp_connection_scheme res" where
  "EchoClient_onConnection me s =
     (if conn_state s = kConnected
      then TcpConnection_send me None (''Hello from EchoClient!'' @ [newline]) s
      else Inr s)"

definition static_count :: "int option \<Rightarrow> int" where
  "static_count c = (case c of None \<Rightarrow> 0 | Some n \<Rightarrow> n)"

definition EchoClient_message :: "int \<Rightarrow> char list" where
  "EchoClient_message count = ''Message '' @ nat_to_string (nat count) @ [newline]"

definition EchoClient_onMessage ::
    "tid \<Rightarrow> ('f, int, 'z) tcp_connection_scheme \<Rightarrow> ('f, int, 'z) tcp_connection_scheme res" where
  "EchoClient_onMessage me s =
     and_then (Buffer_retrieveAllAsString (inputBuffer s)) (\<lambda>(msg, buf).
     let s = s\<lparr>inputBuffer := buf\<rparr>; count = static_count (conn_context s) in
     if count = 2 ^ 31 - 1 then Inl SignedOverflow
     else
       let s = s\<lparr>conn_context := Some (count + 1)\<rparr> in
       if count + 1 < 3 then TcpConnection_send me None (EchoClient_message (count + 1)) s
       else TcpConnection_shutdown me s)"

definition client_greet :: "int app_view \<Rightarrow> int app_view" where
  "client_greet v = v_send (''Hello from EchoClient!'' @ [newline]) v"

definition client_react :: "int app_view \<Rightarrow> int app_view res" where
  "client_react v =
     (let v = v\<lparr>v_input := []\<rparr>; count = static_count (v_context v) in
      if count = 2 ^ 31 - 1 then Inl SignedOverflow
      else
        let v = v\<lparr>v_context := Some (count + 1)\<rparr> in
        Inr (if count + 1 < 3 then v_send (EchoClient_message (count + 1)) v else v_shutdown v))"

definition count_overflow :: "int option \<Rightarrow> fault \<Rightarrow> bool" where
  "count_overflow c x \<longleftrightarrow> x = SignedOverflow"

lemma client_up: "keeps_conn me ok (EchoClient_onConnection me)" "keeps_revents (EchoClient_onConnection me)"
proof -
  show "keeps_conn me ok (EchoClient_onConnection me)"
    unfolding keeps_conn_iff by (auto simp: EchoClient_onConnection_def keeps_from_send)
  show "keeps_revents (EchoClient_onConnection me)"
    using send_revents [of None me] by (auto simp: EchoClient_onConnection_def keeps_revents_def)
qed

lemma client_keeps: "keeps_conn me count_overflow (EchoClient_onMessage me)"
  unfolding keeps_conn_iff
proof (intro allI impI)
  fix s :: "('f, int, 'z) tcp_connection_scheme"
  assume wf: "conn_wf me s"
  then have b: "Buffer_inv (inputBuffer s)" by (simp add: conn_pre_def)
  let ?s = "s\<lparr>inputBuffer := Buffer_retrieve (inputBuffer s) (Buffer_readableBytes (inputBuffer s)),
    conn_context := Some (static_count (conn_context s) + 1)\<rparr>"
  have wf': "conn_wf me ?s" using b wf by (simp add: conn_wf_input_buffer)
  have kept: "conn_next count_overflow s ?s" "fin_due ?s = fin_due s"
    by (simp_all add: conn_next_def count_overflow_def fin_due_def)
  show "keeps_from me count_overflow s (EchoClient_onMessage me s)"
  proof (cases "static_count (conn_context s) = 2 ^ 31 - 1")
    case True
    then show ?thesis by (simp add: EchoClient_onMessage_def retrieveAll_string [OF b] count_overflow_def)
  next
    case False
    then have "EchoClient_onMessage me s =
        (if static_count (conn_context s) + 1 < 3
         then TcpConnection_send me None (EchoClient_message (static_count (conn_context s) + 1)) ?s
         else TcpConnection_shutdown me ?s)"
      by (simp add: EchoClient_onMessage_def retrieveAll_string [OF b] Let_def)
    then show ?thesis
      using keeps_from_step [OF wf' kept(2,1)] keeps_from_send [OF wf'] keeps_from_shutdown [OF wf'] by simp
  qed
qed

lemma client_revents: "keeps_revents (EchoClient_onMessage me)"
  unfolding keeps_revents_def
proof (intro allI impI)
  fix s s'
  assume "EchoClient_onMessage me s = Inr s'"
  then obtain buf n m where "TcpConnection_send me None m (s\<lparr>inputBuffer := buf, conn_context := n\<rparr>) = Inr s' \<or>
      TcpConnection_shutdown me (s\<lparr>inputBuffer := buf, conn_context := n\<rparr>) = Inr s'"
    by (auto simp: EchoClient_onMessage_def returned Let_def split: if_splits)
  then have "same_revents (s\<lparr>inputBuffer := buf, conn_context := n\<rparr>) s'"
    using keeps_reventsD [OF send_revents [of None me m]] keeps_reventsD [OF shutdown_revents [of me]]
    by (auto simp: keeps_revents_def)
  then show "same_revents s s'" by (simp add: same_revents_def)
qed

lemma client_message:
  assumes inv: "conn_inv me s" and op: "conn_open s"
  shows "case client_react (view_of s) of
      Inl x \<Rightarrow> EchoClient_onMessage me s = Inl x
    | Inr v \<Rightarrow> \<exists>s'. EchoClient_onMessage me s = Inr s' \<and> view_of s' = v \<and> socket_reads s' = socket_reads s \<and> v_open v"
proof (cases "static_count (conn_context s) = 2 ^ 31 - 1")
  case True
  have "Buffer_inv (inputBuffer s)" using inv by (simp add: conn_inv_def conn_pre_def)
  then show ?thesis using True by (simp add: EchoClient_onMessage_def retrieveAll_string client_react_def)
next
  case False
  have b: "Buffer_inv (inputBuffer s)" using inv by (simp add: conn_inv_def conn_pre_def)
  let ?n = "static_count (conn_context s) + 1"
  let ?s = "s\<lparr>inputBuffer := Buffer_retrieve (inputBuffer s) (Buffer_readableBytes (inputBuffer s)),
    conn_context := Some ?n\<rparr>"
  have s: "conn_inv me ?s" "conn_open ?s"
    using conn_inv_input_buffer [of "Buffer_retrieve (inputBuffer s) (Buffer_readableBytes (inputBuffer s))" me s]
      b inv op by (simp_all add: conn_open_def conn_inv_def)
  have v: "view_of ?s = (view_of s)\<lparr>v_input := [], v_context := Some ?n\<rparr>" using b by (simp add: view_of_def)
  have run: "EchoClient_onMessage me s =
      (if ?n < 3 then TcpConnection_send me None (EchoClient_message ?n) ?s else TcpConnection_shutdown me ?s)"
    using False by (simp add: EchoClient_onMessage_def retrieveAll_string [OF b] Let_def)
  have react: "client_react (view_of s) =
      Inr (if ?n < 3 then v_send (EchoClient_message ?n) (view_of ?s) else v_shutdown (view_of ?s))"
    using False unfolding v by (simp add: client_react_def Let_def)
  have open_view: "v_open (view_of t)" if "conn_open t" for t :: "('a, int, 'b) tcp_connection_scheme"
    using that by (simp add: v_open_def conn_open_def)
  show ?thesis
  proof (cases "?n < 3")
    case True
    obtain s' where "TcpConnection_send me None (EchoClient_message ?n) ?s = Inr s'" "conn_inv me s'" "conn_open s'"
      "view_of s' = v_send (EchoClient_message ?n) (view_of ?s)" "socket_reads s' = socket_reads ?s"
      by (rule send_view [OF s])
    then show ?thesis using True run react open_view [of s'] by simp
  next
    case False
    obtain s' where "TcpConnection_shutdown me ?s = Inr s'" "conn_inv me s'" "conn_open s'"
      "view_of s' = v_shutdown (view_of ?s)" "socket_reads s' = socket_reads ?s"
      by (rule shutdown_view [OF s])
    then show ?thesis using False run react open_view [of s'] by simp
  qed
qed

lemma client_connected:
  assumes inv: "conn_inv me s" and st: "conn_state s = kConnected"
  shows "\<exists>s'. EchoClient_onConnection me s = Inr s' \<and> view_of s' = client_greet (view_of s) \<and>
    socket_reads s' = socket_reads s \<and> v_open (client_greet (view_of s))"
proof -
  have op: "conn_open s" using st by (simp add: conn_open_def)
  obtain s' where "TcpConnection_send me None (''Hello from EchoClient!'' @ [newline]) s = Inr s'" "conn_inv me s'"
    "conn_open s'" "view_of s' = v_send (''Hello from EchoClient!'' @ [newline]) (view_of s)"
    "socket_reads s' = socket_reads s" by (rule send_view [OF inv op])
  then show ?thesis using st
    by (intro exI [of _ s']) (simp add: EchoClient_onConnection_def client_greet_def v_open_def v_send_def)
qed

interpretation echo_client: stream_app me count_overflow
    "server_callbacks me (EchoClient_onConnection me) (EchoClient_onMessage me) destroyed" client_greet client_react
  for me destroyed
proof unfold_locales
  show "keeps_conn_callbacks me count_overflow
      (server_callbacks me (EchoClient_onConnection me) (EchoClient_onMessage me) destroyed)"
    by (rule server_callbacks_keep [OF client_up(1) client_keeps])
  show "callbacks_keep_revents
      (server_callbacks me (EchoClient_onConnection me) (EchoClient_onMessage me) destroyed)"
    by (rule server_callbacks_revents [OF client_up(2) client_revents])
next
  fix s :: "('a, int, 'b) tcp_connection_scheme"
  assume s: "conn_inv me s" "conn_open s"
  from client_message [OF s]
  show "case client_react (view_of s) of
      Inl x \<Rightarrow> call_if_set (messageCallback
        (server_callbacks me (EchoClient_onConnection me) (EchoClient_onMessage me) destroyed)) s = Inl x
    | Inr v \<Rightarrow> \<exists>s'. call_if_set (messageCallback
        (server_callbacks me (EchoClient_onConnection me) (EchoClient_onMessage me) destroyed)) s = Inr s' \<and>
        view_of s' = v \<and> socket_reads s' = socket_reads s \<and> v_open v"
    by (cases "client_react (view_of s)") simp_all
qed (simp_all add: client_connected)

section \<open>A session\<close>

text \<open>What the client has handed over after its greeting and \<open>n\<close> reads.\<close>

definition client_output :: "nat \<Rightarrow> char list" where
  "client_output n = ''Hello from EchoClient!'' @ [newline] @ concat (map (\<lambda>k. EchoClient_message (int k)) [1..<min n 2 + 1])"

definition client_view :: "nat \<Rightarrow> int app_view \<Rightarrow> bool" where
  "client_view n v \<longleftrightarrow>
     v_state v = (if n < 3 then kConnected else kDisconnecting) \<and> v_input v = [] \<and>
     static_count (v_context v) = int n \<and> v_output v = client_output n"

lemma client_output_step:
  "n < 2 \<Longrightarrow> client_output (Suc n) = client_output n @ EchoClient_message (int n + 1)"
  "2 \<le> n \<Longrightarrow> client_output (Suc n) = client_output n"
  by (simp_all add: client_output_def min_def add.commute upt_rec [of "Suc 0"])

lemma client_view_step:
  assumes "client_view n v" and "n < 2 ^ 31 - 1"
  obtains v' where "client_react (received p v) = Inr v'" and "client_view (Suc n) v'"
  using assms
  by (auto simp: client_react_def client_view_def received_def v_send_def v_shutdown_def static_count_def Let_def
      client_output_step)

lemma client_view_pieces:
  "client_view n v \<Longrightarrow> n + length ps < 2 ^ 31 \<Longrightarrow>
   \<exists>v'. react_pieces client_react v ps = Inr v' \<and> client_view (n + length ps) v'"
proof (induction ps arbitrary: n v)
  case (Cons p ps)
  obtain v1 where v1: "client_react (received p v) = Inr v1" "client_view (Suc n) v1"
    using client_view_step [OF Cons.prems(1), of p] Cons.prems(2) by auto
  with Cons.IH [OF v1(2)] Cons.prems(2) show ?case by simp
qed simp

text \<open>
  C27: the echo client counts reads, not echoes. After its greeting it answers the first two reads,
  whatever they hold, with its two messages, and shuts down at the third: so an echo of the greeting
  that arrives in three pieces ends the session before any message has come back.
\<close>

theorem echo_client_counts_reads:
  assumes fresh: "fresh_connection me s" and count: "static_count (conn_context s) = 0"
    and input: "socket_reads s = map ReadData ps @ rest"
    and ps: "readable_pieces ps" and evs: "set evs \<subseteq> {Ready EPOLLIN, Ready EPOLLOUT}"
    and len: "length (filter (\<lambda>e. e = Ready EPOLLIN) evs) = length ps" and few: "length ps < 2 ^ 31"
  shows "\<exists>s'. and_then (TcpConnection_connectEstablished me
             (server_callbacks me (EchoClient_onConnection me) (EchoClient_onMessage me) destroyed) s)
           (\<lambda>s. for_each (TcpConnection_event me
             (server_callbacks me (EchoClient_onConnection me) (EchoClient_onMessage me) destroyed)) s evs) = Inr s' \<and>
         conn_state s' = (if length ps < 3 then kConnected else kDisconnecting) \<and>
         Buffer_content (inputBuffer s') = [] \<and> socket_reads s' = rest \<and>
         wire s' @ Buffer_content (outputBuffer s') = client_output (length ps)"
proof -
  have st: "conn_state s = kConnecting" and v: "v_input (view_of s) = []" "handed_over s = []"
    using fresh by (simp_all add: fresh_connection_def)
  have "client_view 0 (client_greet ((view_of s)\<lparr>v_state := kConnected\<rparr>))"
    using v count by (simp add: client_view_def client_greet_def v_send_def client_output_def)
  from client_view_pieces [OF this, of ps] few obtain v' where
    v': "react_pieces client_react (client_greet ((view_of s)\<lparr>v_state := kConnected\<rparr>)) ps = Inr v'"
    "client_view (length ps) v'" by auto
  from echo_client.life_react [OF fresh_connection_inv [OF fresh] st input ps evs len, of destroyed]
  obtain s' where s': "and_then (TcpConnection_connectEstablished me
             (server_callbacks me (EchoClient_onConnection me) (EchoClient_onMessage me) destroyed) s)
           (\<lambda>s. for_each (TcpConnection_event me
             (server_callbacks me (EchoClient_onConnection me) (EchoClient_onMessage me) destroyed)) s evs) = Inr s'"
    "conn_inv me s'" "view_of s' = v'" "socket_reads s' = rest"
    using v'(1) by auto
  have "conn_state s' = (if length ps < 3 then kConnected else kDisconnecting) \<and>
      Buffer_content (inputBuffer s') = [] \<and> handed_over s' = client_output (length ps)"
    using v'(2) unfolding s'(3) [symmetric] by (simp add: client_view_def)
  with s' show ?thesis by (auto simp: conn_inv_def conn_pre_def)
qed


text \<open>The greeting comes back in three pieces.\<close>

definition client_connection :: "(nat, int) tcp_connection" where
  "client_connection =
     \<lparr>threadId = 1, looping = True, quit = False,
      poller = put_channel 80 (Channel_new 7) EPollPoller_new,
      pendingFunctors = [], callingPendingFunctors = False, wakeupChannel = 64, wakeups = 0,
      timerfdChannel = 72, timerQueue = TimerQueue_new 1 (Timestamp 0),
      conn_name = ''c'', conn_state = kConnecting, conn_channel = 80, inputBuffer = Buffer_new,
      outputBuffer = Buffer_new, conn_context = None,
      socket_reads = [ReadData ''Hello from'', ReadData '' Echo'', ReadData (''Client!'' @ [newline])],
      socket_writes = [Wrote 10, Wrote 14], wire = [], fin_sent = False, handed_over = []\<rparr>"

lemma client_connection_fresh: "fresh_connection 1 client_connection"
  using put_new_channel_inv [OF EPollPoller_new_inv, of 80 7]
  by (simp add: fresh_connection_def client_connection_def conn_ch_def put_channel_def Channel_new_def
      EPollPoller_new_def)

theorem echo_client_counts_reads_witness:
  "\<exists>s'. and_then (TcpConnection_connectEstablished 1
             (server_callbacks 1 (EchoClient_onConnection 1) (EchoClient_onMessage 1) 0) client_connection)
           (\<lambda>s. for_each (TcpConnection_event 1
             (server_callbacks 1 (EchoClient_onConnection 1) (EchoClient_onMessage 1) 0)) s
               [Ready EPOLLIN, Ready EPOLLIN, Ready EPOLLOUT, Ready EPOLLIN]) = Inr s' \<and>
         conn_state s' = kDisconnecting \<and> wire s' @ Buffer_content (outputBuffer s') = client_output 3"
proof -
  have "EPOLLIN \<noteq> EPOLLOUT" by (simp add: event_masks)
  then show ?thesis
    using echo_client_counts_reads [OF client_connection_fresh,
        of "[''Hello from'', '' Echo'', ''Client!'' @ [newline]]" "[]"
           "[Ready EPOLLIN, Ready EPOLLIN, Ready EPOLLOUT, Ready EPOLLIN]" 0]
    by (auto simp: readable_pieces_def kExtrabufSize_def client_connection_def static_count_def numeral_3_eq_3
        simp del: TcpConnection_event.simps)
qed

section \<open>The program\<close>

text \<open>
  The callbacks that \<open>main\<close> gives to the client, and what \<open>main\<close> does up to \<open>loop()\<close>. The address of
  the server, which only the system call and the log see, is left out.
\<close>

definition EchoClient_callbacks :: "int client_callbacks" where
  "EchoClient_callbacks alive me i =
     \<lparr>connectionCallback = Some (EchoClient_onConnection me), messageCallback = Some (EchoClient_onMessage me),
      writeCompleteCallback = None,
      connectionClosed = (if alive then Some (client_close_callback me i) else None)\<rparr>"

definition EchoClient_main ::
    "tid \<Rightarrow> client_functor connector_functor event_loop \<Rightarrow> (int \<times> nat) list \<Rightarrow> nat list \<Rightarrow> addr list \<Rightarrow>
     (readv_result list \<times> write_result list) list \<Rightarrow> int tcp_client res" where
  "EchoClient_main me loop socks errs as conns =
     TcpClient_connect EchoClient_callbacks me (TcpClient_new loop ''EchoClient'' socks errs as conns)"

text \<open>
  The start of the whole program: the connection is in progress when \<open>main\<close> reaches \<open>loop()\<close>, the
  connector's functor runs, the socket becomes writable, and the greeting is on the wire.
\<close>

lemma echo_client_greets:
  "case and_then
        (EchoClient_main 1 ((new_loop_state 1 (Timestamp 0) 3 64 4 72)\<lparr>looping := True\<rparr>) [(9, 115)] [0] [80, 88]
          [([], [Wrote 23])])
        (\<lambda>s. for_each (client_event EchoClient_callbacks 1) s [FunctorTurn, ConnectorReady EPOLLOUT]) of
     Inl x \<Rightarrow> False
   | Inr s \<Rightarrow> (case client_objects s 0 of
        None \<Rightarrow> False
      | Some c \<Rightarrow> connection_ptr s = Some 0 \<and> co_wire c = client_output 0 \<and> co_state c = kConnected)"
  by code_simp

end
