(* ===== verification/Spec2Isabelle.thy ===== *)
theory Spec2Isabelle
  imports Prelude Buffers Buffer_Words Http_Message Http_Context Http_Static Timestamps Timers Channels Event_Loops Connections Connection_Output Connection_Life Stream_Apps Http_Serve Connectors
    Servers Served_Connections Server_Life Server_Steps Server_Runs Server_Sound Server_Traces Served_Apps Clients Loop_Threads Logging Sockets Echo_Client
begin

text \<open>
  A model of AgoraNet, the reactor library of this repository (src/include/agora, src/src), with its
  HTTP server and the example programs, and proofs of what its parts guarantee.

  \<^bold>\<open>The program.\<close> An \<open>EventLoop\<close> belongs to one thread. Each turn it asks its \<open>EPollPoller\<close> which
  descriptors are ready, lets the \<open>Channel\<close> of each call its callbacks, and runs the functors that
  were queued for it. A \<open>TimerQueue\<close> hangs on the loop by a timerfd channel; other threads reach the
  loop by \<open>queueInLoop\<close> and its eventfd. A \<open>TcpConnection\<close> is a channel with an input and an output
  \<open>Buffer\<close>. \<open>Acceptor\<close> and \<open>TcpServer\<close> make connections for the loops of an \<open>EventLoopThreadPool\<close>,
  \<open>Connector\<close> and \<open>TcpClient\<close> make one of their own. \<open>HttpServer\<close>, its parser \<open>HttpContext\<close>,
  \<open>StaticFileServer\<close> and the echo programs are callbacks on connections.

  \<^bold>\<open>Theories and sources.\<close>

  \<^item> \<open>Prelude\<close>: faults, results, memory and strings; the locale \<open>safe_calls\<close> (a sequence of calls that
    each keep an invariant).
  \<^item> \<open>Buffers\<close>: net/buffer.cpp. The locale \<open>byte_queue\<close> is the contract of a queue of bytes; the buffer
    with its indices refines a plain list. \<open>Buffer_Words\<close>: the same operations on 64-bit sizes that wrap.
  \<^item> \<open>Http_Message\<close>, \<open>Http_Context\<close>, \<open>Http_Static\<close>: net/http/http_request.h, http_response.cpp,
    http_context.cpp, mime_type.cpp, static_file_server.cpp, and the handler of main.cpp.
  \<^item> \<open>Timestamps\<close>, \<open>Timers\<close>: base/timestamp.cpp, net/timer.cpp, timer_id.cpp, timer_queue.cpp.
  \<^item> \<open>Channels\<close>: net/channel.cpp, poller.cpp, epoll_poller.cpp.
  \<^item> \<open>Event_Loops\<close>: net/event_loop.cpp, with the locale \<open>loop_functors\<close> for what functors may do.
  \<^item> \<open>Connections\<close>, \<open>Connection_Output\<close>, \<open>Connection_Life\<close>: net/tcp_connection.cpp. The locale
    \<open>connection_user\<close> is what a connection needs of its callbacks, \<open>conn_steps\<close> and \<open>conn_relation\<close> relate
    the states around them. A report of the poller is \<open>Ready\<close> when it is dispatched before any other
    handler runs, and \<open>Polled\<close> (\<open>ConnPolled\<close>, \<open>ConnectionPolled\<close> in servers and clients) when a handler
    of the same turn of \<open>EventLoop::loop\<close> ran in between: then it is dispatched whatever has happened
    to the connection.
  \<^item> \<open>Stream_Apps\<close>, \<open>Echo_Client\<close>, \<open>Http_Serve\<close>: applications on one connection (locale
    \<open>stream_app\<close>): examples/echo/echo_server.cpp, echo_client.cpp, net/http/http_server.cpp.
  \<^item> \<open>Connectors\<close>, \<open>Clients\<close>: net/connector.cpp, tcp_client.cpp. \<open>Echo_Client\<close> also has the main
    function of the echo client.
  \<^item> \<open>Servers\<close>, \<open>Served_Connections\<close>, \<open>Server_Life\<close>, \<open>Server_Steps\<close>, \<open>Server_Runs\<close>, \<open>Server_Sound\<close>:
    net/tcp_server.cpp, acceptor.cpp, event_loop_thread_pool.cpp, with the connections in their loops
    and the functors between the loops (locale \<open>server_user\<close>).
  \<^item> \<open>Server_Traces\<close>: runs of a server with the labels of their steps, and what they tell of each
    connection (locale \<open>server_story\<close>, with \<open>told\<close> as what the connection has done since it arrived).
  \<^item> \<open>Served_Apps\<close>: the main functions of echo_server.cpp, src/main.cpp and
    examples/http/static_file_server.cpp; the locale \<open>served_app\<close> carries what an application does on
    one connection to every connection of a server, in every interleaving of its loops.
  \<^item> \<open>Loop_Threads\<close>: net/event_loop_thread.cpp, statement by statement.
  \<^item> \<open>Logging\<close>, \<open>Sockets\<close>: base/log_level.cpp, log_message.cpp, logger.cpp, current_thread.cpp,
    net/inet_address.cpp, sockets_ops.cpp, socket.cpp.
  \<^item> This theory: a file on its way from a StaticFileServer to a browser, through the parser, the
    handler, the buffers, the connection and the events of the poller; and the same for the whole
    program with its threads.

  \<^bold>\<open>Conventions.\<close> A class is a record and a member function a definition that takes the record and
  returns it changed. Results are \<open>fault + 'a\<close>: a failed assertion, \<open>LOG_FATAL\<close>, a use of freed memory,
  a null pointer, an access outside an object, a signed overflow or an uncaught exception is a value,
  so that a theorem can exclude it or show it. Objects that the code reaches through raw pointers
  (channels, timers, connections) live in a map from addresses, from which deletion takes them away.
  Loops whose termination is not structural are functions with a measure. The main loop of
  \<open>EventLoop\<close> takes the turns it makes as a list; events of a connection and of a server are lists or
  paths of steps of any length. Callbacks that call back into the connection nest; the model counts the
  stack they need and has \<open>StackOverflow\<close> as a fault where it is used up, and the theorems hold for any depth.

  \<^bold>\<open>The kernel and the platform.\<close> The answers of read, write, accept, socket, connect, getsockopt, bind
  and listen are lists or arguments of the operations, so a theorem for all of them covers every
  result of these calls, errors and partial transfers included. Signals are not modelled: a write that
  fails with \<open>EPIPE\<close> returns -1, as it does where \<open>SIGPIPE\<close> is ignored, which the program does not see to.
  epoll, timerfd and eventfd are modelled as their manuals describe them. One clock that never goes back
  stands for the system clock, which \<open>Timestamp::now\<close> reads, and for \<open>CLOCK_MONOTONIC\<close>, on which the
  timerfd runs. The clock, fresh addresses, the file system, \<open>inet_pton\<close> and \<open>inet_ntop\<close>, the text
  of the local time and the order in which a hash map is traversed are parameters.

  \<^bold>\<open>Threads.\<close> In the server a step is one functor, one event or one report of the poller, and steps of
  different loops interleave freely; loops share nothing but their queues, which a mutex guards, so a
  handler is atomic. \<open>Event_Loops\<close> cuts \<open>queueInLoop\<close> and \<open>doPendingFunctors\<close> into the pieces between their
  critical sections, and \<open>Loop_Threads\<close> cuts the start and the end of a loop thread; some properties show a
  race by the calls that make it. Unsynchronised reads are taken as atomic.

  \<^bold>\<open>What is shown.\<close> Invariants of every component through all its operations (\<open>buffer_refines_queue\<close>,
  \<open>epoll_mirrors_channels\<close>, \<open>timer_queue_sound\<close>, \<open>connection_sound\<close>, \<open>connector_sound\<close>, \<open>server_sound\<close>);
  that work gets done (\<open>no_lost_wakeup\<close>, \<open>functors_run_out\<close>, \<open>connection_drains\<close>,
  \<open>loop_thread_starts_and_joins\<close>, \<open>start_loop_returns\<close>); that two models of the same code agree
  (\<open>doPendingFunctors_interleaved\<close>, \<open>buffer_size_t_exact\<close>); what the applications answer, however the stream is cut
  (\<open>parse_split_invariance\<close>, \<open>http_serves_request\<close>, \<open>static_file_delivered\<close>), also by the programs as they
  are deployed, from their start (\<open>http_site_serves\<close>, \<open>static_site_delivers\<close>, \<open>echo_site_echoes\<close>);
  round trips of requests, responses and addresses; and the defects that the model brought to light, each as a
  theorem with a run that shows it (\<open>client_destruction\<close>, \<open>server_destroyed_too_early\<close>, \<open>start_before_reset\<close>,
  \<open>remote_stop_race\<close>, \<open>overtaken_report_asserts\<close>, \<open>addTimer_race_reads_freed_timer\<close>, \<open>static_serves_sibling_of_root\<close>,
  \<open>static_bad_escape_throws\<close>).

  \<^bold>\<open>Not modelled.\<close> The log lines that components write (their text has no effect on them; what a log
  call does is in \<open>Logging\<close>), the addresses and ports of the main functions, which only the system calls and
  the log see, \<open>NonCopyable\<close> (nothing at run time), the high-water mark callback (stored and never used), destruction of the loops of
  a server while its threads still run them, and the files under tests, sql and www.
\<close>

section \<open>A file delivered\<close>

text \<open>
  The response of a StaticFileServer to a request for a file, and what a client reads from it.
\<close>

definition file_response :: "string \<Rightarrow> string \<Rightarrow> http_response" where
  "file_response path content =
     (HttpResponse_setContentType ((HttpResponse_new True)\<lparr>statusCode := k200Ok, statusMessage := ''OK''\<rparr>)
       (MimeType_getType path))\<lparr>resp_body := content\<rparr>"

definition file_head :: "string \<Rightarrow> string \<Rightarrow> string list" where
  "file_head path content =
     [''HTTP/1.1 200 OK'', ''Content-Type: '' @ MimeType_getType path,
      ''Content-Length: '' @ nat_to_string (length content), ''Connection: close'']"

lemma enumerates_one:
  assumes "enumerates hs [k \<mapsto> v]"
  shows "hs = [(k, v)]"
proof -
  from assms have hs: "distinct (map fst hs)" "map_of hs = [k \<mapsto> v]" by (simp_all add: enumerates_def)
  have "(x, y) \<in> set hs \<longleftrightarrow> x = k \<and> y = v" for x y
    using map_of_eq_Some_iff [OF hs(1), of x y] hs(2) by (auto split: if_splits)
  then have "set hs = {(k, v)}" by auto
  moreover have "distinct hs" using hs(1) by (simp add: distinct_map)
  ultimately show ?thesis by (cases hs; cases "tl hs") auto
qed

lemma file_response_head:
  assumes "enumerates (order (file_response path content)) (resp_headers (file_response path content))"
  shows "read_head (response_bytes order (file_response path content)) = Some (file_head path content, content)"
proof -
  let ?r = "file_response path content"
  have headers: "resp_headers ?r = [''Content-Type'' \<mapsto> MimeType_getType path]"
    by (simp add: file_response_def HttpResponse_setContentType_def HttpResponse_addHeader_def HttpResponse_new_def)
  have order: "order ?r = [(''Content-Type'', MimeType_getType path)]"
    using enumerates_one assms unfolding headers by blast
  have lines: "response_lines ?r (order ?r) = file_head path content"
    unfolding order
    by (simp add: response_lines_def file_head_def file_response_def HttpResponse_setContentType_def
        HttpResponse_addHeader_def HttpResponse_new_def nat_to_string.simps [of "Suc n" for n]
        nat_to_string.simps [of "numeral n" for n])
  have "clean_response ?r (order ?r)"
    using MimeType_clean [of path] unfolding order
    by (simp add: clean_response_def file_response_def HttpResponse_setContentType_def HttpResponse_addHeader_def)
  then have "read_head (response_bytes order ?r) = Some (response_lines ?r (order ?r), resp_body ?r)"
    unfolding response_bytes_def by (intro read_head_lines response_lines_clean)
  then show ?thesis unfolding lines by (simp add: file_response_def)
qed

text \<open>
  C6: a file reaches the browser. A StaticFileServer that gets a well-formed request, however it is
  encoded and cut into reads, for a file that it can open answers with the head and the bytes of that
  file, whatever bytes they are: what is on the wire and in the output buffer reads as status 200,
  the type of the file, its length and its content, and the connection is shutting down. If the socket
  has taken all of it at once, the write direction is closed already; otherwise every socket that takes
  at least a byte on each write event carries the rest, and the write direction is closed after the
  last byte.
\<close>

theorem static_file_delivered:
  assumes fresh: "fresh_connection me s" and req: "clean_request r" and pieces: "concat ps = render_request r"
    and ps: "readable_pieces ps" and input: "socket_reads s = map ReadData ps @ rest"
    and evs: "set evs \<subseteq> {Ready EPOLLIN, Ready EPOLLOUT}"
    and len: "length (filter (\<lambda>e. e = Ready EPOLLIN) evs) = length ps"
    and enc: "percent_encodes p (rs_path r)" and dots: "\<not> std_contains ''..'' p"
    and nul: "CHR 0x00 \<notin> set (site_file rootDir p)" and content: "fs (site_file rootDir p) = OpenedFile content"
    and order: "enumerates (order (file_response (site_file rootDir p) content))
                  (resp_headers (file_response (site_file rootDir p) content))"
    and cbs: "cbs = http_callbacks me order (Some (StaticFileServer_onRequest fs rootDir)) destroyed"
  shows "\<exists>s1. and_then (TcpConnection_connectEstablished me cbs s)
           (\<lambda>s. for_each (TcpConnection_event me cbs) s evs) = Inr s1 \<and>
         conn_state s1 = kDisconnecting \<and>
         read_head (wire s1 @ Buffer_content (outputBuffer s1)) =
           Some (file_head (site_file rootDir p) content, content) \<and>
         (Buffer_content (outputBuffer s1) = [] \<longrightarrow> fin_sent s1) \<and>
         (\<forall>ks. socket_writes s1 = map (\<lambda>k. Wrote (Suc k)) ks \<and>
            length (Buffer_content (outputBuffer s1)) \<le> length ks \<longrightarrow>
            (\<exists>s2. for_each (TcpConnection_event me cbs) s1 (replicate (length ks) (Ready EPOLLOUT)) = Inr s2 \<and>
               read_head (wire s2) = Some (file_head (site_file rootDir p) content, content) \<and> fin_sent s2))"
proof -
  let ?resp = "file_response (site_file rootDir p) content"
  have "HttpServer_response (Some (StaticFileServer_onRequest fs rootDir)) (request_of r) = Inr ?resp"
    using onRequest_file [of p "request_of r" rootDir fs content, OF _ dots nul content] enc
    by (simp add: HttpServer_response_def request_of_def file_response_def)
  from request_served [OF fresh req pieces ps this input evs len, of order destroyed]
  obtain s1 where s1: "and_then (TcpConnection_connectEstablished me cbs s)
      (\<lambda>s. for_each (TcpConnection_event me cbs) s evs) = Inr s1"
    "served me (response_bytes order ?resp) True s1"
    unfolding cbs by (auto simp: file_response_def HttpResponse_new_def HttpResponse_setContentType_def
        HttpResponse_addHeader_def)
  note head = file_response_head [of order, OF order]
  have i: "conn_inv me s1" "conn_open s1" "unstalled s1" "conn_state s1 = kDisconnecting"
    using s1(2) by (simp_all add: served_def)
  have quiet: "only_context (call_if_set (writeCompleteCallback cbs))"
    by (simp add: cbs http_callbacks_def server_callbacks_def)
  have idle: "Buffer_content (outputBuffer s1) \<noteq> [] \<or> drained s1"
    using i(2,3) by (auto simp: unstalled_def drained_def)
  have "\<exists>s2. for_each (TcpConnection_event me cbs) s1 (replicate (length ks) (Ready EPOLLOUT)) = Inr s2 \<and>
      read_head (wire s2) = Some (file_head (site_file rootDir p) content, content) \<and> fin_sent s2"
    if "socket_writes s1 = map (\<lambda>k. Wrote (Suc k)) ks" "length (Buffer_content (outputBuffer s1)) \<le> length ks" for ks
  proof -
    from drain_events [OF i(1,2) quiet that(1) order_refl that(2) idle] obtain s2 where
      s2: "for_each (TcpConnection_event me cbs) s1 (replicate (length ks) (Ready EPOLLOUT)) = Inr s2"
      "conn_inv me s2" "conn_state s2 = conn_state s1" "handed_over s2 = handed_over s1" "drained s2" by blast
    have "wire s2 = response_bytes order ?resp"
      using conn_inv_output [OF s2(2)] s2(4,5) s1(2) by (simp add: drained_def served_def)
    moreover have "fin_sent s2"
      using s2(2,3,5) i(4) by (simp add: conn_inv_def fin_due_def drained_def)
    ultimately show ?thesis using s2(1) head by auto
  qed
  moreover have "Buffer_content (outputBuffer s1) = [] \<longrightarrow> fin_sent s1"
    using conn_unstalled(2) [OF i(1,3,2) _ i(4)] by blast
  ultimately show ?thesis using s1(1) i(4) served_wire [OF s1(2)] head by auto
qed

definition page_request :: request_spec where
  "page_request = \<lparr>rs_method = kGet, rs_path = ''/%61+b.css'', rs_query = None, rs_version = kHttp11, rs_headers = []\<rparr>"

definition page_files :: "string \<Rightarrow> string \<Rightarrow> opened" where
  "page_files root f = (if f = site_file root ''/a b.css'' then OpenedFile ''p { }'' else NotOpened)"

lemma page_facts:
  "percent_encodes ''/a b.css'' (rs_path page_request)" "clean_request page_request"
  "\<not> std_contains ''..'' ''/a b.css''" "CHR 0x00 \<notin> set (site_file ''/www'' ''/a b.css'')"
  "CHR 0x00 \<notin> set (site_file www_root ''/a b.css'')" "page_files root (site_file root ''/a b.css'') = OpenedFile ''p { }''"
  "enumerates (example_order (file_response f content)) (resp_headers (file_response f content))"
proof -
  have "percent_encodes (CHR ''/'' # char_of (16 * 6 + 1 :: nat) # '' b.css'') ''/%61+b.css''"
    by (rule enc_plain, rule enc_hex, rule enc_plus)
      (auto intro!: enc_plain enc_nil simp: hex_value_def Let_def)
  moreover have "(char_of (16 * 6 + 1 :: nat) :: char) = CHR ''a''" by code_simp
  ultimately show "percent_encodes ''/a b.css'' (rs_path page_request)" by (simp add: page_request_def)
  show "enumerates (example_order (file_response f content)) (resp_headers (file_response f content))"
    by (auto simp: enumerates_def example_order_def file_response_def HttpResponse_setContentType_def
        HttpResponse_addHeader_def HttpResponse_new_def)
qed (simp_all add: page_request_def clean_request_def std_contains_def site_file_def page_files_def www_root_def)

theorem static_file_delivered_witness:
  "\<exists>s1. and_then (TcpConnection_connectEstablished 1
            (http_callbacks 1 example_order (Some (StaticFileServer_onRequest (page_files ''/www'') ''/www'')) 0)
            (example_http_connection [''GET /%61'', ''+b.css HTTP/1.1'' @ kCRLF @ kCRLF]))
           (\<lambda>s. for_each (TcpConnection_event 1
             (http_callbacks 1 example_order (Some (StaticFileServer_onRequest (page_files ''/www'') ''/www'')) 0)) s
             [Ready EPOLLIN, Ready EPOLLOUT, Ready EPOLLIN]) = Inr s1 \<and>
       read_head (wire s1 @ Buffer_content (outputBuffer s1)) =
         Some (file_head ''/www/a b.css'' ''p { }'', ''p { }'')"
proof -
  let ?ps = "[''GET /%61'', ''+b.css HTTP/1.1'' @ kCRLF @ kCRLF]"
  let ?evs = "[Ready EPOLLIN, Ready EPOLLOUT, Ready EPOLLIN] :: nat conn_event list"
  have pieces: "concat ?ps = render_request page_request" "readable_pieces ?ps"
    by (simp_all add: render_request_def page_request_def render_line_def line_bytes_def readable_pieces_def
        kExtrabufSize_def kCRLF_def)
  have input: "socket_reads (example_http_connection ?ps) = map ReadData ?ps @ []"
    by (simp add: example_http_connection_def)
  have "EPOLLIN \<noteq> EPOLLOUT" by (simp add: event_masks)
  then have evs: "set ?evs \<subseteq> {Ready EPOLLIN, Ready EPOLLOUT}"
    "length (filter (\<lambda>e. e = Ready EPOLLIN) ?evs) = length ?ps" by simp_all
  from static_file_delivered [where fs = "page_files ''/www''" and rootDir = "''/www''" and order = example_order
      and content = "''p { }''", OF example_http_fresh page_facts(2) pieces input evs page_facts(1,3,4,6,7) refl [of
      "http_callbacks 1 example_order (Some (StaticFileServer_onRequest (page_files ''/www'') ''/www'')) 0"]]
  show ?thesis by (auto simp: site_file_def)
qed

section \<open>The file server as it is deployed\<close>

text \<open>
  C7: The program of static_file_server.cpp, from its start with four threads on, in every order of their
  steps and for every peer: a peer that sends one well-formed request, however it is encoded and cut,
  for a path that names a file that can be opened has, as soon as its input has been read, on its wire
  and in the output buffer a response that reads as status 200 with the type, the length and the bytes
  of that file, and before that nothing; the connection then is on its way down.
\<close>

theorem static_site_delivers:
  assumes "sound_resources me resources 4" and "distinct [snd wakeup, snd timer, snd listen]"
    and "distinct [fst wakeup, fst timer, fst listen]"
    and start: "StaticFileServer_main me now wakeup timer listen resources = Inr w0"
    and trace: "server_trace (StaticFileServer_main_callbacks fs order) w0 labs w" and alone: "unattended labs"
    and o: "objects w i = Some c" and req: "clean_request r"
    and input: "input_stream (acc_reads (arrivals labs ! i)) = render_request r"
    and enc: "percent_encodes p (rs_path r)" and dots: "\<not> std_contains ''..'' p"
    and nul: "CHR 0x00 \<notin> set (site_file www_root p)" and content: "fs (site_file www_root p) = OpenedFile content"
    and enum: "enumerates (order (file_response (site_file www_root p) content))
                  (resp_headers (file_response (site_file www_root p) content))"
  shows "if input_stream (co_reads c) = []
     then read_head (co_wire c @ Buffer_content (co_output c)) = Some (file_head (site_file www_root p) content, content) \<and>
       (co_state c = kDisconnecting \<or> co_state c = kDisconnected)
     else co_wire c @ Buffer_content (co_output c) = []"
proof -
  let ?resp = "file_response (site_file www_root p) content"
  have "HttpServer_response (Some (StaticFileServer_onRequest fs www_root)) (request_of r) = Inr ?resp"
    using onRequest_file [of p "request_of r" www_root fs content, OF _ dots nul content] enc
    by (simp add: HttpServer_response_def request_of_def file_response_def)
  from http_run(4) [OF assms(1-3) start [unfolded StaticFileServer_main_def]
      trace [unfolded StaticFileServer_main_callbacks_def] alone o req input this]
  show ?thesis using file_response_head [of order, OF enum]
    by (auto simp: file_response_def HttpResponse_new_def HttpResponse_setContentType_def HttpResponse_addHeader_def)
qed

theorem static_site_delivers_witness:
  "\<exists>w0 w w' c. StaticFileServer_main 1 (Timestamp 0) (3, 64) (4, 72) (5, 80) site_resources = Inr w0 \<and>
     server_trace (StaticFileServer_main_callbacks (page_files www_root) example_order) w0
       (one_peer [ReadData (render_request page_request)] []) w \<and>
     server_step (StaticFileServer_main_callbacks (page_files www_root) example_order) w (ConnReady 0 EPOLLIN) = Inr w' \<and>
     objects w' 0 = Some c \<and>
     read_head (co_wire c @ Buffer_content (co_output c)) =
       Some (file_head (site_file www_root ''/a b.css'') ''p { }'', ''p { }'')"
proof -
  let ?cb = "Some (StaticFileServer_onRequest (page_files www_root) www_root)"
  let ?cbs = "StaticFileServer_main_callbacks (page_files www_root) example_order"
  let ?in = "[ReadData (render_request page_request)]"
  have "case and_then (StaticFileServer_main 1 (Timestamp 0) (3, 64) (4, 72) (5, 80) site_resources)
          (\<lambda>w. for_each (server_step ?cbs) w (one_peer ?in [])) of
        Inl x \<Rightarrow> False
      | Inr w \<Rightarrow> (case objects w 0 of None \<Rightarrow> False | Some c \<Rightarrow> co_state c = kConnected \<and> co_reads c = ?in)"
    by code_simp
  then obtain w0 w c where
    w: "StaticFileServer_main 1 (Timestamp 0) (3, 64) (4, 72) (5, 80) site_resources = Inr w0"
      "for_each (server_step ?cbs) w0 (one_peer ?in []) = Inr w" "objects w 0 = Some c" "co_state c = kConnected"
      "co_reads c = ?in"
    by (auto split: sum.splits option.splits simp: returned)
  note tr = one_peer_trace [OF w(1) [unfolded StaticFileServer_main_def] w(2)]
  have disjoint: "distinct [snd (3 :: int, 64), snd (4 :: int, 72), snd (5 :: int, 80 :: addr)]"
    "distinct [fst (3 :: int, 64 :: addr), fst (4, 72 :: addr), fst (5, 80 :: addr)]" by simp_all
  obtain resp where resp: "HttpServer_response ?cb (request_of page_request) = Inr resp"
    using onRequest_file [of "''/a b.css''" "request_of page_request" www_root "page_files www_root" "''p { }''",
        OF _ page_facts(3,5,6)] page_facts(1) by (simp add: HttpServer_response_def request_of_def)
  have fit: "length (render_request page_request) \<le> kExtrabufSize"
    by (simp add: render_request_def page_request_def render_line_def line_bytes_def kExtrabufSize_def kCRLF_def)
  obtain w' c' where after: "server_trace ?cbs w0 (one_peer ?in [] @ [ConnReady 0 EPOLLIN]) w'"
    "server_step ?cbs w (ConnReady 0 EPOLLIN) = Inr w'" "objects w' 0 = Some c'" "co_reads c' = []"
    "unattended (one_peer ?in [] @ [ConnReady 0 EPOLLIN])"
    by (rule http_step_serves [OF tr(1) disjoint w(1) [unfolded StaticFileServer_main_def]
          tr(2) [unfolded StaticFileServer_main_callbacks_def] tr(3) w(3-5) _ page_facts(2) fit resp,
          folded StaticFileServer_main_callbacks_def]) (simp_all add: tr(4))
  have "input_stream (acc_reads (arrivals (one_peer ?in [] @ [ConnReady 0 EPOLLIN]) ! 0)) = render_request page_request"
    using tr(4) by simp
  from static_site_delivers [OF tr(1) disjoint w(1) after(1,5,3) page_facts(2) this page_facts(1,3,5,6,7)] after(4)
  have "read_head (co_wire c' @ Buffer_content (co_output c')) =
      Some (file_head (site_file www_root ''/a b.css'') ''p { }'', ''p { }'')" by simp
  with w(1) tr(2) after(2,3) show ?thesis by blast
qed

end
